(* ===== verification/Prelude.thy ===== *)
theory Prelude
  imports Main "HOL-Library.Word"
begin

text \<open>
  What the components of the development share: the outcomes a C++ operation can have
  besides returning a value, the sequencing of fallible operations, checked and narrowing
  \<open>int\<close> arithmetic, checked access to a contiguous container, and the list lemmas the
  component proofs rewrite with (collected in \<open>list_shape\<close>).
\<close>

section \<open>Outcomes of a C++ operation\<close>

text \<open>
  A thrown exception, a failed \<open>assert\<close> and undefined behaviour are all values of
  \<open>cpp_error\<close>: the models never hide a failure behind an unspecified HOL value.
\<close>

datatype cpp_error =
    Undefined_Behaviour   \<comment> \<open>out-of-range access, null dereference, division by zero\<close>
  | Int_Overflow          \<comment> \<open>signed overflow, which is also undefined behaviour\<close>
  | Assert_Failed
  | Length_Error
  | Out_Of_Range
  | Bad_Alloc
  | Bad_Array_New_Length
  | Invalid_Argument
  | Runtime_Error
  | Logic_Error
  | Terminate_Exception
  | String_Thrown         \<comment> \<open>\<open>throw "text"\<close>, a \<open>const char*\<close>\<close>
  | Out_Of_Fuel           \<comment> \<open>the loop has not ended within the fuel of the model\<close>

type_synonym 'a result = "cpp_error + 'a"

definition bindr :: "'a result \<Rightarrow> ('a \<Rightarrow> 'b result) \<Rightarrow> 'b result" where
  "bindr r f = (case r of Inl e \<Rightarrow> Inl e | Inr x \<Rightarrow> f x)"

lemma bindr_simps [simp]:
  "bindr (Inl e) f = Inl e"
  "bindr (Inr x) f = f x"
  by (simp_all add: bindr_def)

lemma bindr_cong [fundef_cong]:
  "r = r' \<Longrightarrow> (\<And>x. r' = Inr x \<Longrightarrow> f x = g x) \<Longrightarrow> bindr r f = bindr r' g"
  by (auto simp: bindr_def split: sum.splits)

lemma bindr_eq_Inr:
  "bindr r f = Inr y \<longleftrightarrow> (\<exists>x. r = Inr x \<and> f x = Inr y)"
  by (auto simp: bindr_def split: sum.splits)

lemma bindr_eq_Inl:
  "bindr r f = Inl e \<longleftrightarrow> r = Inl e \<or> (\<exists>x. r = Inr x \<and> f x = Inl e)"
  by (auto simp: bindr_def split: sum.splits)

definition check :: "bool \<Rightarrow> cpp_error \<Rightarrow> unit result" where
  "check b e = (if b then Inr () else Inl e)"

lemma check_simps [simp]:
  "check True e = Inr ()"
  "check False e = Inl e"
  by (simp_all add: check_def)

text \<open>A loop over a range whose body can fail.\<close>

fun mapr :: "('a \<Rightarrow> 'b result) \<Rightarrow> 'a list \<Rightarrow> 'b list result" where
  "mapr f [] = Inr []"
| "mapr f (x # xs) = bindr (f x) (\<lambda>y. bindr (mapr f xs) (\<lambda>ys. Inr (y # ys)))"

lemma mapr_ok: "(\<And>x. x \<in> set xs \<Longrightarrow> f x = Inr (g x)) \<Longrightarrow> mapr f xs = Inr (map g xs)"
  by (induction xs) simp_all

lemma mapr_cong [fundef_cong]:
  "xs = ys \<Longrightarrow> (\<And>x. x \<in> set ys \<Longrightarrow> f x = g x) \<Longrightarrow> mapr f xs = mapr g ys"
  by (induction xs arbitrary: ys) auto

text \<open>A loop whose body can fail and that carries a state.\<close>

fun iterr :: "('a \<Rightarrow> 's \<Rightarrow> 's result) \<Rightarrow> 'a list \<Rightarrow> 's \<Rightarrow> 's result" where
  "iterr f [] s = Inr s"
| "iterr f (x # xs) s = bindr (f x s) (iterr f xs)"

lemma iterr_append: "iterr f (xs @ ys) s = bindr (iterr f xs s) (iterr f ys)"
  by (induction xs arbitrary: s) (auto simp: bindr_def split: sum.splits)

section \<open>The type \<open>int\<close>\<close>

definition int_min :: int where "int_min = - (2 ^ 31)"
definition int_max :: int where "int_max = 2 ^ 31 - 1"

definition in_int :: "int \<Rightarrow> bool" where
  "in_int x \<longleftrightarrow> int_min \<le> x \<and> x \<le> int_max"

text \<open>The result of a signed operation: overflow is an error, not a wrapped value.\<close>

definition cint :: "int \<Rightarrow> int result" where
  "cint x = (if in_int x then Inr x else Inl Int_Overflow)"

text \<open>The implicit conversion of a wider integer to \<open>int\<close> keeps the low 32 bits.\<close>

definition to_int :: "int \<Rightarrow> int" where
  "to_int x = (x + 2 ^ 31) mod 2 ^ 32 - 2 ^ 31"

lemma in_int_iff: "in_int x \<longleftrightarrow> - 2147483648 \<le> x \<and> x \<le> 2147483647"
  by (simp add: in_int_def int_min_def int_max_def)

lemma in_int_of_nat: "in_int (int n) \<longleftrightarrow> int n \<le> int_max"
  by (simp add: in_int_def int_min_def)

lemma cint_mult_nat: "int (a * b) \<le> int_max \<Longrightarrow> cint (int a * int b) = Inr (int (a * b))"
  unfolding cint_def of_nat_mult [symmetric] in_int_of_nat by simp

lemma cint_add_nat: "int (a + b) \<le> int_max \<Longrightarrow> cint (int a + int b) = Inr (int (a + b))"
  unfolding cint_def of_nat_add [symmetric] in_int_of_nat by simp

lemma cint_ok [simp]: "in_int x \<Longrightarrow> cint x = Inr x"
  by (simp add: cint_def)

lemma cint_overflow [simp]: "\<not> in_int x \<Longrightarrow> cint x = Inl Int_Overflow"
  by (simp add: cint_def)

lemma cint_eq_Inr: "cint x = Inr y \<longleftrightarrow> in_int x \<and> y = x"
  by (auto simp: cint_def)

lemma to_int_ok [simp]: "in_int x \<Longrightarrow> to_int x = x"
  by (simp add: in_int_iff to_int_def)

lemma to_int_range: "in_int (to_int x)"
proof -
  have "0 \<le> (x + 2 ^ 31) mod 2 ^ 32" and "(x + 2 ^ 31) mod 2 ^ 32 < 2 ^ 32"
    by simp_all
  then show ?thesis by (simp add: in_int_iff to_int_def)
qed

text \<open>Integer division and remainder truncate towards zero.\<close>

definition cdiv :: "int \<Rightarrow> int \<Rightarrow> int result" where
  "cdiv a b = (if b = 0 then Inl Undefined_Behaviour else cint (sgn a * sgn b * (\<bar>a\<bar> div \<bar>b\<bar>)))"

definition cmod :: "int \<Rightarrow> int \<Rightarrow> int result" where
  "cmod a b = (if b = 0 then Inl Undefined_Behaviour
               else if a = int_min \<and> b = -1 then Inl Int_Overflow
               else Inr (sgn a * (\<bar>a\<bar> mod \<bar>b\<bar>)))"

lemma cmod_nonneg: "0 \<le> a \<Longrightarrow> 0 < b \<Longrightarrow> cmod a b = Inr (a mod b)"
  by (auto simp: cmod_def int_min_def sgn_if)

lemma cdiv_nonneg:
  assumes "0 \<le> a" "0 < b" "in_int a"
  shows "cdiv a b = Inr (a div b)"
proof -
  have "a div b \<le> a" using assms(1,2) zdiv_mono2 [of a 1 b] by simp
  moreover have "0 \<le> a div b" using assms by (simp add: pos_imp_zdiv_nonneg_iff)
  ultimately have "in_int (a div b)" using assms(3) by (simp add: in_int_iff)
  then show ?thesis using assms by (auto simp: cdiv_def sgn_if)
qed

text \<open>Arithmetic of \<open>unsigned\<close> wraps.\<close>

definition u32 :: "nat \<Rightarrow> nat" where
  "u32 x = x mod 2 ^ 32"

lemma u32_small: "x < 2 ^ 32 \<Longrightarrow> u32 x = x"
  by (simp add: u32_def)

section \<open>Contiguous containers\<close>

definition vget :: "'a list \<Rightarrow> int \<Rightarrow> 'a result" where
  "vget xs i = (if 0 \<le> i \<and> i < int (length xs) then Inr (xs ! nat i) else Inl Undefined_Behaviour)"

definition vset :: "'a list \<Rightarrow> int \<Rightarrow> 'a \<Rightarrow> 'a list result" where
  "vset xs i x =
     (if 0 \<le> i \<and> i < int (length xs) then Inr (xs[nat i := x]) else Inl Undefined_Behaviour)"

lemma vget_ok [simp]: "0 \<le> i \<Longrightarrow> i < int (length xs) \<Longrightarrow> vget xs i = Inr (xs ! nat i)"
  by (simp add: vget_def)

lemma vset_ok [simp]: "0 \<le> i \<Longrightarrow> i < int (length xs) \<Longrightarrow> vset xs i x = Inr (xs[nat i := x])"
  by (simp add: vset_def)

lemma vget_bad [simp]: "\<not> (0 \<le> i \<and> i < int (length xs)) \<Longrightarrow> vget xs i = Inl Undefined_Behaviour"
  by (auto simp: vget_def)

lemma vset_bad [simp]: "\<not> (0 \<le> i \<and> i < int (length xs)) \<Longrightarrow> vset xs i x = Inl Undefined_Behaviour"
  by (auto simp: vset_def)

lemma vget_int [simp]: "n < length xs \<Longrightarrow> vget xs (int n) = Inr (xs ! n)"
  by simp

lemma vset_int [simp]: "n < length xs \<Longrightarrow> vset xs (int n) x = Inr (xs[n := x])"
  by simp

lemma vset_length: "vset xs i x = Inr ys \<Longrightarrow> length ys = length xs"
  by (auto simp: vset_def split: if_splits)

section \<open>Lists\<close>

named_theorems list_shape \<open>shapes of lists after an update, a split or an append\<close>

lemma take_Suc_snoc [list_shape]: "n < length xs \<Longrightarrow> take (Suc n) xs = take n xs @ [xs ! n]"
  by (rule take_Suc_conv_app_nth)

lemma drop_cons_nth [list_shape]: "n < length xs \<Longrightarrow> drop n xs = xs ! n # drop (Suc n) xs"
  by (rule Cons_nth_drop_Suc [symmetric])

lemma map_upt_update [list_shape]:
  "r < n \<Longrightarrow> (map f [0..<n])[r := y] = map (f(r := y)) [0..<n]"
  by (rule nth_equalityI) (auto simp: nth_list_update)

lemma map_upt_fun_upd_cong [list_shape]:
  "(\<And>k. k < n \<Longrightarrow> f k = g k) \<Longrightarrow> map f [0..<n] = map g [0..<n]"
  by simp

lemma concat_map_upt_Suc [list_shape]:
  "concat (map f [0..<Suc n]) = concat (map f [0..<n]) @ f n"
  by simp

lemma concat_map_upt_append_Nil:
  assumes "n \<le> m" "\<And>k. n \<le> k \<Longrightarrow> k < m \<Longrightarrow> f k = []"
  shows "concat (map f [0..<m]) = concat (map f [0..<n])"
proof -
  have "[0..<m] = [0..<n] @ [n..<m]"
    using assms(1) by (metis le_add_diff_inverse upt_add_eq_append zero_le)
  moreover have "concat (map f [n..<m]) = []"
    using assms(2) by simp
  ultimately show ?thesis by simp
qed

end
