(* ===== verification/Transition.thy ===== *)
theory Transition
  imports Prelude
begin

text \<open>
  What the concurrent components share: the reachable states of a step relation, the
  interface through which a component proves an invariant of them, and the threads of a
  program as a list of program counters with the number of those in a phase.
\<close>

section \<open>Reachable states\<close>

inductive reach :: "('s \<Rightarrow> bool) \<Rightarrow> ('s \<Rightarrow> 's \<Rightarrow> bool) \<Rightarrow> 's \<Rightarrow> bool"
  for init :: "'s \<Rightarrow> bool" and step :: "'s \<Rightarrow> 's \<Rightarrow> bool" where
  reach_init [intro]: "init s \<Longrightarrow> reach init step s"
| reach_step [intro]: "reach init step s \<Longrightarrow> step s s' \<Longrightarrow> reach init step s'"

text \<open>
  The contract of an invariant: the initial states have it and every step keeps it. A
  component interprets it with its own steps and gets the invariant of every reachable
  state.
\<close>

locale invariant_of =
  fixes init :: "'s \<Rightarrow> bool"
    and step :: "'s \<Rightarrow> 's \<Rightarrow> bool"
    and inv :: "'s \<Rightarrow> bool"
  assumes at_start: "init s \<Longrightarrow> inv s"
    and kept: "inv s \<Longrightarrow> step s s' \<Longrightarrow> inv s'"
begin

lemma reachable: "reach init step s \<Longrightarrow> inv s"
  by (induction rule: reach.induct) (auto intro: at_start kept)

lemma implies: "(\<And>s. inv s \<Longrightarrow> good s) \<Longrightarrow> reach init step s \<Longrightarrow> good s"
  using reachable by blast

end

section \<open>Threads\<close>

text \<open>The number of threads whose program counter satisfies \<open>P\<close>.\<close>

definition number :: "('p \<Rightarrow> bool) \<Rightarrow> 'p list \<Rightarrow> nat" where
  "number P ts = length (filter P ts)"

lemma number_update:
  "i < length ts \<Longrightarrow>
   number P (ts[i := p]) + (if P (ts ! i) then 1 else 0) = number P ts + (if P p then 1 else 0)"
proof (induction ts arbitrary: i)
  case Nil
  then show ?case by simp
next
  case (Cons t ts)
  show ?case
  proof (cases i)
    case 0
    then show ?thesis by (simp add: number_def)
  next
    case (Suc k)
    with Cons.prems Cons.IH [of k] show ?thesis by (simp add: number_def)
  qed
qed

lemma number_update_eq:
  "i < length ts \<Longrightarrow> P (ts ! i) = P p \<Longrightarrow> number P (ts[i := p]) = number P ts"
  using number_update [of i ts P p] by (simp split: if_splits)

lemma number_update_inc:
  "i < length ts \<Longrightarrow> \<not> P (ts ! i) \<Longrightarrow> P p \<Longrightarrow> number P (ts[i := p]) = Suc (number P ts)"
  using number_update [of i ts P p] by simp

lemma number_update_dec:
  "i < length ts \<Longrightarrow> P (ts ! i) \<Longrightarrow> \<not> P p \<Longrightarrow> Suc (number P (ts[i := p])) = number P ts"
  using number_update [of i ts P p] by simp

lemma number_le_length: "number P ts \<le> length ts"
  by (simp add: number_def)

lemma number_less_length: "i < length ts \<Longrightarrow> \<not> P (ts ! i) \<Longrightarrow> number P ts < length ts"
  unfolding number_def by (rule length_filter_less [of "ts ! i"]) simp_all

lemma number_pos: "i < length ts \<Longrightarrow> P (ts ! i) \<Longrightarrow> 0 < number P ts"
  unfolding number_def by (auto simp: filter_empty_conv)

lemma number_posD: "0 < number P ts \<Longrightarrow> \<exists>i < length ts. P (ts ! i)"
  unfolding number_def by (auto simp: filter_empty_conv in_set_conv_nth)

lemma number_one:
  assumes "number P ts \<le> 1" "i < length ts" "j < length ts" "P (ts ! i)" "P (ts ! j)"
  shows "i = j"
proof (rule ccontr)
  assume "i \<noteq> j"
  have i: "{i, j} \<subseteq> {k. k < length ts \<and> P (ts ! k)}" using assms by auto
  have "card {i, j} \<le> card {k. k < length ts \<and> P (ts ! k)}"
    by (rule card_mono [OF _ i]) simp
  then show False
    using \<open>i \<noteq> j\<close> assms(1) by (simp add: number_def length_filter_conv_card)
qed

lemma number_replicate [simp]: "number P (replicate n p) = (if P p then n else 0)"
  by (simp add: number_def)

lemmas number_updates = number_update_eq number_update_inc number_update_dec

end
