(* ===== verification/Zigzag.thy ===== *)
theory Zigzag
  imports Prelude
begin

text \<open>
  The zigzag conversions of \<^verbatim>\<open>edu/train/zigzag.hpp\<close>. Six functions compute the same
  string by different loops: \<open>convert_ref\<close> bounces a cursor between the first and the last
  row, \<open>convert_base\<close> walks the text stride by stride with an index, \<open>convert_forge\<close> and
  \<open>convert_arena\<close> run one loop with a position inside the stride, \<open>convert_best\<close> and
  \<open>convert_best1\<close> overwrite the prefix of the text that they have already read and then
  copy the other rows over the rest. \<open>convert_orig_string_expansion\<close> is unfinished in the
  source and returns the empty string.

  Each loop is a recursive function over the source's own variables; an access to
  \<open>rows[i]\<close> outside the array is \<open>Undefined_Behaviour\<close>. Reserving capacity has no effect
  on the contents and is left out. The arena of \<open>convert_arena\<close> is in a submodule that is
  not part of the repository: whether it can serve the allocations is a parameter.
\<close>

section \<open>The rows and their loops\<close>

text \<open>\<open>rows[i] += c\<close>\<close>

definition row_append :: "string list \<Rightarrow> int \<Rightarrow> char \<Rightarrow> string list result" where
  "row_append rows i c = bindr (vget rows i) (\<lambda>r. vset rows i (r @ [c]))"

fun ref_loop :: "string \<Rightarrow> int \<Rightarrow> string list \<Rightarrow> int \<Rightarrow> bool \<Rightarrow> string list result" where
  "ref_loop [] numRows rows curRow goingDown = Inr rows"
| "ref_loop (c # cs) numRows rows curRow goingDown =
     bindr (row_append rows curRow c) (\<lambda>rows'.
       let goingDown' = (if curRow = 0 \<or> curRow = numRows - 1 then \<not> goingDown else goingDown)
       in ref_loop cs numRows rows' (curRow + (if goingDown' then 1 else - 1)) goingDown')"

definition convert_ref :: "string \<Rightarrow> int \<Rightarrow> string result" where
  "convert_ref s numRows =
     (if numRows = 1 then Inr s
      else let n = min numRows (to_int (int (length s)))
        in if n < 0 then Inl Length_Error
           else bindr (ref_loop s numRows (replicate (nat n) []) 0 False)
                  (\<lambda>rows. Inr (concat rows)))"

text \<open>\<open>(numRows - 1) * 2\<close>, in the type \<open>int\<close>\<close>

definition stride :: "int \<Rightarrow> int result" where
  "stride numRows = bindr (cint (numRows - 1)) (\<lambda>x. cint (x * 2))"

text \<open>
  \<open>new string[n]\<close> throws for a negative count. With a count of 0 the functions below divide
  by zero or bind \<open>row_to_slice[0]\<close> of an empty array, both undefined.
\<close>

definition new_rows :: "int \<Rightarrow> string list result" where
  "new_rows n = (if n < 0 then Inl Bad_Array_New_Length
                 else if n = 0 then Inl Undefined_Behaviour else Inr (replicate (nat n) []))"

text \<open>The number of strides, rounded up: \<open>ssz / kStride\<close> or one more.\<close>

definition stride_count :: "nat \<Rightarrow> int \<Rightarrow> int" where
  "stride_count ssz kStride =
     to_int (if int ssz mod kStride \<noteq> 0 then int ssz div kStride + 1 else int ssz div kStride)"

function base_inner ::
  "string \<Rightarrow> int \<Rightarrow> int \<Rightarrow> int \<Rightarrow> int \<Rightarrow> int \<Rightarrow> int \<Rightarrow> string list \<Rightarrow> string list result" where
  "base_inner s numRows kStride iter subidx counter direction rows =
     (if subidx < kStride then
        bindr (cint (iter * kStride)) (\<lambda>p.
        bindr (cint (p + subidx)) (\<lambda>internal_ptr.
          if int (length s) \<le> internal_ptr then Inr rows
          else
            let counter' = (if subidx = numRows then counter - 2 else counter);
                direction' = (if subidx = numRows then - 1 else direction)
            in bindr (vget s internal_ptr) (\<lambda>c.
               bindr (row_append rows counter' c) (\<lambda>rows'.
               base_inner s numRows kStride iter (subidx + 1) (counter' + direction') direction'
                 rows'))))
      else Inr rows)"
  by pat_completeness auto
termination
  by (relation "measure (\<lambda>(s, numRows, kStride, iter, subidx, _). nat (kStride - subidx))") auto

function base_outer :: "string \<Rightarrow> int \<Rightarrow> int \<Rightarrow> int \<Rightarrow> int \<Rightarrow> string list \<Rightarrow> string list result" where
  "base_outer s numRows kStride sz iter rows =
     (if iter < sz then
        bindr (base_inner s numRows kStride iter 0 0 1 rows)
          (base_outer s numRows kStride sz (iter + 1))
      else Inr rows)"
  by pat_completeness auto
termination
  by (relation "measure (\<lambda>(s, numRows, kStride, sz, iter, rows). nat (sz - iter))") auto

definition convert_base :: "string \<Rightarrow> int \<Rightarrow> string result" where
  "convert_base s numRows =
     (if numRows = 1 then Inr s
      else bindr (new_rows numRows) (\<lambda>rows.
           bindr (stride numRows) (\<lambda>kStride.
           bindr (base_outer s numRows kStride (stride_count (length s) kStride) 0 rows)
             (\<lambda>rows'. Inr (concat rows')))))"

fun forge_loop ::
  "string \<Rightarrow> int \<Rightarrow> int \<Rightarrow> string list \<Rightarrow> int \<Rightarrow> int \<Rightarrow> int \<Rightarrow> string list result" where
  "forge_loop [] numRows kStride rows subidx counter direction = Inr rows"
| "forge_loop (c # cs) numRows kStride rows subidx counter direction =
     (let counter' = (if subidx = numRows then counter - 2 else counter);
          direction' = (if subidx = numRows then - 1 else direction)
      in bindr (row_append rows counter' c) (\<lambda>rows'.
         if kStride \<le> subidx + 1 then forge_loop cs numRows kStride rows' 0 0 1
         else forge_loop cs numRows kStride rows' (subidx + 1) (counter' + direction') direction'))"

definition convert_forge :: "string \<Rightarrow> int \<Rightarrow> string result" where
  "convert_forge s numRows =
     (if numRows = 1 then Inr s
      else bindr (new_rows numRows) (\<lambda>rows.
           bindr (stride numRows) (\<lambda>kStride.
           bindr (forge_loop s numRows kStride rows 0 0 1) (\<lambda>rows'. Inr (concat rows')))))"

text \<open>
  \<open>convert_arena\<close>: the rows are strings of an arena of \<open>16 * s.size()\<close> bytes, a parameter;
  \<open>serves capacity s numRows\<close> says that the arena can hold the rows of this call.
\<close>

definition convert_arena :: "(nat \<Rightarrow> string \<Rightarrow> int \<Rightarrow> bool) \<Rightarrow> string \<Rightarrow> int \<Rightarrow> string result" where
  "convert_arena serves s numRows =
     (if numRows = 1 then Inr s
      else bindr (stride numRows) (\<lambda>kStride.
           if numRows < 0 then Inl Length_Error
           else if \<not> serves (length s * 16) s numRows then Inl Bad_Alloc
           else if numRows = 0 then Inl Undefined_Behaviour
           else bindr (forge_loop s numRows kStride (replicate (nat numRows) []) 0 0 1)
                  (\<lambda>rows. Inr (concat rows))))"

section \<open>The in-place variants\<close>

text \<open>
  The state of \<open>convert_best\<close> and \<open>convert_best1\<close>: the text being overwritten, the read
  position \<open>siter\<close> (an index into it), the write position and the rows other than the
  first, which is kept in the text itself.
\<close>

record inplace =
  text_of :: string
  siter :: nat
  in_place_counter :: nat
  row_to_slice :: "string list"

text \<open>Store a letter in row \<open>k\<close>: row 0 is the prefix of the text.\<close>

definition put_letter :: "inplace \<Rightarrow> int \<Rightarrow> char \<Rightarrow> inplace result" where
  "put_letter st k c =
     (if k = 0 then
        bindr (vset (text_of st) (int (in_place_counter st)) c) (\<lambda>t.
          Inr (st\<lparr>text_of := t, in_place_counter := in_place_counter st + 1\<rparr>))
      else bindr (row_append (row_to_slice st) (k - 1) c) (\<lambda>rows.
          Inr (st\<lparr>row_to_slice := rows\<rparr>)))"

function best_inner :: "int \<Rightarrow> int \<Rightarrow> int \<Rightarrow> int \<Rightarrow> int \<Rightarrow> inplace \<Rightarrow> inplace result" where
  "best_inner numRows kStride subidx counter direction st =
     (if subidx < kStride then
        if siter st = length (text_of st) then Inr st
        else
          let counter' = (if subidx = numRows then counter - 2 else counter);
              direction' = (if subidx = numRows then - 1 else direction)
          in bindr (vget (text_of st) (int (siter st))) (\<lambda>current_letter.
             bindr (put_letter (st\<lparr>siter := siter st + 1\<rparr>) counter' current_letter) (\<lambda>st'.
             best_inner numRows kStride (subidx + 1) (counter' + direction') direction' st'))
      else Inr st)"
  by pat_completeness auto
termination
  by (relation "measure (\<lambda>(numRows, kStride, subidx, _). nat (kStride - subidx))") auto

function best_outer :: "int \<Rightarrow> int \<Rightarrow> int \<Rightarrow> int \<Rightarrow> inplace \<Rightarrow> inplace result" where
  "best_outer numRows kStride sz iter st =
     (if iter < sz then
        bindr (best_inner numRows kStride 0 0 1 st) (best_outer numRows kStride sz (iter + 1))
      else Inr st)"
  by pat_completeness auto
termination
  by (relation "measure (\<lambda>(numRows, kStride, sz, iter, st). nat (sz - iter))") auto

text \<open>\<open>s.replace(pos, n, t)\<close>\<close>

definition str_replace :: "string \<Rightarrow> nat \<Rightarrow> nat \<Rightarrow> string \<Rightarrow> string result" where
  "str_replace s pos n t =
     (if length s < pos then Inl Out_Of_Range else Inr (take pos s @ t @ drop (pos + n) s))"

text \<open>The copy of the remaining rows over the text, one \<open>replace\<close> per row.\<close>

fun replace_rows :: "string \<Rightarrow> nat \<Rightarrow> string list \<Rightarrow> string result" where
  "replace_rows s pos [] = Inr s"
| "replace_rows s pos (r # rs) =
     bindr (str_replace s pos (length r) r) (\<lambda>s'. replace_rows s' (pos + length r) rs)"

definition finish_inplace :: "inplace \<Rightarrow> string result" where
  "finish_inplace st =
     bindr (vget (row_to_slice st) 0) (\<lambda>r0.
       replace_rows (text_of st) (in_place_counter st) (r0 # tl (row_to_slice st)))"

definition start_inplace :: "string \<Rightarrow> string list \<Rightarrow> inplace" where
  "start_inplace s rows =
     \<lparr>text_of = s, siter = 0, in_place_counter = 0, row_to_slice = rows\<rparr>"

text \<open>
  With 0 rows \<open>new string[-1]\<close> throws; the stride of a negative count is never used before
  the throw.
\<close>

definition convert_best :: "string \<Rightarrow> int \<Rightarrow> string result" where
  "convert_best s numRows =
     (if numRows = 1 then Inr s
      else bindr (cint (numRows - 1)) (\<lambda>n1.
           bindr (new_rows n1) (\<lambda>rows.
           bindr (stride numRows) (\<lambda>kStride.
           bindr (best_outer numRows kStride (stride_count (length s) kStride) 0
                   (start_inplace s rows))
             finish_inplace))))"

text \<open>
  The two inner loops of \<open>convert_best1\<close>: down the rows from 0, then up from
  \<open>numRows - 2\<close> to 1.
\<close>

function best1_down :: "int \<Rightarrow> int \<Rightarrow> inplace \<Rightarrow> inplace result" where
  "best1_down numRows subidx st =
     (if subidx < numRows then
        if siter st = length (text_of st) then Inr st
        else bindr (vget (text_of st) (int (siter st))) (\<lambda>current_letter.
             bindr (put_letter st subidx current_letter) (\<lambda>st'.
             best1_down numRows (subidx + 1) (st'\<lparr>siter := siter st' + 1\<rparr>)))
      else Inr st)"
  by pat_completeness auto
termination
  by (relation "measure (\<lambda>(numRows, subidx, st). nat (numRows - subidx))") auto

function best1_up :: "int \<Rightarrow> inplace \<Rightarrow> inplace result" where
  "best1_up subidx st =
     (if 0 < subidx then
        if siter st = length (text_of st) then Inr st
        else bindr (vget (text_of st) (int (siter st))) (\<lambda>current_letter.
             bindr (put_letter st subidx current_letter) (\<lambda>st'.
             best1_up (subidx - 1) (st'\<lparr>siter := siter st' + 1\<rparr>)))
      else Inr st)"
  by pat_completeness auto
termination
  by (relation "measure (\<lambda>(subidx, st). nat subidx)") auto

function best1_outer :: "int \<Rightarrow> int \<Rightarrow> int \<Rightarrow> inplace \<Rightarrow> inplace result" where
  "best1_outer numRows sz iter st =
     (if iter < sz then
        bindr (best1_down numRows 0 st) (\<lambda>st'.
        bindr (best1_up (numRows - 2) st') (best1_outer numRows sz (iter + 1)))
      else Inr st)"
  by pat_completeness auto
termination
  by (relation "measure (\<lambda>(numRows, sz, iter, st). nat (sz - iter))") auto

definition convert_best1 :: "string \<Rightarrow> int \<Rightarrow> string result" where
  "convert_best1 s numRows =
     (if numRows = 1 then Inr s
      else bindr (cint (numRows - 1)) (\<lambda>n1.
           bindr (new_rows n1) (\<lambda>rows.
           bindr (stride numRows) (\<lambda>kStride.
           bindr (best1_outer numRows (stride_count (length s) kStride) 0 (start_inplace s rows))
             finish_inplace))))"

text \<open>
  The unfinished attempt: it sizes the expansion, makes room for it (an allocation, with no
  effect on the result) and returns \<open>{}\<close>. The division is in \<open>size_t\<close>, where a negative
  stride is a huge number.
\<close>

definition convert_orig_string_expansion :: "string \<Rightarrow> int \<Rightarrow> string result" where
  "convert_orig_string_expansion s numRows =
     (if numRows = 1 then Inr s
      else bindr (stride numRows) (\<lambda>kStride.
           let kMaxStrideLength = to_int (int (length s) div (kStride mod 2 ^ 64) + 1)
           in if numRows < 0 then Inl Length_Error
              else bindr (cint (numRows * kMaxStrideLength)) (\<lambda>_. Inr [])))"

declare base_inner.simps [simp del] base_outer.simps [simp del]
declare best_inner.simps [simp del] best_outer.simps [simp del]
declare best1_down.simps [simp del] best1_up.simps [simp del] best1_outer.simps [simp del]

end
