(* ===== verification/Zigzag_Correct.thy ===== *)
theory Zigzag_Correct
  imports Zigzag "HOL-Library.Multiset"
begin

text \<open>
  What the conversions of \<open>Zigzag\<close> compute. The specification reads the zigzag off the
  picture: the letter at position \<open>i\<close> is on row \<open>zz_row m i\<close>, a triangle wave of period
  \<open>2 * (m - 1)\<close>, and the result is the rows one after the other. Every conversion is shown
  to return it; the loops share the step lemma \<open>row_append_rows\<close> and the phase lemmas.
\<close>

section \<open>Specification\<close>

definition zz_row :: "nat \<Rightarrow> nat \<Rightarrow> nat" where
  "zz_row m i = (let p = i mod (2 * (m - 1)) in if p < m then p else 2 * (m - 1) - p)"

definition row_str :: "nat \<Rightarrow> nat \<Rightarrow> string \<Rightarrow> string" where
  "row_str m r s = map snd (filter (\<lambda>(i, c). zz_row m i = r) (enumerate 0 s))"

definition rows_upto :: "nat \<Rightarrow> nat \<Rightarrow> string \<Rightarrow> string list" where
  "rows_upto m n s = map (\<lambda>r. row_str m r s) [0..<n]"

definition zigzag :: "nat \<Rightarrow> string \<Rightarrow> string" where
  "zigzag m s = (if m = 1 then s else concat (rows_upto m m s))"

section \<open>Rows\<close>

lemma row_str_Nil [simp]: "row_str m r [] = []"
  by (simp add: row_str_def)

lemma row_str_snoc [simp]:
  "row_str m r (t @ [c]) = row_str m r t @ (if zz_row m (length t) = r then [c] else [])"
  by (simp add: row_str_def enumerate_append_eq)

lemma length_row_str_le: "length (row_str m r s) \<le> length s"
  unfolding row_str_def by (metis length_enumerate length_filter_le length_map)

lemma length_rows_upto [simp]: "length (rows_upto m n s) = n"
  by (simp add: rows_upto_def)

lemma rows_upto_Nil: "rows_upto m n [] = replicate n []"
  by (simp add: rows_upto_def map_replicate_const)

lemma nth_rows_upto [simp]: "r < n \<Longrightarrow> rows_upto m n s ! r = row_str m r s"
  by (simp add: rows_upto_def)

lemma zz_row_less: "2 \<le> m \<Longrightarrow> zz_row m i < m"
  by (auto simp: zz_row_def Let_def)

lemma zz_row_alt:
  "S = 2 * (m - 1) \<Longrightarrow> zz_row m i = (if i mod S < m then i mod S else S - i mod S)"
  by (simp add: zz_row_def Let_def)

lemma zz_row_le: "zz_row m i \<le> i"
proof -
  define S where "S = 2 * (m - 1)"
  have "i mod S \<le> i" by simp
  moreover have "i mod S < m \<or> S - i mod S \<le> i mod S" unfolding S_def by arith
  ultimately have "i mod S < m \<or> S - i mod S \<le> i" by (meson le_trans)
  with \<open>i mod S \<le> i\<close> show ?thesis unfolding zz_row_alt [OF S_def] by auto
qed

lemma row_append_rows:
  assumes "zz_row m (length t) < n"
  shows "row_append (rows_upto m n t) (int (zz_row m (length t))) c = Inr (rows_upto m n (t @ [c]))"
proof -
  have "(rows_upto m n t)[zz_row m (length t) := row_str m (zz_row m (length t)) t @ [c]]
      = rows_upto m n (t @ [c])"
    by (rule nth_equalityI) (auto simp: nth_list_update)
  with assms show ?thesis by (simp add: row_append_def)
qed

lemma row_append_take:
  assumes "i < length s" "2 \<le> m"
  shows "row_append (rows_upto m m (take i s)) (int (zz_row m i)) (s ! i)
       = Inr (rows_upto m m (take (Suc i) s))"
  using row_append_rows [of m "take i s" m "s ! i"] assms zz_row_less [of m i]
  by (simp add: take_Suc_conv_app_nth min_def)

section \<open>Phases: where the cursor of a loop is at position \<open>p\<close> of a stride\<close>

definition head_counter :: "nat \<Rightarrow> nat \<Rightarrow> int" where
  "head_counter m p = (if p \<le> m then int p else int (2 * (m - 1)) - int p)"

definition head_direction :: "nat \<Rightarrow> nat \<Rightarrow> int" where
  "head_direction m p = (if p \<le> m then 1 else - 1)"

lemma head_start [simp]: "head_counter m 0 = 0" "head_direction m 0 = 1"
  by (simp_all add: head_counter_def head_direction_def)

lemma zz_row_phase: "p < 2 * (m - 1) \<Longrightarrow> zz_row m (q * (2 * (m - 1)) + p) =
    (if p < m then p else 2 * (m - 1) - p)"
  by (simp add: zz_row_def Let_def)

lemma phase_counter:
  assumes "p < 2 * (m - 1)"
  shows "(if p = m then head_counter m p - 2 else head_counter m p)
       = int (if p < m then p else 2 * (m - 1) - p)"
  using assms by (auto simp: head_counter_def)

lemma phase_step:
  assumes "p < 2 * (m - 1)"
  shows "int (if p < m then p else 2 * (m - 1) - p)
           + (if p = m then - 1 else head_direction m p) = head_counter m (Suc p)"
    and "(if p = m then - 1 else head_direction m p) = head_direction m (Suc p)"
  using assms by (auto simp: head_counter_def head_direction_def)

lemmas phases = zz_row_phase phase_counter phase_step

definition going_down :: "nat \<Rightarrow> nat \<Rightarrow> bool" where
  "going_down m i \<longleftrightarrow> 0 < i mod (2 * (m - 1)) \<and> i mod (2 * (m - 1)) < m"

lemma bounce:
  assumes m: "2 \<le> m"
    and d: "d = (if int (zz_row m i) = 0 \<or> int (zz_row m i) = int m - 1
                 then \<not> going_down m i else going_down m i)"
  shows "d = going_down m (Suc i)"
    and "int (zz_row m i) + (if d then 1 else - 1) = int (zz_row m (Suc i))"
proof -
  define S where "S = 2 * (m - 1)"
  define p where "p = i mod S"
  have S: "2 \<le> S" "S = 2 * m - 2" using m by (auto simp: S_def)
  have p: "p < S" using S by (simp add: p_def)
  have p': "Suc i mod S = (if Suc p = S then 0 else Suc p)"
    by (simp add: p_def mod_Suc)
  have z: "zz_row m i = (if p < m then p else S - p)"
    unfolding zz_row_alt [OF S_def] p_def by simp
  have z': "zz_row m (Suc i) = (if Suc p = S then 0 else if Suc p < m then Suc p else S - Suc p)"
    unfolding zz_row_alt [OF S_def] p' using m by simp
  have g: "going_down m i \<longleftrightarrow> 0 < p \<and> p < m"
    by (simp add: going_down_def p_def S_def)
  have g': "going_down m (Suc i) \<longleftrightarrow> Suc p \<noteq> S \<and> Suc p < m"
    unfolding going_down_def S_def [symmetric] p' using m by auto
  show "d = going_down m (Suc i)"
    unfolding d z g g' using S p m by (auto split: if_splits)
  then show "int (zz_row m i) + (if d then 1 else - 1) = int (zz_row m (Suc i))"
    unfolding z z' g' using S p m by (auto split: if_splits)
qed

section \<open>The loops\<close>

lemma ref_loop_rows:
  assumes "2 \<le> m" "\<And>i. i < length t + length cs \<Longrightarrow> zz_row m i < n"
  shows "ref_loop cs (int m) (rows_upto m n t) (int (zz_row m (length t))) (going_down m (length t))
       = Inr (rows_upto m n (t @ cs))"
  using assms(2)
proof (induction cs arbitrary: t)
  case Nil
  then show ?case by simp
next
  case (Cons c cs)
  let ?i = "length t"
  define d where "d = (if int (zz_row m ?i) = 0 \<or> int (zz_row m ?i) = int m - 1
                       then \<not> going_down m ?i else going_down m ?i)"
  have row: "row_append (rows_upto m n t) (int (zz_row m ?i)) c = Inr (rows_upto m n (t @ [c]))"
    using Cons.prems by (intro row_append_rows) simp
  have "ref_loop cs (int m) (rows_upto m n (t @ [c])) (int (zz_row m (length (t @ [c]))))
          (going_down m (length (t @ [c]))) = Inr (rows_upto m n ((t @ [c]) @ cs))"
    using Cons.prems by (intro Cons.IH) simp
  then show ?case
    unfolding ref_loop.simps Let_def d_def [symmetric] row bindr_simps
      bounce(2) [OF assms(1) d_def]
    unfolding bounce(1) [OF assms(1) d_def] by simp
qed

text \<open>One round of \<open>base_inner\<close> at position \<open>p\<close> of stride \<open>q\<close>.\<close>

lemma base_inner_step:
  assumes i: "i = q * S + p" "int i \<le> int_max" "p < S"
    and k: "k = (if int p = int m then kc - 2 else kc)" "d = (if int p = int m then - 1 else kd)"
  shows "base_inner s (int m) (int S) (int q) (int p) kc kd rows =
    (if length s \<le> i then Inr rows
     else bindr (row_append rows k (s ! i))
            (base_inner s (int m) (int S) (int q) (int (Suc p)) (k + d) d))"
proof -
  have c1: "cint (int q * int S) = Inr (int (q * S))"
    by (rule cint_mult_nat) (use i in simp)
  have c2: "cint (int (q * S) + int p) = Inr (int i)"
    unfolding i(1) by (rule cint_add_nat) (use i in simp)
  have suc: "int p + 1 = int (Suc p)" by simp
  show ?thesis
    unfolding base_inner.simps [of s "int m" "int S" "int q" "int p"] Let_def
      k(1) [symmetric] k(2) [symmetric] c1 bindr_simps c2 suc
    using i(3) by (simp del: of_nat_Suc)
qed

lemma base_inner_rows:
  assumes m: "2 \<le> m" and S: "S = 2 * (m - 1)" and p: "p \<le> S"
    and ok: "int (q * S + S) \<le> int_max"
  shows "base_inner s (int m) (int S) (int q) (int p) (head_counter m p) (head_direction m p)
           (rows_upto m m (take (q * S + p) s)) = Inr (rows_upto m m (take (q * S + S) s))"
  using p
proof (induction "S - p" arbitrary: p)
  case 0
  then show ?case by (simp add: base_inner.simps)
next
  case (Suc k)
  define i where "i = q * S + p"
  define z where "z = int (zz_row m i)"
  define d where "d = (if int p = int m then - 1 else head_direction m p)"
  from Suc.hyps(2) have p: "p < S" by simp
  have z: "z = (if int p = int m then head_counter m p - 2 else head_counter m p)"
    using phases(1,2) [of p m] p by (simp add: S i_def z_def)
  have next_head: "z + d = head_counter m (Suc p)" "d = head_direction m (Suc p)"
    using phases(1,3,4) [of p m] p by (simp_all add: S i_def z_def d_def)
  have step: "base_inner s (int m) (int S) (int q) (int p) (head_counter m p) (head_direction m p) rows =
    (if length s \<le> i then Inr rows
     else bindr (row_append rows z (s ! i))
            (base_inner s (int m) (int S) (int q) (int (Suc p)) (head_counter m (Suc p))
               (head_direction m (Suc p))))" for rows
    using base_inner_step [OF i_def _ p z d_def] ok p by (simp add: i_def next_head [symmetric])
  show ?case
  proof (cases "length s \<le> i")
    case True
    with p show ?thesis by (simp add: step i_def)
  next
    case False
    then have row: "row_append (rows_upto m m (take i s)) z (s ! i) = Inr (rows_upto m m (take (Suc i) s))"
      using row_append_take [of i s m] m by (simp add: z_def)
    have "base_inner s (int m) (int S) (int q) (int (Suc p)) (head_counter m (Suc p))
        (head_direction m (Suc p)) (rows_upto m m (take (q * S + Suc p) s))
        = Inr (rows_upto m m (take (q * S + S) s))"
      using Suc.hyps(2) p by (intro Suc.hyps(1)) auto
    with False row show ?thesis by (simp add: step i_def del: of_nat_Suc)
  qed
qed

lemma base_outer_rows:
  assumes m: "2 \<le> m" and S: "S = 2 * (m - 1)" and q: "q \<le> N"
    and ok: "int (N * S) \<le> int_max"
  shows "base_outer s (int m) (int S) (int N) (int q) (rows_upto m m (take (q * S) s))
       = Inr (rows_upto m m (take (N * S) s))"
  using q
proof (induction "N - q" arbitrary: q)
  case 0
  then show ?case by (simp add: base_outer.simps)
next
  case (Suc k)
  then have q: "q < N" by simp
  then have "q * S + S \<le> N * S"
    using mult_le_mono1 [of "Suc q" N S] by simp
  then have inner: "base_inner s (int m) (int S) (int q) 0 0 1 (rows_upto m m (take (q * S) s))
      = Inr (rows_upto m m (take (q * S + S) s))"
    using base_inner_rows [OF m S le0, of q s] of_nat_mono [of "q * S + S" "N * S"] ok
    by (simp del: of_nat_add of_nat_mult)
  have "base_outer s (int m) (int S) (int N) (int (Suc q)) (rows_upto m m (take (Suc q * S) s))
      = Inr (rows_upto m m (take (N * S) s))"
    using Suc.hyps(2) q by (intro Suc.hyps(1)) auto
  with inner q show ?case
    by (simp add: base_outer.simps [of s "int m" "int S" "int N" "int q"] add.commute)
qed

text \<open>Enough strides: \<open>stride_count\<close> of them cover the text.\<close>

lemma stride_count_covers:
  assumes S: "0 < S" and ok: "int (n + S) \<le> int_max"
  obtains N where "stride_count n (int S) = int N" "n \<le> N * S" "int (N * S) \<le> int_max"
proof
  let ?N = "if n mod S \<noteq> 0 then n div S + 1 else n div S"
  have n: "n div S * S + n mod S = n" by simp
  have "n mod S < S" using S by simp
  then have "n \<le> n div S * S + S" using n by linarith
  then show cov: "n \<le> ?N * S"
  proof (cases "n mod S = 0")
    case True
    then have "n div S * S = n" using n by linarith
    with True show ?thesis by simp
  qed (simp add: distrib_right)
  have le: "?N * S \<le> n + S"
    using n by (cases "n mod S = 0") (simp_all add: distrib_right)
  then show "int (?N * S) \<le> int_max" using ok by linarith
  have "?N \<le> ?N * S" using S by simp
  then have "in_int (int ?N)" using le ok unfolding in_int_of_nat by linarith
  moreover have "(if int n mod int S \<noteq> 0 then int n div int S + 1 else int n div int S) = int ?N"
    by (simp flip: zdiv_int zmod_int)
  ultimately show "stride_count n (int S) = int ?N"
    unfolding stride_count_def by (simp only: to_int_ok)
qed

lemma forge_loop_rows:
  assumes m: "2 \<le> m" and S: "S = 2 * (m - 1)"
  shows "forge_loop cs (int m) (int S) (rows_upto m m t) (int (length t mod S))
           (head_counter m (length t mod S)) (head_direction m (length t mod S))
       = Inr (rows_upto m m (t @ cs))"
proof (induction cs arbitrary: t)
  case Nil
  then show ?case by simp
next
  case (Cons c cs)
  define p where "p = length t mod S"
  define z where "z = int (zz_row m (length t))"
  define d where "d = (if int p = int m then - 1 else head_direction m p)"
  have p: "p < S" using m by (simp add: p_def S)
  have zp: "zz_row m (length t) = (if p < m then p else S - p)"
    using zz_row_alt [OF S] by (simp add: p_def)
  have z: "z = (if int p = int m then head_counter m p - 2 else head_counter m p)"
    using phase_counter [of p m] p by (simp add: z_def zp S)
  have next_head: "z + d = head_counter m (Suc p)" "d = head_direction m (Suc p)"
    using phase_step [of p m, folded S] p unfolding z_def zp d_def of_nat_eq_iff by simp_all
  have row: "row_append (rows_upto m m t) z c = Inr (rows_upto m m (t @ [c]))"
    using row_append_rows [of m t m c] zz_row_less [OF m] by (simp add: z_def)
  have "Suc (length t) mod S = (if Suc p = S then 0 else Suc p)"
    by (simp add: p_def mod_Suc)
  with Cons.IH [of "t @ [c]"] next_head p show ?case
    unfolding forge_loop.simps Let_def p_def [symmetric] z [symmetric] d_def [symmetric]
    by (auto simp: row add.commute split: if_splits)
qed

section \<open>In-place loops\<close>

text \<open>
  The invariant of \<open>convert_best\<close> after \<open>i\<close> letters of the text \<open>s\<close>: the unread part is
  untouched, and the written prefix is row 0 of the letters read.
\<close>

definition inplace_inv :: "nat \<Rightarrow> string \<Rightarrow> nat \<Rightarrow> inplace \<Rightarrow> bool" where
  "inplace_inv m s i st \<longleftrightarrow>
     i \<le> length s \<and> siter st = i \<and> length (text_of st) = length s \<and>
     drop i (text_of st) = drop i s \<and>
     in_place_counter st = length (row_str m 0 (take i s)) \<and>
     take (in_place_counter st) (text_of st) = row_str m 0 (take i s) \<and>
     row_to_slice st = map (\<lambda>r. row_str m (Suc r) (take i s)) [0..<m - 1]"

lemma inplace_inv_start: "inplace_inv m s 0 (start_inplace s (replicate (m - 1) []))"
  by (simp add: inplace_inv_def start_inplace_def map_replicate_const)

lemma inplace_inv_siter: "inplace_inv m s i st \<Longrightarrow> siter st = i"
  by (simp add: inplace_inv_def)

lemma inplace_inv_read:
  assumes "inplace_inv m s i st" "i < length s"
  shows "vget (text_of st) (int (siter st)) = Inr (s ! i)" "siter st < length (text_of st)"
proof -
  have "text_of st ! i = s ! i"
    using assms unfolding inplace_inv_def by (metis hd_drop_conv_nth)
  then show "vget (text_of st) (int (siter st)) = Inr (s ! i)" "siter st < length (text_of st)"
    using assms by (simp_all add: inplace_inv_def)
qed

lemma put_letter_step:
  assumes m: "2 \<le> m" and inv: "inplace_inv m s i st" and i: "i < length s"
  obtains st' where "put_letter st (int (zz_row m i)) (s ! i) = Inr st'"
    "siter st' = i" "inplace_inv m s (Suc i) (st'\<lparr>siter := Suc i\<rparr>)"
proof (cases "zz_row m i = 0")
  case True
  let ?c = "in_place_counter st"
  let ?st = "st\<lparr>text_of := (text_of st)[?c := s ! i], in_place_counter := ?c + 1\<rparr>"
  have c: "?c \<le> i" using inv length_row_str_le [of m 0 "take i s"] by (simp add: inplace_inv_def)
  have tk: "take (Suc i) s = take i s @ [s ! i]" using i by (rule take_Suc_snoc)
  have "drop (Suc i) ((text_of st)[?c := s ! i]) = drop (Suc i) s"
    using inv c by (metis drop_update_cancel inplace_inv_def Suc_le_eq le_imp_less_Suc drop_Suc tl_drop)
  moreover have "take (length (row_str m 0 (take i s))) (text_of st) = row_str m 0 (take i s)"
    using inv unfolding inplace_inv_def by metis
  moreover have "take (Suc ?c) ((text_of st)[?c := s ! i]) = take ?c (text_of st) @ [s ! i]"
    using inv c i by (simp add: inplace_inv_def take_Suc_conv_app_nth take_update_cancel)
  ultimately have "inplace_inv m s (Suc i) (?st\<lparr>siter := Suc i\<rparr>)"
    using inv i True by (simp add: inplace_inv_def tk min_def)
  moreover have "put_letter st (int (zz_row m i)) (s ! i) = Inr ?st"
    using inv c i True by (simp add: put_letter_def inplace_inv_def)
  moreover have "siter ?st = i" using inv by (simp add: inplace_inv_def)
  ultimately show ?thesis using that by blast
next
  case False
  define r where "r = zz_row m i - 1"
  have r: "zz_row m i = Suc r" "r < m - 1"
    using False zz_row_less [OF m, of i] by (simp_all add: r_def)
  let ?rows = "(row_to_slice st)[r := row_to_slice st ! r @ [s ! i]]"
  have tk: "take (Suc i) s = take i s @ [s ! i]" using i by (rule take_Suc_snoc)
  have "?rows = map (\<lambda>k. row_str m (Suc k) (take (Suc i) s)) [0..<m - 1]"
    using inv i r by (intro nth_equalityI) (auto simp: inplace_inv_def tk nth_list_update min_def)
  moreover have "drop (Suc i) (text_of st) = drop (Suc i) s"
    using inv by (metis inplace_inv_def drop_Suc tl_drop)
  moreover have "take (length (row_str m 0 (take i s))) (text_of st) = row_str m 0 (take i s)"
    using inv unfolding inplace_inv_def by metis
  ultimately have "inplace_inv m s (Suc i) (st\<lparr>row_to_slice := ?rows, siter := Suc i\<rparr>)"
    using inv i r by (simp add: inplace_inv_def tk min_def)
  moreover have "put_letter st (int (zz_row m i)) (s ! i) = Inr (st\<lparr>row_to_slice := ?rows\<rparr>)"
    using inv r by (simp add: put_letter_def inplace_inv_def row_append_def)
  moreover have "siter (st\<lparr>row_to_slice := ?rows\<rparr>) = i" using inv by (simp add: inplace_inv_def)
  ultimately show ?thesis using that [of "st\<lparr>row_to_slice := ?rows\<rparr>"] by simp
qed

lemma put_letter_siter:
  "put_letter st k c = Inr st' \<Longrightarrow> put_letter (st\<lparr>siter := n\<rparr>) k c = Inr (st'\<lparr>siter := n\<rparr>)"
  by (auto simp: put_letter_def bindr_eq_Inr split: if_splits)

lemma inplace_inv_end:
  "inplace_inv m s i st \<Longrightarrow> siter st = length (text_of st) \<longleftrightarrow> i = length s"
  by (auto simp: inplace_inv_def)

lemma best_inner_inv:
  assumes m: "2 \<le> m" and S: "S = 2 * (m - 1)" and p: "p \<le> S"
    and inv: "inplace_inv m s (min (q * S + p) (length s)) st"
  shows "\<exists>st'. best_inner (int m) (int S) (int p) (head_counter m p) (head_direction m p) st = Inr st'
           \<and> inplace_inv m s (min (q * S + S) (length s)) st'"
  using p inv
proof (induction "S - p" arbitrary: p st)
  case 0
  then show ?case by (auto simp: best_inner.simps)
next
  case (Suc k)
  define i where "i = q * S + p"
  define z where "z = int (zz_row m i)"
  define d where "d = (if int p = int m then - 1 else head_direction m p)"
  from Suc.hyps(2) have p: "p < S" by simp
  have z: "z = (if int p = int m then head_counter m p - 2 else head_counter m p)"
    using phases(1,2) [of p m] p by (simp add: S i_def z_def)
  have next_head: "z + d = head_counter m (Suc p)" "d = head_direction m (Suc p)"
    using phases(1,3,4) [of p m] p by (simp_all add: S i_def z_def d_def)
  have suc: "int p + 1 = int (Suc p)" by simp
  note unfolded = best_inner.simps [of "int m" "int S" "int p"] Let_def z [symmetric] d_def [symmetric]
    suc next_head
  show ?case
  proof (cases "length s \<le> i")
    case True
    then have mins: "min (q * S + p) (length s) = length s" "min (q * S + S) (length s) = length s"
      using p by (simp_all add: i_def)
    have inv: "inplace_inv m s (length s) st" using Suc.prems(2) unfolding mins(1) .
    then have "siter st = length (text_of st)" by (simp add: inplace_inv_end)
    then show ?thesis
      using inv p unfolding unfolded mins(2) by simp
  next
    case False
    then have inv: "inplace_inv m s i st" and i: "i < length s"
      using Suc.prems(2) by (simp_all add: i_def)
    obtain st' where st': "put_letter st z (s ! i) = Inr st'"
        "inplace_inv m s (Suc i) (st'\<lparr>siter := Suc i\<rparr>)"
      using put_letter_step [OF m inv i] z_def by metis
    have "put_letter (st\<lparr>siter := siter st + 1\<rparr>) z (s ! i) = Inr (st'\<lparr>siter := Suc i\<rparr>)"
      using put_letter_siter [OF st'(1), of "Suc i"] inv by (simp add: inplace_inv_siter)
    moreover have "min (q * S + Suc p) (length s) = Suc i" using i by (simp add: i_def)
    then have "\<exists>st''. best_inner (int m) (int S) (int (Suc p)) (head_counter m (Suc p))
        (head_direction m (Suc p)) (st'\<lparr>siter := Suc i\<rparr>) = Inr st''
        \<and> inplace_inv m s (min (q * S + S) (length s)) st''"
      using Suc.hyps(2) p st'(2) by (intro Suc.hyps(1)) auto
    moreover have "z + head_direction m (Suc p) = head_counter m (Suc p)"
      using next_head by simp
    ultimately show ?thesis
      using inplace_inv_read [OF inv i] p unfolding unfolded by (simp del: of_nat_Suc)
  qed
qed

lemma best_outer_inv:
  assumes m: "2 \<le> m" and S: "S = 2 * (m - 1)" and q: "q \<le> N"
    and inv: "inplace_inv m s (min (q * S) (length s)) st"
  shows "\<exists>st'. best_outer (int m) (int S) (int N) (int q) st = Inr st'
           \<and> inplace_inv m s (min (N * S) (length s)) st'"
  using q inv
proof (induction "N - q" arbitrary: q st)
  case 0
  then show ?case by (auto simp: best_outer.simps)
next
  case (Suc k)
  then have q: "q < N" by simp
  obtain st' where st': "best_inner (int m) (int S) 0 0 1 st = Inr st'"
      "inplace_inv m s (min (Suc q * S) (length s)) st'"
    using best_inner_inv [OF m S le0, of s q st] Suc.prems(2) by (auto simp: add.commute)
  have "\<exists>st''. best_outer (int m) (int S) (int N) (int (Suc q)) st' = Inr st''
      \<and> inplace_inv m s (min (N * S) (length s)) st''"
    using Suc.hyps(2) q st'(2) by (intro Suc.hyps(1)) auto
  with st'(1) q show ?case
    by (simp add: best_outer.simps [of "int m" "int S" "int N" "int q"] add.commute)
qed

text \<open>The two loops of \<open>convert_best1\<close>.\<close>

lemma best1_down_inv:
  assumes m: "2 \<le> m" and S: "S = 2 * (m - 1)" and p: "p \<le> m"
    and inv: "inplace_inv m s (min (q * S + p) (length s)) st"
  shows "\<exists>st'. best1_down (int m) (int p) st = Inr st'
           \<and> inplace_inv m s (min (q * S + m) (length s)) st'"
  using p inv
proof (induction "m - p" arbitrary: p st)
  case 0
  then show ?case by (auto simp: best1_down.simps)
next
  case (Suc k)
  define i where "i = q * S + p"
  from Suc.hyps(2) have p: "p < m" by simp
  have z: "zz_row m i = p"
    using zz_row_phase [of p m q] p m by (simp add: S i_def)
  have suc: "int p + 1 = int (Suc p)" by simp
  note unfolded = best1_down.simps [of "int m" "int p"] suc
  show ?case
  proof (cases "length s \<le> i")
    case True
    then have mins: "min (q * S + p) (length s) = length s" "min (q * S + m) (length s) = length s"
      using p by (simp_all add: i_def)
    have inv: "inplace_inv m s (length s) st" using Suc.prems(2) unfolding mins(1) .
    then have "siter st = length (text_of st)" by (simp add: inplace_inv_end)
    then show ?thesis
      using inv p unfolding unfolded mins(2) by simp
  next
    case False
    then have inv: "inplace_inv m s i st" and i: "i < length s"
      using Suc.prems(2) by (simp_all add: i_def)
    obtain st' where st': "put_letter st (int p) (s ! i) = Inr st'" "siter st' = i"
        "inplace_inv m s (Suc i) (st'\<lparr>siter := Suc i\<rparr>)"
      using put_letter_step [OF m inv i] z by metis
    have "min (q * S + Suc p) (length s) = Suc i" using i by (simp add: i_def)
    then have "\<exists>st''. best1_down (int m) (int (Suc p)) (st'\<lparr>siter := Suc i\<rparr>) = Inr st''
        \<and> inplace_inv m s (min (q * S + m) (length s)) st''"
      using Suc.hyps(2) p st'(3) by (intro Suc.hyps(1)) auto
    then show ?thesis
      using inplace_inv_read [OF inv i] p st'(1,2) unfolding unfolded by (simp del: of_nat_Suc)
  qed
qed

lemma best1_up_inv:
  assumes m: "2 \<le> m" and S: "S = 2 * (m - 1)" and u: "u \<le> m - 2"
    and inv: "inplace_inv m s (min (q * S + (S - u)) (length s)) st"
  shows "\<exists>st'. best1_up (int u) st = Inr st'
           \<and> inplace_inv m s (min (q * S + S) (length s)) st'"
  using u inv
proof (induction u arbitrary: st)
  case 0
  then show ?case by (auto simp: best1_up.simps)
next
  case (Suc u)
  define i where "i = q * S + (S - Suc u)"
  have z: "zz_row m i = Suc u"
    using zz_row_phase [of "S - Suc u" m q, folded S] Suc.prems(1) m unfolding i_def
    by (auto simp: S split: if_splits)
  have pred: "int (Suc u) - 1 = int u" by simp
  note unfolded = best1_up.simps [of "int (Suc u)"] pred
  show ?case
  proof (cases "length s \<le> i")
    case True
    then have mins: "min (q * S + (S - Suc u)) (length s) = length s"
        "min (q * S + S) (length s) = length s"
      by (simp_all add: i_def)
    have inv: "inplace_inv m s (length s) st" using Suc.prems(2) unfolding mins(1) .
    then have "siter st = length (text_of st)" by (simp add: inplace_inv_end)
    then show ?thesis
      using inv unfolding unfolded mins(2) by simp
  next
    case False
    then have inv: "inplace_inv m s i st" and i: "i < length s"
      using Suc.prems(2) by (simp_all add: i_def)
    obtain st' where st': "put_letter st (int (Suc u)) (s ! i) = Inr st'" "siter st' = i"
        "inplace_inv m s (Suc i) (st'\<lparr>siter := Suc i\<rparr>)"
      using put_letter_step [OF m inv i] z by metis
    have "q * S + (S - u) = Suc i" using Suc.prems(1) m by (simp add: i_def S)
    then have "min (q * S + (S - u)) (length s) = Suc i" using i by simp
    then have "\<exists>st''. best1_up (int u) (st'\<lparr>siter := Suc i\<rparr>) = Inr st''
        \<and> inplace_inv m s (min (q * S + S) (length s)) st''"
      using Suc.prems(1) st'(3) by (intro Suc.IH) auto
    then show ?thesis
      using inplace_inv_read [OF inv i] st'(1,2) unfolding unfolded by (simp del: of_nat_Suc)
  qed
qed

lemma best1_outer_inv:
  assumes m: "2 \<le> m" and S: "S = 2 * (m - 1)" and q: "q \<le> N"
    and inv: "inplace_inv m s (min (q * S) (length s)) st"
  shows "\<exists>st'. best1_outer (int m) (int N) (int q) st = Inr st'
           \<and> inplace_inv m s (min (N * S) (length s)) st'"
  using q inv
proof (induction "N - q" arbitrary: q st)
  case 0
  then show ?case by (auto simp: best1_outer.simps)
next
  case (Suc k)
  then have q: "q < N" by simp
  obtain st1 where st1: "best1_down (int m) 0 st = Inr st1"
      "inplace_inv m s (min (q * S + m) (length s)) st1"
    using best1_down_inv [OF m S le0, of s q st] Suc.prems(2) by auto
  have "S - (m - 2) = m" using m by (simp add: S)
  then obtain st' where st': "best1_up (int (m - 2)) st1 = Inr st'"
      "inplace_inv m s (min (Suc q * S) (length s)) st'"
    using best1_up_inv [OF m S le_refl, of s q st1] st1(2) by (auto simp: add.commute)
  have "int m - 2 = int (m - 2)" using m by simp
  note sub = this
  have "\<exists>st''. best1_outer (int m) (int N) (int (Suc q)) st' = Inr st''
      \<and> inplace_inv m s (min (N * S) (length s)) st''"
    using Suc.hyps(2) q st'(2) by (intro Suc.hyps(1)) auto
  with st1(1) st'(1) q show ?case
    by (simp add: best1_outer.simps [of "int m" "int N" "int q"] sub add.commute)
qed

section \<open>The rows are the letters of the text\<close>

lemma mset_rows_snoc:
  "mset (concat (map (\<lambda>r. f r @ (if k = r then [c] else [])) [0..<n]))
     = mset (concat (map f [0..<n])) + (if k < n then {#c#} else {#})"
  by (induction n) auto

lemma mset_rows_upto:
  "(\<And>i. i < length s \<Longrightarrow> zz_row m i < n) \<Longrightarrow> mset (concat (rows_upto m n s)) = mset s"
proof (induction s rule: rev_induct)
  case Nil
  then show ?case by (simp add: rows_upto_def)
next
  case (snoc c s)
  then have "mset (concat (rows_upto m n s)) = mset s" by simp
  then show ?case
    using snoc.prems [of "length s"]
    by (simp add: rows_upto_def mset_rows_snoc del: mset_concat)
qed

lemma mset_zigzag: "1 \<le> m \<Longrightarrow> mset (zigzag m s) = mset s"
  using mset_rows_upto [of s m m] zz_row_less [of m] by (auto simp: zigzag_def)

lemma length_rows: "2 \<le> m \<Longrightarrow> length (concat (rows_upto m m s)) = length s"
  using mset_rows_upto [of s m m] zz_row_less [of m] by (metis size_mset)

lemma row_str_beyond:
  "(\<And>i. i < length s \<Longrightarrow> zz_row m i \<noteq> r) \<Longrightarrow> row_str m r s = []"
  by (induction s rule: rev_induct) auto

section \<open>The copy back of the in-place variants\<close>

lemma replace_rows_concat:
  assumes "length buf = length (pre @ concat rs)" "take (length pre) buf = pre"
  shows "replace_rows buf (length pre) rs = Inr (pre @ concat rs)"
  using assms
proof (induction rs arbitrary: buf pre)
  case Nil
  then show ?case by simp
next
  case (Cons r rs)
  let ?t = "pre @ r @ drop (length pre + length r) buf"
  have "str_replace buf (length pre) (length r) r = Inr ?t"
    using Cons.prems by (simp add: str_replace_def)
  moreover have "replace_rows ?t (length (pre @ r)) rs = Inr ((pre @ r) @ concat rs)"
    using Cons.prems by (intro Cons.IH) simp_all
  ultimately show ?case by simp
qed

lemma finish_inplace_rows:
  assumes m: "2 \<le> m" and inv: "inplace_inv m s (length s) st"
  shows "finish_inplace st = Inr (concat (rows_upto m m s))"
proof -
  let ?rs = "map (\<lambda>r. row_str m (Suc r) s) [0..<m - 1]"
  have rows: "row_to_slice st = ?rs" "row_to_slice st \<noteq> []"
    using inv m by (simp_all add: inplace_inv_def)
  have upt: "[0..<m] = 0 # map Suc [0..<m - 1]"
    using m by (cases m) (simp_all add: upt_conv_Cons map_Suc_upt del: upt_Suc)
  have split: "concat (rows_upto m m s) = row_str m 0 s @ concat ?rs"
    unfolding rows_upto_def upt by (simp add: comp_def)
  have "replace_rows (text_of st) (length (row_str m 0 s)) ?rs = Inr (row_str m 0 s @ concat ?rs)"
    using inv length_rows [OF m, of s]
    by (intro replace_rows_concat) (auto simp: inplace_inv_def split)
  moreover have "in_place_counter st = length (row_str m 0 s)"
    using inv by (simp add: inplace_inv_def)
  moreover have "finish_inplace st = replace_rows (text_of st) (in_place_counter st) (row_to_slice st)"
    using rows(2) unfolding finish_inplace_def by (cases "row_to_slice st") simp_all
  ultimately show ?thesis
    unfolding rows(1) split by simp
qed

section \<open>Properties\<close>

lemma int_rows:
  assumes "(1::int) \<le> numRows" "numRows \<noteq> 1"
  obtains m where "numRows = int m" "2 \<le> m"
  using assms by (metis One_nat_def Suc_1 Suc_leI int_one_le_iff_zero_less le_neq_implies_less
      nonneg_int_cases of_nat_1 order_trans zero_le_one of_nat_le_iff)

lemma concat_rows_min:
  assumes "2 \<le> m"
  shows "concat (rows_upto m (min m (length s)) s) = concat (rows_upto m m s)"
proof -
  have "row_str m r s = []" if "min m (length s) \<le> r" "r < m" for r
    using that zz_row_le [of m] by (intro row_str_beyond) (metis leD le_less_trans min.absorb2 min_le_iff_disj)
  then show ?thesis
    unfolding rows_upto_def by (intro concat_map_upt_append_Nil [symmetric]) auto
qed

lemma convert_ref_rows:
  assumes m: "2 \<le> m" and ok: "int (length s) \<le> int_max"
  shows "convert_ref s (int m) = Inr (concat (rows_upto m m s))"
proof -
  have len: "to_int (int (length s)) = int (length s)"
    using ok by (simp add: in_int_of_nat)
  have "zz_row m i < min m (length s)" if "i < length s" for i
    using that zz_row_less [OF m, of i] zz_row_le [of m i] by simp
  moreover have zz0: "zz_row m 0 = 0" using zz_row_le [of m 0] by simp
  ultimately have "ref_loop s (int m) (replicate (min m (length s)) []) 0 False
      = Inr (rows_upto m (min m (length s)) s)"
    using ref_loop_rows [OF m, of "[]" s "min m (length s)"]
    by (simp add: rows_upto_Nil zz0 going_down_def)
  moreover have "nat (min (int m) (int (length s))) = min m (length s)" by simp
  ultimately show ?thesis
    using m unfolding convert_ref_def len Let_def by (simp add: concat_rows_min)
qed

text \<open>The bounds under which the \<open>int\<close> arithmetic of a conversion does not overflow.\<close>

lemma stride_ok:
  assumes S: "S = 2 * (m - 1)" and m: "2 \<le> m" and ok: "int (length s) + 2 * int m \<le> int_max"
  shows "stride (int m) = Inr (int S)" "cint (int m - 1) = Inr (int (m - 1))"
    "0 < S" "int (length s + S) \<le> int_max"
proof -
  have "in_int (int m - 1)" "in_int ((int m - 1) * 2)"
    using m ok by (auto simp: in_int_def int_min_def)
  with m ok show "stride (int m) = Inr (int S)" "cint (int m - 1) = Inr (int (m - 1))"
    by (simp_all add: S stride_def of_nat_diff)
  show "0 < S" "int (length s + S) \<le> int_max" using m ok by (simp_all add: S)
qed

lemma forge_rows:
  assumes m: "2 \<le> m" and S: "S = 2 * (m - 1)"
  shows "forge_loop s (int m) (int S) (replicate m []) 0 0 1 = Inr (rows_upto m m s)"
  using forge_loop_rows [OF m S, of s "[]"] by (simp add: rows_upto_Nil)

lemma conversions_rows:
  assumes m: "2 \<le> m" and ok: "int (length s) + 2 * int m \<le> int_max"
  shows "convert_base s (int m) = Inr (concat (rows_upto m m s))"
    and "convert_forge s (int m) = Inr (concat (rows_upto m m s))"
    and "serves (length s * 16) s (int m) \<Longrightarrow>
           convert_arena serves s (int m) = Inr (concat (rows_upto m m s))"
    and "convert_best s (int m) = Inr (concat (rows_upto m m s))"
    and "convert_best1 s (int m) = Inr (concat (rows_upto m m s))"
proof -
  define S where S: "S = 2 * (m - 1)"
  let ?st = "start_inplace s (replicate (m - 1) [])"
  note st = stride_ok [OF S m ok]
  obtain N where
    N: "stride_count (length s) (int S) = int N" "length s \<le> N * S" "int (N * S) \<le> int_max"
    by (rule stride_count_covers [OF st(3,4)])
  have "base_outer s (int m) (int S) (int N) 0 (rows_upto m m []) = Inr (rows_upto m m s)"
    using base_outer_rows [OF m S le0 N(3), of s] N(2) by simp
  then show "convert_base s (int m) = Inr (concat (rows_upto m m s))"
    using m unfolding convert_base_def st(1) bindr_simps N(1)
    by (simp add: new_rows_def rows_upto_Nil N(1) del: of_nat_mult)
  show "convert_forge s (int m) = Inr (concat (rows_upto m m s))"
    using m unfolding convert_forge_def st(1) bindr_simps
    by (simp add: new_rows_def forge_rows [OF m S])
  show "convert_arena serves s (int m) = Inr (concat (rows_upto m m s))"
    if "serves (length s * 16) s (int m)"
    using m that unfolding convert_arena_def st(1) bindr_simps
    by (simp add: forge_rows [OF m S])
  have rows: "new_rows (int (m - 1)) = Inr (replicate (m - 1) [])"
    using m by (simp add: new_rows_def)
  have start: "inplace_inv m s (min (0 * S) (length s)) ?st"
    using inplace_inv_start by simp
  have all: "min (N * S) (length s) = length s" using N(2) by simp
  obtain st1 where "best_outer (int m) (int S) (int N) 0 ?st = Inr st1"
      "inplace_inv m s (length s) st1"
    using best_outer_inv [OF m S le0 start, of N] unfolding all by auto
  then show "convert_best s (int m) = Inr (concat (rows_upto m m s))"
    using m unfolding convert_best_def st(1,2) bindr_simps rows N(1)
    by (simp add: finish_inplace_rows [OF m])
  obtain st2 where "best1_outer (int m) (int N) 0 ?st = Inr st2" "inplace_inv m s (length s) st2"
    using best1_outer_inv [OF m S le0 start, of N] unfolding all by auto
  then show "convert_best1 s (int m) = Inr (concat (rows_upto m m s))"
    using m unfolding convert_best1_def st(1,2) bindr_simps rows N(1)
    by (simp add: finish_inplace_rows [OF m])
qed

text \<open>
  C9. The reference conversion never accesses a row outside the array and returns the
  zigzag reading of the text, for every number of rows from 1 and every text whose length
  an \<open>int\<close> holds.
\<close>

theorem convert_ref_zigzag:
  assumes "1 \<le> numRows" "int (length s) \<le> int_max"
  shows "convert_ref s numRows = Inr (zigzag (nat numRows) s)"
proof (cases "numRows = 1")
  case True
  then show ?thesis by (simp add: convert_ref_def zigzag_def)
next
  case False
  with assms(1) obtain m where "numRows = int m" "2 \<le> m" by (rule int_rows)
  then show ?thesis using convert_ref_rows [OF _ assms(2)] by (simp add: zigzag_def)
qed

theorem convert_ref_zigzag_witness:
  "convert_ref ''PAYPALISHIRING'' 3 = Inr (zigzag 3 ''PAYPALISHIRING'')
   \<and> convert_ref ''PAYPALISHIRING'' 3 = Inr ''PAHNAPLSIIGYIR''"
proof
  show "convert_ref ''PAYPALISHIRING'' 3 = Inr (zigzag 3 ''PAYPALISHIRING'')"
    using convert_ref_zigzag [of 3 "''PAYPALISHIRING''"] by (simp add: int_max_def)
  show "convert_ref ''PAYPALISHIRING'' 3 = Inr ''PAHNAPLSIIGYIR''"
    by code_simp
qed

text \<open>
  C23. The three conversions with an index into the stride return what the reference returns,
  while the length of the text plus a stride fits an \<open>int\<close> and, for \<open>convert_arena\<close>, the
  arena serves the rows.
\<close>

theorem stride_conversions_ref:
  assumes "1 \<le> numRows" "int (length s) + 2 * numRows \<le> int_max"
  shows "convert_base s numRows = convert_ref s numRows
       \<and> convert_forge s numRows = convert_ref s numRows
       \<and> (serves (length s * 16) s numRows
          \<longrightarrow> convert_arena serves s numRows = convert_ref s numRows)"
proof (cases "numRows = 1")
  case True
  then show ?thesis
    by (simp add: convert_ref_def convert_base_def convert_forge_def convert_arena_def)
next
  case False
  with assms(1) obtain m where m: "numRows = int m" "2 \<le> m" by (rule int_rows)
  then have "convert_ref s numRows = Inr (concat (rows_upto m m s))"
    using assms by (simp add: convert_ref_rows)
  with m conversions_rows(1,2) [OF m(2), of s] conversions_rows(3) [OF m(2), of s serves] assms(2) show ?thesis by simp
qed

theorem stride_conversions_ref_witness:
  "convert_base ''ABCDEFG'' 3 = convert_ref ''ABCDEFG'' 3
   \<and> convert_forge ''ABCDEFG'' 3 = convert_ref ''ABCDEFG'' 3
   \<and> convert_arena (\<lambda>cap s n. length s < cap) ''ABCDEFG'' 3 = convert_ref ''ABCDEFG'' 3"
  using stride_conversions_ref [of 3 "''ABCDEFG''" "\<lambda>cap s n. length s < cap"]
  by (simp add: int_max_def)

text \<open>
  C2. The two conversions in place return what the reference returns: the prefix they
  overwrite never runs past the letters already read, and the copy back of the rows fills
  the rest of the text exactly.
\<close>

theorem inplace_conversions_ref:
  assumes "1 \<le> numRows" "int (length s) + 2 * numRows \<le> int_max"
  shows "convert_best s numRows = convert_ref s numRows
       \<and> convert_best1 s numRows = convert_ref s numRows"
proof (cases "numRows = 1")
  case True
  then show ?thesis
    by (simp add: convert_ref_def convert_best_def convert_best1_def)
next
  case False
  with assms(1) obtain m where m: "numRows = int m" "2 \<le> m" by (rule int_rows)
  then have "convert_ref s numRows = Inr (concat (rows_upto m m s))"
    using assms by (simp add: convert_ref_rows)
  with m conversions_rows(4,5) [OF m(2), of s] assms(2) show ?thesis by simp
qed

theorem inplace_conversions_ref_witness:
  "convert_best ''ABCDEFGHIJ'' 4 = convert_ref ''ABCDEFGHIJ'' 4
   \<and> convert_best1 ''ABCDEFGHIJ'' 4 = convert_ref ''ABCDEFGHIJ'' 4"
  using inplace_conversions_ref [of 4 "''ABCDEFGHIJ''"] by (simp add: int_max_def)

text \<open>
  A conversion permutes the letters: none is lost, added or changed.
\<close>

theorem convert_best1_permutes:
  assumes "1 \<le> numRows" "int (length s) + 2 * numRows \<le> int_max" "convert_best1 s numRows = Inr t"
  shows "mset t = mset s \<and> length t = length s"
proof (cases "numRows = 1")
  case True
  with assms(3) show ?thesis by (simp add: convert_best1_def)
next
  case False
  with assms(1) obtain m where m: "numRows = int m" "2 \<le> m" by (rule int_rows)
  then have "t = concat (rows_upto m m s)"
    using assms conversions_rows(5) [OF m(2), of s] by simp
  with m(2) mset_rows_upto [of s m m] zz_row_less show ?thesis
    using length_rows by simp
qed

theorem convert_best1_permutes_witness:
  "mset ''AGBFCED'' = mset ''ABCDEFG'' \<and> length ''AGBFCED'' = length ''ABCDEFG''"
proof (rule convert_best1_permutes)
  show "(1::int) \<le> 4" by simp
  show "int (length ''ABCDEFG'') + 2 * 4 \<le> int_max" by (simp add: int_max_def)
  show "convert_best1 ''ABCDEFG'' 4 = Inr ''AGBFCED''" by code_simp
qed

text \<open>
  Without a row to write to, no conversion returns a string: a negative count makes the
  container or the array allocation throw, and \<open>convert_ref\<close> with 0 rows writes outside the
  array as soon as there is a letter.
\<close>

theorem no_rows_no_result:
  assumes "numRows \<le> 0" "int_min < numRows" "s \<noteq> []" "int (length s) \<le> int_max"
  shows "convert_ref s numRows = Inl (if numRows < 0 then Length_Error else Undefined_Behaviour)
       \<and> convert_base s numRows
           = Inl (if numRows < 0 then Bad_Array_New_Length else Undefined_Behaviour)
       \<and> convert_forge s numRows = convert_base s numRows
       \<and> convert_best s numRows = Inl Bad_Array_New_Length
       \<and> convert_best1 s numRows = Inl Bad_Array_New_Length"
proof -
  obtain c cs where s: "s = c # cs" using assms(3) by (cases s) auto
  have len: "to_int (int (length s)) = int (length s)"
    using assms(4) by (simp add: in_int_of_nat)
  have "convert_ref s numRows = Inl (if numRows < 0 then Length_Error else Undefined_Behaviour)"
    using assms(1) unfolding convert_ref_def len by (simp add: s row_append_def)
  moreover have "cint (numRows - 1) = Inr (numRows - 1)"
    using assms(1,2) by (simp add: in_int_def int_max_def)
  ultimately show ?thesis
    using assms(1) by (simp add: convert_base_def convert_forge_def convert_best_def
        convert_best1_def new_rows_def)
qed

theorem no_rows_no_result_witness:
  "convert_ref ''AB'' 0 = Inl Undefined_Behaviour \<and> convert_best ''AB'' 0 = Inl Bad_Array_New_Length"
  using no_rows_no_result [of 0 "''AB''"] by (simp add: int_max_def int_min_def)

text \<open>
  The unfinished conversion never returns the zigzag reading of a text: from two rows on,
  whatever it returns is empty, so that every letter is lost.
\<close>

theorem string_expansion_loses_text:
  assumes "2 \<le> numRows" "s \<noteq> []" "convert_orig_string_expansion s numRows = Inr t"
  shows "t = [] \<and> t \<noteq> zigzag (nat numRows) s"
proof -
  have "t = []"
    using assms by (auto simp: convert_orig_string_expansion_def bindr_eq_Inr Let_def split: if_splits)
  moreover have "zigzag (nat numRows) s \<noteq> []"
    using mset_zigzag [of "nat numRows" s] assms(1,2) by (metis One_nat_def Suc_leI mset_zero_iff
        nat_0_less_mult_iff nat_less_eq_zless not_numeral_le_zero zero_less_nat_eq less_le_trans zero_less_numeral)
  ultimately show ?thesis by simp
qed

theorem string_expansion_loses_text_witness:
  "[] = ([] :: string) \<and> [] \<noteq> zigzag (nat 2) ''AB''"
proof (rule string_expansion_loses_text)
  show "(2::int) \<le> 2" and "''AB'' \<noteq> []" by simp_all
  show "convert_orig_string_expansion ''AB'' 2 = Inr []" by code_simp
qed

end
