(* ===== verification/Rw_Semaphore.thy ===== *)
theory Rw_Semaphore
  imports Transition
begin

unbundle bit_operations_syntax

text \<open>
  The reader-writer spin lock of \<^verbatim>\<open>projects/high_perf/rw_semaphore.h\<close>: a 32-bit cell
  whose low 31 bits count the readers and whose top bit is the write flag. Every loop of the
  source is one transition per round, so that threads interleave between the load and the
  compare-and-swap, and between two rounds; \<open>boost::detail::yield\<close> changes nothing.

  The compare-and-swap of \<^verbatim>\<open>gutil/atomicops.h\<close> is not in the repository and is the
  parameter \<open>CompareAndSwap\<close>; what the code relies on is \<open>cas_contract\<close>. Loads and stores
  of the cell are plain, and the memory order is sequentially consistent.
\<close>

section \<open>The class\<close>

definition kNumReadersMask :: "32 word" where "kNumReadersMask = 0x7fffffff"
definition kWriteFlag :: "32 word" where "kWriteFlag = push_bit 31 1"

type_synonym cas_op = "32 word \<Rightarrow> 32 word \<Rightarrow> 32 word \<Rightarrow> 32 word \<times> 32 word"

text \<open>\<open>CompareAndSwap cell expected new\<close> is the new cell and the value that was read.\<close>

definition cas_contract :: "cas_op \<Rightarrow> bool" where
  "cas_contract CompareAndSwap \<longleftrightarrow> (\<forall>cell expected new.
     CompareAndSwap cell expected new = (if cell = expected then new else cell, cell))"

text \<open>Where a thread is; a loop keeps the \<open>cur_state\<close> it has read last.\<close>

datatype pc =
    Outside
  | Lock_Shared "32 word"
  | Reading
  | Unlock_Shared "32 word"
  | Lock "32 word"
  | WaitPendingReaders
  | Writing
  | Unlocking
  | Dcheck_Failed
  | Signed_Overflow

datatype call = Call_lock_shared | Call_lock

text \<open>
  One round of each loop: the new cell and the new program counter. \<open>Atomic32\<close> is a signed integer:
  \<open>expected + 1\<close> is undefined for its largest value.
\<close>

definition lock_shared_round :: "cas_op \<Rightarrow> 32 word \<Rightarrow> 32 word \<Rightarrow> 32 word \<times> pc" where
  "lock_shared_round CompareAndSwap cell cur_state =
     (let expected = cur_state AND kNumReadersMask in
      if expected = 0x7fffffff then (cell, Signed_Overflow)
      else let try_new_state = expected + 1;
               (cell', cur') = CompareAndSwap cell expected try_new_state
           in (cell', if cur' = expected then Reading else Lock_Shared cur'))"

definition unlock_shared_round :: "cas_op \<Rightarrow> 32 word \<Rightarrow> 32 word \<Rightarrow> 32 word \<times> pc" where
  "unlock_shared_round CompareAndSwap cell cur_state =
     (if \<not> 0 < cur_state AND kNumReadersMask then (cell, Dcheck_Failed)
      else let expected = cur_state;
               try_new_state = expected - 1;
               (cell', cur') = CompareAndSwap cell expected try_new_state
           in (cell', if cur' = expected then Outside else Unlock_Shared cur'))"

definition lock_round :: "cas_op \<Rightarrow> 32 word \<Rightarrow> 32 word \<Rightarrow> 32 word \<times> pc" where
  "lock_round CompareAndSwap cell cur_state =
     (let expected = cur_state AND kNumReadersMask;
          try_new_state = kWriteFlag OR expected;
          (cell', cur') = CompareAndSwap cell expected try_new_state
      in (cell', if cur' = expected then WaitPendingReaders else Lock cur'))"

definition wait_pending_readers_round :: "32 word \<Rightarrow> 32 word \<times> pc" where
  "wait_pending_readers_round cell =
     (cell, if 0 < cell AND kNumReadersMask then WaitPendingReaders else Writing)"

text \<open>\<open>unlock\<close> reads the cell for its \<open>DCHECK\<close> and stores into it afterwards.\<close>

definition unlock_step :: "32 word \<Rightarrow> 32 word \<times> pc" where
  "unlock_step cell = (cell, if cell = kWriteFlag then Unlocking else Dcheck_Failed)"

definition unlock_store :: "32 word \<Rightarrow> 32 word \<times> pc" where
  "unlock_store cell = (0, Outside)"

text \<open>The next transition of a thread: the call it makes, or a round of its loop.\<close>

definition thread_step :: "cas_op \<Rightarrow> call \<Rightarrow> 32 word \<Rightarrow> pc \<Rightarrow> 32 word \<times> pc" where
  "thread_step CompareAndSwap c cell p = (case p of
     Outside \<Rightarrow> (cell, case c of Call_lock_shared \<Rightarrow> Lock_Shared cell | Call_lock \<Rightarrow> Lock cell)
   | Lock_Shared cur \<Rightarrow> lock_shared_round CompareAndSwap cell cur
   | Reading \<Rightarrow> (cell, Unlock_Shared cell)
   | Unlock_Shared cur \<Rightarrow> unlock_shared_round CompareAndSwap cell cur
   | Lock cur \<Rightarrow> lock_round CompareAndSwap cell cur
   | WaitPendingReaders \<Rightarrow> wait_pending_readers_round cell
   | Writing \<Rightarrow> unlock_step cell
   | Unlocking \<Rightarrow> unlock_store cell
   | Dcheck_Failed \<Rightarrow> (cell, Dcheck_Failed)
   | Signed_Overflow \<Rightarrow> (cell, Signed_Overflow))"

record sem =
  sem_state :: "32 word"
  threads :: "pc list"

definition sem_init :: "nat \<Rightarrow> sem \<Rightarrow> bool" where
  "sem_init n s \<longleftrightarrow> s = \<lparr>sem_state = 0, threads = replicate n Outside\<rparr>"

inductive sem_step :: "cas_op \<Rightarrow> sem \<Rightarrow> sem \<Rightarrow> bool" for CompareAndSwap :: cas_op where
  "i < length (threads s) \<Longrightarrow>
   thread_step CompareAndSwap c (sem_state s) (threads s ! i) = (cell, p) \<Longrightarrow>
   sem_step CompareAndSwap s \<lparr>sem_state = cell, threads = (threads s)[i := p]\<rparr>"

section \<open>The cell as a count and a flag\<close>

lemma kNumReadersMask_mask: "kNumReadersMask = mask 31"
  by (simp add: kNumReadersMask_def mask_eq_decr_exp)

lemma unat_readers: "unat (w AND kNumReadersMask) = unat w mod 2 ^ 31"
  unfolding kNumReadersMask_mask take_bit_eq_mask [symmetric] unsigned_take_bit_eq
  by (rule take_bit_eq_mod)

lemma kWriteFlag_value: "kWriteFlag = 0x80000000"
  by (simp add: kWriteFlag_def push_bit_eq_mult)

lemma bit_kWriteFlag: "bit kWriteFlag n \<longleftrightarrow> n = 31"
  unfolding kWriteFlag_def bit_push_bit_iff bit_1_iff by auto

lemma flag_or: "kWriteFlag OR (w AND kNumReadersMask) = kWriteFlag + (w AND kNumReadersMask)"
proof -
  have "kWriteFlag AND (w AND kNumReadersMask) = 0"
    by (rule bit_word_eqI) (auto simp: bit_and_iff bit_kWriteFlag bit_mask_iff kNumReadersMask_mask)
  then show ?thesis by (simp only: disjunctive_add_eq_or)
qed

lemma masked_less: "unat (w AND kNumReadersMask) < 2 ^ 31"
  by (simp add: unat_readers)

lemma unat_flag_or: "unat (kWriteFlag OR (w AND kNumReadersMask)) = 2 ^ 31 + unat (w AND kNumReadersMask)"
  unfolding flag_or using masked_less [of w]
  by (subst unat_add_lem [THEN iffD1]) (simp_all add: kWriteFlag_value)

lemma positive_readers: "0 < w AND kNumReadersMask \<longleftrightarrow> unat w mod 2 ^ 31 \<noteq> 0"
  by (metis unat_readers unat_0 unat_eq_zero word_gt_0)

section \<open>The invariant\<close>

definition is_reader :: "pc \<Rightarrow> bool" where
  "is_reader p \<longleftrightarrow> p = Reading \<or> (\<exists>cur. p = Unlock_Shared cur)"

definition is_writer :: "pc \<Rightarrow> bool" where
  "is_writer p \<longleftrightarrow> p = WaitPendingReaders \<or> p = Writing \<or> p = Unlocking"

definition is_inside :: "pc \<Rightarrow> bool" where
  "is_inside p \<longleftrightarrow> p = Writing \<or> p = Unlocking"

definition pc_ok :: "pc \<Rightarrow> bool" where
  "pc_ok p \<longleftrightarrow> p \<noteq> Dcheck_Failed \<and> p \<noteq> Signed_Overflow
     \<and> (\<forall>cur. p = Unlock_Shared cur \<longrightarrow> unat cur mod 2 ^ 31 \<noteq> 0)
     \<and> (\<forall>cur. p = Lock_Shared cur \<longrightarrow> unat cur mod 2 ^ 31 < 2 ^ 31 - 1)"

abbreviation readers :: "sem \<Rightarrow> nat" where "readers s \<equiv> number is_reader (threads s)"
abbreviation writers :: "sem \<Rightarrow> nat" where "writers s \<equiv> number is_writer (threads s)"

definition sem_inv :: "sem \<Rightarrow> bool" where
  "sem_inv s \<longleftrightarrow>
     length (threads s) < 2 ^ 31 \<and> writers s \<le> 1 \<and>
     unat (sem_state s) = readers s + 2 ^ 31 * writers s \<and>
     (0 < number is_inside (threads s) \<longrightarrow> readers s = 0) \<and>
     (\<forall>p \<in> set (threads s). pc_ok p)"

lemma is_reader_simps [simp]:
  "\<not> is_reader Outside" "\<not> is_reader (Lock_Shared c)" "is_reader Reading"
  "is_reader (Unlock_Shared c)" "\<not> is_reader (Lock c)" "\<not> is_reader WaitPendingReaders"
  "\<not> is_reader Writing" "\<not> is_reader Unlocking" "\<not> is_reader Dcheck_Failed" "\<not> is_reader Signed_Overflow"
  by (simp_all add: is_reader_def)

lemma is_writer_simps [simp]:
  "\<not> is_writer Outside" "\<not> is_writer (Lock_Shared c)" "\<not> is_writer Reading"
  "\<not> is_writer (Unlock_Shared c)" "\<not> is_writer (Lock c)" "is_writer WaitPendingReaders"
  "is_writer Writing" "is_writer Unlocking"
  by (simp_all add: is_writer_def)

lemma is_inside_simps [simp]:
  "\<not> is_inside Outside" "\<not> is_inside (Lock_Shared c)" "\<not> is_inside Reading"
  "\<not> is_inside (Unlock_Shared c)" "\<not> is_inside (Lock c)" "\<not> is_inside WaitPendingReaders"
  "is_inside Writing" "is_inside Unlocking"
  by (simp_all add: is_inside_def)

lemma pc_ok_simps [simp]:
  "pc_ok Outside" "pc_ok (Lock_Shared c) \<longleftrightarrow> unat c mod 2 ^ 31 < 2 ^ 31 - 1" "pc_ok Reading" "pc_ok (Lock c)"
  "pc_ok WaitPendingReaders" "pc_ok Writing" "pc_ok Unlocking" "\<not> pc_ok Dcheck_Failed" "\<not> pc_ok Signed_Overflow"
  "pc_ok (Unlock_Shared c) \<longleftrightarrow> unat c mod 2 ^ 31 \<noteq> 0"
  by (auto simp: pc_ok_def)

text \<open>What one transition of thread \<open>i\<close> does to the two counts and to the cell.\<close>

lemma sem_inv_update:
  assumes inv: "sem_inv s" and i: "i < length (threads s)" "threads s ! i = q" and p: "pc_ok p"
    and cell: "unat cell + (if is_reader q then 1 else 0) + (if is_writer q then 2 ^ 31 else 0)
             = unat (sem_state s) + (if is_reader p then 1 else 0) + (if is_writer p then 2 ^ 31 else 0)"
    and w: "is_writer p \<Longrightarrow> \<not> is_writer q \<Longrightarrow> writers s = 0"
    and r: "is_reader p \<Longrightarrow> \<not> is_reader q \<Longrightarrow> number is_inside (threads s) = 0"
    and r0: "is_inside p \<Longrightarrow> readers s = 0"
  shows "sem_inv \<lparr>sem_state = cell, threads = (threads s)[i := p]\<rparr>"
proof -
  let ?t = "(threads s)[i := p]"
  have R: "number is_reader ?t + (if is_reader q then 1 else 0) = readers s + (if is_reader p then 1 else 0)"
    using number_update [OF i(1), of is_reader p] i(2) by simp
  have W: "number is_writer ?t + (if is_writer q then 1 else 0) = writers s + (if is_writer p then 1 else 0)"
    using number_update [OF i(1), of is_writer p] i(2) by simp
  have "writers s \<le> 1" using inv by (simp add: sem_inv_def)
  then have W1: "number is_writer ?t \<le> 1"
    using W w by (auto split: if_splits)
  have "unat cell = number is_reader ?t + 2 ^ 31 * number is_writer ?t"
    using R W cell inv unfolding sem_inv_def by (auto split: if_splits)
  moreover have "number is_reader ?t = 0" if "0 < number is_inside ?t"
  proof -
    have wr: "is_inside p \<or> 0 < number is_inside (threads s)"
      using number_update [OF i(1), of is_inside p] that by (cases "is_inside p") (auto split: if_splits)
    then have "readers s = 0" using r0 inv by (auto simp: sem_inv_def)
    moreover have "\<not> is_reader p \<or> is_reader q"
      using wr r by (cases p) auto
    ultimately show ?thesis using R by (auto split: if_splits)
  qed
  moreover have "\<forall>p \<in> set ?t. pc_ok p"
    using inv p set_update_subset_insert [of "threads s" i p] by (auto simp: sem_inv_def)
  ultimately show ?thesis
    using inv W1 by (simp add: sem_inv_def)
qed

lemma sem_inv_cell:
  assumes "sem_inv s"
  shows "unat (sem_state s) mod 2 ^ 31 = readers s"
    and "unat (sem_state s) < 2 ^ 31 \<Longrightarrow> writers s = 0"
proof -
  have "readers s < 2 ^ 31"
    using assms number_le_length [of is_reader "threads s"] by (simp add: sem_inv_def)
  then show "unat (sem_state s) mod 2 ^ 31 = readers s"
    using assms by (simp add: sem_inv_def)
  show "unat (sem_state s) < 2 ^ 31 \<Longrightarrow> writers s = 0"
    using assms by (simp add: sem_inv_def)
qed

lemma inside_le_writers: "number is_inside ts \<le> number is_writer ts"
  unfolding number_def by (induction ts) (auto simp: is_inside_def is_writer_def)

lemma sem_inv_no_writing: "writers s = 0 \<Longrightarrow> number is_inside (threads s) = 0"
  using inside_le_writers [of "threads s"] by simp

text \<open>A thread that is no reader leaves room for one more in the count.\<close>

lemma room_for_reader:
  assumes "sem_inv s" "i < length (threads s)" "\<not> is_reader (threads s ! i)"
  shows "unat (sem_state s) mod 2 ^ 31 < 2 ^ 31 - 1"
  using number_less_length [where P = is_reader, OF assms(2,3)] assms(1) sem_inv_cell(1) [OF assms(1)]
  by (simp add: sem_inv_def)

lemma reader_positive:
  assumes "i < length (threads s)" "is_reader (threads s ! i)"
  shows "0 < readers s"
  using assms by (rule number_pos)

lemma unat_plus_one:
  fixes w :: "32 word"
  shows "unat w < 2 ^ 31 \<Longrightarrow> unat (w + 1) = Suc (unat w)"
  by (subst unat_add_lem [THEN iffD1]) simp_all

lemma unat_minus_one_pos:
  fixes w :: "32 word"
  shows "unat w \<noteq> 0 \<Longrightarrow> Suc (unat (w - 1)) = unat w"
  by (metis Suc_pred' gr0I unat_0 unat_minus_one)

lemma lock_shared_keeps:
  assumes cas: "cas_contract CAS" and inv: "sem_inv s"
    and i: "i < length (threads s)" "threads s ! i = Lock_Shared cur"
    and step: "lock_shared_round CAS (sem_state s) cur = (cell, p)"
  shows "sem_inv \<lparr>sem_state = cell, threads = (threads s)[i := p]\<rparr>"
proof -
  have "pc_ok (Lock_Shared cur)" using inv i by (metis sem_inv_def nth_mem)
  then have "unat (cur AND kNumReadersMask) \<noteq> unat (0x7fffffff :: 32 word)" by (simp add: unat_readers)
  then have m: "cur AND kNumReadersMask \<noteq> 0x7fffffff" by metis
  show ?thesis
  proof (cases "sem_state s = cur AND kNumReadersMask")
    case True
    then have small: "unat (sem_state s) < 2 ^ 31" using masked_less by simp
    then have w: "writers s = 0" using sem_inv_cell(2) [OF inv] by blast
    from True step cas m have "cell = sem_state s + 1" "p = Reading"
      by (auto simp: lock_shared_round_def cas_contract_def Let_def)
    with unat_plus_one [OF small] sem_inv_no_writing [OF w] show ?thesis
      by (intro sem_inv_update [OF inv i]) simp_all
  next
    case False
    then have "cell = sem_state s" "p = Lock_Shared (sem_state s)"
      using step cas m by (auto simp: lock_shared_round_def cas_contract_def Let_def)
    then show ?thesis using room_for_reader [OF inv i(1)] i(2) by (intro sem_inv_update [OF inv i]) simp_all
  qed
qed

lemma unlock_shared_keeps:
  assumes cas: "cas_contract CAS" and inv: "sem_inv s"
    and i: "i < length (threads s)" "threads s ! i = Unlock_Shared cur"
    and step: "unlock_shared_round CAS (sem_state s) cur = (cell, p)"
  shows "sem_inv \<lparr>sem_state = cell, threads = (threads s)[i := p]\<rparr>"
proof -
  have "pc_ok (Unlock_Shared cur)"
    using inv i by (metis sem_inv_def nth_mem)
  then have pos: "0 < cur AND kNumReadersMask" by (simp add: positive_readers)
  have "0 < readers s" using i by (intro reader_positive [OF i(1)]) simp
  then have held: "unat (sem_state s) mod 2 ^ 31 \<noteq> 0" using sem_inv_cell(1) [OF inv] by simp
  show ?thesis
  proof (cases "sem_state s = cur")
    case True
    then have "cell = sem_state s - 1" "p = Outside"
      using step cas pos by (auto simp: unlock_shared_round_def cas_contract_def Let_def)
    moreover have "unat (sem_state s) \<noteq> 0" using held by (metis mod_0)
    ultimately show ?thesis using unat_minus_one_pos [of "sem_state s"]
      by (intro sem_inv_update [OF inv i]) simp_all
  next
    case False
    then have "cell = sem_state s" "p = Unlock_Shared (sem_state s)"
      using step cas pos by (auto simp: unlock_shared_round_def cas_contract_def Let_def)
    then show ?thesis using held by (intro sem_inv_update [OF inv i]) simp_all
  qed
qed

lemma write_lock_keeps:
  assumes cas: "cas_contract CAS" and inv: "sem_inv s"
    and i: "i < length (threads s)" "threads s ! i = Lock cur"
    and step: "lock_round CAS (sem_state s) cur = (cell, p)"
  shows "sem_inv \<lparr>sem_state = cell, threads = (threads s)[i := p]\<rparr>"
proof (cases "sem_state s = cur AND kNumReadersMask")
  case True
  then have "unat (sem_state s) < 2 ^ 31" using masked_less by simp
  then have w: "writers s = 0" using sem_inv_cell(2) [OF inv] by blast
  from True step cas have "cell = kWriteFlag OR (cur AND kNumReadersMask)" "p = WaitPendingReaders"
    by (auto simp: lock_round_def cas_contract_def Let_def)
  with unat_flag_or [of cur] True w show ?thesis
    by (intro sem_inv_update [OF inv i]) simp_all
next
  case False
  then have "cell = sem_state s" "p = Lock (sem_state s)"
    using step cas by (auto simp: lock_round_def cas_contract_def Let_def)
  then show ?thesis by (intro sem_inv_update [OF inv i]) simp_all
qed

lemma inside_cell:
  assumes "sem_inv s" "i < length (threads s)" "is_inside (threads s ! i)"
  shows "sem_state s = kWriteFlag" "readers s = 0"
proof -
  have "0 < number is_inside (threads s)" using assms(2,3) by (rule number_pos)
  then show "readers s = 0" using assms(1) by (simp add: sem_inv_def)
  moreover have "0 < writers s" using \<open>0 < number is_inside (threads s)\<close> inside_le_writers [of "threads s"] by simp
  ultimately have "unat (sem_state s) = 2 ^ 31" using assms(1) by (simp add: sem_inv_def)
  then show "sem_state s = kWriteFlag"
    by (intro word_unat_eq_iff [THEN iffD2]) (simp add: kWriteFlag_value)
qed

lemma writing_keeps:
  assumes inv: "sem_inv s" and i: "i < length (threads s)" "threads s ! i = Writing"
    and step: "unlock_step (sem_state s) = (cell, p)"
  shows "sem_inv \<lparr>sem_state = cell, threads = (threads s)[i := p]\<rparr>"
proof -
  have flag: "sem_state s = kWriteFlag" and none: "readers s = 0" using inside_cell [OF inv i(1)] i(2) by simp_all
  then have "cell = sem_state s" "p = Unlocking" using step by (simp_all add: unlock_step_def)
  with flag none show ?thesis by (intro sem_inv_update [OF inv i]) simp_all
qed

lemma unlocking_keeps:
  assumes inv: "sem_inv s" and i: "i < length (threads s)" "threads s ! i = Unlocking"
    and step: "unlock_store (sem_state s) = (cell, p)"
  shows "sem_inv \<lparr>sem_state = cell, threads = (threads s)[i := p]\<rparr>"
proof -
  have flag: "sem_state s = kWriteFlag" using inside_cell(1) [OF inv i(1)] i(2) by simp
  have "cell = 0" "p = Outside" using step by (simp_all add: unlock_store_def)
  with flag show ?thesis
    by (intro sem_inv_update [OF inv i]) (simp_all add: kWriteFlag_value)
qed

lemma sem_inv_step:
  assumes cas: "cas_contract CAS" and inv: "sem_inv s" and step: "sem_step CAS s s'"
  shows "sem_inv s'"
  using step
proof cases
  case (1 i c cell p)
  note s' = 1(1) and i = 1(2) and t = 1(3) [unfolded thread_step_def]
  show ?thesis
  proof (cases "threads s ! i")
    case Outside
    then show ?thesis unfolding s' using t room_for_reader [OF inv i]
      by (intro sem_inv_update [OF inv i Outside]) (auto split: call.splits)
  next
    case (Lock_Shared cur)
    then show ?thesis unfolding s' using t by (intro lock_shared_keeps [OF cas inv i]) simp_all
  next
    case Reading
    have "0 < readers s" using Reading by (intro reader_positive [OF i]) simp
    then show ?thesis unfolding s' using t Reading sem_inv_cell(1) [OF inv]
      by (intro sem_inv_update [OF inv i Reading]) auto
  next
    case (Unlock_Shared cur)
    then show ?thesis unfolding s' using t by (intro unlock_shared_keeps [OF cas inv i]) simp_all
  next
    case (Lock cur)
    then show ?thesis unfolding s' using t by (intro write_lock_keeps [OF cas inv i]) simp_all
  next
    case WaitPendingReaders
    then show ?thesis unfolding s' using t sem_inv_cell(1) [OF inv]
      by (intro sem_inv_update [OF inv i WaitPendingReaders])
        (auto simp: wait_pending_readers_round_def positive_readers split: if_splits)
  next
    case Writing
    then show ?thesis unfolding s' using t by (intro writing_keeps [OF inv i]) simp_all
  next
    case Unlocking
    then show ?thesis unfolding s' using t by (intro unlocking_keeps [OF inv i]) simp_all
  next
    case Dcheck_Failed
    then have "Dcheck_Failed \<in> set (threads s)" using i by (metis nth_mem)
    then show ?thesis using inv by (auto simp: sem_inv_def)
  next
    case Signed_Overflow
    then have "Signed_Overflow \<in> set (threads s)" using i by (metis nth_mem)
    then show ?thesis using inv by (auto simp: sem_inv_def)
  qed
qed

lemma sem_inv_init: "sem_init n s \<Longrightarrow> n < 2 ^ 31 \<Longrightarrow> sem_inv s"
  by (auto simp: sem_inv_def sem_init_def)

text \<open>
  The contract determines the operation, so the semaphore provides the invariant for the one
  compare-and-swap that meets it.
\<close>

definition atomic_cas :: cas_op where
  "atomic_cas cell expected new = (if cell = expected then new else cell, cell)"

lemma atomic_cas_contract: "cas_contract atomic_cas"
  by (simp add: cas_contract_def atomic_cas_def)

lemma cas_contract_unique: "cas_contract CAS \<Longrightarrow> CAS = atomic_cas"
  by (intro ext) (simp add: cas_contract_def atomic_cas_def)

definition sem_start :: "sem \<Rightarrow> bool" where
  "sem_start s \<longleftrightarrow> (\<exists>n < 2 ^ 31. sem_init n s)"

interpretation rws: invariant_of sem_start "sem_step atomic_cas" sem_inv
proof
  show "sem_start s \<Longrightarrow> sem_inv s" for s
    by (auto simp: sem_start_def intro: sem_inv_init)
  show "sem_inv s \<Longrightarrow> sem_step atomic_cas s s' \<Longrightarrow> sem_inv s'" for s s'
    by (rule sem_inv_step [OF atomic_cas_contract])
qed

lemma sem_reach_inv:
  assumes "cas_contract CAS" "n < 2 ^ 31" "reach (sem_init n) (sem_step CAS) s"
  shows "sem_inv s"
proof (rule rws.reachable)
  show "reach sem_start (sem_step atomic_cas) s"
    using assms(3) unfolding cas_contract_unique [OF assms(1)]
    by (induction rule: reach.induct) (use assms(2) in \<open>auto simp: sem_start_def\<close>)
qed

section \<open>Properties\<close>

text \<open>
  C3. Mutual exclusion: while a thread is between \<open>lock\<close> and the store of its \<open>unlock\<close>, no other thread is a
  reader or a writer, whatever the interleaving, with fewer than \<open>2 ^ 31\<close> threads.
\<close>

theorem rw_mutual_exclusion:
  assumes "cas_contract CAS" "n < 2 ^ 31" "reach (sem_init n) (sem_step CAS) s"
    and "i < length (threads s)" "threads s ! i = Writing \<or> threads s ! i = Unlocking"
    and "j < length (threads s)" "j \<noteq> i"
  shows "\<not> is_reader (threads s ! j) \<and> \<not> is_writer (threads s ! j)"
proof -
  have inv: "sem_inv s" using assms(1-3) by (rule sem_reach_inv)
  have "readers s = 0" using inside_cell(2) [OF inv assms(4)] assms(5) by (simp add: is_inside_def)
  then have "\<not> is_reader (threads s ! j)"
    using number_pos [OF assms(6), of is_reader] by auto
  moreover have "writers s \<le> 1" using inv by (simp add: sem_inv_def)
  then have "\<not> is_writer (threads s ! j)"
    using number_one [OF _ assms(4,6), of is_writer] assms(5,7) by (auto simp: is_writer_def)
  ultimately show ?thesis by simp
qed

lemma sem_stepI:
  "i < length ts \<Longrightarrow> thread_step CAS c st (ts ! i) = (cell, p) \<Longrightarrow> ts' = ts[i := p] \<Longrightarrow>
   sem_step CAS \<lparr>sem_state = st, threads = ts\<rparr> \<lparr>sem_state = cell, threads = ts'\<rparr>"
  using sem_step.intros [of i "\<lparr>sem_state = st, threads = ts\<rparr>" CAS c cell p] by simp

text \<open>A run of two threads in which the first takes the write lock.\<close>

lemma writer_run:
  "reach (sem_init 2) (sem_step atomic_cas)
     \<lparr>sem_state = kWriteFlag, threads = [Writing, Lock_Shared kWriteFlag]\<rparr>"
proof -
  let ?r = "reach (sem_init 2) (sem_step atomic_cas)"
  have "?r \<lparr>sem_state = 0, threads = [Outside, Outside]\<rparr>"
    by (rule reach_init) (simp add: sem_init_def numeral_2_eq_2)
  then have "?r \<lparr>sem_state = 0, threads = [Lock 0, Outside]\<rparr>"
    by (rule reach_step) (rule sem_stepI [of 0 _ _ Call_lock], simp_all add: thread_step_def)
  then have "?r \<lparr>sem_state = kWriteFlag, threads = [WaitPendingReaders, Outside]\<rparr>"
    by (rule reach_step) (rule sem_stepI [of 0],
        simp_all add: thread_step_def lock_round_def atomic_cas_def)
  then have "?r \<lparr>sem_state = kWriteFlag, threads = [WaitPendingReaders, Lock_Shared kWriteFlag]\<rparr>"
    by (rule reach_step) (rule sem_stepI [of 1 _ _ Call_lock_shared], simp_all add: thread_step_def)
  then show ?thesis
    by (rule reach_step) (rule sem_stepI [of 0], simp_all add: thread_step_def
        wait_pending_readers_round_def positive_readers kWriteFlag_value)
qed

theorem rw_mutual_exclusion_witness:
  "\<not> is_reader (Lock_Shared kWriteFlag) \<and> \<not> is_writer (Lock_Shared kWriteFlag)"
  using rw_mutual_exclusion [OF atomic_cas_contract _ writer_run, of 0 1] by simp

text \<open>
  C24. The cell always holds the number of readers in its low 31 bits and the pending or active
  writer in its top bit; neither \<open>DCHECK\<close> of the source fails, and no count overflows.
\<close>

theorem rw_cell_counts:
  assumes "cas_contract CAS" "n < 2 ^ 31" "reach (sem_init n) (sem_step CAS) s"
  shows "unat (sem_state s) = readers s + 2 ^ 31 * writers s \<and> writers s \<le> 1
       \<and> Dcheck_Failed \<notin> set (threads s) \<and> Signed_Overflow \<notin> set (threads s)"
  using sem_reach_inv [OF assms] by (auto simp: sem_inv_def)

theorem rw_cell_counts_witness:
  "unat kWriteFlag = 0 + 2 ^ 31 * 1 \<and> (1::nat) \<le> 1
   \<and> Dcheck_Failed \<notin> set [Writing, Lock_Shared kWriteFlag]
   \<and> Signed_Overflow \<notin> set [Writing, Lock_Shared kWriteFlag]"
  using rw_cell_counts [OF atomic_cas_contract _ writer_run] by (simp add: number_def)

text \<open>
  C29. No writer starvation: from the moment a writer has set the flag until it unlocks, no
  step lets a thread become a reader.
\<close>

theorem rw_pending_writer_blocks_readers:
  assumes "cas_contract CAS" "n < 2 ^ 31" "reach (sem_init n) (sem_step CAS) s"
    and "0 < writers s" "sem_step CAS s s'" "j < length (threads s)"
    and "\<not> is_reader (threads s ! j)"
  shows "\<not> is_reader (threads s' ! j)"
  using assms(5)
proof cases
  case (1 i c cell p)
  have inv: "sem_inv s" using assms(1-3) by (rule sem_reach_inv)
  have "sem_state s \<noteq> cur AND kNumReadersMask" for cur
    using sem_inv_cell(2) [OF inv] masked_less [of cur] assms(4) by auto
  then have "\<not> is_reader p" if "i = j"
    using 1(3) assms(7) that cas_contract_unique [OF assms(1)]
    by (auto simp: thread_step_def lock_shared_round_def lock_round_def Let_def unlock_step_def unlock_store_def
        wait_pending_readers_round_def atomic_cas_def split: pc.splits call.splits if_splits)
  then show ?thesis
    using 1 assms(6,7) by (cases "i = j") simp_all
qed

theorem rw_pending_writer_blocks_readers_witness:
  "\<not> is_reader ([Writing, Lock_Shared kWriteFlag] ! 1)"
proof -
  have "sem_step atomic_cas \<lparr>sem_state = kWriteFlag, threads = [Writing, Lock_Shared kWriteFlag]\<rparr>
          \<lparr>sem_state = kWriteFlag, threads = [Writing, Lock_Shared kWriteFlag]\<rparr>"
    by (rule sem_stepI [of 1]) (simp_all add: thread_step_def lock_shared_round_def atomic_cas_def
        kWriteFlag_value kNumReadersMask_def)
  from rw_pending_writer_blocks_readers [OF atomic_cas_contract _ writer_run _ this, of 1]
  show ?thesis by (simp add: number_def)
qed

end
