(* ===== verification/Message_Queue.thy ===== *)
theory Message_Queue
  imports Transition
begin

text \<open>
  The thread-safe queue \<open>concurent::message_queue\<close> of
  \<^verbatim>\<open>projects/high_perf/parallel_data_structures/safe_queue_cc11.h\<close> (the file is repeated
  in the directory above): a mutex, a queue and a condition variable, used by any number of
  threads. Each statement under the lock is a transition of its own. A wait releases the
  mutex and sleeps in one transition; it ends by a notification or spuriously, and then has
  to take the mutex again. \<open>enqueued\<close> and \<open>dequeued\<close> are history: the values in the order
  in which they entered and left.
\<close>

section \<open>The class\<close>

datatype 'a queue_pc =
    Idle
  | Enq_Lock 'a | Enq_Push 'a | Enq_Notify | Enq_Unlock
  | Deq_Lock | Deq_Test | Deq_Wait | Deq_Relock | Deq_Take | Deq_Return 'a
  | Front_Of_Empty

record 'a message_queue =
  q :: "'a list"
  m :: "nat option"
  pcs :: "'a queue_pc list"
  enqueued :: "'a list"
  dequeued :: "'a list"

abbreviation move :: "nat \<Rightarrow> 'a queue_pc \<Rightarrow> 'a message_queue \<Rightarrow> 'a message_queue" where
  "move i p s \<equiv> s\<lparr>pcs := (pcs s)[i := p]\<rparr>"

text \<open>\<open>std::lock_guard\<close> and \<open>std::unique_lock\<close>: take the free mutex, or stay.\<close>

inductive lock_step :: "nat \<Rightarrow> 'a queue_pc \<Rightarrow> 'a message_queue \<Rightarrow> 'a message_queue \<Rightarrow> bool" where
  "m s = None \<Longrightarrow> lock_step i p s (move i p (s\<lparr>m := Some i\<rparr>))"

inductive enqueue_step :: "nat \<Rightarrow> 'a message_queue \<Rightarrow> 'a message_queue \<Rightarrow> bool" where
  enq_call: "pcs s ! i = Idle \<Longrightarrow> enqueue_step i s (move i (Enq_Lock t) s)"
| enq_lock: "pcs s ! i = Enq_Lock t \<Longrightarrow> lock_step i (Enq_Push t) s s' \<Longrightarrow> enqueue_step i s s'"
| enq_push: "pcs s ! i = Enq_Push t \<Longrightarrow>
    enqueue_step i s (move i Enq_Notify (s\<lparr>q := q s @ [t], enqueued := enqueued s @ [t]\<rparr>))"
| enq_notify: "pcs s ! i = Enq_Notify \<Longrightarrow> j < length (pcs s) \<Longrightarrow> pcs s ! j = Deq_Wait \<Longrightarrow>
    enqueue_step i s (move i Enq_Unlock (move j Deq_Relock s))"
| enq_notify_none: "pcs s ! i = Enq_Notify \<Longrightarrow> Deq_Wait \<notin> set (pcs s) \<Longrightarrow>
    enqueue_step i s (move i Enq_Unlock s)"
| enq_unlock: "pcs s ! i = Enq_Unlock \<Longrightarrow> enqueue_step i s (move i Idle (s\<lparr>m := None\<rparr>))"

inductive dequeue_step :: "nat \<Rightarrow> 'a message_queue \<Rightarrow> 'a message_queue \<Rightarrow> bool" where
  deq_call: "pcs s ! i = Idle \<Longrightarrow> dequeue_step i s (move i Deq_Lock s)"
| deq_lock: "pcs s ! i = Deq_Lock \<Longrightarrow> lock_step i Deq_Test s s' \<Longrightarrow> dequeue_step i s s'"
| deq_test: "pcs s ! i = Deq_Test \<Longrightarrow> q s \<noteq> [] \<Longrightarrow> dequeue_step i s (move i Deq_Take s)"
| deq_wait: "pcs s ! i = Deq_Test \<Longrightarrow> q s = [] \<Longrightarrow>
    dequeue_step i s (move i Deq_Wait (s\<lparr>m := None\<rparr>))"
| deq_spurious: "pcs s ! i = Deq_Wait \<Longrightarrow> dequeue_step i s (move i Deq_Relock s)"
| deq_relock: "pcs s ! i = Deq_Relock \<Longrightarrow> lock_step i Deq_Test s s' \<Longrightarrow> dequeue_step i s s'"
| deq_take: "pcs s ! i = Deq_Take \<Longrightarrow> q s = val # rest \<Longrightarrow>
    dequeue_step i s (move i (Deq_Return val) (s\<lparr>q := rest, dequeued := dequeued s @ [val]\<rparr>))"
| deq_front_of_empty: "pcs s ! i = Deq_Take \<Longrightarrow> q s = [] \<Longrightarrow>
    dequeue_step i s (move i Front_Of_Empty s)"
| deq_return: "pcs s ! i = Deq_Return val \<Longrightarrow>
    dequeue_step i s (move i Idle (s\<lparr>m := None\<rparr>))"

definition mq_step :: "'a message_queue \<Rightarrow> 'a message_queue \<Rightarrow> bool" where
  "mq_step s s' \<longleftrightarrow> (\<exists>i < length (pcs s). enqueue_step i s s' \<or> dequeue_step i s s')"

definition mq_init :: "nat \<Rightarrow> 'a message_queue \<Rightarrow> bool" where
  "mq_init n s \<longleftrightarrow>
     s = \<lparr>q = [], m = None, pcs = replicate n Idle, enqueued = [], dequeued = []\<rparr>"

inductive_cases lock_stepE: "lock_step i p s s'"
inductive_cases enqueue_stepE: "enqueue_step i s s'"
inductive_cases dequeue_stepE: "dequeue_step i s s'"

section \<open>The invariant\<close>

fun holds :: "'a queue_pc \<Rightarrow> bool" where
  "holds (Enq_Push t) = True" | "holds Enq_Notify = True" | "holds Enq_Unlock = True"
| "holds Deq_Test = True" | "holds Deq_Take = True" | "holds (Deq_Return v) = True"
| "holds _ = False"

text \<open>Consumers that are awake inside the loop, and producers about to notify.\<close>

fun awake :: "'a queue_pc \<Rightarrow> bool" where
  "awake Deq_Test = True" | "awake Deq_Relock = True" | "awake Deq_Take = True"
| "awake Enq_Notify = True" | "awake _ = False"

definition mutex_inv :: "'a message_queue \<Rightarrow> bool" where
  "mutex_inv s \<longleftrightarrow> (\<forall>i < length (pcs s). holds (pcs s ! i) \<longleftrightarrow> m s = Some i)
     \<and> (\<forall>i. m s = Some i \<longrightarrow> i < length (pcs s))"

definition data_inv :: "'a message_queue \<Rightarrow> bool" where
  "data_inv s \<longleftrightarrow> enqueued s = dequeued s @ q s \<and> Front_Of_Empty \<notin> set (pcs s)
     \<and> (Deq_Take \<in> set (pcs s) \<longrightarrow> q s \<noteq> [])"

definition wake_inv :: "'a message_queue \<Rightarrow> bool" where
  "wake_inv s \<longleftrightarrow> (Deq_Wait \<in> set (pcs s) \<longrightarrow> length (q s) \<le> number awake (pcs s))"

definition mq_inv :: "'a message_queue \<Rightarrow> bool" where
  "mq_inv s \<longleftrightarrow> mutex_inv s \<and> data_inv s \<and> wake_inv s"

lemma mutex_inv_holder:
  "mutex_inv s \<Longrightarrow> i < length (pcs s) \<Longrightarrow> holds (pcs s ! i) \<Longrightarrow> m s = Some i"
  by (simp add: mutex_inv_def)

lemma mutex_inv_others:
  "mutex_inv s \<Longrightarrow> i < length (pcs s) \<Longrightarrow> j < length (pcs s) \<Longrightarrow> holds (pcs s ! i) \<Longrightarrow>
   holds (pcs s ! j) \<Longrightarrow> i = j"
  by (simp add: mutex_inv_def)

lemma in_set_move:
  "p \<in> set (ts[i := p']) \<Longrightarrow> p \<noteq> p' \<Longrightarrow> p \<in> set ts"
  using set_update_subset_insert [of ts i p'] by auto

text \<open>A thread that holds the mutex is the only one past the test of the loop.\<close>

lemma only_taker:
  assumes "mutex_inv s" "i < length (pcs s)" "holds (pcs s ! i)" "\<not> holds p \<or> p \<noteq> Deq_Take"
  shows "Deq_Take \<notin> set ((pcs s)[i := p])"
proof
  assume "Deq_Take \<in> set ((pcs s)[i := p])"
  then obtain j where j: "j < length (pcs s)" "(pcs s)[i := p] ! j = Deq_Take"
    by (auto simp: in_set_conv_nth)
  then have "i \<noteq> j" using assms(4) by auto
  then show False using j mutex_inv_others [OF assms(1,2) j(1) assms(3)] by simp
qed

section \<open>Every transition keeps it\<close>

text \<open>
  Three kinds of transitions: one that neither takes nor releases the mutex, one that takes
  it and one that releases it.
\<close>

lemma nth_update: "k < length ts \<Longrightarrow> (ts[i := p]) ! k = (if i = k then p else ts ! k)"
  by (cases "i = k") simp_all

lemma mutex_same:
  "mutex_inv s \<Longrightarrow> m s' = m s \<Longrightarrow> pcs s' = (pcs s)[i := p] \<Longrightarrow> holds (pcs s ! i) = holds p \<Longrightarrow>
   mutex_inv s'"
  by (auto simp: mutex_inv_def nth_update)

lemma mutex_take:
  "mutex_inv s \<Longrightarrow> i < length (pcs s) \<Longrightarrow> m s = None \<Longrightarrow> m s' = Some i \<Longrightarrow> pcs s' = (pcs s)[i := p] \<Longrightarrow> holds p \<Longrightarrow>
   mutex_inv s'"
  by (auto simp: mutex_inv_def nth_update)

lemma mutex_release:
  "mutex_inv s \<Longrightarrow> i < length (pcs s) \<Longrightarrow> holds (pcs s ! i) \<Longrightarrow> m s' = None \<Longrightarrow>
   pcs s' = (pcs s)[i := p] \<Longrightarrow> \<not> holds p \<Longrightarrow> mutex_inv s'"
  by (auto simp: mutex_inv_def nth_update)

lemma data_same:
  assumes "data_inv s" "q s' = q s" "enqueued s' = enqueued s" "dequeued s' = dequeued s"
    and "pcs s' = (pcs s)[i := p]" "p \<noteq> Front_Of_Empty" "p = Deq_Take \<Longrightarrow> q s \<noteq> []"
  shows "data_inv s'"
  using assms unfolding data_inv_def by (metis in_set_move)

lemma wake_same:
  assumes "wake_inv s" "i < length (pcs s)" "q s' = q s" "pcs s' = (pcs s)[i := p]"
    and "p \<noteq> Deq_Wait" "awake (pcs s ! i) \<longrightarrow> awake p"
  shows "wake_inv s'"
proof -
  have "number awake (pcs s) \<le> number awake (pcs s')"
    using number_update [OF assms(2), of awake p] assms(4,6) by (auto split: if_splits)
  then show ?thesis
    using assms(1,3,4,5) unfolding wake_inv_def by (metis in_set_move order_trans)
qed

lemma lock_keeps:
  assumes inv: "mq_inv s" and i: "i < length (pcs s)" and p: "holds p" "p = Deq_Test \<or> \<not> awake (pcs s ! i)"
    and pt: "p \<noteq> Deq_Take" and step: "lock_step i p s s'"
  shows "mq_inv s'"
proof -
  have free: "m s = None" and s': "s' = move i p (s\<lparr>m := Some i\<rparr>)"
    using step by (auto elim: lock_stepE)
  have "mutex_inv s'"
    by (rule mutex_take [of s i s' p]) (use inv i free p s' in \<open>auto simp: mq_inv_def\<close>)
  moreover have "data_inv s'"
    by (rule data_same [of s s' i p]) (use inv p pt s' in \<open>auto simp: mq_inv_def\<close>)
  moreover have "wake_inv s'"
    by (rule wake_same [of s i s' p]) (use inv i p s' in \<open>auto simp: mq_inv_def\<close>)
  ultimately show ?thesis by (simp add: mq_inv_def)
qed

text \<open>A transition of thread \<open>i\<close> that leaves the mutex and the queue alone.\<close>

lemma local_keeps:
  assumes inv: "mq_inv s" and i: "i < length (pcs s)"
    and p: "holds (pcs s ! i) = holds p" "awake (pcs s ! i) \<longrightarrow> awake p" "p \<noteq> Deq_Wait"
      "p \<noteq> Front_Of_Empty" "p = Deq_Take \<Longrightarrow> q s \<noteq> []"
  shows "mq_inv (move i p s)"
proof -
  have "mutex_inv (move i p s)"
    by (rule mutex_same [of s _ i p]) (use inv p in \<open>simp_all add: mq_inv_def\<close>)
  moreover have "data_inv (move i p s)"
    by (rule data_same [of s _ i p]) (use inv p in \<open>simp_all add: mq_inv_def\<close>)
  moreover have "wake_inv (move i p s)"
    by (rule wake_same [of s i _ p]) (use inv i p in \<open>simp_all add: mq_inv_def\<close>)
  ultimately show ?thesis by (simp add: mq_inv_def)
qed

lemma release_keeps:
  assumes inv: "mq_inv s" and i: "i < length (pcs s)"
    and p: "holds (pcs s ! i)" "\<not> awake (pcs s ! i)"
  shows "mq_inv (move i Idle (s\<lparr>m := None\<rparr>))"
proof -
  let ?s = "move i Idle (s\<lparr>m := None\<rparr>)"
  have "mutex_inv ?s"
    by (rule mutex_release [of s i _ Idle]) (use inv i p in \<open>simp_all add: mq_inv_def\<close>)
  moreover have "data_inv ?s"
    by (rule data_same [of s _ i Idle]) (use inv in \<open>simp_all add: mq_inv_def\<close>)
  moreover have "wake_inv ?s"
    by (rule wake_same [of s i _ Idle]) (use inv i p in \<open>simp_all add: mq_inv_def\<close>)
  ultimately show ?thesis by (simp add: mq_inv_def)
qed

lemma push_keeps:
  assumes inv: "mq_inv s" and i: "i < length (pcs s)" and p: "pcs s ! i = Enq_Push t"
  shows "mq_inv (move i Enq_Notify (s\<lparr>q := q s @ [t], enqueued := enqueued s @ [t]\<rparr>))"
    (is "mq_inv ?s")
proof -
  have "mutex_inv ?s"
    by (rule mutex_same [of s ?s i Enq_Notify]) (use inv p in \<open>auto simp: mq_inv_def\<close>)
  moreover have "data_inv ?s"
    using inv unfolding mq_inv_def data_inv_def
    by (auto dest: in_set_move)
  moreover have "number awake (pcs ?s) = Suc (number awake (pcs s))"
    using number_update_inc [OF i, of awake Enq_Notify] p by simp
  then have "wake_inv ?s"
    using inv unfolding mq_inv_def wake_inv_def by (auto dest: in_set_move)
  ultimately show ?thesis by (simp add: mq_inv_def)
qed

text \<open>The notification moves the producer's claim on a value to the consumer it wakes.\<close>

lemma notify_keeps:
  assumes inv: "mq_inv s" and i: "i < length (pcs s)" "pcs s ! i = Enq_Notify"
    and j: "j < length (pcs s)" "pcs s ! j = Deq_Wait"
  shows "mq_inv (move i Enq_Unlock (move j Deq_Relock s))" (is "mq_inv (move i _ ?s)")
proof -
  have s: "mq_inv ?s" by (rule local_keeps [OF inv j(1)]) (simp_all add: j(2))
  have n: "number awake (pcs ?s) = Suc (number awake (pcs s))"
    using number_update_inc [OF j(1), of awake Deq_Relock] j(2) by simp
  have ij: "i \<noteq> j" using i j by auto
  have "mutex_inv (move i Enq_Unlock ?s)"
    by (rule mutex_same [of ?s _ i Enq_Unlock]) (use s i ij in \<open>auto simp: mq_inv_def\<close>)
  moreover have "data_inv (move i Enq_Unlock ?s)"
    by (rule data_same [of ?s _ i Enq_Unlock]) (use s in \<open>auto simp: mq_inv_def\<close>)
  moreover have "Suc (number awake (pcs (move i Enq_Unlock ?s))) = number awake (pcs ?s)"
    using number_update_dec [of i "pcs ?s" awake Enq_Unlock] i ij by simp
  then have "number awake (pcs (move i Enq_Unlock ?s)) = number awake (pcs s)" using n by simp
  moreover have "Deq_Wait \<in> set (pcs s)" using j by (metis nth_mem)
  ultimately show ?thesis
    using inv by (simp add: mq_inv_def wake_inv_def)
qed

lemma notify_none_keeps:
  assumes inv: "mq_inv s" and i: "i < length (pcs s)" "pcs s ! i = Enq_Notify"
    and none: "Deq_Wait \<notin> set (pcs s)"
  shows "mq_inv (move i Enq_Unlock s)"
proof -
  have "mutex_inv (move i Enq_Unlock s)"
    by (rule mutex_same [of s _ i Enq_Unlock]) (use inv i in \<open>simp_all add: mq_inv_def\<close>)
  moreover have "data_inv (move i Enq_Unlock s)"
    by (rule data_same [of s _ i Enq_Unlock]) (use inv in \<open>simp_all add: mq_inv_def\<close>)
  moreover have "wake_inv (move i Enq_Unlock s)"
    using none in_set_move [of Deq_Wait "pcs s" i Enq_Unlock] by (auto simp: wake_inv_def)
  ultimately show ?thesis by (simp add: mq_inv_def)
qed

lemma wait_keeps:
  assumes inv: "mq_inv s" and i: "i < length (pcs s)" "pcs s ! i = Deq_Test" and e: "q s = []"
  shows "mq_inv (move i Deq_Wait (s\<lparr>m := None\<rparr>))" (is "mq_inv ?s")
proof -
  have "mutex_inv ?s"
    by (rule mutex_release [of s i _ Deq_Wait]) (use inv i in \<open>simp_all add: mq_inv_def\<close>)
  moreover have "data_inv ?s"
    by (rule data_same [of s _ i Deq_Wait]) (use inv in \<open>simp_all add: mq_inv_def\<close>)
  moreover have "wake_inv ?s" using e by (simp add: wake_inv_def)
  ultimately show ?thesis by (simp add: mq_inv_def)
qed

lemma take_keeps:
  assumes inv: "mq_inv s" and i: "i < length (pcs s)" "pcs s ! i = Deq_Take"
    and val: "q s = val # rest"
  shows "mq_inv (move i (Deq_Return val) (s\<lparr>q := rest, dequeued := dequeued s @ [val]\<rparr>))"
    (is "mq_inv ?s")
proof -
  have mu: "mutex_inv s" using inv by (simp add: mq_inv_def)
  have "mutex_inv ?s"
    by (rule mutex_same [OF mu, of _ i "Deq_Return val"]) (simp_all add: i)
  moreover have "Deq_Take \<notin> set (pcs ?s)"
    using only_taker [OF mu i(1), of "Deq_Return val"] i(2) by simp
  then have "data_inv ?s"
    using inv val unfolding mq_inv_def data_inv_def by (auto dest: in_set_move)
  moreover have "Suc (number awake (pcs ?s)) = number awake (pcs s)"
    using number_update_dec [OF i(1), of awake "Deq_Return val"] i(2) by simp
  then have "wake_inv ?s"
    using inv val unfolding mq_inv_def wake_inv_def by (auto dest: in_set_move)
  ultimately show ?thesis by (simp add: mq_inv_def)
qed

lemma enqueue_keeps:
  assumes inv: "mq_inv s" and i: "i < length (pcs s)" and step: "enqueue_step i s s'"
  shows "mq_inv s'"
  using step
proof cases
  case enq_notify
  then show ?thesis using notify_keeps [OF inv i] by blast
next
  case enq_push
  then show ?thesis using push_keeps [OF inv i] by blast
next
  case enq_lock
  then show ?thesis by (intro lock_keeps [OF inv i]) simp_all
next
  case enq_notify_none
  then show ?thesis using notify_none_keeps [OF inv i] by blast
next
  case enq_unlock
  then show ?thesis using release_keeps [OF inv i] by simp
next
  case enq_call
  then show ?thesis by (auto intro!: local_keeps [OF inv i])
qed

lemma dequeue_keeps:
  assumes inv: "mq_inv s" and i: "i < length (pcs s)" and step: "dequeue_step i s s'"
  shows "mq_inv s'"
  using step
proof cases
  case deq_front_of_empty
  then have "Deq_Take \<in> set (pcs s)" using i by (metis nth_mem)
  then show ?thesis using deq_front_of_empty inv by (simp add: mq_inv_def data_inv_def)
next
  case deq_lock
  then show ?thesis by (intro lock_keeps [OF inv i]) simp_all
next
  case deq_relock
  then show ?thesis by (intro lock_keeps [OF inv i]) simp_all
next
  case deq_wait
  then show ?thesis using wait_keeps [OF inv i] by simp
next
  case deq_take
  then show ?thesis using take_keeps [OF inv i] by simp
next
  case deq_return
  then show ?thesis using release_keeps [OF inv i] by simp
next
  case deq_call
  then show ?thesis by (auto intro!: local_keeps [OF inv i])
next
  case deq_test
  then show ?thesis by (auto intro!: local_keeps [OF inv i])
next
  case deq_spurious
  then show ?thesis by (auto intro!: local_keeps [OF inv i])
qed

lemma mq_inv_init: "mq_init n s \<Longrightarrow> mq_inv s"
  by (auto simp: mq_init_def mq_inv_def mutex_inv_def data_inv_def wake_inv_def)

interpretation mqs: invariant_of "mq_init n" mq_step mq_inv for n
proof
  show "mq_init n s \<Longrightarrow> mq_inv s" for s :: "'a message_queue" by (rule mq_inv_init)
  show "mq_inv s \<Longrightarrow> mq_step s s' \<Longrightarrow> mq_inv s'" for s s' :: "'a message_queue"
    unfolding mq_step_def using enqueue_keeps dequeue_keeps by blast
qed

text \<open>The thread that holds the mutex always has a next transition.\<close>

lemma holder_moves: "holds (pcs s ! i) \<Longrightarrow> \<exists>s'. enqueue_step i s s' \<or> dequeue_step i s s'"
proof (cases "pcs s ! i")
  case Enq_Notify
  then show ?thesis
    by (metis enq_notify enq_notify_none in_set_conv_nth)
next
  case Deq_Test
  then show ?thesis by (cases "q s = []") (auto intro: deq_test deq_wait)
next
  case Deq_Take
  then show ?thesis by (cases "q s") (auto intro: deq_take deq_front_of_empty)
qed (auto intro: enq_push enq_unlock deq_return)

lemma relock_moves: "pcs s ! i = Deq_Relock \<Longrightarrow> m s = None \<Longrightarrow> \<exists>s'. dequeue_step i s s'"
  by (blast intro: deq_relock lock_step.intros)

lemma free_lock_moves:
  "pcs s ! i = Deq_Lock \<Longrightarrow> m s = None \<Longrightarrow> dequeue_step i s (move i Deq_Test (s\<lparr>m := Some i\<rparr>))"
  "pcs s ! i = Enq_Lock t \<Longrightarrow> m s = None \<Longrightarrow> enqueue_step i s (move i (Enq_Push t) (s\<lparr>m := Some i\<rparr>))"
  using deq_lock [OF _ lock_step.intros, of s i] enq_lock [OF _ lock_step.intros, of s i] by simp_all

text \<open>A run in which one thread sleeps in \<open>dequeue\<close> while the other has just stored 7.\<close>

lemma mq_stepI:
  "enqueue_step i s s' \<or> dequeue_step i s s' \<Longrightarrow> i < length (pcs s) \<Longrightarrow> s'' = s' \<Longrightarrow> mq_step s s''"
  by (auto simp: mq_step_def)

lemma sleeping_run:
  "reach (mq_init 2) mq_step
     \<lparr>q = [7::nat], m = Some 1, pcs = [Deq_Wait, Enq_Notify], enqueued = [7], dequeued = []\<rparr>"
proof -
  let ?r = "reach (mq_init 2) mq_step"
  let ?e = "\<lambda>k t. \<lparr>q = [], m = k, pcs = t, enqueued = [], dequeued = ([] :: nat list)\<rparr>"
  have "?r (?e None [Idle, Idle])"
    by (rule reach_init) (simp add: mq_init_def numeral_2_eq_2)
  then have "?r (?e None [Deq_Lock, Idle])"
    by (rule reach_step) (rule mq_stepI [OF disjI2, OF deq_call [of _ 0]], simp_all)
  then have "?r (?e (Some 0) [Deq_Test, Idle])"
    by (rule reach_step) (rule mq_stepI [OF disjI2, OF free_lock_moves(1) [of _ 0]], simp_all)
  then have "?r (?e None [Deq_Wait, Idle])"
    by (rule reach_step) (rule mq_stepI [OF disjI2, OF deq_wait [of _ 0]], simp_all)
  then have "?r (?e None [Deq_Wait, Enq_Lock 7])"
    by (rule reach_step) (rule mq_stepI [OF disjI1, OF enq_call [of _ 1]], simp_all)
  then have "?r (?e (Some 1) [Deq_Wait, Enq_Push 7])"
    by (rule reach_step) (rule mq_stepI [OF disjI1, OF free_lock_moves(2) [of _ 1]], simp_all)
  then show ?thesis
    by (rule reach_step) (rule mq_stepI [OF disjI1, OF enq_push [of _ 1]], simp_all)
qed

section \<open>Properties\<close>

text \<open>
  C11. Values leave the queue in the order in which they entered it, each once, whatever the
  threads do: what was enqueued is what was dequeued followed by what is stored. No
  \<open>dequeue\<close> reads the front of an empty queue.
\<close>

theorem message_queue_fifo:
  assumes "reach (mq_init n) mq_step s"
  shows "enqueued s = dequeued s @ q s \<and> Front_Of_Empty \<notin> set (pcs s)"
  using mqs.reachable [OF assms] by (simp add: mq_inv_def data_inv_def)

theorem message_queue_fifo_witness:
  "[7::nat] = [] @ [7] \<and> Front_Of_Empty \<notin> set [Deq_Wait :: nat queue_pc, Enq_Notify]"
  using message_queue_fifo [OF sleeping_run] by simp

text \<open>
  The mutex serialises the bodies: two threads are never past a lock at the same time.
\<close>

theorem message_queue_mutex:
  assumes "reach (mq_init n) mq_step s" "i < length (pcs s)" "j < length (pcs s)"
    and "holds (pcs s ! i)" "holds (pcs s ! j)"
  shows "i = j"
  using mqs.reachable [OF assms(1)] mutex_inv_others [OF _ assms(2-5)] by (simp add: mq_inv_def)

theorem message_queue_mutex_witness:
  "(1::nat) = 1 \<and> holds (Enq_Notify :: nat queue_pc)"
  using message_queue_mutex [OF sleeping_run, of 1 1] by simp

section \<open>Runs without new calls\<close>

text \<open>
  A transition of a thread inside a call that does not sleep: no thread calls anew, and no wait
  ends spuriously. Every such transition makes a weight smaller, and as long as one of these
  threads is left there is a next one.
\<close>

definition inside_step :: "'a message_queue \<Rightarrow> 'a message_queue \<Rightarrow> bool" where
  "inside_step s s' \<longleftrightarrow> (\<exists>i < length (pcs s). pcs s ! i \<noteq> Idle \<and> pcs s ! i \<noteq> Deq_Wait
     \<and> (enqueue_step i s s' \<or> dequeue_step i s s'))"

fun weight :: "'a queue_pc \<Rightarrow> nat" where
  "weight (Enq_Lock t) = 10" | "weight (Enq_Push t) = 9" | "weight Enq_Notify = 8" | "weight Enq_Unlock = 1"
| "weight Deq_Lock = 5" | "weight Deq_Relock = 5" | "weight Deq_Test = 4" | "weight Deq_Take = 3" | "weight (Deq_Return v) = 2"
| "weight _ = 0"

definition work_left :: "'a message_queue \<Rightarrow> nat" where
  "work_left s = (\<Sum>p \<leftarrow> pcs s. weight p)"

lemma work_update:
  "i < length ts \<Longrightarrow> (\<Sum>p \<leftarrow> ts[i := p]. weight p) + weight (ts ! i) = (\<Sum>p \<leftarrow> ts. weight p) + weight p"
proof (induction ts arbitrary: i)
  case (Cons t ts)
  then show ?case by (cases i) (auto simp: add_ac)
qed simp

lemma work_less:
  "i < length (pcs s) \<Longrightarrow> pcs s' = (pcs s)[i := p] \<Longrightarrow> weight p < weight (pcs s ! i) \<Longrightarrow> work_left s' < work_left s"
  using work_update [of i "pcs s" p] by (simp add: work_left_def)

lemma inside_step_less: "inside_step s s' \<Longrightarrow> work_left s' < work_left s"
proof -
  assume "inside_step s s'"
  then obtain i where i: "i < length (pcs s)" "pcs s ! i \<noteq> Idle" "pcs s ! i \<noteq> Deq_Wait"
    and step: "enqueue_step i s s' \<or> dequeue_step i s s'" by (auto simp: inside_step_def)
  from step show ?thesis
  proof
    assume "enqueue_step i s s'"
    then show ?thesis
    proof cases
      case (enq_notify j)
      then have ij: "i \<noteq> j" by auto
      have "(\<Sum>p \<leftarrow> (pcs s)[j := Deq_Relock]. weight p) = (\<Sum>p \<leftarrow> pcs s. weight p) + 5"
        using work_update [OF enq_notify(3), of Deq_Relock] enq_notify(4) by simp
      then show ?thesis
        using work_update [of i "(pcs s)[j := Deq_Relock]" Enq_Unlock] i(1) ij enq_notify(1,2) by (simp add: work_left_def)
    qed (use i in \<open>auto elim!: lock_stepE intro!: work_less [OF i(1)]\<close>)
  next
    assume "dequeue_step i s s'"
    then show ?thesis
      by cases (use i in \<open>auto elim!: lock_stepE intro!: work_less [OF i(1)]\<close>)
  qed
qed

lemma inside_step_reach: "inside_step\<^sup>*\<^sup>* s s' \<Longrightarrow> reach (mq_init n) mq_step s \<Longrightarrow> reach (mq_init n) mq_step s'"
proof (induction rule: rtranclp_induct)
  case (step s' s'')
  then have "mq_step s' s''" by (auto simp: mq_step_def inside_step_def)
  with step show ?case by (blast intro: reach_step)
qed

text \<open>Without a next transition all threads are outside of the calls or sleep.\<close>

lemma inside_stuck:
  assumes inv: "mq_inv s" and stuck: "\<nexists>s'. inside_step s s'" and i: "i < length (pcs s)"
  shows "pcs s ! i = Idle \<or> pcs s ! i = Deq_Wait"
proof (rule ccontr)
  assume busy: "\<not> (pcs s ! i = Idle \<or> pcs s ! i = Deq_Wait)"
  have none: "\<not> holds (pcs s ! k)" if "k < length (pcs s)" for k
  proof
    assume h: "holds (pcs s ! k)"
    then have "pcs s ! k \<noteq> Idle" "pcs s ! k \<noteq> Deq_Wait" by auto
    then show False using holder_moves [OF h] stuck that unfolding inside_step_def by blast
  qed
  have free: "m s = None"
    using inv none unfolding mq_inv_def mutex_inv_def by (metis not_None_eq)
  have "pcs s ! i \<noteq> Front_Of_Empty" using inv i by (metis data_inv_def mq_inv_def nth_mem)
  then consider "pcs s ! i = Deq_Relock" | "pcs s ! i = Deq_Lock" | t where "pcs s ! i = Enq_Lock t"
    using busy none [OF i] by (cases "pcs s ! i") auto
  then have "\<exists>s'. enqueue_step i s s' \<or> dequeue_step i s s'"
  proof cases
    case 1
    then show ?thesis using relock_moves [OF _ free] by blast
  next
    case 2
    then show ?thesis using free_lock_moves(1) [OF _ free] by blast
  next
    case (3 t)
    then show ?thesis using free_lock_moves(2) [OF _ free] by blast
  qed
  then show False using stuck busy i unfolding inside_step_def by blast
qed

text \<open>
  C5. No lost wake-up: from every reachable state, when the threads make no new calls and no wait ends
  spuriously, every run comes to an end; and then all threads have returned from their calls except
  consumers that sleep, and these only when no value is stored.
\<close>

theorem message_queue_no_lost_wakeup:
  assumes "reach (mq_init n) mq_step s"
  shows "(\<nexists>run. run 0 = s \<and> (\<forall>k. inside_step (run k) (run (Suc k))))
    \<and> (\<forall>s'. inside_step\<^sup>*\<^sup>* s s' \<longrightarrow> (\<nexists>s''. inside_step s' s'') \<longrightarrow>
        set (pcs s') \<subseteq> {Idle, Deq_Wait} \<and> (Deq_Wait \<in> set (pcs s') \<longrightarrow> q s' = []))"
proof (intro conjI allI impI)
  show "\<nexists>run. run 0 = s \<and> (\<forall>k. inside_step (run k) (run (Suc k)))"
    using wf_no_infinite_down_chainE [OF wf_measure [of work_left]] inside_step_less
    by (metis in_measure)
next
  fix s' assume run: "inside_step\<^sup>*\<^sup>* s s'" and stuck: "\<nexists>s''. inside_step s' s''"
  have inv: "mq_inv s'" by (rule mqs.reachable [OF inside_step_reach [OF run assms]])
  show all: "set (pcs s') \<subseteq> {Idle, Deq_Wait}"
    using inside_stuck [OF inv stuck] unfolding set_conv_nth by blast
  then have "number awake (pcs s') = 0" by (auto simp: number_def filter_empty_conv)
  then show "Deq_Wait \<in> set (pcs s') \<Longrightarrow> q s' = []" using inv by (simp add: mq_inv_def wake_inv_def)
qed

theorem message_queue_no_lost_wakeup_witness:
  "\<nexists>run. run 0 = \<lparr>q = [7::nat], m = Some 1, pcs = [Deq_Wait, Enq_Notify], enqueued = [7], dequeued = []\<rparr>
      \<and> (\<forall>k. inside_step (run k) (run (Suc k)))"
  using message_queue_no_lost_wakeup [OF sleeping_run] by (rule conjunct1)

end
