(* ===== verification/Bounded_Queue.thy ===== *)
theory Bounded_Queue
  imports Prelude
begin

text \<open>
  The bounded queue \<open>concurent_bounded_try_queue\<close> of
  \<^verbatim>\<open>projects/high_perf/parallel_data_structures/concurent_queues.h\<close>. The classes
  \<open>bounded_try_queue\<close> of \<^verbatim>\<open>data_structures.h\<close> and \<open>concurent_try_queue\<close> of
  \<^verbatim>\<open>concurent_queues_pthread.h\<close> have the same members and bodies over the mutex of
  boost.

  Every body runs under \<open>m_mtx\<close>, so an operation is one step from the state in which it
  takes the mutex to the state in which it releases it; an operation that waits is split
  at the wait, where the mutex is free. The mutex is not recursive: a thread that locks it
  twice has undefined behaviour. A condition variable counts the threads that sleep on it
  and those that a notification has woken. The private members \<open>stop\<close>, \<open>wait_and_pop\<close> and
  \<open>wait_and_push\<close> are modelled too, although nothing calls them.
\<close>

section \<open>The class\<close>

record cv =
  sleeping :: nat
  woken :: nat

record 'a bq =
  m_current_size :: int
  m_q :: "'a list"
  m_mtx :: bool
  m_pop_cv :: cv
  m_push_cv :: cv
  m_nblocked_pop :: int
  m_nblocked_push :: int
  m_stopped :: bool
  cm_size :: int

text \<open>The constructor tests \<open>cm_size < 1\<close>, but the throw is commented out.\<close>

definition bq_new :: "int \<Rightarrow> 'a bq" where
  "bq_new sz = \<lparr>m_current_size = 0, m_q = [], m_mtx = False,
     m_pop_cv = \<lparr>sleeping = 0, woken = 0\<rparr>, m_push_cv = \<lparr>sleeping = 0, woken = 0\<rparr>,
     m_nblocked_pop = 0, m_nblocked_push = 0, m_stopped = False, cm_size = sz\<rparr>"

definition lock_mtx :: "'a bq \<Rightarrow> 'a bq result" where
  "lock_mtx b = (if m_mtx b then Inl Undefined_Behaviour else Inr (b\<lparr>m_mtx := True\<rparr>))"

definition unlock_mtx :: "'a bq \<Rightarrow> 'a bq" where
  "unlock_mtx b = b\<lparr>m_mtx := False\<rparr>"

definition notify_one :: "cv \<Rightarrow> cv" where
  "notify_one c = (if sleeping c = 0 then c
                   else c\<lparr>sleeping := sleeping c - 1, woken := woken c + 1\<rparr>)"

definition notify_all :: "cv \<Rightarrow> cv" where
  "notify_all c = c\<lparr>sleeping := 0, woken := woken c + sleeping c\<rparr>"

definition wait_on :: "cv \<Rightarrow> cv" where
  "wait_on c = c\<lparr>sleeping := sleeping c + 1\<rparr>"

definition wake_up :: "cv \<Rightarrow> cv" where
  "wake_up c = c\<lparr>woken := woken c - 1\<rparr>"

section \<open>The public operations\<close>

definition bq_empty :: "'a bq \<Rightarrow> (bool \<times> 'a bq) result" where
  "bq_empty b = bindr (lock_mtx b) (\<lambda>b. Inr (m_q b = [], unlock_mtx b))"

text \<open>\<open>size\<close> converts the \<open>int\<close> to \<open>std::size_t\<close>.\<close>

definition bq_size :: "'a bq \<Rightarrow> (int \<times> 'a bq) result" where
  "bq_size b = bindr (lock_mtx b) (\<lambda>b. Inr (m_current_size b mod 2 ^ 64, unlock_mtx b))"

definition try_push :: "'a bq \<Rightarrow> 'a \<Rightarrow> (bool \<times> 'a bq) result" where
  "try_push b x = bindr (lock_mtx b) (\<lambda>b.
     if m_current_size b = cm_size b then Inr (False, unlock_mtx b)
     else bindr (cint (m_current_size b + 1)) (\<lambda>n.
       Inr (True, unlock_mtx (b\<lparr>m_q := m_q b @ [x], m_current_size := n\<rparr>))))"

definition try_pop :: "'a bq \<Rightarrow> ('a option \<times> 'a bq) result" where
  "try_pop b = bindr (lock_mtx b) (\<lambda>b.
     case m_q b of
       [] \<Rightarrow> Inr (None, unlock_mtx b)
     | x # xs \<Rightarrow> bindr (cint (m_current_size b - 1)) (\<lambda>n.
         Inr (Some x, unlock_mtx (b\<lparr>m_q := xs, m_current_size := n\<rparr>))))"

section \<open>The private operations\<close>

datatype 'a outcome = Returned 'a | Blocked | Terminated

text \<open>
  \<open>stop\<close>: the two waits for the blocked threads, then the release. \<open>Blocked\<close> is the sleep on
  \<open>m_pop_cv\<close> or \<open>m_push_cv\<close>; \<open>stop_resume\<close> goes on after the first.
\<close>

definition stop_wait_push :: "'a bq \<Rightarrow> unit outcome \<times> 'a bq" where
  "stop_wait_push b =
     (if m_nblocked_push b \<noteq> 0
      then (Blocked, unlock_mtx (b\<lparr>m_push_cv := wait_on (m_push_cv b)\<rparr>))
      else (Returned (), unlock_mtx b))"

definition stop_wait_pop :: "'a bq \<Rightarrow> unit outcome \<times> 'a bq" where
  "stop_wait_pop b =
     (if m_nblocked_pop b \<noteq> 0
      then (Blocked, unlock_mtx (b\<lparr>m_pop_cv := wait_on (m_pop_cv b)\<rparr>))
      else stop_wait_push b)"

definition stop :: "bool \<Rightarrow> 'a bq \<Rightarrow> (unit outcome \<times> 'a bq) result" where
  "stop wait b = bindr (lock_mtx b) (\<lambda>b.
     let b' = b\<lparr>m_stopped := True, m_pop_cv := notify_all (m_pop_cv b),
                m_push_cv := notify_all (m_push_cv b)\<rparr>
     in Inr (if wait then stop_wait_pop b' else (Returned (), unlock_mtx b')))"

definition stop_resume :: "'a bq \<Rightarrow> (unit outcome \<times> 'a bq) result" where
  "stop_resume b = bindr (lock_mtx (b\<lparr>m_pop_cv := wake_up (m_pop_cv b)\<rparr>)) (Inr \<circ> stop_wait_pop)"

text \<open>
  \<open>wait_and_pop\<close> with the mutex held: the test of the loop, and what follows it. The decrement
  of \<open>m_current_size\<close> that \<open>try_pop\<close> does is not there.
\<close>

definition wait_and_pop_loop :: "'a bq \<Rightarrow> ('a outcome \<times> 'a bq) result" where
  "wait_and_pop_loop b =
     (if \<not> m_stopped b \<and> m_q b = []
      then Inr (Blocked, unlock_mtx (b\<lparr>m_pop_cv := wait_on (m_pop_cv b)\<rparr>))
      else bindr (cint (m_nblocked_pop b - 1)) (\<lambda>n.
        let b' = b\<lparr>m_nblocked_pop := n\<rparr>
        in if m_stopped b
           then Inr (Terminated, unlock_mtx (b'\<lparr>m_pop_cv := notify_all (m_pop_cv b)\<rparr>))
           else Inr (Returned (hd (m_q b)),
                  unlock_mtx (b'\<lparr>m_q := tl (m_q b), m_push_cv := notify_one (m_push_cv b)\<rparr>))))"

definition wait_and_pop :: "'a bq \<Rightarrow> ('a outcome \<times> 'a bq) result" where
  "wait_and_pop b = bindr (lock_mtx b) (\<lambda>b.
     bindr (cint (m_nblocked_pop b + 1)) (\<lambda>n. wait_and_pop_loop (b\<lparr>m_nblocked_pop := n\<rparr>)))"

definition wait_and_pop_resume :: "'a bq \<Rightarrow> ('a outcome \<times> 'a bq) result" where
  "wait_and_pop_resume b =
     bindr (lock_mtx (b\<lparr>m_pop_cv := wake_up (m_pop_cv b)\<rparr>)) wait_and_pop_loop"

text \<open>
  \<open>wait_and_push\<close> with the mutex held: its test calls \<open>size()\<close>, which locks again. After the
  release it notifies \<open>m_pop_cv\<close>.
\<close>

definition wait_and_push_loop :: "'a bq \<Rightarrow> 'a \<Rightarrow> (unit outcome \<times> 'a bq) result" where
  "wait_and_push_loop b item =
     bindr (if m_stopped b then Inr (False, b)
            else bindr (bq_size b) (\<lambda>(n, b). Inr (int (length (m_q b)) = n, b))) (\<lambda>(full, b).
     if full then Inr (Blocked, unlock_mtx (b\<lparr>m_push_cv := wait_on (m_push_cv b)\<rparr>))
     else bindr (cint (m_nblocked_push b - 1)) (\<lambda>n.
       let b' = b\<lparr>m_nblocked_push := n\<rparr>
       in if m_stopped b
          then Inr (Terminated, unlock_mtx (b'\<lparr>m_push_cv := notify_all (m_push_cv b)\<rparr>))
          else Inr (Returned (), (unlock_mtx (b'\<lparr>m_q := m_q b @ [item]\<rparr>))
                 \<lparr>m_pop_cv := notify_one (m_pop_cv b)\<rparr>)))"

definition wait_and_push :: "'a bq \<Rightarrow> 'a \<Rightarrow> (unit outcome \<times> 'a bq) result" where
  "wait_and_push b item = bindr (lock_mtx b) (\<lambda>b.
     bindr (cint (m_nblocked_push b + 1)) (\<lambda>n.
       wait_and_push_loop (b\<lparr>m_nblocked_push := n\<rparr>) item))"

lemmas bq_ops = bq_empty_def bq_size_def try_push_def try_pop_def lock_mtx_def unlock_mtx_def

section \<open>The contract of a bounded queue\<close>

datatype 'a queue_call = Push 'a | Pop
datatype 'a reply = Pushed bool | Popped "'a option"

text \<open>A sequence of calls, in the order in which they get the mutex.\<close>

fun run_calls :: "('s \<Rightarrow> 'a \<Rightarrow> (bool \<times> 's) result) \<Rightarrow> ('s \<Rightarrow> ('a option \<times> 's) result) \<Rightarrow>
    's \<Rightarrow> 'a queue_call list \<Rightarrow> ('a reply list \<times> 's) result" where
  "run_calls push pop s [] = Inr ([], s)"
| "run_calls push pop s (Push x # cs) = bindr (push s x) (\<lambda>(ok, s').
     bindr (run_calls push pop s' cs) (\<lambda>(rs, s''). Inr (Pushed ok # rs, s'')))"
| "run_calls push pop s (Pop # cs) = bindr (pop s) (\<lambda>(v, s').
     bindr (run_calls push pop s' cs) (\<lambda>(rs, s''). Inr (Popped v # rs, s'')))"

fun spec_calls :: "nat \<Rightarrow> 'a list \<Rightarrow> 'a queue_call list \<Rightarrow> 'a reply list \<times> 'a list" where
  "spec_calls cap xs [] = ([], xs)"
| "spec_calls cap xs (Push x # cs) =
     (let ok = length xs < cap; (rs, ys) = spec_calls cap (if ok then xs @ [x] else xs) cs
      in (Pushed ok # rs, ys))"
| "spec_calls cap xs (Pop # cs) =
     (case xs of
        [] \<Rightarrow> let (rs, ys) = spec_calls cap [] cs in (Popped None # rs, ys)
      | x # xs' \<Rightarrow> let (rs, ys) = spec_calls cap xs' cs in (Popped (Some x) # rs, ys))"

fun accepted :: "'a queue_call list \<Rightarrow> 'a reply list \<Rightarrow> 'a list" where
  "accepted (Push x # cs) (Pushed True # rs) = x # accepted cs rs"
| "accepted (c # cs) (r # rs) = accepted cs rs"
| "accepted _ _ = []"

fun popped :: "'a reply list \<Rightarrow> 'a list" where
  "popped [] = []"
| "popped (Popped (Some x) # rs) = x # popped rs"
| "popped (r # rs) = popped rs"

lemma spec_fifo: "spec_calls cap xs cs = (rs, ys) \<Longrightarrow> xs @ accepted cs rs = popped rs @ ys"
  by (induction cap xs cs arbitrary: rs ys rule: spec_calls.induct)
    (auto simp: Let_def split: if_splits list.splits prod.splits)

lemma spec_bounded: "length xs \<le> cap \<Longrightarrow> spec_calls cap xs cs = (rs, ys) \<Longrightarrow> length ys \<le> cap"
  by (induction cap xs cs arbitrary: rs ys rule: spec_calls.induct)
    (auto simp: Let_def split: if_splits list.splits prod.splits)

locale bounded_fifo =
  fixes push :: "'s \<Rightarrow> 'a \<Rightarrow> (bool \<times> 's) result"
    and pop :: "'s \<Rightarrow> ('a option \<times> 's) result"
    and contents :: "'s \<Rightarrow> 'a list"
    and capacity :: "'s \<Rightarrow> nat"
    and ok :: "'s \<Rightarrow> bool"
  assumes bound: "ok s \<Longrightarrow> length (contents s) \<le> capacity s"
    and push_full: "ok s \<Longrightarrow> length (contents s) = capacity s \<Longrightarrow> push s x = Inr (False, s)"
    and push_room: "ok s \<Longrightarrow> length (contents s) < capacity s \<Longrightarrow>
      \<exists>s'. push s x = Inr (True, s') \<and> ok s' \<and> capacity s' = capacity s
         \<and> contents s' = contents s @ [x]"
    and pop_empty: "ok s \<Longrightarrow> contents s = [] \<Longrightarrow> pop s = Inr (None, s)"
    and pop_first: "ok s \<Longrightarrow> contents s = x # xs \<Longrightarrow>
      \<exists>s'. pop s = Inr (Some x, s') \<and> ok s' \<and> capacity s' = capacity s \<and> contents s' = xs"
begin

lemma run_refines:
  "ok s \<Longrightarrow> \<exists>rs s'. run_calls push pop s cs = Inr (rs, s') \<and> ok s' \<and> capacity s' = capacity s
     \<and> spec_calls (capacity s) (contents s) cs = (rs, contents s')"
proof (induction cs arbitrary: s)
  case Nil
  then show ?case by simp
next
  case (Cons c cs)
  show ?case
  proof (cases c)
    case (Push x)
    show ?thesis
    proof (cases "length (contents s) < capacity s")
      case True
      obtain s1 where s1: "push s x = Inr (True, s1)" "ok s1" "capacity s1 = capacity s"
          "contents s1 = contents s @ [x]"
        using push_room [OF Cons.prems True] by blast
      obtain rs s2 where "run_calls push pop s1 cs = Inr (rs, s2)" "ok s2" "capacity s2 = capacity s1"
          "spec_calls (capacity s1) (contents s1) cs = (rs, contents s2)"
        using Cons.IH [OF s1(2)] by blast
      then show ?thesis using Push True s1 by simp
    next
      case False
      then have "length (contents s) = capacity s" using bound [OF Cons.prems] by simp
      then have "push s x = Inr (False, s)" by (rule push_full [OF Cons.prems])
      then show ?thesis using Push False Cons.IH [OF Cons.prems] by auto
    qed
  next
    case Pop
    show ?thesis
    proof (cases "contents s")
      case Nil
      then show ?thesis using Pop pop_empty [OF Cons.prems] Cons.IH [OF Cons.prems] by auto
    next
      case (Cons x xs)
      obtain s1 where s1: "pop s = Inr (Some x, s1)" "ok s1" "capacity s1 = capacity s"
          "contents s1 = xs"
        using pop_first [OF Cons.prems Cons] by blast
      then show ?thesis using Pop Cons Cons.IH [OF s1(2)] by auto
    qed
  qed
qed

lemma run_fifo:
  assumes "ok s" "run_calls push pop s cs = Inr (rs, s')"
  shows "contents s @ accepted cs rs = popped rs @ contents s'"
    and "ok s'" and "length (contents s') \<le> capacity s"
  using run_refines [OF assms(1), of cs] assms(2) spec_fifo [of "capacity s" "contents s" cs]
    bound [of s'] by auto

end

section \<open>The public operations meet it\<close>

text \<open>The mutex is free and \<open>m_current_size\<close> counts the list, within the capacity.\<close>

definition bq_ok :: "'a bq \<Rightarrow> bool" where
  "bq_ok b \<longleftrightarrow> \<not> m_mtx b \<and> m_current_size b = int (length (m_q b))
     \<and> int (length (m_q b)) \<le> cm_size b \<and> cm_size b \<le> int_max"

lemma bq_ok_new: "0 \<le> sz \<Longrightarrow> sz \<le> int_max \<Longrightarrow> bq_ok (bq_new sz)"
  by (simp add: bq_ok_def bq_new_def)

lemma bq_unlocked: "\<not> m_mtx b \<Longrightarrow> b\<lparr>m_mtx := False\<rparr> = b"
  by (cases b) simp

interpretation bqs: bounded_fifo try_push try_pop m_q "\<lambda>b. nat (cm_size b)" bq_ok
proof
  fix b :: "'a bq" and x :: 'a and xs :: "'a list"
  assume ok: "bq_ok b"
  then have nn: "0 \<le> cm_size b" unfolding bq_ok_def by linarith
  show "length (m_q b) \<le> nat (cm_size b)" using ok unfolding bq_ok_def by linarith
  show "try_push b x = Inr (False, b)" if "length (m_q b) = nat (cm_size b)"
    using ok that nn by (simp add: bq_ok_def bq_ops bq_unlocked)
  show "\<exists>b'. try_push b x = Inr (True, b') \<and> bq_ok b' \<and> nat (cm_size b') = nat (cm_size b)
          \<and> m_q b' = m_q b @ [x]" if "length (m_q b) < nat (cm_size b)"
  proof -
    have "int (length (m_q b)) < cm_size b" using that by linarith
    then have "in_int (m_current_size b + 1)" "int (length (m_q b)) + 1 \<le> cm_size b"
      using ok by (simp_all add: bq_ok_def in_int_def int_min_def)
    then show ?thesis using ok that by (simp add: bq_ok_def bq_ops)
  qed
  show "try_pop b = Inr (None, b)" if "m_q b = []"
    using ok that by (simp add: bq_ok_def bq_ops bq_unlocked)
  show "\<exists>b'. try_pop b = Inr (Some x, b') \<and> bq_ok b' \<and> nat (cm_size b') = nat (cm_size b)
          \<and> m_q b' = xs" if "m_q b = x # xs"
  proof -
    have "in_int (m_current_size b - 1)"
      using ok that by (simp add: bq_ok_def in_int_def int_min_def)
    then show ?thesis using ok that by (simp add: bq_ok_def bq_ops)
  qed
qed

section \<open>Properties\<close>

text \<open>
  C20. Refinement: every sequence of \<open>try_push\<close> and \<open>try_pop\<close> calls on a new queue, in the
  order in which the calls get the mutex, gives the replies of an abstract queue with the
  capacity of the constructor and leaves its contents.
\<close>

theorem bounded_queue_refines:
  assumes "0 \<le> sz" "sz \<le> int_max"
  shows "\<exists>rs b. run_calls try_push try_pop (bq_new sz) cs = Inr (rs, b)
       \<and> spec_calls (nat sz) [] cs = (rs, m_q b)"
  using bqs.run_refines [OF bq_ok_new [OF assms], of cs] by (simp add: bq_new_def) blast

theorem bounded_queue_refines_witness:
  "\<exists>rs b. run_calls try_push try_pop (bq_new 1) [Push (1::nat), Push 2, Pop, Pop] = Inr (rs, b)
       \<and> spec_calls (nat 1) [] [Push (1::nat), Push 2, Pop, Pop] = (rs, m_q b)"
  by (rule bounded_queue_refines) (simp_all add: int_max_def)

text \<open>
  C34. First in, first out, never over the capacity, and \<open>size\<close> and \<open>empty\<close> report the truth:
  what was accepted is what was popped followed by what is stored.
\<close>

theorem bounded_queue_fifo:
  assumes "0 \<le> sz" "sz \<le> int_max"
    and "run_calls try_push try_pop (bq_new sz) cs = Inr (rs, b)"
  shows "accepted cs rs = popped rs @ m_q b \<and> int (length (m_q b)) \<le> sz
       \<and> bq_size b = Inr (int (length (m_q b)), b) \<and> bq_empty b = Inr (m_q b = [], b)"
proof -
  note run = bqs.run_fifo [OF bq_ok_new [OF assms(1,2)] assms(3)]
  have ok: "bq_ok b" by (rule run(2))
  have "int (length (m_q b)) \<le> int_max" using ok by (simp add: bq_ok_def)
  then have "int (length (m_q b)) mod 2 ^ 64 = int (length (m_q b))"
    by (intro mod_pos_pos_trivial) (simp_all add: int_max_def)
  then have "bq_size b = Inr (int (length (m_q b)), b)" "bq_empty b = Inr (m_q b = [], b)"
    using ok by (simp_all add: bq_ok_def bq_ops bq_unlocked)
  with run show ?thesis using assms(1) by (simp add: bq_new_def nat_le_iff le_nat_iff)
qed

theorem bounded_queue_fifo_witness:
  "accepted [Push CHR ''a'', Push CHR ''b'', Pop, Push CHR ''c''] [Pushed True, Pushed False, Popped (Some CHR ''a''), Pushed True]
     = popped [Pushed True, Pushed False, Popped (Some CHR ''a''), Pushed True] @ ''c''"
proof -
  have "run_calls try_push try_pop (bq_new 1) [Push CHR ''a'', Push CHR ''b'', Pop, Push CHR ''c'']
    = Inr ([Pushed True, Pushed False, Popped (Some CHR ''a''), Pushed True],
        (bq_new 1)\<lparr>m_q := ''c'', m_current_size := 1\<rparr>)"
    by code_simp
  from bounded_queue_fifo [OF _ _ this] show ?thesis by (simp add: int_max_def)
qed

text \<open>
  \<open>wait_and_push\<close> never returns on a queue that has not been stopped: its wait condition
  calls \<open>size()\<close>, which locks the mutex that the thread already holds.
\<close>

theorem wait_and_push_relocks:
  assumes "\<not> m_mtx b" "\<not> m_stopped b" "m_nblocked_push b < int_max" "int_min \<le> m_nblocked_push b"
  shows "wait_and_push b x = Inl Undefined_Behaviour"
proof -
  have "in_int (m_nblocked_push b + 1)" using assms by (simp add: in_int_def)
  with assms show ?thesis
    by (simp add: wait_and_push_def wait_and_push_loop_def bq_size_def lock_mtx_def)
qed

theorem wait_and_push_relocks_witness:
  "wait_and_push (bq_new 4) CHR ''x'' = Inl Undefined_Behaviour"
  by (rule wait_and_push_relocks) (simp_all add: bq_new_def int_max_def int_min_def)

text \<open>
  \<open>wait_and_pop\<close> gives a slot away: it takes the first value but leaves
  \<open>m_current_size\<close> as it was. On a full queue every later \<open>try_push\<close> is refused, even when
  such calls have drained it.
\<close>

theorem wait_and_pop_leaks_slot:
  assumes "bq_ok b" "\<not> m_stopped b" "m_q b = x # xs" "0 \<le> m_nblocked_pop b"
    "m_nblocked_pop b < int_max"
  shows "\<exists>b'. wait_and_pop b = Inr (Returned x, b') \<and> m_q b' = xs
       \<and> m_current_size b' = int (length xs) + 1
       \<and> (int (length (m_q b)) = cm_size b \<longrightarrow> try_push b' y = Inr (False, b'))"
proof -
  have "in_int (m_nblocked_pop b + 1)" "in_int (m_nblocked_pop b)"
    using assms by (simp_all add: in_int_def int_min_def)
  with assms show ?thesis
    by (simp add: wait_and_pop_def wait_and_pop_loop_def Let_def bq_ops bq_ok_def)
qed

theorem wait_and_pop_leaks_slot_witness:
  "\<exists>b'. wait_and_pop ((bq_new 1)\<lparr>m_q := [7::nat], m_current_size := 1\<rparr>) = Inr (Returned 7, b')
      \<and> m_q b' = [] \<and> try_push b' 8 = Inr (False, b')"
  using wait_and_pop_leaks_slot [of "(bq_new 1)\<lparr>m_q := [7::nat], m_current_size := 1\<rparr>" 7 "[]" 8]
  by (auto simp: bq_new_def bq_ok_def int_max_def)

text \<open>
  After \<open>stop\<close> no consumer sleeps or takes a value: everybody who slept is woken, and
  \<open>wait_and_pop\<close>, called or resumed, throws and withdraws from the count of blocked threads.
\<close>

theorem stop_terminates_consumers:
  assumes "\<not> m_mtx b" "0 \<le> m_nblocked_pop b" "m_nblocked_pop b < int_max"
    and "stop False b = Inr (out, b1)"
  shows "sleeping (m_pop_cv b1) = 0 \<and> sleeping (m_push_cv b1) = 0
       \<and> (\<exists>b2. wait_and_pop b1 = Inr (Terminated, b2) \<and> m_nblocked_pop b2 = m_nblocked_pop b
            \<and> m_q b2 = m_q b)
       \<and> (\<exists>b2. wait_and_pop_resume b1 = Inr (Terminated, b2)
            \<and> m_nblocked_pop b2 = m_nblocked_pop b - 1 \<and> m_q b2 = m_q b)"
proof -
  have "in_int (m_nblocked_pop b + 1)" "in_int (m_nblocked_pop b)" "in_int (m_nblocked_pop b - 1)"
    using assms by (simp_all add: in_int_def int_min_def)
  with assms show ?thesis
    by (auto simp: stop_def wait_and_pop_def wait_and_pop_resume_def wait_and_pop_loop_def Let_def
        bq_ops notify_all_def)
qed

theorem stop_terminates_consumers_witness:
  "\<exists>b2. wait_and_pop ((bq_new 1)\<lparr>m_stopped := True\<rparr>) = Inr (Terminated :: nat outcome, b2) \<and> m_q b2 = []"
proof -
  have "stop False (bq_new 1 :: nat bq) = Inr (Returned (), (bq_new 1)\<lparr>m_stopped := True\<rparr>)"
    by code_simp
  from stop_terminates_consumers [OF _ _ _ this] show ?thesis
    by (auto simp: bq_new_def int_max_def)
qed

text \<open>
  The size of the constructor is not checked: with a negative one the queue is not bounded,
  and \<open>try_push\<close> accepts until the counter itself overflows.
\<close>

theorem negative_capacity_unbounded:
  assumes "cm_size b < 0" "\<not> m_mtx b" "0 \<le> m_current_size b" "m_current_size b \<le> int_max"
  shows "try_push b x =
     (if m_current_size b = int_max then Inl Int_Overflow
      else Inr (True, b\<lparr>m_q := m_q b @ [x], m_current_size := m_current_size b + 1\<rparr>))"
  using assms by (auto simp: bq_ops in_int_def int_min_def cint_def bq_unlocked)

theorem negative_capacity_unbounded_witness:
  "try_push (bq_new (-1)) CHR ''a'' = Inr (True, (bq_new (-1))\<lparr>m_q := ''a'', m_current_size := 1\<rparr>)"
  using negative_capacity_unbounded [of "bq_new (-1)"] by (simp add: bq_new_def int_max_def)

end
