(* ===== verification/Kal_Lexer.thy ===== *)
theory Kal_Lexer
  imports Prelude
begin

text \<open>
  The lexer of the Kaleidoscope front end in \<^verbatim>\<open>projects/high_perf/mem_in_deep/main.cpp\<close>.
  The standard input is the list of the bytes that are still to be read; at its end
  \<open>getchar\<close> returns \<open>EOF\<close> for ever. The static variables of the source are the fields of a
  record. \<open>NumStr\<close> is the text whose \<open>strtod\<close> is \<open>NumVal\<close>; the model keeps the text.
  The character classes are those of the C locale.
\<close>

section \<open>Characters\<close>

abbreviation EOF_char :: int where "EOF_char \<equiv> - 1"

definition isspace :: "int \<Rightarrow> bool" where "isspace c \<longleftrightarrow> c = 32 \<or> 9 \<le> c \<and> c \<le> 13"
definition isdigit :: "int \<Rightarrow> bool" where "isdigit c \<longleftrightarrow> 48 \<le> c \<and> c \<le> 57"
definition isalpha :: "int \<Rightarrow> bool" where
  "isalpha c \<longleftrightarrow> 65 \<le> c \<and> c \<le> 90 \<or> 97 \<le> c \<and> c \<le> 122"
definition isalnum :: "int \<Rightarrow> bool" where "isalnum c \<longleftrightarrow> isalpha c \<or> isdigit c"
definition isascii :: "int \<Rightarrow> bool" where "isascii c \<longleftrightarrow> 0 \<le> c \<and> c \<le> 127"

abbreviation code :: "char \<Rightarrow> int" where "code c \<equiv> of_char c"

definition to_char :: "int \<Rightarrow> char" where "to_char c = char_of (nat (c mod 256))"

definition number_char :: "int \<Rightarrow> bool" where "number_char c \<longleftrightarrow> isdigit c \<or> c = code CHR ''.''"

definition tok_eof :: int where "tok_eof = - 1"
definition tok_def :: int where "tok_def = - 2"
definition tok_extern :: int where "tok_extern = - 3"
definition tok_identifier :: int where "tok_identifier = - 4"
definition tok_number :: int where "tok_number = - 5"

lemmas tok_codes = tok_eof_def tok_def_def tok_extern_def tok_identifier_def tok_number_def

lemma code_nonneg [simp]: "0 \<le> code c" "code c \<noteq> - 1"
  by (simp_all add: of_char_def)

section \<open>\<open>gettok\<close>\<close>

record lexer =
  LastChar :: int
  stdin :: string
  IdentifierStr :: string
  NumStr :: string

fun getchar :: "string \<Rightarrow> int \<times> string" where
  "getchar [] = (EOF_char, [])"
| "getchar (c # cs) = (code c, cs)"

text \<open>\<open>while (isspace(LastChar)) LastChar = getchar();\<close>\<close>

fun skip_space :: "int \<Rightarrow> string \<Rightarrow> int \<times> string" where
  "skip_space L [] = (if isspace L then EOF_char else L, [])"
| "skip_space L (c # cs) = (if isspace L then skip_space (code c) cs else (L, c # cs))"

text \<open>\<open>while (isalnum((LastChar = getchar()))) IdentifierStr += LastChar;\<close>\<close>

fun read_identifier :: "string \<Rightarrow> string \<Rightarrow> string \<times> int \<times> string" where
  "read_identifier acc [] = (acc, EOF_char, [])"
| "read_identifier acc (c # cs) =
     (if isalnum (code c) then read_identifier (acc @ [c]) cs else (acc, code c, cs))"

text \<open>The rest of the \<open>do\<close> loop of a number, after the first character.\<close>

fun read_number :: "string \<Rightarrow> string \<Rightarrow> string \<times> int \<times> string" where
  "read_number acc [] = (acc, EOF_char, [])"
| "read_number acc (c # cs) =
     (if number_char (code c) then read_number (acc @ [c]) cs else (acc, code c, cs))"

text \<open>The rest of a comment: up to the end of the line or of the input.\<close>

fun skip_comment :: "string \<Rightarrow> int \<times> string" where
  "skip_comment [] = (EOF_char, [])"
| "skip_comment (c # cs) = (if code c = 10 \<or> code c = 13 then (code c, cs) else skip_comment cs)"

text \<open>The characters that are still to be consumed, the one in \<open>LastChar\<close> included.\<close>

definition pending :: "int \<Rightarrow> string \<Rightarrow> nat" where
  "pending L cs = length cs + (if L = EOF_char then 0 else 1)"

lemma skip_space_pending: "skip_space L cs = (L', cs') \<Longrightarrow> pending L' cs' \<le> pending L cs"
  by (induction L cs arbitrary: L' cs' rule: skip_space.induct)
    (fastforce simp: pending_def isspace_def split: if_splits)+

lemma read_identifier_pending:
  "read_identifier acc cs = (acc', L', cs') \<Longrightarrow> pending L' cs' \<le> length cs"
  by (induction acc cs arbitrary: acc' L' cs' rule: read_identifier.induct)
    (fastforce simp: pending_def split: if_splits)+

lemma read_number_pending:
  "read_number acc cs = (acc', L', cs') \<Longrightarrow> pending L' cs' \<le> length cs"
  by (induction acc cs arbitrary: acc' L' cs' rule: read_number.induct)
    (fastforce simp: pending_def split: if_splits)+

lemma skip_comment_pending: "skip_comment cs = (L', cs') \<Longrightarrow> pending L' cs' \<le> length cs"
  by (induction cs arbitrary: L' cs' rule: skip_comment.induct)
    (fastforce simp: pending_def split: if_splits)+

lemma getchar_pending: "getchar cs = (L', cs') \<Longrightarrow> pending L' cs' = length cs"
  by (cases cs) (auto simp: pending_def)

function gettok :: "lexer \<Rightarrow> int \<times> lexer" where
  "gettok lx =
     (let (L, cs) = skip_space (LastChar lx) (stdin lx)
      in if isalpha L then
           let (str, L', cs') = read_identifier [to_char L] cs;
               lx' = lx\<lparr>LastChar := L', stdin := cs', IdentifierStr := str\<rparr>
           in if str = ''def'' then (tok_def, lx')
              else if str = ''extern'' then (tok_extern, lx')
              else (tok_identifier, lx')
         else if number_char L then
           let (str, L', cs') = read_number [to_char L] cs
           in (tok_number, lx\<lparr>LastChar := L', stdin := cs', NumStr := str\<rparr>)
         else if L = code CHR ''#'' then
           let (L', cs') = skip_comment cs; lx' = lx\<lparr>LastChar := L', stdin := cs'\<rparr>
           in if L' \<noteq> EOF_char then gettok lx' else (tok_eof, lx')
         else if L = EOF_char then (tok_eof, lx\<lparr>LastChar := L, stdin := cs\<rparr>)
         else
           let (L', cs') = getchar cs in (L, lx\<lparr>LastChar := L', stdin := cs'\<rparr>))"
  by pat_completeness auto
termination
proof (relation "measure (\<lambda>lx. pending (LastChar lx) (stdin lx))", goal_cases)
  case 1
  show ?case by simp
next
  case (2 lx x L cs y L' cs' lx')
  then have "pending L cs \<le> pending (LastChar lx) (stdin lx)"
    by (intro skip_space_pending) simp
  moreover have "pending L' cs' \<le> length cs"
    using 2 by (intro skip_comment_pending) simp
  moreover have "length cs < pending L cs" using 2 by (simp add: pending_def)
  ultimately show ?case using 2 by simp
qed

declare gettok.simps [simp del]

section \<open>The lexer makes progress\<close>

definition lex_pending :: "lexer \<Rightarrow> nat" where
  "lex_pending lx = pending (LastChar lx) (stdin lx)"

lemma gettok_progress:
  "gettok lx = (t, lx') \<Longrightarrow> lex_pending lx' \<le> lex_pending lx
     \<and> (t = tok_eof \<or> lex_pending lx' < lex_pending lx)"
proof (induction lx arbitrary: t lx' rule: gettok.induct)
  case (1 lx)
  obtain L cs where ss: "skip_space (LastChar lx) (stdin lx) = (L, cs)" by force
  have le: "pending L cs \<le> lex_pending lx"
    unfolding lex_pending_def by (rule skip_space_pending [OF ss])
  note step = "1.prems" [unfolded gettok.simps [of lx] ss Let_def prod.case]
  have lt: "length cs < lex_pending lx" if "L \<noteq> EOF_char"
    using le that by (simp add: pending_def)
  consider (alpha) "isalpha L" | (number) "\<not> isalpha L" "number_char L"
    | (comment) "\<not> isalpha L" "\<not> number_char L" "L = code CHR ''#''"
    | (eof) "\<not> isalpha L" "\<not> number_char L" "L \<noteq> code CHR ''#''" "L = EOF_char"
    | (other) "\<not> isalpha L" "\<not> number_char L" "L \<noteq> code CHR ''#''" "L \<noteq> EOF_char"
    by blast
  then show ?case
  proof cases
    case alpha
    obtain str L' cs' where r: "read_identifier [to_char L] cs = (str, L', cs')"
      using prod_cases3 by blast
    from read_identifier_pending [OF r] step alpha lt show ?thesis
      by (auto simp: r lex_pending_def isalpha_def split: if_splits)
  next
    case number
    obtain str L' cs' where r: "read_number [to_char L] cs = (str, L', cs')"
      using prod_cases3 by blast
    from read_number_pending [OF r] step number lt show ?thesis
      by (auto simp: r lex_pending_def number_char_def isdigit_def split: if_splits)
  next
    case comment
    obtain L' cs' where r: "skip_comment cs = (L', cs')" by force
    let ?lx = "lx\<lparr>LastChar := L', stdin := cs'\<rparr>"
    have small: "lex_pending ?lx < lex_pending lx"
      using skip_comment_pending [OF r] lt comment by (simp add: lex_pending_def)
    show ?thesis
    proof (cases "L' = EOF_char")
      case True
      then show ?thesis using step comment small by (simp add: r)
    next
      case False
      then have "gettok ?lx = (t, lx')" using step comment by (simp add: r)
      with "1.IH" [OF ss [symmetric] refl comment r [symmetric] refl refl False]
      show ?thesis using small by force
    qed
  next
    case eof
    then show ?thesis using step le by (auto simp: lex_pending_def)
  next
    case other
    obtain L' cs' where r: "getchar cs = (L', cs')" by force
    from getchar_pending [OF r] step other lt show ?thesis
      by (auto simp: r lex_pending_def)
  qed
qed

text \<open>The end of the input is final.\<close>

lemma gettok_at_eof: "LastChar lx = EOF_char \<Longrightarrow> gettok lx = (tok_eof, lx)"
proof -
  assume L: "LastChar lx = EOF_char"
  then have "skip_space (LastChar lx) (stdin lx) = (EOF_char, stdin lx)"
    by (cases "stdin lx") (simp_all add: isspace_def)
  with L show ?thesis
    by (simp add: gettok.simps [of lx] isalpha_def number_char_def isdigit_def)
qed

lemma gettok_eof: "gettok lx = (tok_eof, lx') \<Longrightarrow> LastChar lx' = EOF_char"
proof (induction lx arbitrary: lx' rule: gettok.induct)
  case (1 lx)
  obtain L cs where ss: "skip_space (LastChar lx) (stdin lx) = (L, cs)" by force
  obtain L' cs' where sc: "skip_comment cs = (L', cs')" by force
  let ?lx = "lx\<lparr>LastChar := L', stdin := cs'\<rparr>"
  note step = "1.prems" [unfolded gettok.simps [of lx] ss sc Let_def prod.case]
  have L: "\<not> isalpha L" "\<not> number_char L" "L = code CHR ''#'' \<or> L = EOF_char"
    using step by (auto simp: tok_codes split: if_splits prod.splits)
  show ?case
  proof (cases "L = code CHR ''#'' \<and> L' \<noteq> EOF_char")
    case True
    then have "gettok ?lx = (tok_eof, lx')" using step L(1,2) by simp
    with "1.IH" [OF ss [symmetric] refl L(1,2) _ sc [symmetric] refl refl] True show ?thesis by blast
  next
    case False
    then show ?thesis using step L by auto
  qed
qed

section \<open>Reading back a token\<close>

datatype token = T_def | T_extern | T_id string | T_num string | T_char char

fun token_code :: "token \<Rightarrow> int" where
  "token_code T_def = tok_def"
| "token_code T_extern = tok_extern"
| "token_code (T_id x) = tok_identifier"
| "token_code (T_num x) = tok_number"
| "token_code (T_char c) = code c"

fun token_text :: "token \<Rightarrow> string" where
  "token_text T_def = ''def''"
| "token_text T_extern = ''extern''"
| "token_text (T_id x) = x"
| "token_text (T_num x) = x"
| "token_text (T_char c) = [c]"

definition is_name :: "string \<Rightarrow> bool" where
  "is_name x \<longleftrightarrow> x \<noteq> [] \<and> isalpha (code (hd x)) \<and> list_all (\<lambda>c. isalnum (code c)) x"

fun wf_token :: "token \<Rightarrow> bool" where
  "wf_token T_def = True"
| "wf_token T_extern = True"
| "wf_token (T_id x) = (is_name x \<and> x \<noteq> ''def'' \<and> x \<noteq> ''extern'')"
| "wf_token (T_num x) = (x \<noteq> [] \<and> list_all (\<lambda>c. number_char (code c)) x)"
| "wf_token (T_char c) = (\<not> isspace (code c) \<and> \<not> isalpha (code c) \<and> \<not> number_char (code c)
     \<and> c \<noteq> CHR ''#'')"

text \<open>The static variables after the token has been read.\<close>

fun remember :: "token \<Rightarrow> lexer \<Rightarrow> lexer" where
  "remember (T_num x) lx = lx\<lparr>NumStr := x\<rparr>"
| "remember (T_char c) lx = lx"
| "remember t lx = lx\<lparr>IdentifierStr := token_text t\<rparr>"

lemma code_inject [simp]: "code c = code d \<longleftrightarrow> c = d"
  by simp

lemma to_char_code [simp]: "to_char (code c) = c"
  by (simp add: to_char_def)

lemma read_identifier_all:
  "list_all (\<lambda>c. isalnum (code c)) x \<Longrightarrow>
   read_identifier acc (x @ CHR '' '' # cs) = (acc @ x, 32, cs)"
  by (induction x arbitrary: acc) (auto simp: isalnum_def isalpha_def isdigit_def)

lemma read_number_all:
  "list_all (\<lambda>c. number_char (code c)) x \<Longrightarrow>
   read_number acc (x @ CHR '' '' # cs) = (acc @ x, 32, cs)"
  by (induction x arbitrary: acc) (auto simp: number_char_def isdigit_def)

lemma skip_one_space:
  "\<not> isspace (code c) \<Longrightarrow> skip_space 32 (c # cs) = (code c, cs)"
proof -
  have "isspace 32" by (simp add: isspace_def)
  then show "\<not> isspace (code c) \<Longrightarrow> skip_space 32 (c # cs) = (code c, cs)"
    by (cases cs) simp_all
qed

text \<open>The three branches that read a token, from what the scans return.\<close>

lemma gettok_name:
  assumes "skip_space (LastChar lx) (stdin lx) = (L, cs)" "isalpha L"
    "read_identifier [to_char L] cs = (str, L', cs')"
  shows "gettok lx = (if str = ''def'' then tok_def else if str = ''extern'' then tok_extern
      else tok_identifier, lx\<lparr>LastChar := L', stdin := cs', IdentifierStr := str\<rparr>)"
  unfolding gettok.simps [of lx] Let_def assms(1,3) prod.case using assms(2) by (simp only: if_True) auto

lemma gettok_number:
  assumes "skip_space (LastChar lx) (stdin lx) = (L, cs)" "\<not> isalpha L" "number_char L"
    "read_number [to_char L] cs = (str, L', cs')"
  shows "gettok lx = (tok_number, lx\<lparr>LastChar := L', stdin := cs', NumStr := str\<rparr>)"
  unfolding gettok.simps [of lx] Let_def assms(1,4) prod.case using assms(2,3)
  by (simp only: if_True if_False)

lemma gettok_other:
  assumes "skip_space (LastChar lx) (stdin lx) = (L, cs)" "\<not> isalpha L" "\<not> number_char L"
    "L \<noteq> code CHR ''#''" "L \<noteq> EOF_char" "getchar cs = (L', cs')"
  shows "gettok lx = (L, lx\<lparr>LastChar := L', stdin := cs'\<rparr>)"
  unfolding gettok.simps [of lx] Let_def assms(1,6) prod.case using assms(2-5)
  by (simp only: if_False)

lemma gettok_token:
  assumes wf: "wf_token t" and lx: "LastChar lx = 32" "stdin lx = token_text t @ CHR '' '' # cs"
  shows "gettok lx = (token_code t, (remember t lx)\<lparr>LastChar := 32, stdin := cs\<rparr>)"
proof -
  have name: "gettok lx = (if x = ''def'' then tok_def else if x = ''extern'' then tok_extern
      else tok_identifier, lx\<lparr>LastChar := 32, stdin := cs, IdentifierStr := x\<rparr>)"
    if x: "is_name x" "stdin lx = x @ CHR '' '' # cs" for x
  proof -
    obtain c x' where [simp]: "x = c # x'" using x(1) by (cases x) (auto simp: is_name_def)
    have c: "isalpha (code c)" "list_all (\<lambda>c. isalnum (code c)) x'"
      using x(1) by (simp_all add: is_name_def)
    then have "\<not> isspace (code c)" by (auto simp: isspace_def isalpha_def)
    then have "skip_space (LastChar lx) (stdin lx) = (code c, x' @ CHR '' '' # cs)"
      using x(2) lx(1) skip_one_space by simp
    from gettok_name [OF this c(1), of x 32 cs] show ?thesis
      using c(2) by (simp add: read_identifier_all)
  qed
  show ?thesis
  proof (cases t)
    case T_def
    have "is_name ''def''" by (simp add: is_name_def isalpha_def isalnum_def of_char_def)
    then show ?thesis using name [of "''def''"] lx T_def by simp
  next
    case T_extern
    have "is_name ''extern''" by (simp add: is_name_def isalpha_def isalnum_def of_char_def)
    then show ?thesis using name [of "''extern''"] lx T_extern by simp
  next
    case (T_id x)
    then show ?thesis using name [of x] lx wf by simp
  next
    case (T_num x)
    then obtain c x' where [simp]: "x = c # x'" using wf by (cases x) auto
    have c: "number_char (code c)" "list_all (\<lambda>c. number_char (code c)) x'"
      using wf T_num by simp_all
    then have "\<not> isspace (code c)" "\<not> isalpha (code c)"
      by (auto simp: isspace_def isalpha_def number_char_def isdigit_def)
    then have "skip_space (LastChar lx) (stdin lx) = (code c, x' @ CHR '' '' # cs)"
      using T_num lx skip_one_space by simp
    from gettok_number [OF this \<open>\<not> isalpha (code c)\<close> c(1), of x 32 cs] show ?thesis
      using c(2) T_num by (simp add: read_number_all)
  next
    case (T_char c)
    then have "skip_space (LastChar lx) (stdin lx) = (code c, CHR '' '' # cs)"
      using wf lx skip_one_space by simp
    moreover have "code c \<noteq> code CHR ''#''" using wf T_char by (simp del: of_char_Char)
    moreover have "getchar (CHR '' '' # cs) = (32, cs)" by simp
    ultimately show ?thesis
      using wf T_char gettok_other [of lx "code c" "CHR '' '' # cs" 32 cs] by simp
  qed
qed

lemma gettok_end: "LastChar lx = 32 \<Longrightarrow> stdin lx = [] \<Longrightarrow> gettok lx = (tok_eof, lx\<lparr>LastChar := EOF_char\<rparr>)"
  by (simp add: gettok.simps [of lx] isspace_def isalpha_def number_char_def isdigit_def)

end
