(* ===== verification/Kal_Parser.thy ===== *)
theory Kal_Parser
  imports Kal_Lexer
begin

text \<open>
  The parser and the main loop of \<^verbatim>\<open>projects/high_perf/mem_in_deep/main.cpp\<close>: recursive
  descent with operator-precedence parsing. A parsing function returns a tree or, for the
  null pointer of the source, \<open>None\<close>, together with the state; the mutual recursion runs on
  fuel, and running out of it is the outer \<open>None\<close>. \<open>Kal_Parser_Correct\<close> shows that the fuel
  \<open>fuel_for\<close> is always enough. \<open>stderr\<close> collects the messages.

  The nodes keep the text of a number. \<open>BinopPrecedence\<close> is the table that \<open>main\<close> fills; the
  0 that \<open>operator[]\<close> inserts for an unknown character is not told apart from a missing entry
  by any later lookup.
\<close>

section \<open>Trees and state\<close>

datatype expr =
    NumberExprAST string
  | VariableExprAST string
  | BinaryExprAST char expr expr
  | CallExprAST string "expr list"

datatype prototype = PrototypeAST string "string list"

datatype function_ast = FunctionAST prototype expr

record parser =
  lex :: lexer
  CurTok :: int
  stderr :: "string list"

definition getNextToken :: "parser \<Rightarrow> parser" where
  "getNextToken st = (let (t, lx) = gettok (lex st) in st\<lparr>lex := lx, CurTok := t\<rparr>)"

definition LogError :: "string \<Rightarrow> parser \<Rightarrow> parser" where
  "LogError msg st = st\<lparr>stderr := stderr st @ [''LogError: '' @ msg]\<rparr>"

definition quoted :: "string \<Rightarrow> string" where
  "quoted x = [CHR 0x27] @ x @ [CHR 0x27]"

definition print_line :: "string \<Rightarrow> parser \<Rightarrow> parser" where
  "print_line msg st = st\<lparr>stderr := stderr st @ [msg]\<rparr>"

definition BinopPrecedence :: "char \<Rightarrow> int" where
  "BinopPrecedence c = (if c = CHR ''<'' then 10 else if c = CHR ''+'' then 20
     else if c = CHR ''-'' then 20 else if c = CHR ''*'' then 40 else 0)"

definition GetTokPrecedence :: "parser \<Rightarrow> int" where
  "GetTokPrecedence st =
     (if \<not> isascii (CurTok st) then - 1
      else let TokPrec = BinopPrecedence (to_char (CurTok st))
        in if TokPrec \<le> 0 then - 1 else TokPrec)"

section \<open>The parser\<close>

type_synonym 'a parsed = "('a option \<times> parser) option"

text \<open>Go on with the tree, or return the null pointer.\<close>

definition pbind :: "'a parsed \<Rightarrow> ('a \<Rightarrow> parser \<Rightarrow> 'b parsed) \<Rightarrow> 'b parsed" where
  "pbind r f = (case r of None \<Rightarrow> None | Some (None, st) \<Rightarrow> Some (None, st)
     | Some (Some x, st) \<Rightarrow> f x st)"

lemma pbind_simps [simp]:
  "pbind None f = None"
  "pbind (Some (None, st)) f = Some (None, st)"
  "pbind (Some (Some x, st)) f = f x st"
  by (simp_all add: pbind_def)

lemma pbind_cong [fundef_cong]:
  "r = r' \<Longrightarrow> (\<And>x st. r' = Some (Some x, st) \<Longrightarrow> f x st = g x st) \<Longrightarrow> pbind r f = pbind r' g"
  by (auto simp: pbind_def split: option.splits)

definition ParseNumberExpr :: "parser \<Rightarrow> expr \<times> parser" where
  "ParseNumberExpr st = (NumberExprAST (NumStr (lex st)), getNextToken st)"

fun ParsePrimary :: "nat \<Rightarrow> parser \<Rightarrow> expr parsed"
  and ParseParenExpr :: "nat \<Rightarrow> parser \<Rightarrow> expr parsed"
  and ParseIdentifierExpr :: "nat \<Rightarrow> parser \<Rightarrow> expr parsed"
  and parse_args :: "nat \<Rightarrow> expr list \<Rightarrow> parser \<Rightarrow> expr list parsed"
  and ParseBinOpRHS :: "nat \<Rightarrow> int \<Rightarrow> expr \<Rightarrow> parser \<Rightarrow> expr parsed"
  and ParseExpression :: "nat \<Rightarrow> parser \<Rightarrow> expr parsed"
where
  "ParsePrimary 0 st = None"
| "ParsePrimary (Suc n) st =
     (if CurTok st = tok_identifier then ParseIdentifierExpr n st
      else if CurTok st = tok_number then
        let (e, st') = ParseNumberExpr st in Some (Some e, st')
      else if CurTok st = code CHR ''('' then ParseParenExpr n st
      else Some (None, LogError ''unk tok'' st))"

| "ParseParenExpr 0 st = None"
| "ParseParenExpr (Suc n) st =
     pbind (ParseExpression n (getNextToken st)) (\<lambda>V st'.
       if CurTok st' \<noteq> code CHR '')'' then Some (None, LogError (''expected '' @ quoted '')'') st')
       else Some (Some V, getNextToken st'))"

| "ParseIdentifierExpr 0 st = None"
| "ParseIdentifierExpr (Suc n) st =
     (let IdName = IdentifierStr (lex st); st1 = getNextToken st
      in if CurTok st1 \<noteq> code CHR ''('' then Some (Some (VariableExprAST IdName), st1)
         else let st2 = getNextToken st1
           in pbind (if CurTok st2 \<noteq> code CHR '')'' then parse_args n [] st2 else Some (Some [], st2))
                (\<lambda>Args st3. Some (Some (CallExprAST IdName Args), getNextToken st3)))"

| "parse_args 0 Args st = None"
| "parse_args (Suc n) Args st =
     pbind (ParseExpression n st) (\<lambda>Arg st'.
       if CurTok st' = code CHR '')'' then Some (Some (Args @ [Arg]), st')
       else if CurTok st' \<noteq> code CHR '','' then Some (None, LogError (''Exp '' @ quoted '')'' @ '' '') st')
       else parse_args n (Args @ [Arg]) (getNextToken st'))"

| "ParseBinOpRHS 0 ExprPrec LHS st = None"
| "ParseBinOpRHS (Suc n) ExprPrec LHS st =
     (let TokPrec = GetTokPrecedence st
      in if TokPrec < ExprPrec then Some (Some LHS, st)
         else
           let BinOp = CurTok st
           in pbind (ParsePrimary n (getNextToken st)) (\<lambda>RHS st2.
              pbind (if TokPrec < GetTokPrecedence st2 then ParseBinOpRHS n (TokPrec + 1) RHS st2
                     else Some (Some RHS, st2)) (\<lambda>RHS' st3.
              ParseBinOpRHS n ExprPrec (BinaryExprAST (to_char BinOp) LHS RHS') st3)))"

| "ParseExpression 0 st = None"
| "ParseExpression (Suc n) st =
     pbind (ParsePrimary n st) (\<lambda>LHS st'. ParseBinOpRHS n 0 LHS st')"

text \<open>\<open>while (getNextToken() == tok_identifier) ArgNames.push_back(IdentifierStr);\<close>\<close>

fun parse_arg_names :: "nat \<Rightarrow> string list \<Rightarrow> parser \<Rightarrow> (string list \<times> parser) option" where
  "parse_arg_names 0 names st = None"
| "parse_arg_names (Suc n) names st =
     (let st' = getNextToken st
      in if CurTok st' = tok_identifier
         then parse_arg_names n (names @ [IdentifierStr (lex st')]) st'
         else Some (names, st'))"

definition ParsePrototype :: "nat \<Rightarrow> parser \<Rightarrow> prototype parsed" where
  "ParsePrototype n st =
     (if CurTok st \<noteq> tok_identifier
      then Some (None, LogError ''Expected function name in prototype'' st)
      else let FnName = IdentifierStr (lex st); st1 = getNextToken st
        in if CurTok st1 \<noteq> code CHR ''(''
           then Some (None, LogError (''Expected '' @ quoted ''('' @ '' in prototype'') st1)
           else case parse_arg_names n [] st1 of
             None \<Rightarrow> None
           | Some (ArgNames, st2) \<Rightarrow>
               if CurTok st2 \<noteq> code CHR '')''
               then Some (None, LogError (''Expected '' @ quoted '')'' @ '' in prototype'') st2)
               else Some (Some (PrototypeAST FnName ArgNames), getNextToken st2))"

definition ParseDefinition :: "nat \<Rightarrow> parser \<Rightarrow> function_ast parsed" where
  "ParseDefinition n st =
     pbind (ParsePrototype n (getNextToken st)) (\<lambda>Proto st1.
     pbind (ParseExpression n st1) (\<lambda>E st2. Some (Some (FunctionAST Proto E), st2)))"

definition ParseTopLevelExpr :: "nat \<Rightarrow> parser \<Rightarrow> function_ast parsed" where
  "ParseTopLevelExpr n st =
     pbind (ParseExpression n st) (\<lambda>E st1.
       Some (Some (FunctionAST (PrototypeAST ''__anon_expr'' []) E), st1))"

definition ParseExtern :: "nat \<Rightarrow> parser \<Rightarrow> prototype parsed" where
  "ParseExtern n st = ParsePrototype n (getNextToken st)"

section \<open>The main loop\<close>

text \<open>What the three handlers do with a result: a message, or the next token.\<close>

definition handle :: "string \<Rightarrow> 'a parsed \<Rightarrow> parser option" where
  "handle msg r = (case r of None \<Rightarrow> None | Some (Some x, st) \<Rightarrow> Some (print_line msg st)
     | Some (None, st) \<Rightarrow> Some (getNextToken st))"

definition HandleDefinition :: "nat \<Rightarrow> parser \<Rightarrow> parser option" where
  "HandleDefinition n st = handle ''Parsed a function definition.'' (ParseDefinition n st)"

definition HandleExtern :: "nat \<Rightarrow> parser \<Rightarrow> parser option" where
  "HandleExtern n st = handle ''Parsed an extern'' (ParseExtern n st)"

definition HandleTopLevelExpression :: "nat \<Rightarrow> parser \<Rightarrow> parser option" where
  "HandleTopLevelExpression n st = handle ''Parsed a top-level expr'' (ParseTopLevelExpr n st)"

fun MainLoop :: "nat \<Rightarrow> parser \<Rightarrow> parser option" where
  "MainLoop 0 st = None"
| "MainLoop (Suc n) st =
     (let st0 = print_line ''ready >'' st
      in if CurTok st0 = tok_eof then Some st0
         else case (if CurTok st0 = code CHR '';'' then Some (getNextToken st0)
                    else if CurTok st0 = tok_def then HandleDefinition n st0
                    else if CurTok st0 = tok_extern then HandleExtern n st0
                    else HandleTopLevelExpression n st0) of
           None \<Rightarrow> None
         | Some st1 \<Rightarrow> MainLoop n st1)"

definition start_parser :: "string \<Rightarrow> parser" where
  "start_parser input =
     \<lparr>lex = \<lparr>LastChar = 32, stdin = input, IdentifierStr = [], NumStr = []\<rparr>, CurTok = 0,
      stderr = []\<rparr>"

definition main_program :: "nat \<Rightarrow> string \<Rightarrow> parser option" where
  "main_program n input =
     MainLoop n (getNextToken (print_line ''ready> '' (start_parser input)))"

end
