(* ===== verification/Kal_Round_Trip.thy ===== *)
theory Kal_Round_Trip
  imports Kal_Parser_Correct
begin

text \<open>
  The parser of \<open>Kal_Parser\<close> inverts a printer that writes the parentheses that precedence
  and left associativity require, and no others.
\<close>

section \<open>More fuel gives the same result\<close>

lemmas parser_equations = ParsePrimary.simps ParseParenExpr.simps ParseIdentifierExpr.simps
  parse_args.simps ParseBinOpRHS.simps ParseExpression.simps

declare parser_equations [simp del]

lemma pbind_more:
  "pbind r f = Some y \<Longrightarrow> (\<And>z. r = Some z \<Longrightarrow> r' = Some z) \<Longrightarrow>
   (\<And>x st z. f x st = Some z \<Longrightarrow> g x st = Some z) \<Longrightarrow> pbind r' g = Some y"
  by (auto simp: pbind_def split: option.splits prod.splits)

lemma one_more:
  "ParsePrimary n st = Some r \<Longrightarrow> ParsePrimary (Suc n) st = Some r"
  "ParseParenExpr n st = Some r \<Longrightarrow> ParseParenExpr (Suc n) st = Some r"
  "ParseIdentifierExpr n st = Some r \<Longrightarrow> ParseIdentifierExpr (Suc n) st = Some r"
  "parse_args n acc st = Some ra \<Longrightarrow> parse_args (Suc n) acc st = Some ra"
  "ParseBinOpRHS n p lhs st = Some r \<Longrightarrow> ParseBinOpRHS (Suc n) p lhs st = Some r"
  "ParseExpression n st = Some r \<Longrightarrow> ParseExpression (Suc n) st = Some r"
proof (induction n arbitrary: st acc p lhs r ra)
  case 0
  { case 1 then show ?case by (simp add: parser_equations)
  next case 2 then show ?case by (simp add: parser_equations)
  next case 3 then show ?case by (simp add: parser_equations)
  next case 4 then show ?case by (simp add: parser_equations)
  next case 5 then show ?case by (simp add: parser_equations)
  next case 6 then show ?case by (simp add: parser_equations) }
next
  case (Suc n)
  {
    case 1
    from 1 [unfolded ParsePrimary.simps(2) [of n]] show ?case
      unfolding ParsePrimary.simps(2) [of "Suc n"]
      using Suc.IH(2,3) [of st r] by (auto split: if_splits)
  next
    case 2
    from 2 [unfolded ParseParenExpr.simps(2) [of n]] show ?case
      unfolding ParseParenExpr.simps(2) [of "Suc n"] by (rule pbind_more) (auto intro: Suc.IH(6))
  next
    case 3
    show ?case
    proof (cases "CurTok (getNextToken st) = code CHR ''(''")
      case True
      with 3 [unfolded ParseIdentifierExpr.simps(2) [of n] Let_def] show ?thesis
        unfolding ParseIdentifierExpr.simps(2) [of "Suc n"] Let_def
        by (simp only: if_False simp_thms) (erule pbind_more, auto intro: Suc.IH(4) split: if_splits)
    next
      case False
      with 3 show ?thesis by (simp add: Let_def ParseIdentifierExpr.simps)
    qed
  next
    case 4
    from 4 [unfolded parse_args.simps(2) [of n]] show ?case
      unfolding parse_args.simps(2) [of "Suc n"]
      by (rule pbind_more) (auto intro: Suc.IH(6) Suc.IH(4) split: if_splits)
  next
    case 5
    show ?case
    proof (cases "GetTokPrecedence st < p")
      case True
      with 5 show ?thesis by (simp add: Let_def ParseBinOpRHS.simps)
    next
      case False
      with 5 [unfolded ParseBinOpRHS.simps(2) [of n] Let_def] show ?thesis
        unfolding ParseBinOpRHS.simps(2) [of "Suc n"] Let_def
        by (simp only: if_False) (erule pbind_more, erule Suc.IH(1), erule pbind_more,
            auto intro: Suc.IH(5) split: if_splits)
    qed
  next
    case 6
    from 6 [unfolded ParseExpression.simps(2) [of n]] show ?case
      unfolding ParseExpression.simps(2) [of "Suc n"]
      by (rule pbind_more) (auto intro: Suc.IH(1) Suc.IH(5))
  }
qed

lemma iterate_more:
  assumes "\<And>n. f n = Some r \<Longrightarrow> f (Suc n) = Some r" "f n = Some r" "n \<le> k"
  shows "f k = Some r"
  using assms(3,2) by (induction k rule: dec_induct) (auto intro: assms(1))

lemma more_fuel:
  assumes "n \<le> k"
  shows "ParsePrimary n st = Some r \<Longrightarrow> ParsePrimary k st = Some r"
    and "parse_args n acc st = Some ra \<Longrightarrow> parse_args k acc st = Some ra"
    and "ParseBinOpRHS n p lhs st = Some r \<Longrightarrow> ParseBinOpRHS k p lhs st = Some r"
    and "ParseExpression n st = Some r \<Longrightarrow> ParseExpression k st = Some r"
proof -
  show "ParsePrimary n st = Some r \<Longrightarrow> ParsePrimary k st = Some r"
    by (rule iterate_more [of "\<lambda>n. ParsePrimary n st", OF one_more(1) _ assms])
  show "parse_args n acc st = Some ra \<Longrightarrow> parse_args k acc st = Some ra"
    by (rule iterate_more [of "\<lambda>n. parse_args n acc st", OF one_more(4) _ assms])
  show "ParseBinOpRHS n p lhs st = Some r \<Longrightarrow> ParseBinOpRHS k p lhs st = Some r"
    by (rule iterate_more [of "\<lambda>n. ParseBinOpRHS n p lhs st", OF one_more(5) _ assms])
  show "ParseExpression n st = Some r \<Longrightarrow> ParseExpression k st = Some r"
    by (rule iterate_more [of "\<lambda>n. ParseExpression n st", OF one_more(6) _ assms])
qed

section \<open>The printer\<close>

fun commas :: "token list list \<Rightarrow> token list" where
  "commas [] = []"
| "commas [x] = x"
| "commas (x # y # zs) = x @ T_char CHR '','' # commas (y # zs)"

text \<open>The tokens of a tree where operators of precedence less than \<open>p\<close> need parentheses.\<close>

fun toks :: "int \<Rightarrow> expr \<Rightarrow> token list" where
  "toks p (NumberExprAST x) = [T_num x]"
| "toks p (VariableExprAST x) = [T_id x]"
| "toks p (CallExprAST f args) =
     T_id f # T_char CHR ''('' # commas (map (toks 0) args) @ [T_char CHR '')'']"
| "toks p (BinaryExprAST op l r) =
     (let q = BinopPrecedence op; body = toks q l @ T_char op # toks (q + 1) r
      in if q < p then T_char CHR ''('' # body @ [T_char CHR '')''] else body)"

fun wf_expr :: "expr \<Rightarrow> bool" where
  "wf_expr (NumberExprAST x) = wf_token (T_num x)"
| "wf_expr (VariableExprAST x) = wf_token (T_id x)"
| "wf_expr (CallExprAST f args) = (wf_token (T_id f) \<and> (\<forall>a \<in> set args. wf_expr a))"
| "wf_expr (BinaryExprAST op l r) = (0 < BinopPrecedence op \<and> wf_expr l \<and> wf_expr r)"

definition render :: "token list \<Rightarrow> string" where
  "render ts = concat (map (\<lambda>t. token_text t @ '' '') ts)"

section \<open>The tokens that a state still has to read\<close>

fun remembered :: "token \<Rightarrow> lexer \<Rightarrow> bool" where
  "remembered (T_id x) lx = (IdentifierStr lx = x)"
| "remembered (T_num x) lx = (NumStr lx = x)"
| "remembered _ lx = True"

fun stream :: "parser \<Rightarrow> token list \<Rightarrow> bool" where
  "stream st [] = (CurTok st = tok_eof)"
| "stream st (t # ts) = (CurTok st = token_code t \<and> remembered t (lex st)
     \<and> LastChar (lex st) = 32 \<and> stdin (lex st) = render ts \<and> list_all wf_token ts)"

lemma remembered_remember: "remembered t ((remember t lx)\<lparr>LastChar := c, stdin := cs\<rparr>)"
  by (cases t) simp_all

lemma next_stream:
  assumes "LastChar (lex st) = 32" "stdin (lex st) = render ts" "list_all wf_token ts"
  shows "stream (getNextToken st) ts"
proof (cases ts)
  case Nil
  then show ?thesis
    using gettok_end [of "lex st"] assms by (simp add: render_def getNextToken_def)
next
  case (Cons t ts')
  have "gettok (lex st) = (token_code t, (remember t (lex st))\<lparr>LastChar := 32, stdin := render ts'\<rparr>)"
    using assms Cons by (intro gettok_token) (simp_all add: render_def)
  then show ?thesis
    using assms(3) Cons by (simp add: getNextToken_def remembered_remember)
qed

lemma stream_next: "stream st (t # ts) \<Longrightarrow> stream (getNextToken st) ts"
  by (intro next_stream) simp_all

lemma wf_operator: "0 < BinopPrecedence c \<Longrightarrow> wf_token (T_char c) \<and> isascii (code c) \<and> c \<noteq> CHR ''(''"
  by (auto simp: BinopPrecedence_def isspace_def isalpha_def number_char_def isdigit_def isascii_def
      split: if_splits)

lemma wf_punctuation:
  "wf_token (T_char CHR ''('')" "wf_token (T_char CHR '')'')" "wf_token (T_char CHR '','')"
  by (simp_all add: isspace_def isalpha_def number_char_def isdigit_def)

lemma wf_commas: "\<forall>x \<in> set xs. list_all wf_token x \<Longrightarrow> list_all wf_token (commas xs)"
  by (induction xs rule: commas.induct) (auto simp: wf_punctuation simp del: wf_token.simps(5))

lemma wf_toks: "wf_expr e \<Longrightarrow> list_all wf_token (toks p e)"
  by (induction p e rule: toks.induct)
    (auto simp: Let_def wf_punctuation wf_operator intro!: wf_commas simp del: wf_token.simps(5))

text \<open>The precedence of the first of the remaining tokens.\<close>

fun first_prec :: "token list \<Rightarrow> int" where
  "first_prec (T_char c # ts) = (if BinopPrecedence c \<le> 0 then - 1 else BinopPrecedence c)"
| "first_prec _ = - 1"

fun no_call :: "token list \<Rightarrow> bool" where
  "no_call (T_char c # ts) = (c \<noteq> CHR ''('')"
| "no_call _ = True"

lemma token_code_char: "token_code t = code d \<longleftrightarrow> t = T_char d"
proof (cases t)
  case (T_char c)
  then show ?thesis by (simp only: token_code.simps of_char_eq_iff token.inject)
qed (use code_nonneg(1) [of d] in \<open>auto simp: tok_codes simp del: code_nonneg(1)\<close>)

lemma stream_char: "stream st ts \<Longrightarrow> CurTok st = code d \<longleftrightarrow> (\<exists>ts'. ts = T_char d # ts')"
  using code_nonneg(2) [of d]
  by (cases ts) (simp_all only: stream.simps token_code_char tok_eof_def, auto simp del: code_nonneg(2))

lemma stream_prec: "stream st ts \<Longrightarrow> GetTokPrecedence st = first_prec ts"
proof (induction ts rule: first_prec.induct)
  case (1 c ts)
  then show ?case
    using wf_operator [of c] by (auto simp: GetTokPrecedence_def Let_def)
qed (auto simp: GetTokPrecedence_def isascii_def tok_codes)

section \<open>Parses without fuel\<close>

definition primary :: "parser \<Rightarrow> expr \<Rightarrow> parser \<Rightarrow> bool" where
  "primary st e st' \<longleftrightarrow> (\<exists>n. ParsePrimary n st = Some (Some e, st'))"

definition binop :: "int \<Rightarrow> expr \<Rightarrow> parser \<Rightarrow> expr \<Rightarrow> parser \<Rightarrow> bool" where
  "binop p lhs st e st' \<longleftrightarrow> (\<exists>n. ParseBinOpRHS n p lhs st = Some (Some e, st'))"

definition expression :: "parser \<Rightarrow> expr \<Rightarrow> parser \<Rightarrow> bool" where
  "expression st e st' \<longleftrightarrow> (\<exists>n. ParseExpression n st = Some (Some e, st'))"

definition arguments :: "expr list \<Rightarrow> parser \<Rightarrow> expr list \<Rightarrow> parser \<Rightarrow> bool" where
  "arguments acc st es st' \<longleftrightarrow> (\<exists>n. parse_args n acc st = Some (Some es, st'))"

lemma binop_stop: "GetTokPrecedence st < p \<Longrightarrow> binop p lhs st lhs st"
  unfolding binop_def by (rule exI [of _ 1]) (simp add: ParseBinOpRHS.simps Let_def)

lemma binop_op:
  assumes "p \<le> GetTokPrecedence st" "primary (getNextToken st) r st2"
    and "GetTokPrecedence st2 \<le> GetTokPrecedence st"
    and "binop p (BinaryExprAST (to_char (CurTok st)) lhs r) st2 e st3"
  shows "binop p lhs st e st3"
proof -
  obtain n k where
    n: "ParsePrimary n (getNextToken st) = Some (Some r, st2)"
      "ParseBinOpRHS k p (BinaryExprAST (to_char (CurTok st)) lhs r) st2 = Some (Some e, st3)"
    using assms(2,4) by (auto simp: primary_def binop_def)
  have "ParseBinOpRHS (Suc (max n k)) p lhs st = Some (Some e, st3)"
    using assms(1,3) more_fuel(1) [OF max.cobounded1 n(1), of k] more_fuel(3) [OF max.cobounded2 n(2), of n]
    by (simp add: ParseBinOpRHS.simps Let_def)
  then show ?thesis unfolding binop_def by blast
qed

lemma binop_op_tighter:
  assumes "p \<le> GetTokPrecedence st" "primary (getNextToken st) r st2"
    and "GetTokPrecedence st < GetTokPrecedence st2"
    and "binop (GetTokPrecedence st + 1) r st2 r' st3"
    and "binop p (BinaryExprAST (to_char (CurTok st)) lhs r') st3 e st4"
  shows "binop p lhs st e st4"
proof -
  obtain n k j where
    n: "ParsePrimary n (getNextToken st) = Some (Some r, st2)"
      "ParseBinOpRHS k (GetTokPrecedence st + 1) r st2 = Some (Some r', st3)"
      "ParseBinOpRHS j p (BinaryExprAST (to_char (CurTok st)) lhs r') st3 = Some (Some e, st4)"
    using assms(2,4,5) by (auto simp: primary_def binop_def)
  define m where "m = max n (max k j)"
  have "n \<le> m" "k \<le> m" "j \<le> m" by (simp_all add: m_def)
  then have "ParseBinOpRHS (Suc m) p lhs st = Some (Some e, st4)"
    using assms(1,3) more_fuel(1) [OF _ n(1)] more_fuel(3) [OF _ n(2)] more_fuel(3) [OF _ n(3)]
    by (simp add: ParseBinOpRHS.simps Let_def)
  then show ?thesis unfolding binop_def by blast
qed

lemma expression_step: "primary st x st1 \<Longrightarrow> binop 0 x st1 e st2 \<Longrightarrow> expression st e st2"
proof -
  assume "primary st x st1" "binop 0 x st1 e st2"
  then obtain n k where
    n: "ParsePrimary n st = Some (Some x, st1)" "ParseBinOpRHS k 0 x st1 = Some (Some e, st2)"
    by (auto simp: primary_def binop_def)
  have "ParseExpression (Suc (max n k)) st = Some (Some e, st2)"
    using more_fuel(1) [OF max.cobounded1 n(1), of k] more_fuel(3) [OF max.cobounded2 n(2), of n]
    by (simp add: ParseExpression.simps)
  then show ?thesis unfolding expression_def by blast
qed

lemma primary_number:
  "stream st (T_num x # ts) \<Longrightarrow> primary st (NumberExprAST x) (getNextToken st)"
  unfolding primary_def
  by (rule exI [of _ 1]) (simp add: ParsePrimary.simps ParseNumberExpr_def tok_codes)

lemma primary_variable:
  assumes "stream st (T_id x # ts)" "no_call ts"
  shows "primary st (VariableExprAST x) (getNextToken st)"
proof -
  have "stream (getNextToken st) ts" using assms(1) by (rule stream_next)
  then have "CurTok (getNextToken st) \<noteq> code CHR ''(''"
    using assms(2) unfolding stream_char [OF \<open>stream (getNextToken st) ts\<close>] by auto
  with assms(1) have "ParsePrimary 2 st = Some (Some (VariableExprAST x), getNextToken st)"
    by (simp add: numeral_2_eq_2 ParsePrimary.simps ParseIdentifierExpr.simps Let_def)
  then show ?thesis unfolding primary_def by blast
qed

lemma primary_paren:
  assumes "stream st (T_char CHR ''('' # ts)" "expression (getNextToken st) e st'"
    and "stream st' (T_char CHR '')'' # ts')"
  shows "primary st e (getNextToken st')"
proof -
  obtain n where "ParseExpression n (getNextToken st) = Some (Some e, st')"
    using assms(2) by (auto simp: expression_def)
  then have "ParsePrimary (Suc (Suc n)) st = Some (Some e, getNextToken st')"
    using assms(1,3) by (simp add: ParsePrimary.simps ParseParenExpr.simps tok_codes)
  then show ?thesis unfolding primary_def by blast
qed

lemma arguments_last:
  assumes "expression st e st'" "stream st' (T_char CHR '')'' # ts)"
  shows "arguments acc st (acc @ [e]) st'"
proof -
  obtain n where "ParseExpression n st = Some (Some e, st')"
    using assms(1) by (auto simp: expression_def)
  then have "parse_args (Suc n) acc st = Some (Some (acc @ [e]), st')"
    using assms(2) by (simp add: parse_args.simps)
  then show ?thesis unfolding arguments_def by blast
qed

lemma arguments_more:
  assumes "expression st e st'" "stream st' (T_char CHR '','' # ts)"
    and "arguments (acc @ [e]) (getNextToken st') es st''"
  shows "arguments acc st es st''"
proof -
  obtain n k where n: "ParseExpression n st = Some (Some e, st')"
      "parse_args k (acc @ [e]) (getNextToken st') = Some (Some es, st'')"
    using assms(1,3) by (auto simp: expression_def arguments_def)
  have "parse_args (Suc (max n k)) acc st = Some (Some es, st'')"
    using assms(2) more_fuel(4) [OF max.cobounded1 n(1), of k] more_fuel(2) [OF max.cobounded2 n(2), of n]
    by (simp add: parse_args.simps)
  then show ?thesis unfolding arguments_def by blast
qed

lemma primary_call_none:
  assumes "stream st (T_id f # T_char CHR ''('' # T_char CHR '')'' # ts)"
  shows "primary st (CallExprAST f []) (getNextToken (getNextToken (getNextToken st)))"
proof -
  have 1: "stream (getNextToken st) (T_char CHR ''('' # T_char CHR '')'' # ts)"
    using assms by (rule stream_next)
  have 2: "stream (getNextToken (getNextToken st)) (T_char CHR '')'' # ts)"
    using 1 by (rule stream_next)
  have "ParsePrimary 2 st = Some (Some (CallExprAST f []), getNextToken (getNextToken (getNextToken st)))"
    using assms 1 2 by (simp add: numeral_2_eq_2 ParsePrimary.simps ParseIdentifierExpr.simps Let_def)
  then show ?thesis unfolding primary_def by blast
qed

lemma primary_call:
  assumes "stream st (T_id f # T_char CHR ''('' # ts)" "\<not> (\<exists>ts'. ts = T_char CHR '')'' # ts')"
    and "arguments [] (getNextToken (getNextToken st)) es st'"
  shows "primary st (CallExprAST f es) (getNextToken st')"
proof -
  have 1: "stream (getNextToken st) (T_char CHR ''('' # ts)"
    using assms(1) by (rule stream_next)
  have "stream (getNextToken (getNextToken st)) ts" using 1 by (rule stream_next)
  then have 2: "CurTok (getNextToken (getNextToken st)) \<noteq> code CHR '')''"
    using assms(2) stream_char by blast
  obtain n where "parse_args n [] (getNextToken (getNextToken st)) = Some (Some es, st')"
    using assms(3) by (auto simp: arguments_def)
  then have "ParsePrimary (Suc (Suc n)) st = Some (Some (CallExprAST f es), getNextToken st')"
    using 1 2 assms(1) by (simp add: ParsePrimary.simps ParseIdentifierExpr.simps Let_def)
  then show ?thesis unfolding primary_def by blast
qed

section \<open>Reading back a printed expression\<close>

text \<open>
  The precedence of the last operator of a printed tree that stands outside parentheses, or
  a bound above every precedence.
\<close>

fun level :: "int \<Rightarrow> expr \<Rightarrow> int" where
  "level p (BinaryExprAST op l r) = (if BinopPrecedence op < p then 100 else BinopPrecedence op)"
| "level p e = 100"

definition is_open :: "int \<Rightarrow> expr \<Rightarrow> bool" where
  "is_open q e \<longleftrightarrow> level q e < 100"

text \<open>
  What the parser does at the front of a printed tree: it reads the first primary, and the
  loop then gets to the whole tree. When the tree has an operator outside parentheses, the
  token after the primary is an operator of at least the printed precedence.
\<close>

definition reads :: "int \<Rightarrow> expr \<Rightarrow> token list \<Rightarrow> parser \<Rightarrow> bool" where
  "reads q e ts st \<longleftrightarrow> (\<exists>x st1 st2. primary st x st1 \<and> stream st2 ts
     \<and> (\<forall>p y s. p \<le> level q e \<longrightarrow> binop p e st2 y s \<longrightarrow> binop p x st1 y s)
     \<and> (if is_open q e then q \<le> GetTokPrecedence st1 else x = e \<and> st1 = st2))"

lemma reads_atom: "primary st e st1 \<Longrightarrow> stream st1 ts \<Longrightarrow> \<not> is_open q e \<Longrightarrow> reads q e ts st"
  unfolding reads_def by auto

lemma precedence_le: "BinopPrecedence c \<le> 40"
  by (simp add: BinopPrecedence_def)

lemma first_prec_le: "first_prec ts \<le> 40"
  by (cases ts rule: first_prec.cases) (simp_all add: precedence_le)

lemma reads_expression:
  assumes "reads 0 e ts st" "first_prec ts < 0"
  obtains st2 where "expression st e st2" "stream st2 ts"
proof -
  obtain x st1 st2 where r: "primary st x st1" "stream st2 ts"
      "\<And>p y s. p \<le> level 0 e \<Longrightarrow> binop p e st2 y s \<Longrightarrow> binop p x st1 y s"
    using assms(1) unfolding reads_def by blast
  have "0 \<le> level 0 e" by (cases e) auto
  moreover have "binop 0 e st2 e st2"
    using assms(2) r(2) by (intro binop_stop) (simp add: stream_prec)
  ultimately have "expression st e st2" using r by (intro expression_step [OF r(1)]) auto
  with r(2) show ?thesis using that by blast
qed

text \<open>The operator case: the left operand, the operator, and the right operand.\<close>

lemma reads_binary:
  assumes op: "0 < BinopPrecedence op" "q \<le> BinopPrecedence op"
    and l: "reads (BinopPrecedence op) l (T_char op # toks (BinopPrecedence op + 1) r @ ts) st"
    and r: "\<And>st. stream st (toks (BinopPrecedence op + 1) r @ ts) \<Longrightarrow>
              reads (BinopPrecedence op + 1) r ts st"
    and ts: "first_prec ts \<le> BinopPrecedence op"
  shows "reads q (BinaryExprAST op l r) ts st"
proof -
  let ?P = "BinopPrecedence op" and ?e = "BinaryExprAST op l r"
  obtain x st1 st2 where L: "primary st x st1" "stream st2 (T_char op # toks (?P + 1) r @ ts)"
      "\<And>p y s. p \<le> level ?P l \<Longrightarrow> binop p l st2 y s \<Longrightarrow> binop p x st1 y s"
      "if is_open ?P l then ?P \<le> GetTokPrecedence st1 else x = l \<and> st1 = st2"
    using l unfolding reads_def by blast
  have prec2: "GetTokPrecedence st2 = ?P" using stream_prec [OF L(2)] op by simp
  have opchar: "to_char (CurTok st2) = op" using L(2) by simp
  have "stream (getNextToken st2) (toks (?P + 1) r @ ts)" using L(2) by (rule stream_next)
  then have "reads (?P + 1) r ts (getNextToken st2)" by (rule r)
  then obtain x' st1' st2' where R: "primary (getNextToken st2) x' st1'" "stream st2' ts"
      "\<And>p y s. p \<le> level (?P + 1) r \<Longrightarrow> binop p r st2' y s \<Longrightarrow> binop p x' st1' y s"
      "if is_open (?P + 1) r then ?P + 1 \<le> GetTokPrecedence st1' else x' = r \<and> st1' = st2'"
    unfolding reads_def by blast
  have prec3: "GetTokPrecedence st2' \<le> ?P" using stream_prec [OF R(2)] ts by simp
  have step: "binop p l st2 y s" if p: "p \<le> ?P" and rest: "binop p ?e st2' y s" for p y s
  proof (cases "is_open (?P + 1) r")
    case True
    have "?P + 1 \<le> level (?P + 1) r" by (cases r) (use precedence_le [of op] in auto)
    moreover have "binop (?P + 1) r st2' r st2'" using prec3 by (intro binop_stop) simp
    ultimately have "binop (?P + 1) x' st1' r st2'" by (rule R(3))
    then show ?thesis
      using True R(1,4) p rest opchar by (intro binop_op_tighter [of p st2 x' st1' r st2']) (simp_all add: prec2)
  next
    case False
    then show ?thesis
      using R(1,4) p rest opchar prec3 by (intro binop_op [of p st2 r st2']) (simp_all add: prec2)
  qed
  have levels: "?P \<le> level ?P l" by (cases l) (use precedence_le [of op] in auto)
  have "binop p x st1 y s" if "p \<le> level q ?e" "binop p ?e st2' y s" for p y s
    using that op levels by (intro L(3) step) (auto split: if_splits)
  moreover have "q \<le> GetTokPrecedence st1"
    using L(4) op prec2 by (auto split: if_splits)
  moreover have "is_open q ?e" using op precedence_le [of op] by (simp add: is_open_def)
  ultimately show ?thesis
    unfolding reads_def using L(1) R(2)
    by (intro exI [of _ x] exI [of _ st1] exI [of _ st2'] conjI allI impI) simp_all
qed

lemma reads_arguments:
  assumes "\<And>a ts st. a \<in> set es \<Longrightarrow> stream st (toks 0 a @ ts) \<Longrightarrow> first_prec ts < 0 \<Longrightarrow> no_call ts \<Longrightarrow>
      reads 0 a ts st"
    and "es \<noteq> []" "stream st (commas (map (toks 0) es) @ T_char CHR '')'' # ts)"
  shows "\<exists>st'. arguments acc st (acc @ es) st' \<and> stream st' (T_char CHR '')'' # ts)"
  using assms
proof (induction es arbitrary: acc st)
  case Nil
  then show ?case by simp
next
  case (Cons a es)
  define rest where "rest = (if es = [] then T_char CHR '')'' # ts
      else T_char CHR '','' # commas (map (toks 0) es) @ T_char CHR '')'' # ts)"
  have "stream st (toks 0 a @ rest)"
    using Cons.prems(3) by (cases es) (simp_all add: rest_def)
  moreover have rest: "first_prec rest < 0" "no_call rest"
    by (simp_all add: rest_def BinopPrecedence_def)
  ultimately have "reads 0 a rest st" using Cons.prems(1) by simp
  then obtain st1 where st1: "expression st a st1" "stream st1 rest"
    using rest(1) by (rule reads_expression)
  show ?case
  proof (cases "es = []")
    case True
    then show ?thesis using arguments_last [OF st1(1), of ts acc] st1(2) by (auto simp: rest_def)
  next
    case False
    then have s1: "stream st1 (T_char CHR '','' # commas (map (toks 0) es) @ T_char CHR '')'' # ts)"
      using st1(2) by (simp add: rest_def)
    have "\<exists>st'. arguments (acc @ [a]) (getNextToken st1) ((acc @ [a]) @ es) st'
        \<and> stream st' (T_char CHR '')'' # ts)"
      using Cons.prems(1) False stream_next [OF s1] by (intro Cons.IH) auto
    then show ?thesis using arguments_more [OF st1(1) s1] by auto
  qed
qed

lemma toks_not_close: "toks p e \<noteq> [] \<and> hd (toks p e) \<noteq> T_char CHR '')''"
  by (induction p e rule: toks.induct) (auto simp: Let_def hd_append)

lemma commas_not_close:
  "es \<noteq> [] \<Longrightarrow> commas (map (toks 0) es) @ ts \<noteq> T_char CHR '')'' # ts'"
proof -
  assume "es \<noteq> []"
  then obtain a bs where [simp]: "es = a # bs" by (cases es) auto
  show ?thesis using toks_not_close [of 0 a] by (cases bs; cases "toks 0 a") auto
qed

lemma reads_toks:
  "wf_expr e \<Longrightarrow> stream st (toks q e @ ts) \<Longrightarrow> first_prec ts \<le> level q e \<Longrightarrow>
   no_call ts \<Longrightarrow> reads q e ts st"
proof (induction e arbitrary: q ts st)
  case (NumberExprAST x)
  then have s: "stream st (T_num x # ts)" by simp
  show ?case
    by (rule reads_atom [OF primary_number [OF s] stream_next [OF s]]) (simp add: is_open_def)
next
  case (VariableExprAST x)
  then have s: "stream st (T_id x # ts)" by simp
  show ?case
    by (rule reads_atom [OF primary_variable [OF s VariableExprAST.prems(4)] stream_next [OF s]])
      (simp add: is_open_def)
next
  case (CallExprAST f es)
  have s: "stream st (T_id f # T_char CHR ''('' # commas (map (toks 0) es) @ T_char CHR '')'' # ts)"
    using CallExprAST.prems(2) by simp
  have open': "\<not> is_open q (CallExprAST f es)" by (simp add: is_open_def)
  have s2: "stream (getNextToken (getNextToken st)) (commas (map (toks 0) es) @ T_char CHR '')'' # ts)"
    using s stream_next by blast
  show ?case
  proof (cases "es = []")
    case True
    then have "stream st (T_id f # T_char CHR ''('' # T_char CHR '')'' # ts)" using s by simp
    moreover have "stream (getNextToken (getNextToken st)) (T_char CHR '')'' # ts)"
      using s2 True by simp
    then have "stream (getNextToken (getNextToken (getNextToken st))) ts" by (rule stream_next)
    ultimately show ?thesis using reads_atom primary_call_none True open' by blast
  next
    case False
    have "\<exists>st'. arguments [] (getNextToken (getNextToken st)) ([] @ es) st'
        \<and> stream st' (T_char CHR '')'' # ts)"
    proof (rule reads_arguments [OF _ False s2])
      fix a ts st
      assume "a \<in> set es" "stream st (toks 0 a @ ts)" "first_prec ts < 0" "no_call ts"
      moreover have "0 \<le> level 0 a" by (cases a) auto
      ultimately show "reads 0 a ts st" using CallExprAST.IH CallExprAST.prems(1) by auto
    qed
    then obtain st' where st': "arguments [] (getNextToken (getNextToken st)) es st'"
        "stream st' (T_char CHR '')'' # ts)" by auto
    have "primary st (CallExprAST f es) (getNextToken st')"
      using commas_not_close [OF False] by (intro primary_call [OF s _ st'(1)]) blast
    then show ?thesis using stream_next [OF st'(2)] open' by (rule reads_atom)
  qed
next
  case (BinaryExprAST op l r)
  let ?P = "BinopPrecedence op" and ?e = "BinaryExprAST op l r"
  have op: "0 < ?P" "?P \<le> 40" using BinaryExprAST.prems(1) precedence_le by simp_all
  have body: "reads k ?e us st'" if "k \<le> ?P" "first_prec us \<le> ?P" "no_call us"
      "stream st' (toks ?P l @ T_char op # toks (?P + 1) r @ us)" for k us st'
  proof (rule reads_binary [OF op(1) that(1)])
    have "?P \<le> level ?P l" by (cases l) (use op(2) in auto)
    moreover have "no_call (T_char op # toks (?P + 1) r @ us)"
      using wf_operator [OF op(1)] by simp
    ultimately show "reads ?P l (T_char op # toks (?P + 1) r @ us) st'"
      using BinaryExprAST.prems(1) op that(4)
      by (intro BinaryExprAST.IH(1)) (auto simp: less_le)
    have "?P + 1 \<le> level (?P + 1) r" by (cases r) (use op(2) in auto)
    then show "reads (?P + 1) r us st''" if "stream st'' (toks (?P + 1) r @ us)" for st''
      using BinaryExprAST.prems(1) \<open>first_prec us \<le> ?P\<close> \<open>no_call us\<close> that
      by (intro BinaryExprAST.IH(2)) auto
    show "first_prec us \<le> ?P" by (rule that(2))
  qed
  show ?case
  proof (cases "?P < q")
    case False
    then show ?thesis using BinaryExprAST.prems body [of q ts st] by (auto simp: Let_def)
  next
    case True
    then have s: "stream st (T_char CHR ''('' # (toks ?P l @ T_char op # toks (?P + 1) r) @
        T_char CHR '')'' # ts)"
      using BinaryExprAST.prems(2) by (simp add: Let_def)
    have close: "first_prec (T_char CHR '')'' # ts) < 0" by (simp add: BinopPrecedence_def)
    have "reads 0 ?e (T_char CHR '')'' # ts) (getNextToken st)"
      using stream_next [OF s] op(1) close by (intro body) simp_all
    then obtain st2 where st2: "expression (getNextToken st) ?e st2"
        "stream st2 (T_char CHR '')'' # ts)"
      using close by (rule reads_expression)
    have "primary st ?e (getNextToken st2)" by (rule primary_paren [OF s st2])
    moreover have "\<not> is_open q ?e" using True by (simp add: is_open_def)
    ultimately show ?thesis using stream_next [OF st2(2)] by (intro reads_atom)
  qed
qed

section \<open>Properties\<close>

text \<open>The fuel that is enough for an input.\<close>

definition fuel_for :: "string \<Rightarrow> nat" where
  "fuel_for input = 7 * length input + 25"

lemma start_ahead:
  "ahead (start_parser input) = length input + 2" "CurTok (start_parser input) \<noteq> tok_eof"
  by (simp_all add: ahead_def start_parser_def lex_pending_def pending_def tok_codes)

lemma started: "ahead (getNextToken (print_line msg (start_parser input))) \<le> length input + 1"
  using ahead_next_less [of "print_line msg (start_parser input)"] start_ahead [of input] by simp

text \<open>
  C15. The front end terminates on every input: with the fuel of its length the main loop
  reaches the end of the input, whatever errors it recovers from on the way.
\<close>

theorem main_terminates:
  "\<exists>st. main_program (fuel_for input) input = Some st \<and> CurTok st = tok_eof"
  unfolding main_program_def
  using started [of "''ready> ''" input]
  by (intro main_loop_returns) (simp_all add: fuel_for_def)

lemma expression_returns:
  "\<exists>e st'. ParseExpression (fuel_for input) (getNextToken (start_parser input)) = Some (e, st')
     \<and> ahead st' \<le> length input + 1 \<and> (e = None \<or> ahead st' \<le> length input)"
proof -
  let ?st = "getNextToken (start_parser input)"
  have le: "ahead ?st \<le> length input + 1"
    using ahead_next_less [of "start_parser input"] start_ahead [of input] by simp
  then have "answers 1 (ParseExpression (fuel_for input) ?st) ?st"
    by (intro enough_fuel(6)) (simp_all add: fuel_for_def)
  then obtain x st' where "ParseExpression (fuel_for input) ?st = Some (x, st')"
      "ahead st' \<le> ahead ?st" "x \<noteq> None \<longrightarrow> ahead st' + 1 \<le> ahead ?st"
    unfolding answers_def by blast
  with le show ?thesis by auto
qed

text \<open>
  The expression parser returns a tree or an error on every input, and consumes at least
  one token for a tree.
\<close>

theorem expression_terminates:
  "\<exists>e st'. ParseExpression (fuel_for input) (getNextToken (start_parser input)) = Some (e, st')
     \<and> ahead st' \<le> length input + 1 \<and> (e = None \<or> ahead st' \<le> length input)"
  by (rule expression_returns)

text \<open>
  C1. Round trip: printing a tree with the parentheses that precedence and left
  associativity require, and parsing the text, gives the tree back and consumes the whole
  text.
\<close>

theorem parse_printed:
  assumes "wf_expr e"
  defines "input \<equiv> render (toks 0 e)"
  shows "\<exists>st'. ParseExpression (fuel_for input) (getNextToken (start_parser input)) = Some (Some e, st')
       \<and> CurTok st' = tok_eof"
proof -
  let ?st = "getNextToken (start_parser input)"
  have "stream ?st (toks 0 e)"
    by (rule next_stream) (simp_all add: start_parser_def input_def wf_toks [OF assms(1)])
  moreover have "- 1 \<le> level 0 e" by (cases e) (use precedence_le in auto)
  ultimately have "reads 0 e [] ?st" using assms(1) by (intro reads_toks) simp_all
  then obtain st2 where st2: "expression ?st e st2" "stream st2 []"
    by (rule reads_expression) simp
  then obtain n where n: "ParseExpression n ?st = Some (Some e, st2)"
    unfolding expression_def by blast
  obtain x st' where x: "ParseExpression (fuel_for input) ?st = Some (x, st')"
    using expression_returns by blast
  have "Some (Some e, st2) = Some (x, st')"
    using more_fuel(4) [OF max.cobounded1 n, of "fuel_for input"]
      more_fuel(4) [OF max.cobounded2 x, of n] by simp
  with x st2(2) show ?thesis by simp
qed

definition sample_tree :: expr where
  "sample_tree = BinaryExprAST CHR ''-''
     (BinaryExprAST CHR ''-'' (VariableExprAST ''a'') (NumberExprAST ''1.5''))
     (CallExprAST ''f''
        [BinaryExprAST CHR ''*'' (BinaryExprAST CHR ''+'' (VariableExprAST ''b'') (VariableExprAST ''c''))
           (VariableExprAST ''d''), NumberExprAST ''2''])"

lemma sample_text: "render (toks 0 sample_tree) = ''a - 1.5 - f ( ( b + c ) * d , 2 ) ''"
  by code_simp

theorem parse_printed_witness:
  "\<exists>st'. ParseExpression (fuel_for (render (toks 0 sample_tree)))
        (getNextToken (start_parser (render (toks 0 sample_tree)))) = Some (Some sample_tree, st')
     \<and> CurTok st' = tok_eof"
  by (rule parse_printed) code_simp

end
