(* ===== verification/Forward_List.thy ===== *)
theory Forward_List
  imports Prelude
begin

text \<open>
  The singly linked list \<open>own_forward_list\<close> of \<^verbatim>\<open>edu/train/crack_code_lists.cc\<close> over an
  explicit heap: a list of cells, where an address is a position, \<open>new\<close> appends a cell and
  \<open>delete\<close> empties one. Reading, writing or deleting through a null or dangling pointer is
  undefined behaviour. A loop over the nodes runs on fuel, since the pointers could form a
  cycle; the length of the heap is enough for every well-formed list.
\<close>

section \<open>The heap\<close>

type_synonym ptr = "nat option"

record 'a node =
  elem :: 'a
  next_node :: ptr

type_synonym 'a heap = "'a node option list"

definition lookup :: "'a heap \<Rightarrow> nat \<Rightarrow> 'a node option" where
  "lookup h a = (if a < length h then h ! a else None)"

definition deref :: "'a heap \<Rightarrow> ptr \<Rightarrow> 'a node result" where
  "deref h p = (case p of None \<Rightarrow> Inl Undefined_Behaviour
     | Some a \<Rightarrow> (case lookup h a of None \<Rightarrow> Inl Undefined_Behaviour | Some nd \<Rightarrow> Inr nd))"

definition new_node :: "'a \<Rightarrow> ptr \<Rightarrow> 'a heap \<Rightarrow> nat \<times> 'a heap" where
  "new_node x nx h = (length h, h @ [Some \<lparr>elem = x, next_node = nx\<rparr>])"

definition delete_node :: "ptr \<Rightarrow> 'a heap \<Rightarrow> 'a heap result" where
  "delete_node p h = bindr (deref h p) (\<lambda>_. Inr (h[the p := None]))"

definition set_next :: "ptr \<Rightarrow> ptr \<Rightarrow> 'a heap \<Rightarrow> 'a heap result" where
  "set_next p q h = bindr (deref h p) (\<lambda>nd. Inr (h[the p := Some (nd\<lparr>next_node := q\<rparr>)]))"

section \<open>The class\<close>

record forward_list =
  head_ptr :: ptr
  tail_ptr :: ptr

definition new_list :: forward_list where
  "new_list = \<lparr>head_ptr = None, tail_ptr = None\<rparr>"

definition list_end :: ptr where
  "list_end = None"

definition list_size :: "forward_list \<Rightarrow> int result" where
  "list_size l = Inl Logic_Error"

definition push_back :: "forward_list \<Rightarrow> 'a \<Rightarrow> 'a heap \<Rightarrow> (forward_list \<times> 'a heap) result" where
  "push_back l x h =
     (let (a, h1) = new_node x None h
      in if head_ptr l \<noteq> None
         then bindr (set_next (tail_ptr l) (Some a) h1) (\<lambda>h2. Inr (l\<lparr>tail_ptr := Some a\<rparr>, h2))
         else Inr (\<lparr>head_ptr = Some a, tail_ptr = Some a\<rparr>, h1))"

text \<open>The loop of the destructor: delete every node but the last, then the last.\<close>

fun destroy_loop :: "nat \<Rightarrow> ptr \<Rightarrow> 'a heap \<Rightarrow> 'a heap result" where
  "destroy_loop 0 p h = Inl Out_Of_Fuel"
| "destroy_loop (Suc n) p h = bindr (deref h p) (\<lambda>nd.
     if next_node nd \<noteq> None
     then bindr (delete_node p h) (destroy_loop n (next_node nd))
     else delete_node p h)"

definition destroy :: "forward_list \<Rightarrow> 'a heap \<Rightarrow> 'a heap result" where
  "destroy l h = (if head_ptr l \<noteq> None then destroy_loop (length h) (head_ptr l) h else Inr h)"

text \<open>The two loops of \<open>get_nth_to_last\<close>: open the window, then move it to the end.\<close>

fun open_window :: "nat \<Rightarrow> ptr \<Rightarrow> 'a heap \<Rightarrow> ptr result" where
  "open_window 0 p2 h = Inr p2"
| "open_window (Suc n) p2 h = bindr (deref h p2) (\<lambda>nd.
     if next_node nd = None then Inr None else open_window n (next_node nd) h)"

fun move_window :: "nat \<Rightarrow> ptr \<Rightarrow> ptr \<Rightarrow> 'a heap \<Rightarrow> ptr result" where
  "move_window 0 p1 p2 h = Inl Out_Of_Fuel"
| "move_window (Suc n) p1 p2 h = bindr (deref h p2) (\<lambda>nd2.
     if next_node nd2 = None then Inr p1
     else bindr (deref h p1) (\<lambda>nd1. move_window n (next_node nd1) (next_node nd2) h))"

definition get_nth_to_last :: "forward_list \<Rightarrow> int \<Rightarrow> 'a heap \<Rightarrow> ptr result" where
  "get_nth_to_last l n h = bindr (check (n > 1) Assert_Failed) (\<lambda>_.
     if head_ptr l = None then Inr None
     else bindr (open_window (nat (n - 1)) (head_ptr l) h) (\<lambda>p2.
       if p2 = None then Inr None else move_window (length h) (head_ptr l) p2 h))"

definition swap_lists :: "forward_list \<Rightarrow> forward_list \<Rightarrow> forward_list \<times> forward_list" where
  "swap_lists l r = (r, l)"

text \<open>The loop of the copy constructor fills \<open>tmp\<close>, which is then swapped with the new list.\<close>

fun copy_loop :: "nat \<Rightarrow> ptr \<Rightarrow> forward_list \<Rightarrow> 'a heap \<Rightarrow> (forward_list \<times> 'a heap) result" where
  "copy_loop 0 it tmp h = Inl Out_Of_Fuel"
| "copy_loop (Suc n) it tmp h = bindr (deref h it) (\<lambda>nd.
     bindr (push_back tmp (elem nd) h) (\<lambda>(tmp', h').
     if next_node nd \<noteq> None then copy_loop n (next_node nd) tmp' h' else Inr (tmp', h')))"

definition copy_list :: "forward_list \<Rightarrow> 'a heap \<Rightarrow> (forward_list \<times> 'a heap) result" where
  "copy_list rhs h =
     bindr (if head_ptr rhs \<noteq> None then copy_loop (length h) (head_ptr rhs) new_list h
            else Inr (new_list, h)) (\<lambda>(tmp, h1).
     let (tmp', this) = swap_lists tmp new_list
     in bindr (destroy tmp' h1) (\<lambda>h2. Inr (this, h2)))"

text \<open>
  \<open>operator=\<close> takes its argument by value: the copy is swapped with the target, and its
  destructor then deletes what the target owned.
\<close>

definition assign_list :: "forward_list \<Rightarrow> forward_list \<Rightarrow> 'a heap \<Rightarrow> (forward_list \<times> 'a heap) result" where
  "assign_list this src h = bindr (copy_list src h) (\<lambda>(rhs, h1).
     let (rhs', this') = swap_lists rhs this
     in bindr (destroy rhs' h1) (\<lambda>h2. Inr (this', h2)))"

text \<open>\<open>operator<<\<close>: what is written to \<open>cout\<close>, whatever the stream \<open>o\<close> is.\<close>

fun print_loop :: "nat \<Rightarrow> ('a \<Rightarrow> string) \<Rightarrow> ptr \<Rightarrow> 'a heap \<Rightarrow> string result" where
  "print_loop 0 sh it h = Inl Out_Of_Fuel"
| "print_loop (Suc n) sh it h = bindr (deref h it) (\<lambda>nd.
     if next_node nd \<noteq> None
     then bindr (print_loop n sh (next_node nd) h) (\<lambda>rest. Inr (sh (elem nd) @ '', '' @ rest))
     else Inr (sh (elem nd)))"

definition print_list :: "('a \<Rightarrow> string) \<Rightarrow> forward_list \<Rightarrow> 'a heap \<Rightarrow> string result" where
  "print_list sh l h =
     bindr (if head_ptr l \<noteq> None then print_loop (length h) sh (head_ptr l) h else Inr [])
       (\<lambda>text. Inr (text @ [CHR 0x0A]))"

section \<open>Well-formed lists\<close>

text \<open>The cells at \<open>as\<close>, in this order, hold \<open>xs\<close> and are linked to the end.\<close>

fun chain :: "'a heap \<Rightarrow> ptr \<Rightarrow> nat list \<Rightarrow> 'a list \<Rightarrow> bool" where
  "chain h p [] [] = (p = None)"
| "chain h p (a # as) (x # xs) = (p = Some a \<and> (\<exists>nd. lookup h a = Some nd \<and> elem nd = x
     \<and> chain h (next_node nd) as xs))"
| "chain h p _ _ = False"

definition is_list :: "'a heap \<Rightarrow> forward_list \<Rightarrow> nat list \<Rightarrow> 'a list \<Rightarrow> bool" where
  "is_list h l as xs \<longleftrightarrow> chain h (head_ptr l) as xs \<and> distinct as
     \<and> (as \<noteq> [] \<longrightarrow> tail_ptr l = Some (last as))"

text \<open>Two heaps agree on a set of addresses.\<close>

definition same_at :: "nat set \<Rightarrow> 'a heap \<Rightarrow> 'a heap \<Rightarrow> bool" where
  "same_at A h h' \<longleftrightarrow> (\<forall>a \<in> A. lookup h' a = lookup h a)"

lemma chain_length: "chain h p as xs \<Longrightarrow> length as = length xs"
  by (induction h p as xs rule: chain.induct) auto

lemma chain_live: "chain h p as xs \<Longrightarrow> a \<in> set as \<Longrightarrow> lookup h a \<noteq> None"
  by (induction h p as xs rule: chain.induct) auto

lemma lookup_less: "lookup h a \<noteq> None \<Longrightarrow> a < length h"
  by (simp add: lookup_def split: if_splits)

lemma chain_less: "chain h p as xs \<Longrightarrow> a \<in> set as \<Longrightarrow> a < length h"
  by (rule lookup_less [OF chain_live])

lemma chain_same: "chain h p as xs \<Longrightarrow> same_at (set as) h h' \<Longrightarrow> chain h' p as xs"
  by (induction h p as xs rule: chain.induct) (auto simp: same_at_def)

lemma same_at_mono: "same_at B h h' \<Longrightarrow> A \<subseteq> B \<Longrightarrow> same_at A h h'"
  by (auto simp: same_at_def)

lemma same_at_trans: "same_at A h h' \<Longrightarrow> same_at A h' h'' \<Longrightarrow> same_at A h h''"
  by (simp add: same_at_def)

lemma is_list_same: "is_list h l as xs \<Longrightarrow> same_at (set as) h h' \<Longrightarrow> is_list h' l as xs"
  by (auto simp: is_list_def intro: chain_same)

lemma chain_append:
  "chain h p (as @ bs) (xs @ ys) \<Longrightarrow> length as = length xs \<Longrightarrow>
   \<exists>q. chain h q bs ys"
  by (induction as arbitrary: p xs) (auto, metis append_Cons chain.simps(2) length_Suc_conv)

lemma chain_null: "chain h p as xs \<Longrightarrow> p = None \<longleftrightarrow> as = []"
  by (cases as; cases xs) auto

lemma deref_chain:
  "chain h p (a # as) (x # xs) \<Longrightarrow> \<exists>nd. deref h p = Inr nd \<and> elem nd = x \<and> chain h (next_node nd) as xs
     \<and> (next_node nd = None \<longleftrightarrow> as = [])"
  using chain_null by (fastforce simp: deref_def)

lemma length_le_heap: "chain h p as xs \<Longrightarrow> distinct as \<Longrightarrow> length as \<le> length h"
proof -
  assume "chain h p as xs" "distinct as"
  then have "set as \<subseteq> {..<length h}" using chain_less by blast
  then have "card (set as) \<le> card {..<length h}" by (rule card_mono [rotated]) simp
  then show ?thesis using \<open>distinct as\<close> by (simp add: distinct_card)
qed

lemma lookup_append: "lookup (h @ [c]) a = (if a = length h then c else lookup h a)"
  by (auto simp: lookup_def nth_append)

lemma lookup_update: "b < length h \<Longrightarrow> lookup (h[b := c]) a = (if a = b then c else lookup h a)"
  by (simp add: lookup_def)

section \<open>\<open>push_back\<close>\<close>

text \<open>Linking the last node of a chain to a new cell.\<close>

lemma chain_link:
  assumes "chain h p as xs" "as \<noteq> []" "distinct as" "b \<notin> set as"
    and "lookup h (last as) = Some nd" "lookup h' b = Some \<lparr>elem = y, next_node = None\<rparr>"
    and "lookup h' (last as) = Some (nd\<lparr>next_node := Some b\<rparr>)"
    and "same_at (set as - {last as}) h h'"
  shows "chain h' p (as @ [b]) (xs @ [y])"
  using assms
proof (induction h p as xs rule: chain.induct)
  case (2 h p a as x xs)
  obtain na where na: "lookup h a = Some na" "elem na = x" "chain h (next_node na) as xs" "p = Some a"
    using 2(2) by auto
  show ?case
  proof (cases "as = []")
    case True
    then show ?thesis using 2 na by (cases xs) auto
  next
    case False
    then have a: "a \<noteq> last as" using 2(4) by auto
    have "lookup h' a = Some na" using 2(9) na False a by (simp add: same_at_def)
    moreover have "chain h' (next_node na) (as @ [b]) (xs @ [y])"
      using 2(4-9) na(3) False by (intro 2(1)) (auto simp: same_at_def)
    ultimately show ?thesis using na by simp
  qed
qed auto

lemma push_back_correct:
  assumes "is_list h l as xs"
  shows "\<exists>l' h'. push_back l x h = Inr (l', h') \<and> is_list h' l' (as @ [length h]) (xs @ [x])
     \<and> length h' = length h + 1 \<and> same_at ({..<length h} - set as) h h'"
proof (cases "as = []")
  case True
  then have "xs = []" "head_ptr l = None"
    using assms by (auto simp: is_list_def elim: chain.elims)
  then show ?thesis
    using True by (auto simp: push_back_def new_node_def is_list_def lookup_append same_at_def)
next
  case False
  let ?h1 = "h @ [Some \<lparr>elem = x, next_node = None\<rparr>]" and ?a = "last as"
  have ch: "chain h (head_ptr l) as xs" "distinct as" "tail_ptr l = Some ?a"
    using assms False by (auto simp: is_list_def)
  have "head_ptr l \<noteq> None" using chain_null [OF ch(1)] False by simp
  moreover obtain nd where nd: "lookup h ?a = Some nd" "?a < length h"
    using chain_live [OF ch(1), of ?a] chain_less [OF ch(1), of ?a] False by auto
  let ?h2 = "?h1[?a := Some (nd\<lparr>next_node := Some (length h)\<rparr>)]"
  have "set_next (tail_ptr l) (Some (length h)) ?h1 = Inr ?h2"
    using nd ch(3) by (simp add: set_next_def deref_def lookup_append)
  ultimately have push: "push_back l x h = Inr (l\<lparr>tail_ptr := Some (length h)\<rparr>, ?h2)"
    by (auto simp: push_back_def new_node_def)
  have look: "lookup ?h2 a = (if a = ?a then Some (nd\<lparr>next_node := Some (length h)\<rparr>)
      else if a = length h then Some \<lparr>elem = x, next_node = None\<rparr> else lookup h a)" for a
    using nd(2) by (auto simp: lookup_update lookup_append)
  have fresh: "length h \<notin> set as" using chain_less [OF ch(1)] by blast
  have "chain ?h2 (head_ptr l) (as @ [length h]) (xs @ [x])"
    using nd fresh by (intro chain_link [OF ch(1) False ch(2)])
      (auto simp: look same_at_def dest: chain_less [OF ch(1)])
  then show ?thesis
    unfolding push using fresh ch(2) by (auto simp: is_list_def same_at_def look False)
qed

section \<open>The destructor\<close>

text \<open>Exactly the cells of \<open>A\<close> are gone.\<close>

definition freed :: "nat set \<Rightarrow> 'a heap \<Rightarrow> 'a heap \<Rightarrow> bool" where
  "freed A h h' \<longleftrightarrow> length h' = length h \<and> (\<forall>a. lookup h' a = (if a \<in> A then None else lookup h a))"

lemma freed_same: "freed A h h' \<Longrightarrow> A \<inter> B = {} \<Longrightarrow> same_at B h h'"
  by (auto simp: freed_def same_at_def)

lemma destroy_loop_frees:
  "chain h p as xs \<Longrightarrow> distinct as \<Longrightarrow> as \<noteq> [] \<Longrightarrow> length as \<le> n \<Longrightarrow>
   \<exists>h'. destroy_loop n p h = Inr h' \<and> freed (set as) h h'"
proof (induction n arbitrary: p as xs h)
  case 0
  then show ?case by simp
next
  case (Suc n)
  obtain a as' x xs' where [simp]: "as = a # as'" "xs = x # xs'"
    using Suc.prems(1,3) by (cases as; cases xs) auto
  obtain nd where nd: "deref h p = Inr nd" "chain h (next_node nd) as' xs'"
      "next_node nd = None \<longleftrightarrow> as' = []" "p = Some a" "a < length h"
    using deref_chain [of h p a as' x xs'] Suc.prems(1) chain_less [OF Suc.prems(1)] by auto
  let ?h = "h[a := None]"
  have del: "delete_node p h = Inr ?h" using nd by (simp add: delete_node_def)
  have look: "lookup ?h b = (if b = a then None else lookup h b)" for b
    using nd(5) by (simp add: lookup_update)
  show ?case
  proof (cases "as' = []")
    case True
    then show ?thesis using nd del by (simp add: freed_def look)
  next
    case False
    have "chain ?h (next_node nd) as' xs'"
      by (rule chain_same [OF nd(2)]) (use Suc.prems(2) in \<open>auto simp: same_at_def look\<close>)
    then obtain h' where h': "destroy_loop n (next_node nd) ?h = Inr h'" "freed (set as') ?h h'"
      using Suc.IH [of ?h "next_node nd" as' xs'] Suc.prems(2,4) False by auto
    have "freed (set as) h h'" using h'(2) by (auto simp: freed_def look)
    then show ?thesis using nd False del h'(1) by auto
  qed
qed

lemma destroy_frees:
  assumes "is_list h l as xs"
  shows "\<exists>h'. destroy l h = Inr h' \<and> freed (set as) h h'"
proof (cases "as = []")
  case True
  then show ?thesis using assms by (auto simp: is_list_def destroy_def freed_def elim: chain.elims)
next
  case False
  then show ?thesis
    using assms destroy_loop_frees [of h "head_ptr l" as xs "length h"] length_le_heap chain_null
    by (fastforce simp: is_list_def destroy_def)
qed

section \<open>Copies\<close>

lemma copy_loop_copies:
  "chain h it as xs \<Longrightarrow> as \<noteq> [] \<Longrightarrow> length as \<le> n \<Longrightarrow> is_list h tmp bs ys \<Longrightarrow> set as \<inter> set bs = {} \<Longrightarrow>
   \<exists>l' h'. copy_loop n it tmp h = Inr (l', h') \<and> length h' = length h + length as
     \<and> is_list h' l' (bs @ [length h..<length h + length as]) (ys @ xs)
     \<and> same_at ({..<length h} - set bs) h h'"
proof (induction n arbitrary: it as xs tmp bs ys h)
  case 0
  then show ?case by simp
next
  case (Suc n)
  obtain a as' x xs' where [simp]: "as = a # as'" "xs = x # xs'"
    using Suc.prems(1,2) by (cases as; cases xs) auto
  obtain nd where nd: "deref h it = Inr nd" "elem nd = x" "chain h (next_node nd) as' xs'"
      "next_node nd = None \<longleftrightarrow> as' = []"
    using deref_chain [of h it a as' x xs'] Suc.prems(1) by auto
  obtain l1 h1 where push: "push_back tmp x h = Inr (l1, h1)" "is_list h1 l1 (bs @ [length h]) (ys @ [x])"
      "length h1 = length h + 1" "same_at ({..<length h} - set bs) h h1"
    using push_back_correct [OF Suc.prems(4)] by blast
  have live: "set as' \<subseteq> {..<length h} - set bs"
    using chain_less [OF Suc.prems(1)] Suc.prems(5) by auto
  show ?case
  proof (cases "as' = []")
    case True
    then have "xs' = []" using nd(3) by (cases xs') auto
    then show ?thesis using True nd push by auto
  next
    case False
    have "chain h1 (next_node nd) as' xs'"
      using nd(3) same_at_mono [OF push(4) live] by (rule chain_same)
    moreover have "set as' \<inter> set (bs @ [length h]) = {}" using live by auto
    ultimately obtain l2 h2 where rest: "copy_loop n (next_node nd) l1 h1 = Inr (l2, h2)"
        "length h2 = length h1 + length as'"
        "is_list h2 l2 ((bs @ [length h]) @ [length h1..<length h1 + length as']) ((ys @ [x]) @ xs')"
        "same_at ({..<length h1} - set (bs @ [length h])) h1 h2"
      using Suc.IH [of h1 "next_node nd" as' xs' l1 "bs @ [length h]" "ys @ [x]"] False push(2) Suc.prems(3)
      by auto
    have "{..<length h1} - set (bs @ [length h]) = {..<length h} - set bs"
      using push(3) by auto
    then have "same_at ({..<length h} - set bs) h h2"
      using same_at_trans [OF push(4)] rest(4) by simp
    moreover have "(bs @ [length h]) @ [length h1..<length h1 + length as']
        = bs @ [length h..<length h + length as]"
      using push(3) upt_conv_Cons [of "length h" "length h + Suc (length as')"] by (simp del: upt_Suc)
    ultimately show ?thesis using nd False push(1,3) rest by (auto simp del: upt_Suc)
  qed
qed

lemma is_list_empty [simp]: "is_list h new_list as xs \<longleftrightarrow> as = [] \<and> xs = []"
  by (cases as; cases xs) (auto simp: is_list_def new_list_def)

lemma copy_list_copies:
  assumes "is_list h src as xs"
  shows "\<exists>l' h'. copy_list src h = Inr (l', h') \<and> is_list h' l' [length h..<length h + length as] xs
     \<and> length h' = length h + length as \<and> same_at {..<length h} h h'"
proof (cases "as = []")
  case True
  then have "xs = []" "head_ptr src = None"
    using assms by (auto simp: is_list_def elim: chain.elims)
  with True show ?thesis
    by (auto simp: copy_list_def swap_lists_def destroy_def same_at_def new_list_def is_list_def)
next
  case False
  have ch: "chain h (head_ptr src) as xs" "distinct as" using assms by (auto simp: is_list_def)
  note ch = ch(1) length_le_heap [OF ch]
  have nn: "head_ptr src \<noteq> None" using chain_null [OF ch(1)] False by simp
  obtain l1 h1 where c: "copy_loop (length h) (head_ptr src) new_list h = Inr (l1, h1)"
      "length h1 = length h + length as" "is_list h1 l1 [length h..<length h + length as] xs"
      "same_at {..<length h} h h1"
    using copy_loop_copies [OF ch(1) False ch(2), of new_list "[]" "[]"] by auto
  have "destroy new_list h1 = Inr h1" by (simp add: destroy_def new_list_def)
  then show ?thesis using c nn by (simp add: copy_list_def swap_lists_def)
qed

lemma assign_list_assigns:
  assumes src: "is_list h src as xs" and old: "is_list h this bs ys"
  shows "\<exists>l' h'. assign_list this src h = Inr (l', h')
     \<and> is_list h' l' [length h..<length h + length as] xs
     \<and> (\<forall>b \<in> set bs. lookup h' b = None) \<and> same_at ({..<length h} - set bs) h h'"
proof -
  obtain l1 h1 where c: "copy_list src h = Inr (l1, h1)"
      "is_list h1 l1 [length h..<length h + length as] xs" "same_at {..<length h} h h1"
    using copy_list_copies [OF src] by blast
  have bs: "set bs \<subseteq> {..<length h}" using old chain_less by (fastforce simp: is_list_def)
  have "is_list h1 this bs ys" using old same_at_mono [OF c(3) bs] by (rule is_list_same)
  then obtain h2 where d: "destroy this h1 = Inr h2" "freed (set bs) h1 h2"
    using destroy_frees by blast
  have "is_list h2 l1 [length h..<length h + length as] xs"
    by (rule is_list_same [OF c(2) freed_same [OF d(2)]]) (use bs in auto)
  moreover have "same_at ({..<length h} - set bs) h h2"
    using same_at_trans [OF same_at_mono [OF c(3)] freed_same [OF d(2)], of "{..<length h} - set bs"] by auto
  ultimately show ?thesis
    using c(1) d by (auto simp: assign_list_def swap_lists_def freed_def)
qed

section \<open>The window of \<open>get_nth_to_last\<close>\<close>

lemma open_window_chain:
  "chain h p as xs \<Longrightarrow> as \<noteq> [] \<Longrightarrow>
   open_window n p h = Inr (if n < length as then Some (as ! n) else None)"
proof (induction n arbitrary: p as xs)
  case 0
  then show ?case by (cases as; cases xs) auto
next
  case (Suc n)
  obtain a as' x xs' where [simp]: "as = a # as'" "xs = x # xs'"
    using Suc.prems by (cases as; cases xs) auto
  obtain nd where nd: "deref h p = Inr nd" "chain h (next_node nd) as' xs'"
      "next_node nd = None \<longleftrightarrow> as' = []"
    using deref_chain [of h p a as' x xs'] Suc.prems(1) by auto
  show ?case
    using Suc.IH [OF nd(2)] nd by (cases "as' = []") auto
qed

lemma chain_drop:
  "chain h p as xs \<Longrightarrow> k < length as \<Longrightarrow> chain h (Some (as ! k)) (drop k as) (drop k xs)"
proof (induction k arbitrary: p as xs)
  case 0
  then show ?case by (cases as; cases xs) auto
next
  case (Suc k)
  then show ?case by (cases as; cases xs) auto
qed

lemma move_window_chain:
  "chain h p1 as xs \<Longrightarrow> chain h p2 (drop k as) ys \<Longrightarrow> k < length as \<Longrightarrow> length as - k \<le> n \<Longrightarrow>
   move_window n p1 p2 h = Inr (Some (as ! (length as - 1 - k)))"
proof (induction n arbitrary: p1 p2 as xs ys)
  case 0
  then show ?case by simp
next
  case (Suc n)
  obtain a as' x xs' where [simp]: "as = a # as'" "xs = x # xs'"
    using Suc.prems(1,3) by (cases as; cases xs) auto
  obtain b bs y ys' where bs: "drop k as = b # bs" "ys = y # ys'"
    using Suc.prems(2,3) by (cases "drop k as"; cases ys) auto
  then have len: "length bs = length as' - k" by (metis Suc_diff_le Suc_inject Suc.prems(3) \<open>as = a # as'\<close>
      length_Cons length_drop less_Suc_eq_le)
  obtain n1 where n1: "deref h p1 = Inr n1" "chain h (next_node n1) as' xs'" "p1 = Some a"
    using deref_chain [of h p1 a as' x xs'] Suc.prems(1) by auto
  obtain n2 where n2: "deref h p2 = Inr n2" "chain h (next_node n2) bs ys'"
      "next_node n2 = None \<longleftrightarrow> bs = []"
    using deref_chain [of h p2 b bs y ys'] Suc.prems(2) bs by auto
  show ?case
  proof (cases "bs = []")
    case True
    then have "k = length as'" using len Suc.prems(3) by simp
    then show ?thesis using True n1 n2 by simp
  next
    case False
    then have k: "k < length as'" using len by (cases bs) auto
    have "bs = drop k as'"
      using bs(1) by (metis \<open>as = a # as'\<close> drop_Suc drop_Suc_Cons list.sel(3) tl_drop)
    then have "move_window n (next_node n1) (next_node n2) h = Inr (Some (as' ! (length as' - 1 - k)))"
      using Suc.prems(4) k n2(2) by (intro Suc.IH [OF n1(2)]) auto
    then show ?thesis using False n1 n2 k by (auto simp: nth_Cons')
  qed
qed

lemma print_loop_chain:
  "chain h it as xs \<Longrightarrow> as \<noteq> [] \<Longrightarrow> length as \<le> n \<Longrightarrow>
   print_loop n sh it h = Inr (concat (map (\<lambda>x. sh x @ '', '') (butlast xs)) @ sh (last xs))"
proof (induction n arbitrary: it as xs)
  case 0
  then show ?case by simp
next
  case (Suc n)
  obtain a as' x xs' where [simp]: "as = a # as'" "xs = x # xs'"
    using Suc.prems(1,2) by (cases as; cases xs) auto
  obtain nd where nd: "deref h it = Inr nd" "elem nd = x" "chain h (next_node nd) as' xs'"
      "next_node nd = None \<longleftrightarrow> as' = []"
    using deref_chain [of h it a as' x xs'] Suc.prems(1) by auto
  show ?case
  proof (cases "as' = []")
    case True
    then have "xs' = []" using nd(3) by (cases xs') auto
    then show ?thesis using True nd by simp
  next
    case False
    then have "xs' \<noteq> []" using nd(3) by (cases as') auto
    then show ?thesis using False nd Suc.IH [OF nd(3)] Suc.prems(3) by simp
  qed
qed

section \<open>Properties\<close>

text \<open>
  C18. Assignment copies deeply and leaks nothing: the target holds the values of the source
  in cells of its own, the source is untouched, the cells that the target owned are all
  freed, and every other list of the program keeps its values. It is safe when the target
  is the source.
\<close>

theorem assign_list_deep:
  assumes "is_list h src as xs" "is_list h this bs ys" "set as \<inter> set bs = {} \<or> src = this"
  shows "\<exists>l' h' cs. assign_list this src h = Inr (l', h') \<and> is_list h' l' cs xs
     \<and> set cs \<inter> (set as \<union> set bs) = {} \<and> (\<forall>b \<in> set bs. lookup h' b = None)
     \<and> (set as \<inter> set bs = {} \<longrightarrow> is_list h' src as xs)
     \<and> (\<forall>other ds zs. is_list h other ds zs \<and> set ds \<inter> set bs = {} \<longrightarrow> is_list h' other ds zs)"
proof -
  obtain l' h' where r: "assign_list this src h = Inr (l', h')"
      "is_list h' l' [length h..<length h + length as] xs"
      "\<forall>b \<in> set bs. lookup h' b = None" "same_at ({..<length h} - set bs) h h'"
    using assign_list_assigns [OF assms(1,2)] by blast
  have less: "set ds \<subseteq> {..<length h}" if "is_list h l ds zs" for l ds zs
    using that chain_less by (fastforce simp: is_list_def)
  have keep: "is_list h' l ds zs" if "is_list h l ds zs" "set ds \<inter> set bs = {}" for l ds zs
    by (rule is_list_same [OF that(1) same_at_mono [OF r(4)]]) (use less that in auto)
  have "set [length h..<length h + length as] \<inter> (set as \<union> set bs) = {}"
    using less [OF assms(1)] less [OF assms(2)] by auto
  then show ?thesis
    by (intro exI [of _ l'] exI [of _ h'] exI [of _ "[length h..<length h + length as]"] conjI allI impI)
      (simp_all add: r(1,2,3) keep assms(1))
qed

text \<open>A heap that holds the lists 1, 2 at 0, 1 and 9 at 2.\<close>

definition two_lists :: "nat heap" where
  "two_lists = [Some \<lparr>elem = 1, next_node = Some 1\<rparr>, Some \<lparr>elem = 2, next_node = None\<rparr>,
     Some \<lparr>elem = 9, next_node = None\<rparr>]"

lemma two_lists_hold:
  "is_list two_lists \<lparr>head_ptr = Some 0, tail_ptr = Some 1\<rparr> [0, 1] [1, 2]"
  "is_list two_lists \<lparr>head_ptr = Some 2, tail_ptr = Some 2\<rparr> [2] [9]"
  by (simp_all add: is_list_def two_lists_def lookup_def)

theorem assign_list_deep_witness:
  "\<exists>l' h' cs. assign_list \<lparr>head_ptr = Some 2, tail_ptr = Some 2\<rparr> \<lparr>head_ptr = Some 0, tail_ptr = Some 1\<rparr>
       two_lists = Inr (l', h') \<and> is_list h' l' cs [1, 2] \<and> lookup h' 2 = None"
  using assign_list_deep [OF two_lists_hold] by auto

text \<open>
  \<open>push_back\<close> appends one value in one new cell, and keeps every other list.
\<close>

theorem push_back_appends:
  assumes "is_list h l as xs"
  shows "\<exists>l' h' a. push_back l x h = Inr (l', h') \<and> is_list h' l' (as @ [a]) (xs @ [x]) \<and> a \<notin> set as
     \<and> (\<forall>other ds zs. is_list h other ds zs \<and> set ds \<inter> set as = {} \<longrightarrow> is_list h' other ds zs)"
proof -
  obtain l' h' where r: "push_back l x h = Inr (l', h')" "is_list h' l' (as @ [length h]) (xs @ [x])"
      "same_at ({..<length h} - set as) h h'"
    using push_back_correct [OF assms] by blast
  have keep: "is_list h' other ds zs" if o: "is_list h other ds zs" "set ds \<inter> set as = {}" for other ds zs
  proof (rule is_list_same [OF o(1) same_at_mono [OF r(3)]])
    show "set ds \<subseteq> {..<length h} - set as"
      using o chain_less by (fastforce simp: is_list_def)
  qed
  have "length h \<notin> set as" using assms chain_less by (fastforce simp: is_list_def)
  then show ?thesis
    by (intro exI [of _ l'] exI [of _ h'] exI [of _ "length h"] conjI allI impI)
      (simp_all add: r(1,2) keep)
qed

theorem push_back_appends_witness:
  "\<exists>l' h' a. push_back \<lparr>head_ptr = Some 0, tail_ptr = Some 1\<rparr> 3 two_lists = Inr (l', h')
     \<and> is_list h' l' ([0, 1] @ [a]) ([1, 2] @ [3]) \<and> a \<notin> set [0, 1]"
  using push_back_appends [OF two_lists_hold(1), of 3] by blast

text \<open>
  \<open>get_nth_to_last\<close> finds the node of the \<open>n\<close>-th value from the end, or returns null when
  the list is shorter; for \<open>n\<close> up to 1, so also for the last value, the assertion fails.
\<close>

theorem nth_to_last_found:
  assumes "is_list h l as xs"
  shows "get_nth_to_last l n h = (if n \<le> 1 then Inl Assert_Failed
       else if n \<le> int (length xs) then Inr (Some (as ! (length xs - nat n))) else Inr None)"
proof (cases "n \<le> 1 \<or> as = []")
  case True
  then show ?thesis
    using assms by (auto simp: get_nth_to_last_def is_list_def elim: chain.elims)
next
  case False
  have ch: "chain h (head_ptr l) as xs" "distinct as" using assms by (auto simp: is_list_def)
  have len: "length as = length xs" by (rule chain_length [OF ch(1)])
  have nn: "head_ptr l \<noteq> None" using chain_null [OF ch(1)] False by simp
  define k where "k = nat (n - 1)"
  have k: "k < length as \<longleftrightarrow> n \<le> int (length xs)" "length as - 1 - k = length xs - nat n"
    using False len by (auto simp: k_def nat_less_iff)
  have win: "open_window k (head_ptr l) h = Inr (if k < length as then Some (as ! k) else None)"
    using open_window_chain [OF ch(1)] False by simp
  show ?thesis
  proof (cases "k < length as")
    case True
    have "move_window (length h) (head_ptr l) (Some (as ! k)) h = Inr (Some (as ! (length as - 1 - k)))"
      using length_le_heap [OF ch] by (intro move_window_chain [OF ch(1) chain_drop [OF ch(1) True] True]) simp
    then show ?thesis using False nn win True k by (simp add: get_nth_to_last_def k_def)
  next
    case short: False
    then show ?thesis using False nn win k(1) by (simp add: get_nth_to_last_def k_def)
  qed
qed

theorem nth_to_last_found_witness:
  "get_nth_to_last \<lparr>head_ptr = Some 0, tail_ptr = Some 1\<rparr> 2 two_lists = Inr (Some 0)
   \<and> get_nth_to_last \<lparr>head_ptr = Some 0, tail_ptr = Some 1\<rparr> 1 two_lists = Inl Assert_Failed"
  using nth_to_last_found [OF two_lists_hold(1), of 2] nth_to_last_found [OF two_lists_hold(1), of 1]
  by simp

end
