(* ===== verification/Knapsack.thy ===== *)
theory Knapsack
  imports Prelude
begin

text \<open>
  The knapsack and independent-set programs of \<^verbatim>\<open>edu/courses/stanford2/cc\<close>: the plain
  recursions and the table of \<^verbatim>\<open>w3_lession_code.cc\<close>, and the memoised recursions and the
  second table of \<^verbatim>\<open>w3_dyn_pro.cc\<close>. \<open>knapSack_hashtable\<close> is a template over the store;
  here it takes the store's \<open>find\<close> and \<open>insert\<close>, and \<open>memo_store\<close> states what it relies on.

  The operands of \<open>std::max\<close> are evaluated from left to right. Indices count down from the
  number of items and are natural numbers.
\<close>

section \<open>Items\<close>

record item =
  item_v :: int
  item_w :: int

abbreviation Item :: "int \<Rightarrow> int \<Rightarrow> item" where
  "Item v w \<equiv> \<lparr>item_v = v, item_w = w\<rparr>"

definition get_test_items :: "int \<times> item list" where
  "get_test_items = (6, [Item 0 0, Item 3 4, Item 2 3, Item 4 2, Item 4 3])"

section \<open>The plain recursions\<close>

fun knapSackExp :: "int \<Rightarrow> nat \<Rightarrow> item list \<Rightarrow> int result" where
  "knapSackExp w_bound 0 items = Inr 0"
| "knapSackExp w_bound (Suc n) items =
     (if w_bound = 0 then Inr 0
      else bindr (vget items (int n)) (\<lambda>it.
        if item_w it > w_bound then knapSackExp w_bound n items
        else bindr (cint (w_bound - item_w it)) (\<lambda>rest.
             bindr (knapSackExp rest n items) (\<lambda>x.
             bindr (cint (x + item_v it)) (\<lambda>taken.
             bindr (knapSackExp w_bound n items) (\<lambda>skipped. Inr (max taken skipped)))))))"

fun knapSack :: "int \<Rightarrow> int list \<Rightarrow> int list \<Rightarrow> nat \<Rightarrow> int result" where
  "knapSack W wt val 0 = Inr 0"
| "knapSack W wt val (Suc n) =
     (if W = 0 then Inr 0
      else bindr (vget wt (int n)) (\<lambda>w.
        if w > W then knapSack W wt val n
        else bindr (cint (W - w)) (\<lambda>rest.
             bindr (knapSack rest wt val n) (\<lambda>x.
             bindr (vget val (int n)) (\<lambda>v.
             bindr (cint (x + v)) (\<lambda>taken.
             bindr (knapSack W wt val n) (\<lambda>skipped. Inr (max taken skipped))))))))"

section \<open>The memoised recursions\<close>

record task_id =
  w_bound :: int
  idx :: nat

abbreviation TaskId :: "int \<Rightarrow> nat \<Rightarrow> task_id" where
  "TaskId w n \<equiv> \<lparr>w_bound = w, idx = n\<rparr>"

text \<open>
  The order in which the two arguments of \<open>std::max\<close> are evaluated is not specified: \<open>taken_first\<close>
  chooses it in each call.
\<close>

fun knapSack_hashtable ::
  "(task_id \<Rightarrow> bool) \<Rightarrow> ('st \<Rightarrow> task_id \<Rightarrow> int option) \<Rightarrow> (task_id \<Rightarrow> int \<Rightarrow> 'st \<Rightarrow> 'st) \<Rightarrow>
   int \<Rightarrow> nat \<Rightarrow> item list \<Rightarrow> 'st \<Rightarrow> (int \<times> 'st) result" where
  "knapSack_hashtable taken_first fnd ins w 0 items store =
     (case fnd store (TaskId w 0) of Some x \<Rightarrow> Inr (x, store) | None \<Rightarrow> Inr (0, store))"
| "knapSack_hashtable taken_first fnd ins w (Suc n) items store =
     (case fnd store (TaskId w (Suc n)) of
        Some x \<Rightarrow> Inr (x, store)
      | None \<Rightarrow>
          if w = 0 then Inr (0, store)
          else bindr (vget items (int n)) (\<lambda>it.
            if item_w it > w then knapSack_hashtable taken_first fnd ins w n items store
            else bindr (cint (w - item_w it)) (\<lambda>rest.
                 bindr
                   (if taken_first (TaskId w (Suc n)) then
                      bindr (knapSack_hashtable taken_first fnd ins rest n items store) (\<lambda>(x, store1).
                      bindr (cint (x + item_v it)) (\<lambda>taken.
                      bindr (knapSack_hashtable taken_first fnd ins w n items store1) (\<lambda>(skipped, store2).
                      Inr (taken, skipped, store2))))
                    else
                      bindr (knapSack_hashtable taken_first fnd ins w n items store) (\<lambda>(skipped, store1).
                      bindr (knapSack_hashtable taken_first fnd ins rest n items store1) (\<lambda>(x, store2).
                      bindr (cint (x + item_v it)) (\<lambda>taken.
                      Inr (taken, skipped, store2)))))
                   (\<lambda>(taken, skipped, store2).
                 let sum_values = max taken skipped
                 in Inr (sum_values, ins (TaskId w (Suc n)) sum_values store2)))))"

text \<open>The flat store: \<open>insert\<close> keeps an entry that is already there.\<close>

type_synonym flat_store = "task_id \<rightharpoonup> int"

definition flat_find :: "flat_store \<Rightarrow> task_id \<Rightarrow> int option" where
  "flat_find st k = st k"

definition flat_insert :: "task_id \<Rightarrow> int \<Rightarrow> flat_store \<Rightarrow> flat_store" where
  "flat_insert k v st = (if st k = None then st(k \<mapsto> v) else st)"

text \<open>
  The store of \<open>knapSack_hashtable_2d\<close>: a table of tables, whose inner tables are created on
  the first insertion.
\<close>

type_synonym nested_store = "int \<rightharpoonup> (nat \<rightharpoonup> int)"

definition nested_find :: "nested_store \<Rightarrow> task_id \<Rightarrow> int option" where
  "nested_find st k = (case st (w_bound k) of None \<Rightarrow> None | Some tmp \<Rightarrow> tmp (idx k))"

definition nested_insert :: "task_id \<Rightarrow> int \<Rightarrow> nested_store \<Rightarrow> nested_store" where
  "nested_insert k v st =
     (let st1 = (if st (w_bound k) = None then st(w_bound k \<mapsto> Map.empty) else st);
          tmp = the (st1 (w_bound k))
      in st1(w_bound k \<mapsto> (if tmp (idx k) = None then tmp(idx k \<mapsto> v) else tmp)))"

definition knapSack_hashtable_2d :: "(task_id \<Rightarrow> bool) \<Rightarrow> int \<Rightarrow> nat \<Rightarrow> item list \<Rightarrow> nested_store \<Rightarrow> (int \<times> nested_store) result" where
  "knapSack_hashtable_2d taken_first = knapSack_hashtable taken_first nested_find nested_insert"

section \<open>The tables\<close>

text \<open>
  A table has a row per item and a column per capacity up to \<open>W\<close>; row 0 stays 0, and row \<open>i\<close>
  is computed from row \<open>i - 1\<close>. \<open>lesson_cell\<close> is the body of the loops of \<open>KnapsackProblem\<close>,
  \<open>big_cell\<close> that of \<open>BigKnapsackProblem\<close>, where the cell itself is still 0.
\<close>

definition lesson_cell :: "int list \<Rightarrow> item \<Rightarrow> int \<Rightarrow> int result" where
  "lesson_cell prev it x =
     bindr (cint (x - item_w it)) (\<lambda>w0.
     let (w_boundary, v) = (if w0 < 0 then (x, 0) else (w0, item_v it))
     in bindr (vget prev x) (\<lambda>invalid.
        bindr (vget prev w_boundary) (\<lambda>valid.
        bindr (cint (valid + v)) (\<lambda>taken. Inr (max invalid taken)))))"

definition big_cell :: "int list \<Rightarrow> item \<Rightarrow> int \<Rightarrow> int result" where
  "big_cell prev it x =
     bindr (cint (x - item_w it)) (\<lambda>w_boundary.
     if w_boundary < 0 then vget prev x
     else bindr (vget prev w_boundary) (\<lambda>y. bindr (cint (y + item_v it)) (\<lambda>s. Inr (max 0 s))))"

fun table_rows :: "(int list \<Rightarrow> item \<Rightarrow> int \<Rightarrow> int result) \<Rightarrow> int \<Rightarrow> int list \<Rightarrow> item list \<Rightarrow> int list list result" where
  "table_rows cell W prev [] = Inr [prev]"
| "table_rows cell W prev (it # items) =
     bindr (mapr (cell prev it) [0..W]) (\<lambda>row.
     bindr (table_rows cell W row items) (\<lambda>rows. Inr (prev # rows)))"

definition knapsack_table :: "(int list \<Rightarrow> item \<Rightarrow> int \<Rightarrow> int result) \<Rightarrow> item list \<Rightarrow> int \<Rightarrow> int list list result" where
  "knapsack_table cell items W =
     bindr (cint (W + 1)) (\<lambda>columns.
     if columns < 0 then Inl Length_Error
     else if items = [] then Inr []
     else table_rows cell W (replicate (nat columns) 0) (tl items))"

definition KnapsackProblem :: "item list \<Rightarrow> int \<Rightarrow> int list list result" where
  "KnapsackProblem = knapsack_table lesson_cell"

definition BigKnapsackProblem :: "item list \<Rightarrow> int \<Rightarrow> int list list result" where
  "BigKnapsackProblem = knapsack_table big_cell"

section \<open>Independent sets on a path\<close>

text \<open>The loop that fills \<open>A\<close>, from index 2 on; \<open>A[0]\<close> is 0 and \<open>A[1]\<close> is \<open>W[1]\<close>.\<close>

fun wis_loop :: "int list \<Rightarrow> int list \<Rightarrow> int list result" where
  "wis_loop A [] = Inr A"
| "wis_loop A (w # ws) =
     bindr (vget A (int (length A) - 1)) (\<lambda>a1.
     bindr (vget A (int (length A) - 2)) (\<lambda>a2.
     bindr (cint (a2 + w)) (\<lambda>s. wis_loop (A @ [max a1 s]) ws)))"

definition wis_table :: "int list \<Rightarrow> int list result" where
  "wis_table W = bindr (vget W 1) (\<lambda>w1. wis_loop [0, w1] (drop 2 W))"

text \<open>The reconstruction: the chosen indices, from the last down.\<close>

function wis_reconstruct :: "int list \<Rightarrow> int list \<Rightarrow> int \<Rightarrow> int list result" where
  "wis_reconstruct A W i =
     (if i \<ge> 1 then
        bindr (vget A (i - 1)) (\<lambda>a1.
        bindr (vget A (i - 2)) (\<lambda>a2.
        bindr (vget W i) (\<lambda>w.
        bindr (cint (a2 + w)) (\<lambda>s.
          if a1 \<ge> s then wis_reconstruct A W (i - 1)
          else bindr (wis_reconstruct A W (i - 2)) (\<lambda>picked. Inr (i # picked))))))
      else Inr [])"
  by pat_completeness auto
termination by (relation "measure (\<lambda>(A, W, i). nat (i + 1))") auto

definition Wis :: "int list \<Rightarrow> (int list \<times> int list) result" where
  "Wis W = bindr (wis_table W) (\<lambda>A.
     bindr (wis_reconstruct A W (int (length W) - 1)) (\<lambda>picked. Inr (A, picked)))"

declare wis_reconstruct.simps [simp del]

section \<open>The contract of a memo store\<close>

locale memo_store =
  fixes fnd :: "'st \<Rightarrow> task_id \<Rightarrow> int option"
    and ins :: "task_id \<Rightarrow> int \<Rightarrow> 'st \<Rightarrow> 'st"
  assumes found_after: "fnd (ins k v st) j = (case fnd st j of Some x \<Rightarrow> Some x
      | None \<Rightarrow> if j = k then Some v else None)"
begin

text \<open>Every entry is the value of its task.\<close>

definition holds_values :: "item list \<Rightarrow> 'st \<Rightarrow> bool" where
  "holds_values items st \<longleftrightarrow>
     (\<forall>k x. fnd st k = Some x \<longrightarrow> knapSackExp (w_bound k) (idx k) items = Inr x)"

lemma holds_values_ins:
  "holds_values items st \<Longrightarrow> knapSackExp (w_bound k) (idx k) items = Inr v \<Longrightarrow>
   holds_values items (ins k v st)"
  by (auto simp: holds_values_def found_after split: option.splits if_splits)

lemma memo_value:
  "knapSackExp w n items = Inr r \<Longrightarrow> holds_values items st \<Longrightarrow>
   \<exists>st'. knapSack_hashtable taken_first fnd ins w n items st = Inr (r, st') \<and> holds_values items st'"
proof (induction n arbitrary: w r st)
  case 0
  show ?case
  proof (cases "fnd st (TaskId w 0)")
    case None
    then show ?thesis using 0 by simp
  next
    case (Some x)
    then have "knapSackExp w 0 items = Inr x"
      using 0(2) unfolding holds_values_def by fastforce
    then show ?thesis using Some 0 by simp
  qed
next
  case (Suc n)
  show ?case
  proof (cases "fnd st (TaskId w (Suc n))")
    case (Some x)
    then have "knapSackExp w (Suc n) items = Inr x"
      using Suc.prems(2) unfolding holds_values_def by fastforce
    then show ?thesis using Some Suc.prems by simp
  next
    case None
    show ?thesis
    proof (cases "w = 0")
      case True
      then show ?thesis using None Suc.prems by simp
    next
      case False
      then obtain it where it: "vget items (int n) = Inr it"
        using Suc.prems(1) by (auto simp: bindr_eq_Inr)
      show ?thesis
      proof (cases "item_w it > w")
        case True
        then have "knapSackExp w n items = Inr r" using Suc.prems(1) False it by simp
        then show ?thesis using Suc.IH [OF _ Suc.prems(2)] None False it True by simp
      next
        case fits: False
        then obtain rest x taken skipped where rs: "cint (w - item_w it) = Inr rest"
            "knapSackExp rest n items = Inr x" "cint (x + item_v it) = Inr taken"
            "knapSackExp w n items = Inr skipped" "r = max taken skipped"
          using Suc.prems(1) False it by (auto simp: bindr_eq_Inr)
        show ?thesis
        proof (cases "taken_first (TaskId w (Suc n))")
          case first: True
          obtain st1 where st1: "knapSack_hashtable taken_first fnd ins rest n items st = Inr (x, st1)" "holds_values items st1"
            using Suc.IH [OF rs(2) Suc.prems(2)] by blast
          obtain st2 where st2: "knapSack_hashtable taken_first fnd ins w n items st1 = Inr (skipped, st2)" "holds_values items st2"
            using Suc.IH [OF rs(4) st1(2)] by blast
          show ?thesis
            using None False fits it rs st1(1) st2 first holds_values_ins [OF st2(2), of "TaskId w (Suc n)" r] Suc.prems(1)
            by (simp add: Let_def)
        next
          case second: False
          obtain st1 where st1: "knapSack_hashtable taken_first fnd ins w n items st = Inr (skipped, st1)" "holds_values items st1"
            using Suc.IH [OF rs(4) Suc.prems(2)] by blast
          obtain st2 where st2: "knapSack_hashtable taken_first fnd ins rest n items st1 = Inr (x, st2)" "holds_values items st2"
            using Suc.IH [OF rs(2) st1(2)] by blast
          show ?thesis
            using None False fits it rs st1(1) st2 second holds_values_ins [OF st2(2), of "TaskId w (Suc n)" r] Suc.prems(1)
            by (simp add: Let_def)
        qed
      qed
    qed
  qed
qed

end

interpretation flat: memo_store flat_find flat_insert
  by unfold_locales (auto simp: flat_find_def flat_insert_def split: option.splits)

interpretation nested: memo_store nested_find nested_insert
proof
  fix k v st j
  show "nested_find (nested_insert k v st) j = (case nested_find st j of Some x \<Rightarrow> Some x
      | None \<Rightarrow> if j = k then Some v else None)"
    by (cases "st (w_bound k)"; cases j; cases k)
      (auto simp: nested_find_def nested_insert_def Let_def split: option.splits)
qed

section \<open>The best choice of items\<close>

text \<open>The total weight and value of a set of indices.\<close>

definition weight :: "item list \<Rightarrow> nat set \<Rightarrow> int" where
  "weight items S = (\<Sum>i \<in> S. item_w (items ! i))"

definition worth :: "item list \<Rightarrow> nat set \<Rightarrow> int" where
  "worth items S = (\<Sum>i \<in> S. item_v (items ! i))"

text \<open>\<open>r\<close> is the greatest value of a choice among the first \<open>n\<close> items within \<open>W\<close>.\<close>

definition best :: "item list \<Rightarrow> nat \<Rightarrow> int \<Rightarrow> int \<Rightarrow> bool" where
  "best items n W r \<longleftrightarrow>
     (\<exists>S \<subseteq> {..<n}. weight items S \<le> W \<and> worth items S = r) \<and>
     (\<forall>S \<subseteq> {..<n}. weight items S \<le> W \<longrightarrow> worth items S \<le> r)"

definition sound_items :: "item list \<Rightarrow> bool" where
  "sound_items items \<longleftrightarrow> (\<forall>it \<in> set items. 0 < item_w it \<and> item_w it \<le> int_max \<and> 0 \<le> item_v it)
     \<and> worth items {..<length items} \<le> int_max"

lemma sound_item: "sound_items items \<Longrightarrow> i < length items \<Longrightarrow>
   0 < item_w (items ! i) \<and> item_w (items ! i) \<le> int_max \<and> 0 \<le> item_v (items ! i)"
  by (simp add: sound_items_def)

lemma worth_bound:
  assumes "sound_items items" "S \<subseteq> {..<length items}"
  shows "0 \<le> worth items S" "worth items S \<le> int_max"
proof -
  have nonneg: "0 \<le> item_v (items ! i)" if "i < length items" for i
    using sound_item [OF assms(1) that] by simp
  then show "0 \<le> worth items S"
    using assms(2) unfolding worth_def by (intro sum_nonneg) auto
  have "worth items S \<le> worth items {..<length items}"
    unfolding worth_def using assms(2) nonneg by (intro sum_mono2) auto
  then show "worth items S \<le> int_max" using assms(1) by (simp add: sound_items_def)
qed

lemma best_range:
  assumes "sound_items items" "n \<le> length items" "best items n W r"
  shows "in_int r"
proof -
  obtain S where "S \<subseteq> {..<n}" "worth items S = r" using assms(3) unfolding best_def by blast
  then have "S \<subseteq> {..<length items}" "worth items S = r" using assms(2) by auto
  then show ?thesis
    using worth_bound [OF assms(1), of S] by (simp add: in_int_def int_min_def)
qed

lemma best_unique: "best items n W r \<Longrightarrow> best items n W s \<Longrightarrow> r = s"
  unfolding best_def by (metis antisym)

lemma weight_pos:
  assumes "sound_items items" "S \<subseteq> {..<length items}" "S \<noteq> {}"
  shows "0 < weight items S"
proof -
  have "finite S" using assms(2) finite_subset by blast
  then show ?thesis
    unfolding weight_def using assms sound_item by (intro sum_pos) auto
qed

lemma weight_nonneg: "sound_items items \<Longrightarrow> S \<subseteq> {..<length items} \<Longrightarrow> 0 \<le> weight items S"
  using weight_pos [of items S] by (cases "S = {}") (simp_all add: weight_def)

lemma best_zero: "sound_items items \<Longrightarrow> n \<le> length items \<Longrightarrow> best items n 0 0"
  unfolding best_def
proof (intro conjI allI impI)
  show "\<exists>S \<subseteq> {..<n}. weight items S \<le> 0 \<and> worth items S = 0"
    by (rule exI [of _ "{}"]) (simp add: weight_def worth_def)
  fix S
  assume s: "sound_items items" "n \<le> length items" "S \<subseteq> {..<n}" "weight items S \<le> 0"
  then have "S = {}" using weight_pos [of items S] by fastforce
  then show "worth items S \<le> 0" by (simp add: worth_def)
qed

text \<open>Splitting a choice at the last item.\<close>

lemma choice_split:
  assumes "S \<subseteq> {..<Suc n}"
  shows "weight items S = weight items (S - {n}) + (if n \<in> S then item_w (items ! n) else 0)"
    and "worth items S = worth items (S - {n}) + (if n \<in> S then item_v (items ! n) else 0)"
    and "S - {n} \<subseteq> {..<n}"
proof -
  have "finite S" using assms finite_subset by blast
  then have split: "sum f S = sum f (S - {n}) + (if n \<in> S then f n else 0)" for f :: "nat \<Rightarrow> int"
  proof (cases "n \<in> S")
    case True
    then show ?thesis
      unfolding sum.remove [OF \<open>finite S\<close> True, of f] by (simp only: True if_True add.commute)
  next
    case False
    then have "S - {n} = S" by blast
    with False show ?thesis by (simp only: if_False add_0_right)
  qed
  show "weight items S = weight items (S - {n}) + (if n \<in> S then item_w (items ! n) else 0)"
    "worth items S = worth items (S - {n}) + (if n \<in> S then item_v (items ! n) else 0)"
    unfolding weight_def worth_def by (rule split)+
  show "S - {n} \<subseteq> {..<n}" using assms by (auto simp: less_Suc_eq)
qed

lemma choice_add:
  assumes "S \<subseteq> {..<n}"
  shows "weight items (insert n S) = weight items S + item_w (items ! n)"
    and "worth items (insert n S) = worth items S + item_v (items ! n)"
proof -
  have "finite S" "n \<notin> S" using assms finite_subset by auto
  then show "weight items (insert n S) = weight items S + item_w (items ! n)"
    "worth items (insert n S) = worth items S + item_v (items ! n)"
    by (simp_all add: weight_def worth_def)
qed

lemma best_skip:
  assumes s: "sound_items items" "Suc n \<le> length items" and r: "best items n W r"
    and w: "W < item_w (items ! n)"
  shows "best items (Suc n) W r"
  unfolding best_def
proof (intro conjI allI impI)
  show "\<exists>S \<subseteq> {..<Suc n}. weight items S \<le> W \<and> worth items S = r"
  proof -
    obtain S where S: "S \<subseteq> {..<n}" "weight items S \<le> W" "worth items S = r"
      using r unfolding best_def by blast
    have "S \<subseteq> {..<Suc n}" using S(1) by (rule order_trans) simp
    with S(2,3) show ?thesis by blast
  qed
  fix S
  assume S: "S \<subseteq> {..<Suc n}" "weight items S \<le> W"
  have "n \<notin> S"
  proof
    assume n: "n \<in> S"
    have "S - {n} \<subseteq> {..<length items}" using choice_split(3) [OF S(1)] s(2) by auto
    then have "0 \<le> weight items (S - {n})" by (rule weight_nonneg [OF s(1)])
    then show False using choice_split(1) [OF S(1), of items] n S(2) w by simp
  qed
  then show "worth items S \<le> r"
    using r S choice_split(3) [OF S(1)] unfolding best_def by auto
qed

lemma best_take:
  assumes x: "best items n (W - item_w (items ! n)) x" and y: "best items n W y"
  shows "best items (Suc n) W (max (x + item_v (items ! n)) y)"
  unfolding best_def
proof (intro conjI allI impI)
  obtain X where X: "X \<subseteq> {..<n}" "weight items X \<le> W - item_w (items ! n)" "worth items X = x"
    using x unfolding best_def by blast
  obtain Y where Y: "Y \<subseteq> {..<n}" "weight items Y \<le> W" "worth items Y = y"
    using y unfolding best_def by blast
  have "insert n X \<subseteq> {..<Suc n}" "Y \<subseteq> {..<Suc n}" using X(1) Y(1) by auto
  then show "\<exists>S \<subseteq> {..<Suc n}. weight items S \<le> W \<and> worth items S = max (x + item_v (items ! n)) y"
    using choice_add [OF X(1), of items] X(2,3) Y(2,3)
    by (cases "x + item_v (items ! n) \<le> y") (metis max.absorb2, metis max.absorb1 add.commute le_diff_eq linear)
  fix S
  assume S: "S \<subseteq> {..<Suc n}" "weight items S \<le> W"
  note sp = choice_split(1,2) [OF S(1), of items] choice_split(3) [OF S(1)]
  show "worth items S \<le> max (x + item_v (items ! n)) y"
  proof (cases "n \<in> S")
    case True
    then have "weight items (S - {n}) \<le> W - item_w (items ! n)" using sp(1) S(2) by simp
    then have "worth items (S - {n}) \<le> x" using x sp(3) unfolding best_def by blast
    then show ?thesis using sp(2) True by simp
  next
    case False
    then have "worth items S \<le> y" using y S(2) sp(3) unfolding best_def by auto
    then show ?thesis by simp
  qed
qed

lemma knapSackExp_best:
  assumes "sound_items items"
  shows "n \<le> length items \<Longrightarrow> 0 \<le> W \<Longrightarrow> W \<le> int_max \<Longrightarrow>
     \<exists>r. knapSackExp W n items = Inr r \<and> best items n W r"
proof (induction n arbitrary: W)
  case 0
  then show ?case by (simp add: best_def weight_def worth_def)
next
  case (Suc n)
  let ?it = "items ! n"
  have it: "vget items (int n) = Inr ?it" "0 < item_w ?it"
    using Suc.prems(1) sound_item [OF assms, of n] by simp_all
  obtain y where y: "knapSackExp W n items = Inr y" "best items n W y"
    using Suc.IH [of W] Suc.prems by auto
  consider "W = 0" | "W \<noteq> 0" "W < item_w ?it" | "W \<noteq> 0" "item_w ?it \<le> W" by linarith
  then show ?case
  proof cases
    case 1
    then show ?thesis using best_zero [OF assms Suc.prems(1)] by simp
  next
    case 2
    then show ?thesis using it y best_skip [OF assms Suc.prems(1) y(2)] by simp
  next
    case 3
    have rest: "cint (W - item_w ?it) = Inr (W - item_w ?it)"
      using it(2) 3 Suc.prems by (intro cint_ok) (simp add: in_int_def int_min_def)
    obtain x where x: "knapSackExp (W - item_w ?it) n items = Inr x" "best items n (W - item_w ?it) x"
      using Suc.IH [of "W - item_w ?it"] Suc.prems 3 it(2) by auto
    obtain X where X: "X \<subseteq> {..<n}" "worth items X = x"
      using x(2) unfolding best_def by blast
    have "insert n X \<subseteq> {..<length items}" using X(1) Suc.prems(1) by auto
    from worth_bound [OF assms this] have "in_int (x + item_v ?it)"
      using choice_add(2) [OF X(1), of items] X(2) by (simp add: in_int_def int_min_def)
    then show ?thesis
      using 3 it rest x y best_take [OF x(2) y(2)] by simp
  qed
qed

section \<open>The other programs compute the same\<close>

lemma knapSack_arrays:
  "n \<le> length items \<Longrightarrow>
   knapSack W (map item_w items) (map item_v items) n = knapSackExp W n items"
  by (induction n arbitrary: W) (simp_all cong: bindr_cong)

text \<open>A row of a table: the value of every capacity with the first \<open>n\<close> items.\<close>

definition row_ok :: "item list \<Rightarrow> nat \<Rightarrow> int \<Rightarrow> int list \<Rightarrow> bool" where
  "row_ok its n W row \<longleftrightarrow> length row = nat (W + 1)
     \<and> (\<forall>x. 0 \<le> x \<and> x \<le> W \<longrightarrow> knapSackExp x n its = Inr (row ! nat x))"

lemma lesson_cell_value:
  assumes s: "sound_items its" and n: "n < length its" and row: "row_ok its n W prev"
    and x: "0 \<le> x" "x \<le> W" and W: "W \<le> int_max"
  shows "lesson_cell prev (its ! n) x = knapSackExp x (Suc n) its"
proof -
  let ?it = "its ! n"
  have it: "0 < item_w ?it" "item_w ?it \<le> int_max" using sound_item [OF s n] by simp_all
  have wk: "vget its (int n) = Inr ?it" using n by simp
  have prev: "vget prev z = knapSackExp z n its" if "0 \<le> z" "z \<le> x" for z
    using row that x by (simp add: row_ok_def)
  have sub: "cint (x - item_w ?it) = Inr (x - item_w ?it)"
    using it x W by (intro cint_ok) (simp add: in_int_def int_min_def int_max_def)
  obtain r y where r: "knapSackExp x (Suc n) its = Inr r" and y: "knapSackExp x n its = Inr y"
    using knapSackExp_best [OF s, of "Suc n" x] knapSackExp_best [OF s, of n x] n x W by auto
  consider "x = 0" | "x \<noteq> 0" "x < item_w ?it" | "x \<noteq> 0" "item_w ?it \<le> x" by linarith
  then show ?thesis
  proof cases
    case 1
    then have "y = 0" using y by (cases n) auto
    then show ?thesis
      using 1 it sub prev [of x] y by (simp add: lesson_cell_def in_int_iff)
  next
    case 2
    then have "r = y" using r y wk by simp
    moreover have "in_int y"
      using best_range [OF s, of n x y] knapSackExp_best [OF s, of n x] y n x W by auto
    ultimately show ?thesis
      using 2 sub prev [of x] y r x by (simp add: lesson_cell_def)
  next
    case 3
    then obtain z where z: "knapSackExp (x - item_w ?it) n its = Inr z"
      using r wk sub by (auto simp: bindr_eq_Inr)
    then have "r = max (z + item_v ?it) y" "cint (z + item_v ?it) = Inr (z + item_v ?it)"
      using 3 r wk sub y by (auto simp: bindr_eq_Inr cint_eq_Inr)
    then show ?thesis
      using 3 sub prev [of x] prev [of "x - item_w ?it"] y z r it
      by (simp add: lesson_cell_def max.commute)
  qed
qed

lemma row_step:
  assumes s: "sound_items its" and n: "n < length its" and row: "row_ok its n W prev"
    and W: "0 \<le> W" "W \<le> int_max"
  shows "\<exists>row'. mapr (lesson_cell prev (its ! n)) [0..W] = Inr row' \<and> row_ok its (Suc n) W row'"
proof -
  let ?val = "\<lambda>x. projr (knapSackExp x (Suc n) its)"
  have val: "knapSackExp x (Suc n) its = Inr (?val x)" if "0 \<le> x" "x \<le> W" for x
    using knapSackExp_best [OF s, of "Suc n" x] n that W by fastforce
  have "mapr (lesson_cell prev (its ! n)) [0..W] = Inr (map ?val [0..W])"
  proof (rule mapr_ok)
    fix x
    assume "x \<in> set [0..W]"
    then have x: "0 \<le> x" "x \<le> W" by simp_all
    show "lesson_cell prev (its ! n) x = Inr (?val x)"
      using lesson_cell_value [OF s n row x W(2)] val [OF x] by simp
  qed
  moreover have "row_ok its (Suc n) W (map ?val [0..W])"
    unfolding row_ok_def using val W(1) by (auto simp del: knapSackExp.simps)
  ultimately show ?thesis by blast
qed

lemma table_rows_values:
  assumes s: "sound_items its" and W: "0 \<le> W" "W \<le> int_max"
  shows "n \<le> length its \<Longrightarrow> row_ok its n W prev \<Longrightarrow>
    \<exists>rows. table_rows lesson_cell W prev (drop n its) = Inr rows \<and> length rows = length its - n + 1
      \<and> (\<forall>i \<le> length its - n. row_ok its (n + i) W (rows ! i))"
proof (induction "length its - n" arbitrary: n prev)
  case 0
  then show ?case by simp
next
  case (Suc k)
  then have n: "n < length its" and k: "k = length its - Suc n" by simp_all
  obtain row where row: "mapr (lesson_cell prev (its ! n)) [0..W] = Inr row" "row_ok its (Suc n) W row"
    using row_step [OF s n Suc.prems(2) W] by blast
  obtain rows where rows: "table_rows lesson_cell W row (drop (Suc n) its) = Inr rows"
      "length rows = length its - Suc n + 1" "\<forall>i \<le> length its - Suc n. row_ok its (Suc n + i) W (rows ! i)"
    using Suc.hyps(1) [OF k, of row] n row(2) by auto
  have "row_ok its (n + i) W ((prev # rows) ! i)" if "i \<le> length its - n" for i
    using rows(3) that Suc.prems(2) by (cases i) auto
  then show ?case
    using row(1) rows(1,2) n by (intro exI [of _ "prev # rows"]) (auto simp: drop_cons_nth [OF n])
qed

lemma KnapsackProblem_values:
  assumes "sound_items its" "0 \<le> W" "W < int_max"
  shows "\<exists>rows. KnapsackProblem (guard # its) W = Inr rows \<and> length rows = length its + 1
     \<and> (\<forall>i \<le> length its. row_ok its i W (rows ! i))"
proof -
  have "in_int (W + 1)" using assms(2,3) by (simp add: in_int_def int_min_def)
  moreover have "row_ok its 0 W (replicate (nat (W + 1)) 0)" using assms(2) by (simp add: row_ok_def)
  ultimately show ?thesis
    using table_rows_values [OF assms(1,2), of 0] assms(2,3)
    by (auto simp: KnapsackProblem_def knapsack_table_def)
qed

section \<open>The reconstruction of an independent set\<close>

text \<open>When the walk back reaches index 1, the test of the loop reads \<open>A[-1]\<close>.\<close>

lemma wis_reconstruct_first: "wis_reconstruct A W 1 = Inl Undefined_Behaviour"
  by (subst wis_reconstruct.simps) (simp add: vget_def)

lemma Wis_one_vertex: "in_int w \<Longrightarrow> Wis [g, w] = Inl Undefined_Behaviour"
  by (simp add: Wis_def wis_table_def wis_reconstruct_first)

lemma Wis_lesson_input: "Wis [0, 1, 4, 5, 4] = Inr ([0, 1, 4, 6, 8], [4, 2])"
  by code_simp

section \<open>Properties\<close>

text \<open>
  C26. The plain recursion is optimal: for positive weights and values whose sum an \<open>int\<close>
  holds, it returns, without overflow, the greatest value of a choice of items within the
  capacity.
\<close>

theorem knapSackExp_optimal:
  assumes "sound_items items" "n \<le> length items" "0 \<le> W" "W \<le> int_max"
  shows "\<exists>r. knapSackExp W n items = Inr r
     \<and> (\<exists>S \<subseteq> {..<n}. weight items S \<le> W \<and> worth items S = r)
     \<and> (\<forall>S \<subseteq> {..<n}. weight items S \<le> W \<longrightarrow> worth items S \<le> r)"
  using knapSackExp_best [OF assms] unfolding best_def .

text \<open>The test items without their guard.\<close>

definition real_items :: "item list" where
  "real_items = tl (snd get_test_items)"

lemma real_items_sound: "sound_items real_items"
proof -
  have "worth real_items {..<length real_items} = 13"
    by (simp add: worth_def real_items_def get_test_items_def eval_nat_numeral lessThan_Suc)
  then show ?thesis
    by (auto simp: sound_items_def real_items_def get_test_items_def int_max_def)
qed

lemma real_items_value: "knapSackExp 6 4 real_items = Inr 8"
  by code_simp

theorem knapSackExp_optimal_witness:
  "\<exists>S. weight real_items S \<le> 6 \<and> worth real_items S = 8 \<and> knapSackExp 6 4 real_items = Inr 8"
  using knapSackExp_optimal [OF real_items_sound, of 4 6] real_items_value
  by (auto simp: real_items_def get_test_items_def int_max_def)

text \<open>
  C32. Memoisation changes nothing: with either store, starting empty, and in every order of evaluation,
  the memoised recursion returns what the plain one returns, whenever that returns.
\<close>

theorem memo_same_value:
  assumes "knapSackExp W n items = Inr r"
  shows "(\<exists>st. knapSack_hashtable taken_first flat_find flat_insert W n items Map.empty = Inr (r, st))
       \<and> (\<exists>st. knapSack_hashtable_2d taken_first W n items Map.empty = Inr (r, st))"
  using flat.memo_value [OF assms, of Map.empty taken_first] nested.memo_value [OF assms, of Map.empty taken_first]
  by (auto simp: flat.holds_values_def nested.holds_values_def flat_find_def nested_find_def
      knapSack_hashtable_2d_def)

theorem memo_same_value_witness:
  "\<exists>st. knapSack_hashtable_2d (\<lambda>_. False) 6 4 real_items Map.empty = Inr (8, st)"
  using memo_same_value [OF real_items_value] by blast

text \<open>
  C40. The table of the lesson: row \<open>i\<close>, column \<open>x\<close> holds the value of the plain recursion for
  the first \<open>i\<close> items after the guard and capacity \<open>x\<close>.
\<close>

theorem lesson_table_values:
  assumes "sound_items its" "0 \<le> W" "W < int_max"
  shows "\<exists>rows. KnapsackProblem (guard # its) W = Inr rows \<and> length rows = length its + 1
     \<and> (\<forall>i \<le> length its. \<forall>x. 0 \<le> x \<and> x \<le> W \<longrightarrow> knapSackExp x i its = Inr (rows ! i ! nat x))"
  using KnapsackProblem_values [OF assms, of guard] unfolding row_ok_def by blast

theorem lesson_table_values_witness:
  "\<exists>rows. KnapsackProblem (snd get_test_items) 6 = Inr rows \<and> rows ! 4 ! 6 = 8"
proof -
  have eq: "snd get_test_items = Item 0 0 # real_items" "length real_items = 4"
    by (simp_all add: real_items_def get_test_items_def)
  obtain rows where "KnapsackProblem (snd get_test_items) 6 = Inr rows"
      "\<forall>i \<le> 4. \<forall>x. 0 \<le> x \<and> x \<le> 6 \<longrightarrow> knapSackExp x i real_items = Inr (rows ! i ! nat x)"
    using lesson_table_values [OF real_items_sound, of 6 "Item 0 0"] unfolding eq
    by (auto simp: int_max_def)
  moreover from this(2) have "knapSackExp 6 4 real_items = Inr (rows ! 4 ! nat 6)" by auto
  ultimately show ?thesis using real_items_value by auto
qed

text \<open>
  The table of \<open>BigKnapsackProblem\<close> is wrong: where an item fits, the cell takes it
  whatever it is worth, because the row above is not read. A worthless last item of the
  weight of the capacity erases the value of all others.
\<close>

theorem big_table_forgets:
  assumes "0 < v" "v \<le> int_max" "0 < W" "W < int_max"
  shows "\<exists>rows. BigKnapsackProblem [guard, Item v W, Item 0 W] W = Inr rows
       \<and> rows ! 2 ! nat W = 0 \<and> knapSackExp W 2 [Item v W, Item 0 W] = Inr v"
proof -
  have ok: "in_int (W + 1)" "in_int v" "in_int 0"
    using assms by (simp_all add: in_int_def int_min_def int_max_def)
  have sub: "cint (x - W) = Inr (x - W)" if "0 \<le> x" "x \<le> W" for x
    using that assms by (intro cint_ok) (simp add: in_int_def int_min_def int_max_def)
  let ?z = "replicate (nat (W + 1)) (0::int)"
  let ?row1 = "map (\<lambda>x. if x < W then 0 else v) [0..W]"
  let ?row2 = "map (\<lambda>x. 0) [0..W]"
  have cell1: "big_cell ?z (Item v W) x = Inr (if x < W then 0 else v)" if "x \<in> set [0..W]" for x
    using that sub [of x] ok assms by (auto simp: big_cell_def)
  have cell2: "big_cell ?row1 (Item 0 W) x = Inr 0" if "x \<in> set [0..W]" for x
    using that sub [of x] ok assms by (auto simp: big_cell_def)
  have "mapr (big_cell ?z (Item v W)) [0..W] = Inr ?row1" using cell1 by (rule mapr_ok)
  moreover have "mapr (big_cell ?row1 (Item 0 W)) [0..W] = Inr ?row2" using cell2 by (rule mapr_ok)
  ultimately have "BigKnapsackProblem [guard, Item v W, Item 0 W] W = Inr [?z, ?row1, ?row2]"
    using ok assms by (simp add: BigKnapsackProblem_def knapsack_table_def)
  moreover have "knapSackExp W 2 [Item v W, Item 0 W] = Inr v"
    using ok assms by (simp add: numeral_2_eq_2)
  ultimately show ?thesis using assms by (auto simp: numeral_2_eq_2)
qed

theorem big_table_forgets_witness:
  "\<exists>rows. BigKnapsackProblem [Item 0 0, Item 5 3, Item 0 3] 3 = Inr rows
     \<and> rows ! 2 ! nat 3 = 0 \<and> knapSackExp 3 2 [Item 5 3, Item 0 3] = Inr 5"
  by (rule big_table_forgets) (simp_all add: int_max_def)

end
