(* ===== verification/Knapsack_Tasks.thy ===== *)
theory Knapsack_Tasks
  imports Knapsack
begin

text \<open>
  The parallel knapsack of \<^verbatim>\<open>edu/courses/stanford2/cc/w3_dyn_pro_parallel.cc\<close>: tasks that share
  a concurrent hash table. \<open>KnapsackTaskFuture\<close> leaves the rest of its work to a continuation: a task
  is one node of a tree, and a step of the scheduler is a step of any node that can move. Looking up
  and inserting are atomic, as the accessors of the table make them. The tasks that wait for their
  children are in the next theory.
\<close>

section \<open>What a task does\<close>

text \<open>The comparison of the table.\<close>

definition hash_equal :: "task_id \<Rightarrow> task_id \<Rightarrow> bool" where
  "hash_equal lhs rhs \<longleftrightarrow> idx lhs = idx rhs \<and> w_bound lhs = w_bound rhs"

lemma hash_equal_iff: "hash_equal lhs rhs \<longleftrightarrow> lhs = rhs"
  by (cases lhs; cases rhs) (auto simp: hash_equal_def)

text \<open>A task returns at once, or starts two children whose results are put together later.\<close>

datatype started = Return int | Fork int task_id task_id

definition KnapsackTaskFuture :: "item list \<Rightarrow> flat_store \<Rightarrow> task_id \<Rightarrow> started result" where
  "KnapsackTaskFuture items store k =
     (case flat_find store k of
        Some x \<Rightarrow> Inr (Return x)
      | None \<Rightarrow>
          let n = idx k; w = w_bound k in
          if n = 0 \<or> w = 0 then Inr (Return 0)
          else bindr (vget items (int n - 1)) (\<lambda>it.
            let old_task = TaskId w (n - 1) in
            if \<not> item_w it > w
            then bindr (cint (w - item_w it)) (\<lambda>rest. Inr (Fork (item_v it) (TaskId rest (n - 1)) old_task))
            else Inr (Fork 0 (TaskId w (n - 1)) old_task)))"

text \<open>The continuation, with the results of the children.\<close>

definition Future :: "flat_store \<Rightarrow> task_id \<Rightarrow> int \<Rightarrow> int \<Rightarrow> int \<Rightarrow> (int \<times> flat_store) result" where
  "Future store k delta x y =
     bindr (cint (x + delta)) (\<lambda>x. let r = max x y in Inr (r, flat_insert k r store))"

section \<open>The scheduler\<close>

datatype ttask =
    Solve task_id
  | Await task_id int ttask ttask
  | Solved int
  | Crashed cpp_error

type_synonym starter = "item list \<Rightarrow> flat_store \<Rightarrow> task_id \<Rightarrow> started result"
type_synonym finisher = "flat_store \<Rightarrow> task_id \<Rightarrow> int \<Rightarrow> int \<Rightarrow> int \<Rightarrow> (int \<times> flat_store) result"

definition start_node :: "task_id \<Rightarrow> started result \<Rightarrow> ttask" where
  "start_node k r = (case r of Inl e \<Rightarrow> Crashed e | Inr (Return x) \<Rightarrow> Solved x
     | Inr (Fork delta a b) \<Rightarrow> Await k delta (Solve a) (Solve b))"

definition finish_node :: "flat_store \<Rightarrow> (int \<times> flat_store) result \<Rightarrow> flat_store \<times> ttask" where
  "finish_node store r = (case r of Inl e \<Rightarrow> (store, Crashed e) | Inr (x, store') \<Rightarrow> (store', Solved x))"

inductive task_step :: "starter \<Rightarrow> finisher \<Rightarrow> item list \<Rightarrow> flat_store \<times> ttask \<Rightarrow> flat_store \<times> ttask \<Rightarrow> bool"
  for st :: starter and fin :: finisher and items :: "item list" where
  task_starts: "task_step st fin items (store, Solve k) (store, start_node k (st items store k))"
| first_child: "task_step st fin items (store, a) (store', a') \<Longrightarrow>
    task_step st fin items (store, Await k delta a b) (store', Await k delta a' b)"
| second_child: "task_step st fin items (store, b) (store', b') \<Longrightarrow>
    task_step st fin items (store, Await k delta a b) (store', Await k delta a b')"
| task_ends: "task_step st fin items (store, Await k delta (Solved x) (Solved y)) (finish_node store (fin store k delta x y))"

inductive_cases solve_steps: "task_step st fin items (store, Solve k) s"
inductive_cases await_steps: "task_step st fin items (store, Await k delta a b) s"
inductive_cases solved_steps: "task_step st fin items (store, Solved x) s"

text \<open>The root task of a test, with an empty table.\<close>

definition root_task :: "int \<Rightarrow> item list \<Rightarrow> flat_store \<times> ttask" where
  "root_task W items = (Map.empty, Solve (TaskId W (length items)))"

section \<open>What the tree computes\<close>

fun computes :: "item list \<Rightarrow> ttask \<Rightarrow> int \<Rightarrow> bool" where
  "computes items (Solve k) v \<longleftrightarrow> knapSackExp (w_bound k) (idx k) items = Inr v"
| "computes items (Await k delta a b) v \<longleftrightarrow> knapSackExp (w_bound k) (idx k) items = Inr v
     \<and> (\<exists>x y. computes items a x \<and> computes items b y \<and> in_int (x + delta) \<and> v = max (x + delta) y)"
| "computes items (Solved x) v \<longleftrightarrow> x = v"
| "computes items (Crashed e) v \<longleftrightarrow> False"

lemma knapSackExp_in_int: "knapSackExp w n items = Inr r \<Longrightarrow> in_int r"
proof (induction n arbitrary: w r)
  case (Suc n)
  then show ?case
    by (auto simp: bindr_eq_Inr cint_eq_Inr in_int_iff max_def split: if_splits)
qed (simp add: in_int_iff)

lemma start_computes:
  assumes v: "knapSackExp (w_bound k) (idx k) items = Inr v" and h: "flat.holds_values items store"
  shows "computes items (start_node k (KnapsackTaskFuture items store k)) v"
proof (cases "store k")
  case (Some x)
  then have "knapSackExp (w_bound k) (idx k) items = Inr x" using h by (simp add: flat.holds_values_def flat_find_def)
  then show ?thesis using Some v by (simp add: KnapsackTaskFuture_def flat_find_def start_node_def)
next
  case None
  show ?thesis
  proof (cases "idx k")
    case 0
    then show ?thesis using None v by (simp add: KnapsackTaskFuture_def flat_find_def start_node_def)
  next
    case (Suc n)
    show ?thesis
    proof (cases "w_bound k = 0")
      case True
      then show ?thesis using None v Suc by (simp add: KnapsackTaskFuture_def flat_find_def start_node_def)
    next
      case False
      then obtain it where it: "vget items (int n) = Inr it" using v Suc by (auto simp: bindr_eq_Inr)
      have n: "int (idx k) - 1 = int n" "idx k - 1 = n" "0 < idx k" using Suc by simp_all
      show ?thesis
      proof (cases "item_w it > w_bound k")
        case True
        then have "knapSackExp (w_bound k) n items = Inr v" using v Suc False it by simp
        moreover from this have "in_int v" by (rule knapSackExp_in_int)
        ultimately show ?thesis
          using None False it True v n by (simp add: KnapsackTaskFuture_def flat_find_def start_node_def Let_def)
      next
        case fits: False
        then obtain x y where "in_int (w_bound k - item_w it)" "knapSackExp (w_bound k - item_w it) n items = Inr x"
            "in_int (x + item_v it)" "knapSackExp (w_bound k) n items = Inr y" "v = max (x + item_v it) y"
          using v Suc False it by (auto simp: bindr_eq_Inr cint_eq_Inr)
        then show ?thesis
          using None False it fits v n by (simp add: KnapsackTaskFuture_def flat_find_def start_node_def Let_def)
      qed
    qed
  qed
qed

lemma step_computes:
  "task_step KnapsackTaskFuture Future items s s' \<Longrightarrow> flat.holds_values items (fst s) \<Longrightarrow> computes items (snd s) v \<Longrightarrow>
   flat.holds_values items (fst s') \<and> computes items (snd s') v"
proof (induction arbitrary: v rule: task_step.induct)
  case (task_starts store k)
  then show ?case using start_computes by simp
next
  case (task_ends store k delta x y)
  then have "knapSackExp (w_bound k) (idx k) items = Inr v" "in_int (x + delta)" "v = max (x + delta) y" by auto
  then show ?case
    using flat.holds_values_ins [of items store k v] task_ends(1) by (simp add: finish_node_def Future_def Let_def)
qed fastforce+

section \<open>Progress\<close>

text \<open>The number of steps that a tree can still make.\<close>

fun steps_left :: "nat \<Rightarrow> nat" where
  "steps_left 0 = 1"
| "steps_left (Suc n) = 2 * steps_left n + 2"

fun tree_steps :: "ttask \<Rightarrow> nat" where
  "tree_steps (Solve k) = steps_left (idx k)"
| "tree_steps (Await k delta a b) = tree_steps a + tree_steps b + 1"
| "tree_steps _ = 0"

lemma steps_left_pos: "0 < steps_left n"
  by (cases n) simp_all

lemma step_descends: "task_step KnapsackTaskFuture Future items s s' \<Longrightarrow> tree_steps (snd s') < tree_steps (snd s)"
proof (induction rule: task_step.induct)
  case (task_starts store k)
  show ?case
  proof (cases "KnapsackTaskFuture items store k")
    case (Inr r)
    show ?thesis
    proof (cases r)
      case (Fork delta a b)
      then have "0 < idx k" "idx a = idx k - 1" "idx b = idx k - 1"
        using Inr by (auto simp: KnapsackTaskFuture_def Let_def bindr_eq_Inr split: option.splits if_splits)
      then show ?thesis using Inr Fork by (cases "idx k") (simp_all add: start_node_def)
    qed (use Inr in \<open>simp add: start_node_def steps_left_pos\<close>)
  qed (simp add: start_node_def steps_left_pos)
next
  case (task_ends store k delta x y)
  then show ?case by (simp add: finish_node_def split: sum.splits prod.splits)
qed simp_all

lemma tree_moves: "computes items t v \<Longrightarrow> t = Solved v \<or> (\<exists>s'. task_step st fin items (store, t) s')"
proof (induction t arbitrary: v)
  case (Await k delta a b)
  then obtain x y where xy: "computes items a x" "computes items b y" by auto
  have "a = Solved x \<or> (\<exists>s'. task_step st fin items (store, a) s')"
      "b = Solved y \<or> (\<exists>s'. task_step st fin items (store, b) s')"
    using Await.IH xy by blast+
  then show ?case using task_step.intros by (metis surj_pair)
qed (auto intro: task_step.intros)

lemma run_computes:
  assumes "(task_step KnapsackTaskFuture Future items)\<^sup>*\<^sup>* s s'" "flat.holds_values items (fst s)" "computes items (snd s) v"
  shows "flat.holds_values items (fst s') \<and> computes items (snd s') v"
  using assms by (induction rule: rtranclp_induct) (auto dest: step_computes)

lemma run_descends:
  "(task_step KnapsackTaskFuture Future items ^^ m) s s' \<Longrightarrow> m + tree_steps (snd s') \<le> tree_steps (snd s)"
proof (induction m arbitrary: s')
  case (Suc m)
  then obtain u where "(task_step KnapsackTaskFuture Future items ^^ m) s u" "task_step KnapsackTaskFuture Future items u s'" by auto
  then show ?case using Suc.IH [of u] step_descends [of items u s'] by simp
qed simp

lemma steps_left_value: "steps_left n + 2 = 3 * 2 ^ n"
  by (induction n) simp_all

lemma root_computes:
  assumes "knapSackExp W (length items) items = Inr r"
  shows "flat.holds_values items (fst (root_task W items))" "computes items (snd (root_task W items)) r"
  using assms by (simp_all add: root_task_def flat.holds_values_def flat_find_def)

section \<open>Properties\<close>

text \<open>
  C6. The parallel knapsack is correct in every schedule: whatever tasks run in whatever order,
  and however often a subproblem is solved more than once, a state that is reached is finished
  with the value of the plain recursion or can make a step, no task crashes, and a run of \<open>n\<close>
  items ends within \<open>3 * 2 ^ n - 2\<close> steps.
\<close>

theorem tasks_solve_knapsack:
  assumes "knapSackExp W (length items) items = Inr r"
  shows "((task_step KnapsackTaskFuture Future items)\<^sup>*\<^sup>* (root_task W items) s \<longrightarrow>
       snd s = Solved r \<or> (\<exists>s'. task_step KnapsackTaskFuture Future items s s'))
     \<and> ((task_step KnapsackTaskFuture Future items ^^ m) (root_task W items) s \<longrightarrow> m + 2 \<le> 3 * 2 ^ length items)"
proof -
  note root = root_computes [OF assms]
  have "snd s = Solved r \<or> (\<exists>s'. task_step KnapsackTaskFuture Future items s s')"
    if "(task_step KnapsackTaskFuture Future items)\<^sup>*\<^sup>* (root_task W items) s"
    using run_computes [OF that root] tree_moves [of items "snd s" r _ _ "fst s"] by simp
  moreover have "m + 2 \<le> 3 * 2 ^ length items"
    if "(task_step KnapsackTaskFuture Future items ^^ m) (root_task W items) s"
    using run_descends [OF that] steps_left_value [of "length items"] by (simp add: root_task_def)
  ultimately show ?thesis by blast
qed

theorem tasks_solve_knapsack_witness:
  "\<exists>s'. task_step KnapsackTaskFuture Future real_items (root_task 6 real_items) s'"
proof -
  have "length real_items = 4" by (simp add: real_items_def get_test_items_def)
  then have "knapSackExp 6 (length real_items) real_items = Inr 8" using real_items_value by simp
  from tasks_solve_knapsack [OF this, of "root_task 6 real_items"] show ?thesis
    by (auto simp: root_task_def)
qed

end
