(* ===== verification/Knapsack_Workers.thy ===== *)
theory Knapsack_Workers
  imports Knapsack_Tasks "HOL-Library.Multiset"
begin

text \<open>
  The knapsack tasks of \<^verbatim>\<open>edu/courses/stanford2/cc/w3_dyn_pro_parallel.cc\<close> that wait for their children. A task
  that waits stays on the stack of its thread: while it waits the thread runs any other task on top of
  it, and the wait can end only when the task is on top again. A node of the tree that waits carries the
  time at which it started, by which the stacks of the threads refer to it.
\<close>

section \<open>What a waiting task does\<close>

definition KnapsackTaskSerial :: "item list \<Rightarrow> flat_store \<Rightarrow> task_id \<Rightarrow> started result" where
  "KnapsackTaskSerial items store k =
     (case flat_find store k of
        Some found \<Rightarrow> Inr (Return found)
      | None \<Rightarrow>
          let n = idx k; w = w_bound k in
          if n = 0 \<or> w = 0 then Inr (Return 0)
          else bindr (vget items (int n - 1)) (\<lambda>it.
            let old_task = TaskId w (n - 1) in
            if \<not> item_w it > w
            then bindr (cint (w - item_w it)) (\<lambda>rest. Inr (Fork (item_v it) (TaskId rest (n - 1)) old_task))
            else Inr (Fork 0 (TaskId w (n - 1)) old_task)))"

text \<open>After the wait, with what the children wrote into \<open>x\<close> and \<open>y\<close>.\<close>

definition KnapsackTaskSerial_end :: "flat_store \<Rightarrow> task_id \<Rightarrow> int \<Rightarrow> int \<Rightarrow> int \<Rightarrow> (int \<times> flat_store) result" where
  "KnapsackTaskSerial_end store k delta x y =
     bindr (cint (x + delta)) (\<lambda>x. let r = max x y in Inr (r, flat_insert k r store))"

section \<open>Threads and their stacks\<close>

datatype wtask =
    W_Solve task_id
  | W_Wait nat task_id int wtask wtask
  | W_Solved int
  | W_Crashed cpp_error

definition serial_node :: "nat \<Rightarrow> task_id \<Rightarrow> started result \<Rightarrow> wtask" where
  "serial_node time k r = (case r of Inl e \<Rightarrow> W_Crashed e | Inr (Return x) \<Rightarrow> W_Solved x
     | Inr (Fork delta a b) \<Rightarrow> W_Wait time k delta (W_Solve a) (W_Solve b))"

definition serial_done :: "flat_store \<Rightarrow> (int \<times> flat_store) result \<Rightarrow> flat_store \<times> wtask" where
  "serial_done store r = (case r of Inl e \<Rightarrow> (store, W_Crashed e) | Inr (x, store') \<Rightarrow> (store', W_Solved x))"

datatype event = Starts nat | Ends nat

inductive wait_step :: "item list \<Rightarrow> event \<Rightarrow> flat_store \<times> wtask \<Rightarrow> flat_store \<times> wtask \<Rightarrow> bool" for items where
  wait_starts: "wait_step items (Starts time) (store, W_Solve k) (store, serial_node time k (KnapsackTaskSerial items store k))"
| wait_first: "wait_step items ev (store, a) (store', a') \<Longrightarrow>
    wait_step items ev (store, W_Wait time k delta a b) (store', W_Wait time k delta a' b)"
| wait_second: "wait_step items ev (store, b) (store', b') \<Longrightarrow>
    wait_step items ev (store, W_Wait time k delta a b) (store', W_Wait time k delta a b')"
| wait_ends: "wait_step items (Ends time) (store, W_Wait time k delta (W_Solved x) (W_Solved y))
    (serial_done store (KnapsackTaskSerial_end store k delta x y))"

fun frames :: "wtask \<Rightarrow> nat list" where
  "frames (W_Wait time k delta a b) = time # frames a @ frames b"
| "frames _ = []"

text \<open>The table, the tasks, the stack of each thread with its top first, and the time.\<close>

record pool =
  table :: flat_store
  tasks :: wtask
  stacks :: "nat list list"
  now :: nat

text \<open>
  A thread whose call of \<open>execute\<close> waits, or which has none, takes any task that is spawned. It keeps
  a frame for it unless the task returned at once. A frame that is on top ends when its children have.
\<close>

inductive pool_step :: "item list \<Rightarrow> pool \<Rightarrow> pool \<Rightarrow> bool" for items where
  pool_starts: "i < length (stacks s) \<Longrightarrow> wait_step items (Starts (now s)) (table s, tasks s) (store', t') \<Longrightarrow>
    pool_step items s (s\<lparr>table := store', tasks := t', now := Suc (now s),
      stacks := (if now s \<in> set (frames t') then (stacks s)[i := now s # stacks s ! i] else stacks s)\<rparr>)"
| pool_ends: "i < length (stacks s) \<Longrightarrow> stacks s ! i = time # rest \<Longrightarrow>
    wait_step items (Ends time) (table s, tasks s) (store', t') \<Longrightarrow>
    pool_step items s (s\<lparr>table := store', tasks := t', stacks := (stacks s)[i := rest]\<rparr>)"

definition root_pool :: "nat \<Rightarrow> int \<Rightarrow> item list \<Rightarrow> pool" where
  "root_pool workers W items =
     \<lparr>table = Map.empty, tasks = W_Solve (TaskId W (length items)), stacks = replicate workers [], now = 0\<rparr>"

section \<open>The tree of the waiting tasks\<close>

lemma serial_future: "KnapsackTaskSerial = KnapsackTaskFuture" "KnapsackTaskSerial_end = Future"
  by (intro ext, simp add: KnapsackTaskSerial_def KnapsackTaskFuture_def KnapsackTaskSerial_end_def Future_def
      cong: option.case_cong)+

fun forget :: "wtask \<Rightarrow> ttask" where
  "forget (W_Solve k) = Solve k"
| "forget (W_Wait time k delta a b) = Await k delta (forget a) (forget b)"
| "forget (W_Solved x) = Solved x"
| "forget (W_Crashed e) = Crashed e"

lemma wait_step_tree:
  "wait_step items ev s s' \<Longrightarrow> task_step KnapsackTaskFuture Future items (fst s, forget (snd s)) (fst s', forget (snd s'))"
proof (induction rule: wait_step.induct)
  case (wait_starts time store k)
  have "forget (serial_node time k r) = start_node k r" for r
    by (auto simp: serial_node_def start_node_def split: sum.splits started.splits)
  then show ?case using task_starts unfolding serial_future by simp
next
  case (wait_ends time store k delta x y)
  have "(fst (serial_done store r), forget (snd (serial_done store r))) = finish_node store r" for r
    by (auto simp: serial_done_def finish_node_def split: sum.splits)
  then show ?case using task_ends unfolding serial_future by simp
qed (auto intro: task_step.intros)

lemma pool_step_tree:
  "pool_step items s s' \<Longrightarrow>
   task_step KnapsackTaskFuture Future items (table s, forget (tasks s)) (table s', forget (tasks s'))"
  by (induction rule: pool_step.induct) (auto dest: wait_step_tree)

section \<open>Stacks and times\<close>

text \<open>A task starts after the one that waits for it.\<close>

fun later :: "wtask \<Rightarrow> bool" where
  "later (W_Wait time k delta a b) \<longleftrightarrow> (\<forall>t \<in> set (frames a) \<union> set (frames b). time < t) \<and> later a \<and> later b"
| "later _ \<longleftrightarrow> True"

definition pool_inv :: "pool \<Rightarrow> bool" where
  "pool_inv s \<longleftrightarrow> stacks s \<noteq> [] \<and> later (tasks s) \<and> (\<forall>t \<in> set (frames (tasks s)). t < now s)
     \<and> mset (concat (stacks s)) = mset (frames (tasks s)) \<and> (\<forall>st \<in> set (stacks s). sorted_wrt (>) st)"

lemma starts_frames:
  "wait_step items ev s s' \<Longrightarrow> ev = Starts time \<Longrightarrow> (\<forall>t \<in> set (frames (snd s)). t < time) \<Longrightarrow>
   mset (frames (snd s')) = mset (frames (snd s)) + (if time \<in> set (frames (snd s')) then {#time#} else {#})
   \<and> (later (snd s) \<longrightarrow> later (snd s'))"
proof (induction rule: wait_step.induct)
  case (wait_starts time' store k)
  then show ?case by (auto simp: serial_node_def split: sum.splits started.splits)
next
  case (wait_first ev store a store' a' time' k delta b)
  then have IH: "mset (frames a') = mset (frames a) + (if time \<in> set (frames a') then {#time#} else {#})" "later a \<longrightarrow> later a'"
    by auto
  have "set (frames a') \<subseteq> insert time (set (frames a))"
    using arg_cong [OF IH(1), of set_mset] by (auto split: if_splits)
  moreover have "time' < time" "time \<notin> set (frames b)" using wait_first.prems(2) by auto
  ultimately show ?case using IH by auto
next
  case (wait_second ev store b store' b' time' k delta a)
  then have IH: "mset (frames b') = mset (frames b) + (if time \<in> set (frames b') then {#time#} else {#})" "later b \<longrightarrow> later b'"
    by auto
  have "set (frames b') \<subseteq> insert time (set (frames b))"
    using arg_cong [OF IH(1), of set_mset] by (auto split: if_splits)
  moreover have "time' < time" "time \<notin> set (frames a)" using wait_second.prems(2) by auto
  ultimately show ?case using IH by auto
qed simp

lemma ends_frames:
  "wait_step items ev s s' \<Longrightarrow> ev = Ends time \<Longrightarrow>
   mset (frames (snd s)) = add_mset time (mset (frames (snd s'))) \<and> (later (snd s) \<longrightarrow> later (snd s'))"
proof (induction rule: wait_step.induct)
  case (wait_first ev store a store' a' time' k delta b)
  then have IH: "mset (frames a) = add_mset time (mset (frames a'))" "later a \<longrightarrow> later a'" by auto
  have "set (frames a') \<subseteq> set (frames a)" using arg_cong [OF IH(1), of set_mset] by auto
  then show ?case using IH by auto
next
  case (wait_second ev store b store' b' time' k delta a)
  then have IH: "mset (frames b) = add_mset time (mset (frames b'))" "later b \<longrightarrow> later b'" by auto
  have "set (frames b') \<subseteq> set (frames b)" using arg_cong [OF IH(1), of set_mset] by auto
  then show ?case using IH by auto
qed (auto simp: serial_done_def split: sum.splits)

lemma mset_concat_update:
  "i < length ws \<Longrightarrow> mset (concat (ws[i := v])) + mset (ws ! i) = mset (concat ws) + mset v"
proof (induction ws arbitrary: i)
  case (Cons w ws)
  then show ?case by (cases i) (auto simp: ac_simps)
qed simp

lemma in_stack_in_frames: "pool_inv s \<Longrightarrow> st \<in> set (stacks s) \<Longrightarrow> t \<in> set st \<Longrightarrow> t \<in> set (frames (tasks s))"
  unfolding pool_inv_def by (metis UN_I set_concat set_mset_mset)

lemma pool_inv_step: "pool_step items s s' \<Longrightarrow> pool_inv s \<Longrightarrow> pool_inv s'"
proof (induction rule: pool_step.induct)
  case (pool_starts i s store' t')
  have below: "\<forall>t \<in> set (frames (tasks s)). t < now s" using pool_starts(3) by (simp add: pool_inv_def)
  from starts_frames [OF pool_starts(2) refl] below
  have f: "mset (frames t') = mset (frames (tasks s)) + (if now s \<in> set (frames t') then {#now s#} else {#})" "later t'"
    using pool_starts(3) by (auto simp: pool_inv_def)
  have "set (frames t') \<subseteq> insert (now s) (set (frames (tasks s)))"
    using arg_cong [OF f(1), of set_mset] by (auto split: if_splits)
  then have "\<forall>t \<in> set (frames t'). t < Suc (now s)" using below by fastforce
  moreover have "\<forall>t \<in> set (stacks s ! i). t < now s"
    using in_stack_in_frames [OF pool_starts(3) nth_mem [OF pool_starts(1)]] below by blast
  then have "\<forall>st \<in> set ((stacks s)[i := now s # stacks s ! i]). sorted_wrt (>) st"
    using pool_starts(1,3) set_update_subset_insert [of "stacks s" i "now s # stacks s ! i"] by (auto simp: pool_inv_def)
  moreover have "mset (concat ((stacks s)[i := now s # stacks s ! i])) = add_mset (now s) (mset (concat (stacks s)))"
    using mset_concat_update [OF pool_starts(1), of "now s # stacks s ! i"] by simp
  ultimately show ?case using pool_starts(3) f by (auto simp: pool_inv_def)
next
  case (pool_ends i s time rest store' t')
  from ends_frames [OF pool_ends(3) refl]
  have f: "mset (frames (tasks s)) = add_mset time (mset (frames t'))" "later t'"
    using pool_ends(4) by (auto simp: pool_inv_def)
  have "set (frames t') \<subseteq> set (frames (tasks s))"
    using arg_cong [OF f(1), of set_mset] by auto
  moreover have "\<forall>st \<in> set ((stacks s)[i := rest]). sorted_wrt (>) st"
    using pool_ends(2,4) nth_mem [OF pool_ends(1)] set_update_subset_insert [of "stacks s" i rest] by (fastforce simp: pool_inv_def)
  moreover have "add_mset time (mset (concat ((stacks s)[i := rest]))) = mset (concat (stacks s))"
    using mset_concat_update [OF pool_ends(1), of rest] pool_ends(2) by simp
  ultimately show ?case using pool_ends(4) f by (auto simp: pool_inv_def)
qed

section \<open>No deadlock\<close>

text \<open>As long as a task has not started, any thread can take it.\<close>

fun unstarted :: "wtask \<Rightarrow> bool" where
  "unstarted (W_Solve k) \<longleftrightarrow> True"
| "unstarted (W_Wait time k delta a b) \<longleftrightarrow> unstarted a \<or> unstarted b"
| "unstarted _ \<longleftrightarrow> False"

lemma unstarted_starts: "unstarted t \<Longrightarrow> \<exists>s'. wait_step items (Starts time) (store, t) s'"
proof (induction t)
  case (W_Wait time' k delta a b)
  from W_Wait.prems consider "unstarted a" | "unstarted b" by auto
  then show ?case
  proof cases
    case 1
    then obtain store' a' where "wait_step items (Starts time) (store, a) (store', a')" using W_Wait.IH(1) by auto
    then show ?thesis by (blast intro: wait_first)
  next
    case 2
    then obtain store' b' where "wait_step items (Starts time) (store, b) (store', b')" using W_Wait.IH(2) by auto
    then show ?thesis by (blast intro: wait_second)
  qed
qed (auto intro: wait_starts)

text \<open>When all have, the one that started last waits for none.\<close>

lemma all_solved: "computes items (forget t) v \<Longrightarrow> \<not> unstarted t \<Longrightarrow> frames t = [] \<Longrightarrow> \<exists>x. t = W_Solved x"
  by (cases t) auto

lemma newest_ends:
  "computes items (forget t) v \<Longrightarrow> \<not> unstarted t \<Longrightarrow> later t \<Longrightarrow> time \<in> set (frames t) \<Longrightarrow> (\<forall>t' \<in> set (frames t). t' \<le> time) \<Longrightarrow>
   \<exists>s'. wait_step items (Ends time) (store, t) s'"
proof (induction t arbitrary: v)
  case (W_Wait time' k delta a b)
  then obtain x y where xy: "computes items (forget a) x" "computes items (forget b) y" by auto
  show ?case
  proof (cases "time \<in> set (frames a) \<or> time \<in> set (frames b)")
    case True
    then have "(\<exists>s'. wait_step items (Ends time) (store, a) s') \<or> (\<exists>s'. wait_step items (Ends time) (store, b) s')"
      using W_Wait.IH xy W_Wait.prems(2,3,5) by auto
    then show ?thesis by (auto intro: wait_first wait_second)
  next
    case False
    then have "time' = time" using W_Wait.prems(4) by auto
    have "\<And>t'. t' \<notin> set (frames a) \<and> t' \<notin> set (frames b)"
      using W_Wait.prems(3,5) \<open>time' = time\<close> by (auto simp: not_less [symmetric])
    then have "frames a = []" "frames b = []" by (metis list.set_intros(1) neq_Nil_conv)+
    then obtain x' y' where "a = W_Solved x'" "b = W_Solved y'"
      using all_solved xy W_Wait.prems(2) by (metis unstarted.simps(2))
    then show ?thesis using wait_ends [of items time store k delta x' y'] unfolding \<open>time' = time\<close> by blast
  qed
qed auto

lemma pool_moves:
  assumes inv: "pool_inv s" and v: "computes items (forget (tasks s)) v"
  shows "tasks s = W_Solved v \<or> (\<exists>s'. pool_step items s s')"
proof (cases "unstarted (tasks s)")
  case True
  then obtain store' t' where "wait_step items (Starts (now s)) (table s, tasks s) (store', t')"
    using unstarted_starts by (metis surj_pair)
  moreover have "0 < length (stacks s)" using inv by (simp add: pool_inv_def)
  ultimately show ?thesis using pool_starts by blast
next
  case False
  show ?thesis
  proof (cases "frames (tasks s) = []")
    case True
    then show ?thesis using all_solved [OF v False] v by auto
  next
    case some: False
    define time where "time = Max (set (frames (tasks s)))"
    have time: "time \<in> set (frames (tasks s))" "\<forall>t \<in> set (frames (tasks s)). t \<le> time"
      using some by (simp_all add: time_def)
    have "later (tasks s)" using inv by (simp add: pool_inv_def)
    from newest_ends [OF v False this time] obtain store' t' where
      step: "wait_step items (Ends time) (table s, tasks s) (store', t')" by (metis surj_pair)
    have "time \<in> set (concat (stacks s))" using inv time(1) unfolding pool_inv_def by (metis set_mset_mset)
    then obtain i where i: "i < length (stacks s)" "time \<in> set (stacks s ! i)"
      unfolding set_concat by (metis UN_E in_set_conv_nth)
    obtain t rest where st: "stacks s ! i = t # rest" using i(2) by (cases "stacks s ! i") auto
    have "t \<in> set (frames (tasks s))" using in_stack_in_frames [OF inv nth_mem [OF i(1)]] st by simp
    moreover have "sorted_wrt (>) (t # rest)" using inv nth_mem [OF i(1)] unfolding st pool_inv_def by blast
    ultimately have "t = time" using i(2) time(2) unfolding st by fastforce
    then show ?thesis using pool_ends [OF i(1)] st step by blast
  qed
qed

lemma pool_run_tree:
  "(pool_step items)\<^sup>*\<^sup>* s s' \<Longrightarrow> pool_inv s \<Longrightarrow> pool_inv s'
     \<and> (task_step KnapsackTaskFuture Future items)\<^sup>*\<^sup>* (table s, forget (tasks s)) (table s', forget (tasks s'))"
proof (induction rule: rtranclp_induct)
  case (step s' s'')
  then show ?case using pool_inv_step pool_step_tree by (metis rtranclp.rtrancl_into_rtrancl)
qed simp

lemma pool_power_tree:
  "(pool_step items ^^ m) s s' \<Longrightarrow>
   (task_step KnapsackTaskFuture Future items ^^ m) (table s, forget (tasks s)) (table s', forget (tasks s'))"
proof (induction m arbitrary: s')
  case (Suc m)
  then show ?case using pool_step_tree by (metis relpowp_Suc_E relpowp_Suc_I)
qed simp

section \<open>The property\<close>

text \<open>
  C38. The tasks that wait are correct on any number of threads from one: although a task that waits blocks
  all those below it on the stack of its thread, a state that is reached is finished with the value of the plain
  recursion or can make a step, and a run of \<open>n\<close> items ends within \<open>3 * 2 ^ n - 2\<close> steps.
\<close>

theorem waiting_tasks_solve_knapsack:
  assumes "knapSackExp W (length items) items = Inr r" "0 < workers"
  shows "((pool_step items)\<^sup>*\<^sup>* (root_pool workers W items) s \<longrightarrow> tasks s = W_Solved r \<or> (\<exists>s'. pool_step items s s'))
    \<and> ((pool_step items ^^ m) (root_pool workers W items) s \<longrightarrow> m + 2 \<le> 3 * 2 ^ length items)"
proof -
  note root = root_computes [OF assms(1)]
  have start: "pool_inv (root_pool workers W items)" using assms(2) by (auto simp: pool_inv_def root_pool_def)
  have tree: "(table (root_pool workers W items), forget (tasks (root_pool workers W items))) = root_task W items"
    by (simp add: root_pool_def root_task_def)
  have "tasks s = W_Solved r \<or> (\<exists>s'. pool_step items s s')" if "(pool_step items)\<^sup>*\<^sup>* (root_pool workers W items) s"
    using pool_run_tree [OF that start] run_computes [OF _ root] pool_moves unfolding tree by (metis snd_conv)
  moreover have "m + 2 \<le> 3 * 2 ^ length items" if "(pool_step items ^^ m) (root_pool workers W items) s"
    using run_descends [OF pool_power_tree [OF that, unfolded tree]] steps_left_value [of "length items"] by (simp add: root_task_def)
  ultimately show ?thesis by blast
qed

theorem waiting_tasks_solve_knapsack_witness:
  "\<exists>s'. pool_step real_items (root_pool 2 6 real_items) s'"
proof -
  have "length real_items = 4" by (simp add: real_items_def get_test_items_def)
  then have "knapSackExp 6 (length real_items) real_items = Inr 8" using real_items_value by simp
  from waiting_tasks_solve_knapsack [OF this, of 2 "root_pool 2 6 real_items"] show ?thesis
    by (auto simp: root_pool_def)
qed

end
