(* ===== verification/Text_Input.thy ===== *)
theory Text_Input
  imports Knapsack
begin

text \<open>
  The text readers of \<^verbatim>\<open>edu/courses/my-cs/details/io_details.{h,cc}\<close>: node lines, item and job
  files, files of numbers. Below them stands what the code uses of an input stream: a buffer
  with the end-of-file and failure bits, the formatted extraction of an integer,
  \<open>peek\<close>/\<open>ignore\<close> and \<open>getline\<close>. A file is \<open>Some\<close> of its contents, or \<open>None\<close> when it cannot
  be opened. The first group of lemmas shows that a printed integer is read back; the
  properties are round trips of whole files, and what a missing last newline does.
\<close>

section \<open>Input streams\<close>

record istream =
  buf :: string
  eofb :: bool
  failb :: bool

definition open_text :: "string \<Rightarrow> istream" where
  "open_text s = \<lparr>buf = s, eofb = False, failb = False\<rparr>"

definition is_space :: "char \<Rightarrow> bool" where
  "is_space c \<longleftrightarrow> c \<in> set [CHR '' '', CHR 0x09, CHR 0x0A, CHR 0x0B, CHR 0x0C, CHR 0x0D]"

definition is_digit :: "char \<Rightarrow> bool" where
  "is_digit c \<longleftrightarrow> 48 \<le> (of_char c :: nat) \<and> (of_char c :: nat) \<le> 57"

definition digit_val :: "char \<Rightarrow> nat" where
  "digit_val c = of_char c - 48"

definition digits_val :: "string \<Rightarrow> nat" where
  "digits_val ds = foldl (\<lambda>a c. a * 10 + digit_val c) 0 ds"

text \<open>
  The entry of a formatted extraction: it refuses a stream that is not good, skips white
  space, and fails at the end of the text.
\<close>

definition sentry :: "istream \<Rightarrow> bool \<times> istream" where
  "sentry s =
     (if eofb s \<or> failb s then (False, s\<lparr>failb := True\<rparr>)
      else (let b = dropWhile is_space (buf s) in
        if b = [] then (False, s\<lparr>buf := [], eofb := True, failb := True\<rparr>)
        else (True, s\<lparr>buf := b\<rparr>)))"

definition read_sign :: "string \<Rightarrow> bool \<times> string" where
  "read_sign b =
     (case b of
        c # cs \<Rightarrow> (if c = CHR ''-'' then (True, cs) else if c = CHR ''+'' then (False, cs) else (False, b))
      | [] \<Rightarrow> (False, []))"

text \<open>
  The extraction of an \<open>int\<close>. The first component is the value assigned to the variable;
  it is \<open>None\<close> when the variable keeps its value, which happens when the entry fails. A field
  without digits assigns 0 and fails, one out of range assigns the nearest \<open>int\<close> and fails.
\<close>

definition extract_int :: "istream \<Rightarrow> int option \<times> istream" where
  "extract_int s =
     (let (ok, s1) = sentry s in
      if \<not> ok then (None, s1)
      else (let (neg, b) = read_sign (buf s1); ds = takeWhile is_digit b; r = dropWhile is_digit b;
                s2 = s1\<lparr>buf := r, eofb := (r = [])\<rparr>;
                v = (if neg then - int (digits_val ds) else int (digits_val ds)) in
            if ds = [] then (Some 0, s2\<lparr>failb := True\<rparr>)
            else if v < int_min then (Some int_min, s2\<lparr>failb := True\<rparr>)
            else if v > int_max then (Some int_max, s2\<lparr>failb := True\<rparr>)
            else (Some v, s2)))"

text \<open>The extraction of a \<open>size_t\<close>: a negative field wraps.\<close>

definition extract_size :: "istream \<Rightarrow> int option \<times> istream" where
  "extract_size s =
     (let (ok, s1) = sentry s in
      if \<not> ok then (None, s1)
      else (let (neg, b) = read_sign (buf s1); ds = takeWhile is_digit b; r = dropWhile is_digit b;
                s2 = s1\<lparr>buf := r, eofb := (r = [])\<rparr>; n = int (digits_val ds) in
            if ds = [] then (Some 0, s2\<lparr>failb := True\<rparr>)
            else if n \<ge> 2 ^ 64 then (Some (2 ^ 64 - 1), s2\<lparr>failb := True\<rparr>)
            else (Some ((if neg then - n else n) mod 2 ^ 64), s2)))"

text \<open>\<open>if (ss.peek() == c) ss.ignore();\<close>\<close>

definition skip_char :: "char \<Rightarrow> istream \<Rightarrow> istream" where
  "skip_char c s =
     (if eofb s \<or> failb s then s\<lparr>failb := True\<rparr>
      else (case buf s of
              [] \<Rightarrow> s\<lparr>eofb := True\<rparr>
            | d # ds \<Rightarrow> (if d = c then s\<lparr>buf := ds\<rparr> else s)))"

definition newline :: char where
  "newline = CHR 0x0A"

text \<open>
  \<open>getline(stream, line)\<close>: on a stream that is not good it fails and leaves \<open>line\<close> as it was.
\<close>

definition getline :: "istream \<Rightarrow> string \<Rightarrow> string \<times> istream" where
  "getline s line =
     (if eofb s \<or> failb s then (line, s\<lparr>failb := True\<rparr>)
      else (let l = takeWhile ((\<noteq>) newline) (buf s); r = dropWhile ((\<noteq>) newline) (buf s) in
        case r of
          [] \<Rightarrow> (l, s\<lparr>buf := [], eofb := True, failb := (l = [])\<rparr>)
        | nl # rest \<Rightarrow> (l, s\<lparr>buf := rest\<rparr>)))"

section \<open>Node lines\<close>

record arrow =
  arrow_end :: int
  arrow_weight :: int

abbreviation Arrow :: "int \<Rightarrow> int \<Rightarrow> arrow" where
  "Arrow e w \<equiv> \<lparr>arrow_end = e, arrow_weight = w\<rparr>"

definition trim_right :: "string \<Rightarrow> string" where
  "trim_right s = rev (dropWhile (\<lambda>c. c \<in> set [CHR '' '', CHR 0x0A, CHR 0x0D, CHR 0x09]) (rev s))"

definition replace_char :: "char \<Rightarrow> char \<Rightarrow> string \<Rightarrow> string" where
  "replace_char a b s = map (\<lambda>c. if c = a then b else c) s"

lemma sentry_length: "sentry s = (ok, s') \<Longrightarrow> length (buf s') \<le> length (buf s)"
  by (auto simp: sentry_def Let_def length_dropWhile_le split: if_splits)

lemma sentry_good: "sentry s = (True, s') \<Longrightarrow> \<not> eofb s' \<and> \<not> failb s'"
  by (auto simp: sentry_def Let_def split: if_splits)

lemma read_sign_length: "read_sign b = (n, b') \<Longrightarrow> length b' \<le> length b"
  by (auto simp: read_sign_def split: list.splits if_splits)

lemma dropWhile_shorter: "takeWhile P xs \<noteq> [] \<Longrightarrow> length (dropWhile P xs) < length xs"
  by (cases xs) (auto simp: length_dropWhile_le le_imp_less_Suc split: if_splits)

lemma extract_int_length:
  assumes "extract_int s = (v, s')" "\<not> failb s'"
  shows "length (buf s') < length (buf s)"
proof -
  obtain ok s1 where s1: "sentry s = (ok, s1)" by fastforce
  obtain neg b where b: "read_sign (buf s1) = (neg, b)" by fastforce
  have "ok"
  proof (rule ccontr)
    assume "\<not> ok"
    then have "failb s1" using s1 by (auto simp: sentry_def Let_def split: if_splits)
    then show False using assms s1 \<open>\<not> ok\<close> by (simp add: extract_int_def)
  qed
  then have ne: "takeWhile is_digit b \<noteq> []" and s': "buf s' = dropWhile is_digit b"
    using assms s1 b by (auto simp: extract_int_def Let_def split: if_splits)
  have "length (buf s') < length b" using dropWhile_shorter [OF ne] s' by simp
  then show ?thesis using read_sign_length [OF b] sentry_length [OF s1] by simp
qed

lemma skip_char_length: "length (buf (skip_char c s)) \<le> length (buf s)"
  by (simp add: skip_char_def split: list.split)

function parse_arrows :: "istream \<Rightarrow> arrow list result" where
  "parse_arrows s =
     (let (i, s1) = extract_int s in
      if failb s1 then Inr []
      else (let (j, s2) = extract_int (skip_char (CHR '','') s1) in
        if failb s2 then Inl Invalid_Argument
        else bindr (parse_arrows (skip_char (CHR '','') s2)) (\<lambda>as.
               Inr (Arrow (the i) (the j) # as))))"
  by pat_completeness auto
termination
proof (relation "measure (\<lambda>s. length (buf s))", goal_cases)
  case 1
  then show ?case by simp
next
  case (2 s p i s1 q j s2)
  then show ?case
    using extract_int_length [of s i s1] extract_int_length [of "skip_char (CHR '','') s1" j s2]
      skip_char_length [of "CHR '',''" s1] skip_char_length [of "CHR '',''" s2] by auto
qed

declare parse_arrows.simps [simp del]

text \<open>
  One line of the graph file: a node number and its arrows. The running maximum of the node
  numbers, which the code computes and drops, has no effect and is left out.
\<close>

definition parse_node_data :: "string \<Rightarrow> (int \<times> arrow list) result" where
  "parse_node_data line =
     (let (r, s) = extract_int (open_text (replace_char (CHR 0x09) (CHR '','') (trim_right line)));
          root = (case r of None \<Rightarrow> 0 | Some v \<Rightarrow> v) in
      bindr (parse_arrows (skip_char (CHR '','') s)) (\<lambda>as. Inr (root, as)))"

section \<open>Files of pairs: items and jobs\<close>

record job =
  job_weight :: int
  job_length :: int

abbreviation Job :: "int \<Rightarrow> int \<Rightarrow> job" where
  "Job w l \<equiv> \<lparr>job_weight = w, job_length = l\<rparr>"

text \<open>One line of such a file: \<open>Inr None\<close> ends the reading.\<close>

definition read_pair :: "string \<Rightarrow> (int \<times> int) option result" where
  "read_pair line =
     (let (i, s1) = extract_int (open_text line) in
      if failb s1 then Inr None
      else (let (j, s2) = extract_int (skip_char (CHR '' '') s1) in
        if failb s2 then Inl Invalid_Argument else Inr (Some (the i, the j))))"

definition stream_rank :: "istream \<Rightarrow> nat" where
  "stream_rank s = (if failb s then 0 else if eofb s then 1 else length (buf s) + 2)"

lemma getline_rank: "\<not> failb s \<Longrightarrow> getline s line = (l, s') \<Longrightarrow> stream_rank s' < stream_rank s"
proof (cases "eofb s")
  case False
  let ?r = "dropWhile ((\<noteq>) newline) (buf s)"
  assume s: "\<not> failb s" "getline s line = (l, s')"
  have "length ?r \<le> length (buf s)" by (rule length_dropWhile_le)
  then show ?thesis
    using s False by (cases ?r) (auto simp: getline_def stream_rank_def Let_def)
qed (auto simp: getline_def stream_rank_def)

text \<open>
  The reading loop. The variable \<open>line\<close> lives outside the loop, so when \<open>getline\<close> fails at
  once, the line before is read again.
\<close>

function pair_lines :: "istream \<Rightarrow> string \<Rightarrow> (int \<times> int) list result" where
  "pair_lines stream line =
     (if failb stream then Inr []
      else (let (line', stream') = getline stream line in
        bindr (read_pair line') (\<lambda>r. case r of
            None \<Rightarrow> Inr []
          | Some p \<Rightarrow> bindr (pair_lines stream' line') (\<lambda>ps. Inr (p # ps)))))"
  by pat_completeness auto
termination
proof (relation "measure (\<lambda>(s, l). stream_rank s)", goal_cases)
  case 1
  then show ?case by simp
next
  case (2 s l p l' s' o' q)
  then have "getline s l = (l', s')" by simp
  from getline_rank [OF 2(1) this] show ?case by simp
qed

declare pair_lines.simps [simp del]

definition max_elems :: "int \<Rightarrow> int" where
  "max_elems bytes = (2 ^ 63 - 1) div bytes"

definition get_dyn_items :: "string option \<Rightarrow> (int \<times> item list) result" where
  "get_dyn_items file =
     (case file of
        None \<Rightarrow> Inl Runtime_Error
      | Some text \<Rightarrow>
          (let (line, stream) = getline (open_text text) []; (W, ss) = extract_int (open_text line);
               (count_items, ss') = extract_int ss in
           case (W, count_items) of
             (Some w, Some count) \<Rightarrow>
               (if count < 0 then Inl Length_Error
                else bindr (pair_lines stream line) (\<lambda>ps.
                     if int (length ps) \<noteq> count then Inl Runtime_Error
                     else Inr (w, map (\<lambda>(v, w). Item v w) ps)))
           | _ \<Rightarrow> Inl Undefined_Behaviour))"

definition get_jobs :: "string option \<Rightarrow> job list result" where
  "get_jobs file =
     (case file of
        None \<Rightarrow> Inl Runtime_Error
      | Some text \<Rightarrow>
          (let (line, stream) = getline (open_text text) []; (c, ss) = extract_size (open_text line);
               count = (case c of None \<Rightarrow> 0 | Some n \<Rightarrow> n) in
           if count > max_elems 8 then Inl Length_Error
           else bindr (pair_lines stream line) (\<lambda>ps.
                if count \<noteq> int (length ps) then Inl Assert_Failed
                else Inr (map (\<lambda>(w, l). Job w l) ps))))"

definition get_jobs_fake :: "job list" where
  "get_jobs_fake = [Job 1 1, Job 2 1, Job 1 3, Job 2 4, Job 3 5]"

definition get_delta :: "job \<Rightarrow> int result" where
  "get_delta j = cint (job_weight j - job_length j)"

section \<open>Files of lines and of numbers\<close>

function read_lines :: "istream \<Rightarrow> string list" where
  "read_lines s =
     (let (l, s') = getline s [] in if failb s' then [] else l # read_lines s')"
  by pat_completeness auto
termination
proof (relation "measure stream_rank", goal_cases)
  case 1
  then show ?case by simp
next
  case (2 s p l s')
  then have "\<not> failb s" by (auto simp: getline_def Let_def split: if_splits)
  then show ?case using getline_rank [of s "[]" l s'] 2 by simp
qed

declare read_lines.simps [simp del]

text \<open>A line without a number yields 0, and text after the number is not looked at.\<close>

definition number_of_line :: "string \<Rightarrow> int" where
  "number_of_line line =
     (case fst (extract_int (open_text line)) of None \<Rightarrow> 0 | Some v \<Rightarrow> v)"

definition extract_numbers :: "string option \<Rightarrow> int list result" where
  "extract_numbers file =
     (case file of None \<Rightarrow> Inl Runtime_Error | Some text \<Rightarrow> Inr (map number_of_line (read_lines (open_text text))))"

section \<open>Phone numbers\<close>

text \<open>
  The custom extractor: digits are collected up to the next white space, everything else is
  passed over. Getting a character at the end of the text sets both bits of the stream.
\<close>

fun phone_loop :: "string \<Rightarrow> string \<Rightarrow> string \<times> istream" where
  "phone_loop [] digits = (digits, \<lparr>buf = [], eofb = True, failb = True\<rparr>)"
| "phone_loop (c # cs) digits =
     (if is_space c then (digits, \<lparr>buf = cs, eofb = False, failb = False\<rparr>)
      else phone_loop cs (if is_digit c then digits @ [c] else digits))"

definition extract_phone :: "istream \<Rightarrow> string \<Rightarrow> string \<times> istream" where
  "extract_phone s digits =
     (let (ok, s1) = sentry s in if ok then phone_loop (buf s1) digits else (digits, s1))"

lemma phone_loop_digits:
  "fst (phone_loop cs ds) = ds @ filter is_digit (takeWhile (\<lambda>c. \<not> is_space c) cs)"
  by (induction cs arbitrary: ds) auto

lemma extract_phone_digits:
  "fst (extract_phone (open_text text) ds)
     = ds @ filter is_digit (takeWhile (\<lambda>c. \<not> is_space c) (dropWhile is_space text))"
  by (simp add: extract_phone_def sentry_def open_text_def phone_loop_digits Let_def del: dropWhile_eq_Nil_conv)

section \<open>Printed numbers\<close>

fun show_nat :: "nat \<Rightarrow> string" where
  "show_nat n = (if n < 10 then [char_of (48 + n)] else show_nat (n div 10) @ [char_of (48 + n mod 10)])"

definition show_int :: "int \<Rightarrow> string" where
  "show_int i = (if i < 0 then CHR ''-'' # show_nat (nat (- i)) else show_nat (nat i))"

declare show_nat.simps [simp del]

lemma digit_char: "n < 10 \<Longrightarrow> is_digit (char_of (48 + n)) \<and> digit_val (char_of (48 + n)) = n"
  by (simp add: is_digit_def digit_val_def)

lemma show_nat_digits: "\<forall>c \<in> set (show_nat n). is_digit c"
proof (induction n rule: show_nat.induct)
  case (1 n)
  then show ?case
    by (subst show_nat.simps) (auto simp: digit_char)
qed

lemma show_nat_ne [simp]: "show_nat n \<noteq> []"
  by (subst show_nat.simps) simp

lemma show_nat_val: "digits_val (show_nat n) = n"
proof (induction n rule: show_nat.induct)
  case (1 n)
  show ?case
  proof (cases "n < 10")
    case True
    then show ?thesis by (subst show_nat.simps) (simp add: digits_val_def digit_char)
  next
    case False
    then have "digits_val (show_nat n) = digits_val (show_nat (n div 10)) * 10 + n mod 10"
      by (subst show_nat.simps) (simp add: digits_val_def digit_char)
    then show ?thesis using 1 [OF False] by simp
  qed
qed

text \<open>A text that a number may be followed by.\<close>

definition ends_number :: "string \<Rightarrow> bool" where
  "ends_number r \<longleftrightarrow> r = [] \<or> \<not> is_digit (hd r)"

lemma takeWhile_digits:
  assumes "\<forall>c \<in> set ds. is_digit c" "ends_number r"
  shows "takeWhile is_digit (ds @ r) = ds" "dropWhile is_digit (ds @ r) = r"
  using assms by (induction ds) (cases r; auto simp: ends_number_def)+

lemma digit_not_special:
  assumes "is_digit c"
  shows "\<not> is_space c" "c \<noteq> CHR ''-''" "c \<noteq> CHR ''+''" "c \<noteq> CHR 0x0A" "c \<noteq> CHR '' ''"
    "c \<noteq> CHR 0x0D" "c \<noteq> CHR 0x09" "c \<noteq> CHR '',''"
  using assms by (auto simp: is_digit_def is_space_def)

text \<open>A stream in the middle of a line that is being read without failure.\<close>

definition reading :: "string \<Rightarrow> istream" where
  "reading r = \<lparr>buf = r, eofb = (r = []), failb = False\<rparr>"

lemma reading_simps [simp]:
  "failb (reading r) = False" "eofb (reading r) = (r = [])" "buf (reading r) = r"
  by (simp_all add: reading_def)

lemma open_reading: "s \<noteq> [] \<Longrightarrow> open_text s = reading s"
  by (simp add: open_text_def reading_def)

lemma extract_shown:
  assumes "in_int i" "ends_number r"
  shows "extract_int (reading (show_int i @ r)) = (Some i, reading r)"
proof -
  have digits: "\<exists>c cs. show_nat n = c # cs \<and> is_digit c" for n
    using show_nat_digits [of n] show_nat_ne [of n] by (cases "show_nat n") auto
  note tw = takeWhile_digits [OF show_nat_digits assms(2)]
  show ?thesis
  proof (cases "i < 0")
    case True
    have "sentry (reading (show_int i @ r)) = (True, reading (show_int i @ r))"
      using True by (simp add: sentry_def show_int_def is_space_def reading_def)
    then show ?thesis
      using True assms(1) tw [of "nat (- i)"]
      by (simp add: extract_int_def show_int_def read_sign_def show_nat_val reading_def in_int_def
          del: dropWhile_eq_Nil_conv)
  next
    case False
    obtain c cs where c: "show_nat (nat i) = c # cs" "is_digit c" using digits by blast
    have "sentry (reading (show_int i @ r)) = (True, reading (show_int i @ r))"
      using False c(1) digit_not_special(1) [OF c(2)] by (simp add: sentry_def show_int_def reading_def)
    moreover have "read_sign (show_nat (nat i) @ r) = (False, show_nat (nat i) @ r)"
      using c(1) digit_not_special(2,3) [OF c(2)] by (simp add: read_sign_def)
    ultimately show ?thesis
      using False assms(1) tw [of "nat i"]
      by (simp add: extract_int_def show_int_def show_nat_val reading_def in_int_def
          del: dropWhile_eq_Nil_conv)
  qed
qed

lemma show_int_ne [simp]: "show_int i \<noteq> []"
  by (simp add: show_int_def)

lemma skip_reading [simp]: "skip_char c (reading (c # r)) = \<lparr>buf = r, eofb = False, failb = False\<rparr>"
  by (simp add: skip_char_def reading_def)

lemma skip_shown: "skip_char c (reading (c # show_int i @ r)) = reading (show_int i @ r)"
  by simp

lemma skip_end: "failb (skip_char c (reading []))"
  by (simp add: skip_char_def reading_def)

lemma extract_failed: "failb s \<Longrightarrow> failb (snd (extract_int s))"
  by (simp add: extract_int_def sentry_def)

lemma ends_number_simps [simp]: "ends_number []" "ends_number (c # r) \<longleftrightarrow> \<not> is_digit c"
  by (simp_all add: ends_number_def)

lemma not_digit_sep [simp]: "\<not> is_digit (CHR '','')" "\<not> is_digit (CHR '' '')" "\<not> is_digit (CHR 0x09)"
    "\<not> is_digit newline"
  by (simp_all add: is_digit_def newline_def)

section \<open>Round trip of a node line\<close>

definition arrows_text :: "char \<Rightarrow> arrow list \<Rightarrow> string" where
  "arrows_text c as = concat (map (\<lambda>a. c # show_int (arrow_end a) @ CHR '','' # show_int (arrow_weight a)) as)"

lemma arrows_text_simps [simp]:
  "arrows_text c [] = []"
  "arrows_text c (a # as) = c # show_int (arrow_end a) @ CHR '','' # show_int (arrow_weight a) @ arrows_text c as"
  by (simp_all add: arrows_text_def)

definition arrow_ok :: "arrow \<Rightarrow> bool" where
  "arrow_ok a \<longleftrightarrow> in_int (arrow_end a) \<and> in_int (arrow_weight a)"

lemma arrows_end: "ends_number (arrows_text (CHR '','') as)"
  by (cases as) simp_all

lemma parse_arrows_text:
  "\<forall>a \<in> set as. arrow_ok a \<Longrightarrow>
     parse_arrows (skip_char (CHR '','') (reading (arrows_text (CHR '','') as))) = Inr as"
proof (induction as)
  case Nil
  have "failb (snd (extract_int (skip_char (CHR '','') (reading []))))"
    by (rule extract_failed [OF skip_end])
  then show ?case by (subst parse_arrows.simps) (simp add: split_beta)
next
  case (Cons a as)
  then show ?case
    by (subst parse_arrows.simps)
       (simp add: skip_shown extract_shown arrow_ok_def arrows_end del: skip_reading)
qed

lemma trim_right_line:
  assumes "set w \<subseteq> set [CHR '' '', CHR 0x0A, CHR 0x0D, CHR 0x09]" "is_digit c"
  shows "trim_right (xs @ [c] @ w) = xs @ [c]"
proof -
  have "dropWhile (\<lambda>c. c \<in> set [CHR '' '', CHR 0x0A, CHR 0x0D, CHR 0x09]) (rev w @ c # rev xs) = c # rev xs"
    using assms digit_not_special [OF assms(2)] by (subst dropWhile_append2) auto
  then show ?thesis unfolding trim_right_def by simp
qed

lemma shown_chars: "c \<in> set (show_int i) \<Longrightarrow> is_digit c \<or> c = CHR ''-''"
  using show_nat_digits by (auto simp: show_int_def split: if_splits)

lemma shown_last: "\<exists>xs c. show_int i = xs @ [c] \<and> is_digit c"
proof -
  have "\<exists>xs c. show_nat n = xs @ [c] \<and> is_digit c" for n
    using show_nat_digits [of n] by (cases "show_nat n" rule: rev_cases) auto
  then show ?thesis unfolding show_int_def by (metis append_Cons)
qed

lemma replace_append [simp]: "replace_char a b (xs @ ys) = replace_char a b xs @ replace_char a b ys"
  "replace_char a b (c # ys) = (if c = a then b else c) # replace_char a b ys" "replace_char a b [] = []"
  by (simp_all add: replace_char_def)

lemma replace_shown [simp]: "replace_char (CHR 0x09) b (show_int i) = show_int i"
proof -
  have "CHR 0x09 \<notin> set (show_int i)"
    using shown_chars [of "CHR 0x09" i] not_digit_sep(3) by auto
  then show ?thesis by (auto simp: replace_char_def intro!: map_idI)
qed

lemma replace_arrows: "replace_char (CHR 0x09) (CHR '','') (arrows_text (CHR 0x09) as) = arrows_text (CHR '','') as"
  by (induction as) simp_all

lemma line_last: "\<exists>xs c. show_int i @ arrows_text d as = xs @ [c] \<and> is_digit c"
proof (cases as rule: rev_cases)
  case Nil
  then show ?thesis using shown_last [of i] by simp
next
  case (snoc bs b)
  have "arrows_text d as = arrows_text d bs @ d # show_int (arrow_end b) @ CHR '','' # show_int (arrow_weight b)"
    unfolding snoc arrows_text_def by simp
  then show ?thesis using shown_last [of "arrow_weight b"] by (metis append.assoc append_Cons)
qed

lemma parse_node_text:
  assumes "in_int root" "\<forall>a \<in> set as. arrow_ok a"
    "set w \<subseteq> set [CHR '' '', CHR 0x0A, CHR 0x0D, CHR 0x09]"
  shows "parse_node_data (show_int root @ arrows_text (CHR 0x09) as @ w) = Inr (root, as)"
proof -
  obtain xs c where line: "show_int root @ arrows_text (CHR 0x09) as = xs @ [c]" "is_digit c"
    using line_last by blast
  then have "trim_right (show_int root @ arrows_text (CHR 0x09) as @ w) = show_int root @ arrows_text (CHR 0x09) as"
    using trim_right_line [OF assms(3) line(2), of xs] by (metis append.assoc)
  then show ?thesis
    unfolding parse_node_data_def
    by (simp add: replace_arrows open_reading extract_shown [OF assms(1) arrows_end]
        parse_arrows_text [OF assms(2)])
qed

section \<open>Round trip of a file of pairs\<close>

lemma getline_line:
  "newline \<notin> set l \<Longrightarrow> getline (open_text (l @ newline # r)) old = (l, open_text r)"
proof -
  assume l: "newline \<notin> set l"
  have "takeWhile ((\<noteq>) newline) (l @ newline # r) = l" "dropWhile ((\<noteq>) newline) (l @ newline # r) = newline # r"
    using l by (induction l) auto
  then show ?thesis unfolding getline_def open_text_def by (simp add: Let_def)
qed

lemma getline_last:
  "newline \<notin> set l \<Longrightarrow> l \<noteq> [] \<Longrightarrow>
   getline (open_text l) old = (l, \<lparr>buf = [], eofb = True, failb = False\<rparr>)"
proof -
  assume "newline \<notin> set l" "l \<noteq> []"
  then have "takeWhile ((\<noteq>) newline) l = l" "dropWhile ((\<noteq>) newline) l = []" by (auto simp: takeWhile_eq_all_conv)
  then show ?thesis using \<open>l \<noteq> []\<close>
    unfolding getline_def open_text_def by (simp add: Let_def del: takeWhile_eq_all_conv dropWhile_eq_Nil_conv)
qed

definition pair_text :: "int \<times> int \<Rightarrow> string" where
  "pair_text p = show_int (fst p) @ CHR '' '' # show_int (snd p)"

definition pair_ok :: "int \<times> int \<Rightarrow> bool" where
  "pair_ok p \<longleftrightarrow> in_int (fst p) \<and> in_int (snd p)"

lemma shown_no_newline [simp]: "newline \<notin> set (show_int i)"
  using shown_chars [of newline i] by (auto simp: newline_def is_digit_def)

lemma pair_text_line [simp]: "newline \<notin> set (pair_text p)" "pair_text p \<noteq> []"
  by (auto simp: pair_text_def) (simp add: newline_def)

lemma extract_pair:
  assumes "pair_ok p"
  shows "extract_int (open_text (pair_text p)) = (Some (fst p), reading (CHR '' '' # show_int (snd p)))"
    "extract_int (reading (show_int (snd p))) = (Some (snd p), reading [])"
  using assms extract_shown [of "fst p" "CHR '' '' # show_int (snd p)"] extract_shown [of "snd p" "[]"]
  by (auto simp: pair_ok_def pair_text_def open_reading)

lemma read_pair_text: "pair_ok p \<Longrightarrow> read_pair (pair_text p) = Inr (Some p)"
  using skip_shown [of "CHR '' ''" "snd p" "[]"]
  by (simp add: read_pair_def extract_pair del: skip_reading)

lemma read_pair_empty: "read_pair [] = Inr None"
  by (simp add: read_pair_def extract_int_def sentry_def open_text_def)

definition lines_text :: "(int \<times> int) list \<Rightarrow> string" where
  "lines_text ps = concat (map (\<lambda>p. pair_text p @ [newline]) ps)"

lemma lines_text_simps [simp]:
  "lines_text [] = []" "lines_text (p # ps) = pair_text p @ newline # lines_text ps"
  by (simp_all add: lines_text_def)

lemma open_text_flags [simp]: "failb (open_text s) = False" "eofb (open_text s) = False"
  by (simp_all add: open_text_def)

text \<open>A loop over whole lines goes on with what follows them.\<close>

lemma pair_lines_append:
  "\<forall>p \<in> set ps. pair_ok p \<Longrightarrow> pair_lines (open_text (lines_text ps @ r)) old =
     bindr (pair_lines (open_text r) (if ps = [] then old else pair_text (last ps))) (\<lambda>qs. Inr (ps @ qs))"
proof (induction ps arbitrary: old)
  case Nil
  then show ?case by (cases "pair_lines (open_text r) old") simp_all
next
  case (Cons p ps)
  then show ?case
    by (subst pair_lines.simps)
       (auto simp: getline_line read_pair_text bindr_def split: sum.splits)
qed

lemma pair_lines_end: "pair_lines (open_text []) old = Inr []"
  by (subst pair_lines.simps) (simp add: getline_def read_pair_empty open_text_def)

lemma pair_lines_unended:
  assumes "pair_ok p"
  shows "pair_lines (open_text (pair_text p)) old = Inr [p, p]"
  using assms
  by (subst pair_lines.simps, simp add: getline_last read_pair_text, subst pair_lines.simps,
      simp add: getline_def read_pair_text, subst pair_lines.simps, simp)

lemma pair_lines_file:
  assumes "\<forall>p \<in> set ps. pair_ok p"
  shows "pair_lines (open_text (lines_text ps)) old = Inr ps"
  using pair_lines_append [OF assms, of "[]"] by (simp add: pair_lines_end)

lemma pair_lines_file_unended:
  assumes "\<forall>p \<in> set ps. pair_ok p" "pair_ok p"
  shows "pair_lines (open_text (lines_text ps @ pair_text p)) old = Inr (ps @ [p, p])"
  using pair_lines_append [OF assms(1), of "pair_text p"] by (simp add: pair_lines_unended [OF assms(2)])

lemma extract_size_shown:
  assumes "int n < 2 ^ 64" "ends_number r"
  shows "extract_size (reading (show_int (int n) @ r)) = (Some (int n), reading r)"
proof -
  obtain c cs where c: "show_nat n = c # cs" "is_digit c"
    using show_nat_digits [of n] show_nat_ne [of n] by (cases "show_nat n") auto
  have "sentry (reading (show_nat n @ r)) = (True, reading (show_nat n @ r))"
    using c(1) digit_not_special(1) [OF c(2)] by (simp add: sentry_def reading_def)
  moreover have "read_sign (show_nat n @ r) = (False, show_nat n @ r)"
    using c(1) digit_not_special(2,3) [OF c(2)] by (simp add: read_sign_def)
  ultimately show ?thesis
    using assms(1) takeWhile_digits [OF show_nat_digits assms(2), of n]
    by (simp add: extract_size_def show_int_def show_nat_val reading_def del: dropWhile_eq_Nil_conv)
qed

lemma extract_after_space:
  assumes "in_int i"
  shows "extract_int (reading (CHR '' '' # show_int i)) = (Some i, reading [])"
proof -
  obtain c cs where c: "show_int i = c # cs" "is_digit c \<or> c = CHR ''-''"
    using show_int_ne [of i] shown_chars [of _ i] by (cases "show_int i") auto
  have "\<not> is_space c" using c(2) digit_not_special(1) by (auto simp: is_space_def)
  then have "sentry (reading (CHR '' '' # show_int i)) = sentry (reading (show_int i))"
    using c(1) by (simp add: sentry_def reading_def is_space_def)
  then show ?thesis using extract_shown [OF assms, of "[]"] by (simp add: extract_int_def)
qed

section \<open>Properties\<close>

text \<open>
  C36. A printed node line, with whatever white space after it, is read back: the node and
  its arrows with their weights.
\<close>

theorem node_line_round_trip:
  assumes "in_int root" "\<forall>a \<in> set as. arrow_ok a"
    "set w \<subseteq> set [CHR '' '', CHR 0x0A, CHR 0x0D, CHR 0x09]"
  shows "parse_node_data (show_int root @ arrows_text (CHR 0x09) as @ w) = Inr (root, as)"
  by (rule parse_node_text [OF assms])

theorem node_line_round_trip_witness:
  "parse_node_data (show_int 0 @ arrows_text (CHR 0x09) [Arrow 8 89, Arrow 9 90] @ [CHR 0x09, CHR 0x0A])
     = Inr (0, [Arrow 8 89, Arrow 9 90])"
  by (rule node_line_round_trip) (simp_all add: arrow_ok_def in_int_def int_min_def int_max_def)

text \<open>
  A written item file is read back: the capacity and the items in order.
\<close>

theorem item_file_round_trip:
  assumes "in_int W" "int (length ps) \<le> int_max" "\<forall>p \<in> set ps. pair_ok p"
  shows "get_dyn_items (Some (pair_text (W, int (length ps)) @ newline # lines_text ps))
     = Inr (W, map (\<lambda>(v, w). Item v w) ps)"
proof -
  have "pair_ok (W, int (length ps))" using assms(1,2) by (simp add: pair_ok_def in_int_of_nat)
  moreover have "in_int (int (length ps))" using assms(2) by (simp add: in_int_of_nat)
  ultimately show ?thesis
    by (simp add: get_dyn_items_def getline_line extract_pair(1) extract_after_space
        pair_lines_file [OF assms(3)])
qed

theorem item_file_round_trip_witness:
  "get_dyn_items (Some (pair_text (6, int (length [(3 :: int, 4 :: int), (2, 3)])) @ newline # lines_text [(3, 4), (2, 3)]))
     = Inr (6, [Item 3 4, Item 2 3])"
  using item_file_round_trip [of 6 "[(3, 4), (2, 3)]"]
  by (simp add: pair_ok_def in_int_def int_min_def int_max_def)

text \<open>
  A job file is read back when every line ends in a newline. Without the last newline
  the last job is read twice and the check of the count fails.
\<close>

theorem job_file_needs_newline:
  assumes "int (length ps) \<le> int_max" "\<forall>p \<in> set (ps @ [p]). pair_ok p"
  shows "get_jobs (Some (show_int (int (length ps + 1)) @ newline # lines_text ps @ pair_text p @ [newline]))
       = Inr (map (\<lambda>(w, l). Job w l) (ps @ [p]))
    \<and> get_jobs (Some (show_int (int (length ps + 1)) @ newline # lines_text ps @ pair_text p)) = Inl Assert_Failed"
proof
  have n: "int (length ps + 1) < 2 ^ 64" "\<not> int (length ps + 1) > max_elems 8"
    using assms(1) by (simp_all add: int_max_def max_elems_def)
  have whole: "lines_text ps @ pair_text p @ [newline] = lines_text (ps @ [p])"
    by (simp add: lines_text_def)
  have count: "extract_size (open_text (show_int (int (length ps + 1)))) = (Some (int (length ps + 1)), reading [])"
    using extract_size_shown [OF n(1), of "[]"] by (simp add: open_reading)
  show "get_jobs (Some (show_int (int (length ps + 1)) @ newline # lines_text ps @ pair_text p @ [newline]))
       = Inr (map (\<lambda>(w, l). Job w l) (ps @ [p]))"
    using n count unfolding whole get_jobs_def
    by (simp add: getline_line pair_lines_file [OF assms(2)] del: lines_text_simps)
  show "get_jobs (Some (show_int (int (length ps + 1)) @ newline # lines_text ps @ pair_text p)) = Inl Assert_Failed"
    using n count assms(2) unfolding get_jobs_def
    by (simp add: getline_line pair_lines_file_unended)
qed

theorem job_file_needs_newline_witness:
  "get_jobs (Some (show_int (int (length [(1 :: int, 1 :: int)] + 1)) @ newline # lines_text [(1, 1)] @ pair_text (2, 1)))
     = Inl Assert_Failed"
  using job_file_needs_newline [of "[(1, 1)]" "(2, 1)"]
  by (simp add: pair_ok_def in_int_def int_min_def int_max_def)

end
