(* ===== verification/Graph_Input.thy ===== *)
theory Graph_Input
  imports Text_Input
begin

text \<open>
  The construction of the graph in \<^verbatim>\<open>edu/courses/my-cs/details/graph_details.{h,cc}\<close>: the edge
  maker, the lines of the file turned into nodes, serially or by parallel tasks, and the
  checks and writes of \<open>build_graph\<close>.

  Parallel processing is compiled in by \<open>USE_TBB\<close>, whose definition is commented out in the
  first line of the file. The argument \<open>tbb\<close> stands for it: \<open>None\<close> is the file as it is, and
  \<open>Some order\<close> a run with the tasks, where \<open>order\<close> lists the cells in the order in which the
  tasks write them.
\<close>

section \<open>Edges\<close>

record neighbor =
  weight :: int
  nend :: int

definition Neighbor_default :: neighbor where
  "Neighbor_default = \<lparr>weight = 0, nend = 0\<rparr>"

definition Neighbor_eq :: "neighbor \<Rightarrow> neighbor \<Rightarrow> bool" where
  "Neighbor_eq a b \<longleftrightarrow> weight a = weight b \<and> nend a = nend b"

record edge_maker =
  mk_weight :: int
  mk_end :: int

definition EdgeMaker :: edge_maker where
  "EdgeMaker = \<lparr>mk_weight = 0, mk_end = 0\<rparr>"

definition EdgeMaker_arrow :: "arrow \<Rightarrow> edge_maker" where
  "EdgeMaker_arrow a = \<lparr>mk_weight = arrow_weight a, mk_end = arrow_end a\<rparr>"

definition maker_end :: "int \<Rightarrow> edge_maker \<Rightarrow> edge_maker" where
  "maker_end e m = m\<lparr>mk_end := e\<rparr>"

definition maker_weight :: "int \<Rightarrow> edge_maker \<Rightarrow> edge_maker" where
  "maker_weight w m = m\<lparr>mk_weight := w\<rparr>"

definition maker_create :: "edge_maker \<Rightarrow> neighbor" where
  "maker_create m = (let edge = Neighbor_default\<lparr>nend := mk_end m\<rparr> in edge\<lparr>weight := mk_weight m\<rparr>)"

definition Neighbor_maker :: "edge_maker \<Rightarrow> neighbor" where
  "Neighbor_maker m = \<lparr>weight = mk_weight m, nend = mk_end m\<rparr>"

lemma maker_named_params: "maker_create (maker_weight w (maker_end e EdgeMaker)) = Neighbor_maker (EdgeMaker_arrow (Arrow e w))"
  by (simp add: maker_create_def maker_weight_def maker_end_def EdgeMaker_def Neighbor_default_def
      Neighbor_maker_def EdgeMaker_arrow_def)

section \<open>Nodes\<close>

type_synonym raw_node = "int \<times> neighbor list"

definition RawYieldFunctor :: "string \<Rightarrow> raw_node result" where
  "RawYieldFunctor arg =
     bindr (parse_node_data arg) (\<lambda>(root, as). Inr (root, map (\<lambda>a. Neighbor_maker (EdgeMaker_arrow a)) as))"

definition graph_extract_records :: "string option \<Rightarrow> string list result" where
  "graph_extract_records file =
     (case file of None \<Rightarrow> Inl Runtime_Error | Some text \<Rightarrow> Inr (read_lines (open_text text)))"

definition process_serial :: "string list \<Rightarrow> raw_node list result" where
  "process_serial records = mapr RawYieldFunctor records"

text \<open>One pass of the body of \<open>ApplyFoo\<close>: \<open>out[i] = op(array[i])\<close>.\<close>

fun ApplyFoo :: "string list \<Rightarrow> nat list \<Rightarrow> raw_node list \<Rightarrow> raw_node list result" where
  "ApplyFoo records [] out = Inr out"
| "ApplyFoo records (i # is) out =
     bindr (vget records (int i)) (\<lambda>line.
     bindr (RawYieldFunctor line) (\<lambda>node.
     bindr (vset out (int i) node) (\<lambda>out'. ApplyFoo records is out')))"

definition process_parallel :: "nat list option \<Rightarrow> string list \<Rightarrow> raw_node list result" where
  "process_parallel tbb records =
     (let raw_nodes = replicate (length records) (0, []) in
      case tbb of
        None \<Rightarrow> Inr raw_nodes
      | Some order \<Rightarrow> ApplyFoo records order raw_nodes)"

fun write_nodes :: "raw_node list \<Rightarrow> neighbor list list \<Rightarrow> neighbor list list result" where
  "write_nodes [] graph = Inr graph"
| "write_nodes (elem # elems) graph =
     bindr (vset graph (fst elem) (snd elem)) (\<lambda>graph'. write_nodes elems graph')"

definition build_graph :: "nat list option \<Rightarrow> string list \<Rightarrow> neighbor list list result" where
  "build_graph tbb records =
     bindr (process_parallel tbb records) (\<lambda>raw_nodes.
     bindr (check (raw_nodes \<noteq> []) Assert_Failed) (\<lambda>_.
     bindr (check (card (set (map fst raw_nodes)) = length raw_nodes) Assert_Failed) (\<lambda>_.
       write_nodes raw_nodes (replicate (length raw_nodes + 1) []))))"

section \<open>The parallel pass\<close>

lemma ApplyFoo_value:
  assumes "\<forall>i < length records. RawYieldFunctor (records ! i) = Inr (nodes ! i)" "length nodes = length records"
  shows "set order \<subseteq> {..<length records} \<Longrightarrow> length out = length records \<Longrightarrow>
    \<exists>out'. ApplyFoo records order out = Inr out' \<and> length out' = length records
      \<and> (\<forall>i < length records. out' ! i = (if i \<in> set order then nodes ! i else out ! i))"
proof (induction order arbitrary: out)
  case (Cons j order)
  let ?out = "out[j := nodes ! j]"
  have j: "j < length records" using Cons.prems by simp
  obtain out' where out': "ApplyFoo records order ?out = Inr out'" "length out' = length records"
      "\<forall>i < length records. out' ! i = (if i \<in> set order then nodes ! i else ?out ! i)"
    using Cons.IH [of ?out] Cons.prems by auto
  then show ?case
    using j assms(1) Cons.prems(2) by (auto simp: nth_list_update)
qed auto

lemma mapr_Inr_nth:
  "mapr f xs = Inr ys \<Longrightarrow> length ys = length xs \<and> (\<forall>i < length xs. f (xs ! i) = Inr (ys ! i))"
  by (induction xs arbitrary: ys) (auto simp: bindr_eq_Inr nth_Cons split: nat.splits)

lemma process_parallel_serial:
  assumes "process_serial records = Inr nodes" "set order = {..<length records}"
  shows "process_parallel (Some order) records = Inr nodes"
proof -
  note n = mapr_Inr_nth [OF assms(1) [unfolded process_serial_def]]
  obtain out where "ApplyFoo records order (replicate (length records) (0, [])) = Inr out"
      "length out = length records" "\<forall>i < length records. out ! i = (if i \<in> set order then nodes ! i else (0, []))"
    using ApplyFoo_value [of records nodes order "replicate (length records) (0, [])"] n assms(2) by auto
  moreover from this n assms(2) have "out = nodes" by (auto intro: nth_equalityI)
  ultimately show ?thesis by (simp add: process_parallel_def)
qed

lemma write_nodes_value:
  "\<forall>p \<in> set nodes. 0 \<le> fst p \<and> fst p < int (length graph) \<Longrightarrow> distinct (map fst nodes) \<Longrightarrow>
   \<exists>g. write_nodes nodes graph = Inr g \<and> length g = length graph
     \<and> (\<forall>p \<in> set nodes. g ! nat (fst p) = snd p)
     \<and> (\<forall>i < length graph. int i \<notin> fst ` set nodes \<longrightarrow> g ! i = graph ! i)"
proof (induction nodes arbitrary: graph)
  case (Cons p nodes)
  let ?g = "graph[nat (fst p) := snd p]"
  have p: "0 \<le> fst p" "fst p < int (length graph)" "fst p \<notin> fst ` set nodes" using Cons.prems by auto
  obtain g where g: "write_nodes nodes ?g = Inr g" "length g = length graph"
      "\<forall>p \<in> set nodes. g ! nat (fst p) = snd p"
      "\<forall>i < length graph. int i \<notin> fst ` set nodes \<longrightarrow> g ! i = ?g ! i"
    using Cons.IH [of ?g] Cons.prems by auto
  then show ?case using p by (auto simp: nth_list_update)
qed auto

section \<open>Properties\<close>

text \<open>
  C39. With the parallel pass compiled in, in whatever order the tasks write, a file whose
  lines parse to distinct nodes numbered from 0 to the number of lines gives a graph with
  one more entry than lines, the arrows of every node at its number, and nothing elsewhere.
\<close>

theorem build_graph_parallel:
  assumes "process_serial records = Inr nodes" "set order = {..<length records}" "records \<noteq> []"
    "distinct (map fst nodes)" "\<forall>p \<in> set nodes. 0 \<le> fst p \<and> fst p \<le> int (length records)"
  shows "\<exists>g. build_graph (Some order) records = Inr g \<and> length g = length records + 1
     \<and> (\<forall>p \<in> set nodes. g ! nat (fst p) = snd p)
     \<and> (\<forall>i \<le> length records. int i \<notin> fst ` set nodes \<longrightarrow> g ! i = [])"
proof -
  have len: "length nodes = length records"
    using mapr_Inr_nth [OF assms(1) [unfolded process_serial_def]] by simp
  then have ne: "nodes \<noteq> []" using assms(3) by auto
  have "card (fst ` set nodes) = length nodes"
    using distinct_card [OF assms(4)] by simp
  then show ?thesis
    using write_nodes_value [of nodes "replicate (length nodes + 1) []"] assms(4,5) ne len
    by (fastforce simp: build_graph_def process_parallel_serial [OF assms(1,2)] less_Suc_eq_le
        simp del: replicate_Suc)
qed

text \<open>Two lines of a graph file.\<close>

definition two_lines :: "string list" where
  "two_lines = [show_int 1 @ CHR 0x09 # show_int 2 @ CHR '','' # show_int 7, show_int 2]"

lemma two_lines_nodes: "process_serial two_lines = Inr [(1, [\<lparr>weight = 7, nend = 2\<rparr>]), (2, [])]"
  using parse_node_text [of 1 "[Arrow 2 7]" "[]"] parse_node_text [of 2 "[]" "[]"]
  by (simp add: two_lines_def process_serial_def RawYieldFunctor_def Neighbor_maker_def
      EdgeMaker_arrow_def arrow_ok_def in_int_def int_min_def int_max_def)

theorem build_graph_parallel_witness:
  "\<exists>g. build_graph (Some [1, 0]) two_lines = Inr g \<and> length g = 3 \<and> g ! 1 = [\<lparr>weight = 7, nend = 2\<rparr>]"
  using build_graph_parallel [OF two_lines_nodes, of "[1, 0]"]
  by (auto simp: two_lines_def lessThan_Suc numeral_2_eq_2)

text \<open>
  As the file is compiled, no file with two or more lines can be read: all raw nodes keep
  number 0, and the check that the numbers are unique fails. A single line gives a graph of
  two nodes without arrows, whatever the line says.
\<close>

theorem build_graph_serial_fails:
  assumes "length records \<noteq> 1"
  shows "build_graph None records = Inl Assert_Failed \<and> build_graph None [line] = Inr [[], []]"
proof -
  show ?thesis
  proof (cases "records = []")
    case True
    then show ?thesis by (simp add: build_graph_def process_parallel_def)
  next
    case False
    then have "set (map fst (replicate (length records) (0 :: int, [] :: neighbor list))) = {0}" by auto
    then have "card (set (map fst (replicate (length records) (0 :: int, [] :: neighbor list)))) \<noteq> length records"
      using assms by simp
    then show ?thesis using False by (simp add: build_graph_def process_parallel_def)
  qed
qed

theorem build_graph_serial_fails_witness: "build_graph None two_lines = Inl Assert_Failed"
  using build_graph_serial_fails [of two_lines] by (simp add: two_lines_def)

end
