(* ===== verification/Shortest_Path.thy ===== *)
theory Shortest_Path
  imports Graph_Input
begin

text \<open>
  Dijkstra's algorithm as \<^verbatim>\<open>edu/courses/stanford1/cc/shortest_path.cc\<close> runs it: the table
  \<open>track\<close> of \<open>NodeInfo\<close>, the search of the least unvisited node by \<open>min_element\<close>, the
  relaxation of its neighbours, and the loop that ends when that node is at \<open>kMaxVal\<close>.
  The loop need not end, so it has fuel. The lemmas give the invariant of the loop (distances
  are lengths of walks, the edges of visited nodes are relaxed, visited nodes are not farther
  than the others); the properties say that the result is the shortest distance capped at
  \<open>kMaxVal\<close>, with a bound on the fuel, and what an arrow to node 0 does.
\<close>

section \<open>The program\<close>

definition kMaxVal :: int where "kMaxVal = 1000000"

record node_info =
  dst :: int
  visited :: bool
  idx :: nat

definition make_track :: "nat \<Rightarrow> node_info list" where
  "make_track n = map (\<lambda>i. \<lparr>dst = kMaxVal, visited = False, idx = i\<rparr>) [0..<n]"

text \<open>The key that the comparison of \<open>min_element\<close> looks at, and its first least element.\<close>

definition node_key :: "node_info \<Rightarrow> int" where
  "node_key o1 = (if visited o1 then kMaxVal else dst o1)"

fun min_from :: "node_info list \<Rightarrow> nat \<Rightarrow> nat \<Rightarrow> node_info \<Rightarrow> nat" where
  "min_from [] i low b = low"
| "min_from (x # xs) i low b =
     (if node_key x < node_key b then min_from xs (i + 1) i x else min_from xs (i + 1) low b)"

definition min_element :: "node_info list \<Rightarrow> nat option" where
  "min_element track = (case track of [] \<Rightarrow> None | x # xs \<Rightarrow> Some (min_from xs 1 0 x))"

text \<open>The body of the loop over the neighbours.\<close>

definition relax :: "int \<Rightarrow> neighbor \<Rightarrow> node_info list \<Rightarrow> node_info list result" where
  "relax root_d n track =
     bindr (vget track (nend n)) (\<lambda>target.
       if \<not> visited target then
         bindr (cint (root_d + weight n)) (\<lambda>new_d.
           if dst target > new_d then vset track (nend n) (target\<lparr>dst := new_d\<rparr>) else Inr track)
       else Inr track)"

fun relax_all :: "int \<Rightarrow> neighbor list \<Rightarrow> node_info list \<Rightarrow> node_info list result" where
  "relax_all root_d [] track = Inr track"
| "relax_all root_d (n # ns) track = bindr (relax root_d n track) (relax_all root_d ns)"

text \<open>One turn of the outer loop: \<open>Inr None\<close> is the \<open>break\<close>.\<close>

definition dijkstra_step :: "neighbor list list \<Rightarrow> node_info list \<Rightarrow> node_info list option result" where
  "dijkstra_step graph track =
     (case min_element track of
        None \<Rightarrow> Inl Assert_Failed
      | Some at \<Rightarrow>
          (let min_node = track ! at in
           if dst min_node = kMaxVal then Inr None
           else bindr (vget graph (int at)) (\<lambda>neighbors.
                bindr (relax_all (dst min_node) neighbors (track[at := min_node\<lparr>visited := True\<rparr>])) (\<lambda>track'.
                  Inr (Some track')))))"

fun dijkstra_loop :: "nat \<Rightarrow> neighbor list list \<Rightarrow> node_info list \<Rightarrow> node_info list result" where
  "dijkstra_loop 0 graph track = Inl Out_Of_Fuel"
| "dijkstra_loop (Suc fuel) graph track =
     bindr (dijkstra_step graph track) (\<lambda>r. case r of
         None \<Rightarrow> Inr track
       | Some track' \<Rightarrow> dijkstra_loop fuel graph track')"

definition dijkstra :: "nat \<Rightarrow> neighbor list list \<Rightarrow> node_info list result" where
  "dijkstra fuel graph =
     bindr (vget (make_track (length graph)) 1) (\<lambda>start.
       dijkstra_loop fuel graph ((make_track (length graph))[1 := start\<lparr>dst := 0\<rparr>]))"

definition task_mask :: "int list" where
  "task_mask = [7, 37, 59, 82, 99, 115, 133, 165, 188, 197]"

text \<open>
  The program: the distances it prints. A failing check or undefined behaviour ends it; the
  exceptions of the readers are caught and only their text is printed, so that nothing is
  printed from the table.
\<close>

definition shortest_path_main :: "nat list option \<Rightarrow> nat \<Rightarrow> string option \<Rightarrow> int list option result" where
  "shortest_path_main tbb fuel file =
     (case bindr (graph_extract_records file) (build_graph tbb) of
        Inl e \<Rightarrow> (if e \<in> set [Runtime_Error, Invalid_Argument] then Inr None else Inl e)
      | Inr graph \<Rightarrow>
          bindr (dijkstra fuel graph) (\<lambda>track.
          bindr (mapr (\<lambda>i. bindr (vget track i) (\<lambda>v. Inr (dst v))) task_mask) (\<lambda>ds. Inr (Some ds))))"

text \<open>The two output operators of the table.\<close>

definition show_node_info :: "node_info \<Rightarrow> string" where
  "show_node_info obj =
     (if dst obj > 1000 then show_nat (idx obj) @ '' : ('' @ ''Inf'' @ ''/'' @ (if visited obj then ''1'' else ''0'') @ '')''
      else show_nat (idx obj) @ '' : ('' @ show_int (dst obj) @ ''/'' @ (if visited obj then ''1'' else ''0'') @ '')'')"

definition show_track :: "node_info list \<Rightarrow> string" where
  "show_track obj = concat (map (\<lambda>info. CHR '' '' # show_node_info info) obj) @ [newline]"

text \<open>Every distance above 1000 is shown as infinite, reached or not.\<close>

lemma show_far_node:
  "1000 < d \<Longrightarrow> show_node_info \<lparr>dst = d, visited = v, idx = i\<rparr> = show_node_info \<lparr>dst = kMaxVal, visited = v, idx = i\<rparr>"
  by (simp add: show_node_info_def kMaxVal_def)

section \<open>Walks\<close>

definition edge :: "neighbor list list \<Rightarrow> nat \<Rightarrow> nat \<Rightarrow> int \<Rightarrow> bool" where
  "edge g u v w \<longleftrightarrow> u < length g \<and> \<lparr>weight = w, nend = int v\<rparr> \<in> set (g ! u)"

inductive walk :: "neighbor list list \<Rightarrow> nat \<Rightarrow> int \<Rightarrow> bool" for g where
  walk_start: "walk g 1 0"
| walk_step: "walk g u l \<Longrightarrow> edge g u v w \<Longrightarrow> walk g v (l + w)"

inductive_simps walk_start_simps: "walk g u 0"

text \<open>
  The graphs the program is meant for: every arrow leads to a real node, weights are not
  negative and leave room for one addition.
\<close>

definition arrows_ok :: "neighbor list list \<Rightarrow> bool" where
  "arrows_ok g \<longleftrightarrow> 1 < length g \<and>
     (\<forall>ns \<in> set g. \<forall>n \<in> set ns. 1 \<le> nend n \<and> nend n < int (length g) \<and>
        0 \<le> weight n \<and> weight n \<le> int_max - kMaxVal)"

lemma arrows_ok_edge:
  "arrows_ok g \<Longrightarrow> edge g u v w \<Longrightarrow> 1 \<le> v \<and> v < length g \<and> 0 \<le> w \<and> w \<le> int_max - kMaxVal"
  unfolding arrows_ok_def edge_def by (fastforce dest: nth_mem)

section \<open>The search of the least node\<close>

lemma min_from_least:
  "low < i \<Longrightarrow> b = track ! low \<Longrightarrow> i \<le> length track \<Longrightarrow> \<forall>j < i. node_key b \<le> node_key (track ! j) \<Longrightarrow>
   \<forall>j < low. node_key b < node_key (track ! j) \<Longrightarrow>
   min_from (drop i track) i low b = m \<Longrightarrow>
   m < length track \<and> (\<forall>j < length track. node_key (track ! m) \<le> node_key (track ! j))
     \<and> (\<forall>j < m. node_key (track ! m) < node_key (track ! j))"
proof (induction "length track - i" arbitrary: i low b)
  case 0
  then show ?case by simp
next
  case (Suc k)
  then have i: "i < length track" by simp
  have d: "drop i track = track ! i # drop (Suc i) track" by (rule drop_cons_nth [OF i])
  show ?case
  proof (cases "node_key (track ! i) < node_key b")
    case True
    then show ?thesis
      using Suc.hyps(1) [of "Suc i" i "track ! i"] Suc.hyps(2) Suc.prems i d by (fastforce simp: less_Suc_eq)
  next
    case False
    then show ?thesis
      using Suc.hyps(1) [of "Suc i" low b] Suc.hyps(2) Suc.prems i d by (fastforce simp: less_Suc_eq)
  qed
qed

lemma min_element_least:
  assumes "track \<noteq> []"
  obtains m where "min_element track = Some m" "m < length track"
    "\<And>j. j < length track \<Longrightarrow> node_key (track ! m) \<le> node_key (track ! j)"
    "\<And>j. j < m \<Longrightarrow> node_key (track ! m) < node_key (track ! j)"
proof -
  obtain x xs where track: "track = x # xs" using assms by (cases track) auto
  have "min_element track = Some (min_from (drop 1 track) 1 0 x)" by (simp add: min_element_def track)
  moreover have "m < length track \<and> (\<forall>j < length track. node_key (track ! m) \<le> node_key (track ! j))
     \<and> (\<forall>j < m. node_key (track ! m) < node_key (track ! j))" if "min_from (drop 1 track) 1 0 x = m" for m
    by (rule min_from_least [OF _ _ _ _ _ that]) (auto simp: track)
  ultimately show ?thesis using that by blast
qed

section \<open>The relaxation of the neighbours\<close>

definition arrow_fits :: "nat \<Rightarrow> neighbor \<Rightarrow> bool" where
  "arrow_fits len n \<longleftrightarrow> 0 \<le> nend n \<and> nend n < int len \<and> 0 \<le> weight n \<and> weight n \<le> int_max - kMaxVal"

lemma relax_value:
  assumes "arrow_fits (length t) n" "0 \<le> r" "r < kMaxVal"
  shows "relax r n t = Inr
    (let v = nat (nend n) in
     if \<not> visited (t ! v) \<and> dst (t ! v) > r + weight n then t[v := (t ! v)\<lparr>dst := r + weight n\<rparr>] else t)"
proof -
  have "in_int (r + weight n)"
    using assms by (simp add: arrow_fits_def in_int_def int_min_def)
  then show ?thesis using assms(1) by (auto simp: relax_def arrow_fits_def Let_def)
qed

definition relaxed :: "int \<Rightarrow> neighbor list \<Rightarrow> node_info list \<Rightarrow> node_info list \<Rightarrow> bool" where
  "relaxed r ns t t' \<longleftrightarrow> length t' = length t \<and> (\<forall>v < length t.
     visited (t' ! v) = visited (t ! v) \<and> dst (t' ! v) \<le> dst (t ! v) \<and>
     (visited (t ! v) \<longrightarrow> dst (t' ! v) = dst (t ! v)) \<and>
     (dst (t' ! v) = dst (t ! v) \<or> (\<exists>n \<in> set ns. nend n = int v \<and> dst (t' ! v) = r + weight n)) \<and>
     (\<forall>n \<in> set ns. nend n = int v \<longrightarrow> visited (t ! v) \<or> dst (t' ! v) \<le> r + weight n))"

lemma relax_all_relaxed:
  "\<forall>n \<in> set ns. arrow_fits (length t) n \<Longrightarrow> 0 \<le> r \<Longrightarrow> r < kMaxVal \<Longrightarrow>
   \<exists>t'. relax_all r ns t = Inr t' \<and> relaxed r ns t t'"
proof (induction ns arbitrary: t)
  case Nil
  then show ?case by (simp add: relaxed_def)
next
  case (Cons n ns)
  have fits: "arrow_fits (length t) n" using Cons.prems by simp
  let ?v = "nat (nend n)"
  define t1 where "t1 = (if \<not> visited (t ! ?v) \<and> dst (t ! ?v) > r + weight n
      then t[?v := (t ! ?v)\<lparr>dst := r + weight n\<rparr>] else t)"
  have t1: "relax r n t = Inr t1"
    using relax_value [OF fits Cons.prems(2,3)] by (simp add: t1_def Let_def)
  have len: "length t1 = length t" by (simp add: t1_def)
  obtain t' where t': "relax_all r ns t1 = Inr t'" "relaxed r ns t1 t'"
    using Cons.IH [of t1] Cons.prems len by auto
  have v: "nend n = int ?v" using fits by (simp add: arrow_fits_def)
  have first: "visited (t1 ! v) = visited (t ! v) \<and> dst (t1 ! v) \<le> dst (t ! v)
      \<and> (visited (t ! v) \<longrightarrow> dst (t1 ! v) = dst (t ! v))
      \<and> (dst (t1 ! v) = dst (t ! v) \<or> nend n = int v \<and> dst (t1 ! v) = r + weight n)
      \<and> (nend n = int v \<longrightarrow> visited (t ! v) \<or> dst (t1 ! v) \<le> r + weight n)" if "v < length t" for v
    using that v by (cases "v = ?v") (auto simp: t1_def)
  have "relaxed r (n # ns) t t'"
    unfolding relaxed_def
  proof (intro conjI allI impI)
    show "length t' = length t" using t'(2) len by (simp add: relaxed_def)
  next
    fix v assume "v < length t"
    then have old: "v < length t1" and f: "visited (t1 ! v) = visited (t ! v)" "dst (t1 ! v) \<le> dst (t ! v)"
        "visited (t ! v) \<longrightarrow> dst (t1 ! v) = dst (t ! v)"
        "dst (t1 ! v) = dst (t ! v) \<or> nend n = int v \<and> dst (t1 ! v) = r + weight n"
        "nend n = int v \<longrightarrow> visited (t ! v) \<or> dst (t1 ! v) \<le> r + weight n"
      using first [of v] len by simp_all
    have s: "visited (t' ! v) = visited (t1 ! v)" "dst (t' ! v) \<le> dst (t1 ! v)"
        "visited (t1 ! v) \<longrightarrow> dst (t' ! v) = dst (t1 ! v)"
        "dst (t' ! v) = dst (t1 ! v) \<or> (\<exists>n \<in> set ns. nend n = int v \<and> dst (t' ! v) = r + weight n)"
        "\<forall>n \<in> set ns. nend n = int v \<longrightarrow> visited (t1 ! v) \<or> dst (t' ! v) \<le> r + weight n"
      using t'(2) old unfolding relaxed_def by simp_all
    show "visited (t' ! v) = visited (t ! v)" using f(1) s(1) by simp
    show "dst (t' ! v) \<le> dst (t ! v)" using f(2) s(2) by simp
    show "dst (t' ! v) = dst (t ! v)" if "visited (t ! v)" using that f(1,3) s(3) by simp
    show "dst (t' ! v) = dst (t ! v) \<or> (\<exists>n \<in> set (n # ns). nend n = int v \<and> dst (t' ! v) = r + weight n)"
      using f(4) s(4) by auto
    show "\<forall>n \<in> set (n # ns). nend n = int v \<longrightarrow> visited (t ! v) \<or> dst (t' ! v) \<le> r + weight n"
      using f(1,5) s(2,5) by auto
  qed
  then show ?case using t1 t'(1) by simp
qed

section \<open>The invariant of the loop\<close>

definition track_inv :: "neighbor list list \<Rightarrow> node_info list \<Rightarrow> bool" where
  "track_inv g t \<longleftrightarrow> length t = length g \<and> dst (t ! 1) = 0
     \<and> \<not> visited (t ! 0) \<and> dst (t ! 0) = kMaxVal
     \<and> (\<forall>v < length g. 0 \<le> dst (t ! v) \<and> dst (t ! v) \<le> kMaxVal \<and> (dst (t ! v) < kMaxVal \<longrightarrow> walk g v (dst (t ! v))))
     \<and> (\<forall>u < length g. visited (t ! u) \<longrightarrow> dst (t ! u) < kMaxVal
         \<and> (\<forall>v w. edge g u v w \<longrightarrow> dst (t ! v) \<le> dst (t ! u) + w)
         \<and> (\<forall>v < length g. \<not> visited (t ! v) \<longrightarrow> dst (t ! u) \<le> dst (t ! v)))"

lemma track_invD:
  assumes "track_inv g t"
  shows "length t = length g" "dst (t ! 1) = 0" "\<not> visited (t ! 0)" "dst (t ! 0) = kMaxVal"
    "v < length g \<Longrightarrow> 0 \<le> dst (t ! v) \<and> dst (t ! v) \<le> kMaxVal"
    "v < length g \<Longrightarrow> dst (t ! v) < kMaxVal \<Longrightarrow> walk g v (dst (t ! v))"
    "u < length g \<Longrightarrow> visited (t ! u) \<Longrightarrow> dst (t ! u) < kMaxVal"
    "u < length g \<Longrightarrow> visited (t ! u) \<Longrightarrow> edge g u v w \<Longrightarrow> dst (t ! v) \<le> dst (t ! u) + w"
    "u < length g \<Longrightarrow> visited (t ! u) \<Longrightarrow> v < length g \<Longrightarrow> \<not> visited (t ! v) \<Longrightarrow> dst (t ! u) \<le> dst (t ! v)"
  using assms unfolding track_inv_def by blast+

text \<open>The state in which the loop starts.\<close>

definition start_track :: "nat \<Rightarrow> node_info list" where
  "start_track n = (make_track n)[1 := (make_track n ! 1)\<lparr>dst := 0\<rparr>]"

lemma start_track_nth:
  "1 < n \<Longrightarrow> v < n \<Longrightarrow> start_track n ! v = \<lparr>dst = (if v = 1 then 0 else kMaxVal), visited = False, idx = v\<rparr>"
  by (simp add: start_track_def make_track_def nth_list_update)

lemma start_track_length [simp]: "length (start_track n) = n"
  by (simp add: start_track_def make_track_def)

lemma start_inv:
  assumes "arrows_ok g"
  shows "track_inv g (start_track (length g))"
proof -
  have "1 < length g" using assms by (simp add: arrows_ok_def)
  moreover from this have "g \<noteq> []" by auto
  ultimately show ?thesis
    using walk_start [of g] start_track_nth [of "length g" 0]
    by (simp add: track_inv_def start_track_nth kMaxVal_def)
qed

lemma dijkstra_start: "arrows_ok g \<Longrightarrow> dijkstra fuel g = dijkstra_loop fuel g (start_track (length g))"
  by (simp add: dijkstra_def start_track_def arrows_ok_def make_track_def)

lemma least_unvisited:
  assumes inv: "track_inv g t" and m: "m < length t" "\<And>j. j < length t \<Longrightarrow> node_key (t ! m) \<le> node_key (t ! j)"
    "\<And>j. j < m \<Longrightarrow> node_key (t ! m) < node_key (t ! j)" and d: "dst (t ! m) \<noteq> kMaxVal"
  shows "\<not> visited (t ! m)" "dst (t ! m) < kMaxVal" "m \<noteq> 0"
    "\<And>v. v < length g \<Longrightarrow> \<not> visited (t ! v) \<Longrightarrow> dst (t ! m) \<le> dst (t ! v)"
proof -
  note i = track_invD [OF inv]
  show m0: "m \<noteq> 0" using d i(4) by metis
  have "node_key (t ! 0) = kMaxVal" using i(3,4) by (simp add: node_key_def)
  then have "node_key (t ! m) < kMaxVal" using m(3) [of 0] m0 by simp
  then show nv: "\<not> visited (t ! m)" and "dst (t ! m) < kMaxVal" by (auto simp: node_key_def split: if_splits)
  show "dst (t ! m) \<le> dst (t ! v)" if "v < length g" "\<not> visited (t ! v)" for v
    using m(2) [of v] that nv i(1) by (simp add: node_key_def)
qed

lemma step_inv:
  assumes ok: "arrows_ok g" and inv: "track_inv g t"
    and m: "m < length t" "\<not> visited (t ! m)" "dst (t ! m) < kMaxVal"
    and least: "\<And>v. v < length g \<Longrightarrow> \<not> visited (t ! v) \<Longrightarrow> dst (t ! m) \<le> dst (t ! v)"
    and r: "relaxed (dst (t ! m)) (g ! m) (t[m := (t ! m)\<lparr>visited := True\<rparr>]) t'"
  shows "track_inv g t'" "\<And>v. v < length g \<Longrightarrow> visited (t' ! v) = (v = m \<or> visited (t ! v))"
proof -
  note i = track_invD [OF inv]
  have len: "length t' = length g" using r i(1) by (simp add: relaxed_def)
  have mg: "m < length g" using m(1) i(1) by simp
  have out: "edge g m v w" if "n \<in> set (g ! m)" "nend n = int v" "w = weight n" for n v w
    using that mg by (simp add: edge_def) (metis neighbor.surjective old.unit.exhaust)
  have arr: "1 \<le> v \<and> v < length g \<and> 0 \<le> w" if "edge g u v w" for u v w
    using arrows_ok_edge [OF ok that] by simp
  have vis: "visited (t' ! v) = (v = m \<or> visited (t ! v))"
    and le: "dst (t' ! v) \<le> dst (t ! v)"
    and keep: "v = m \<or> visited (t ! v) \<longrightarrow> dst (t' ! v) = dst (t ! v)"
    and src: "dst (t' ! v) = dst (t ! v) \<or> (\<exists>w. edge g m v w \<and> dst (t' ! v) = dst (t ! m) + w)"
    and rel: "edge g m v w \<longrightarrow> v = m \<or> visited (t ! v) \<or> dst (t' ! v) \<le> dst (t ! m) + w"
    if v: "v < length g" for v w
  proof -
    let ?t = "t[m := (t ! m)\<lparr>visited := True\<rparr>]"
    have "v < length ?t" using v i(1) by simp
    then have a: "visited (t' ! v) = visited (?t ! v)" "dst (t' ! v) \<le> dst (?t ! v)"
        "visited (?t ! v) \<longrightarrow> dst (t' ! v) = dst (?t ! v)"
        "dst (t' ! v) = dst (?t ! v) \<or> (\<exists>n \<in> set (g ! m). nend n = int v \<and> dst (t' ! v) = dst (t ! m) + weight n)"
        "\<forall>n \<in> set (g ! m). nend n = int v \<longrightarrow> visited (?t ! v) \<or> dst (t' ! v) \<le> dst (t ! m) + weight n"
      using r unfolding relaxed_def by blast+
    have b: "visited (?t ! v) = (v = m \<or> visited (t ! v))" "dst (?t ! v) = dst (t ! v)"
      using v i(1) m(1) by (auto simp: nth_list_update)
    show "visited (t' ! v) = (v = m \<or> visited (t ! v))" "dst (t' ! v) \<le> dst (t ! v)"
      "v = m \<or> visited (t ! v) \<longrightarrow> dst (t' ! v) = dst (t ! v)"
      using a(1-3) b by simp_all
    show "dst (t' ! v) = dst (t ! v) \<or> (\<exists>w. edge g m v w \<and> dst (t' ! v) = dst (t ! m) + w)"
      using a(4) b(2) out by auto
    show "edge g m v w \<longrightarrow> v = m \<or> visited (t ! v) \<or> dst (t' ! v) \<le> dst (t ! m) + w"
      using a(5) b(1) by (force simp: edge_def)
  qed
  show "\<And>v. v < length g \<Longrightarrow> visited (t' ! v) = (v = m \<or> visited (t ! v))" by (rule vis)
  have lower: "dst (t ! u) \<le> dst (t' ! v)" if "v < length g" "\<not> visited (t' ! v)" "u < length g" "visited (t ! u) \<or> u = m" for u v
  proof -
    have nv: "\<not> visited (t ! v)" "v \<noteq> m" using vis [OF that(1)] that(2) by simp_all
    have um: "dst (t ! u) \<le> dst (t ! m)" using that(3,4) i(9) [of u m] mg m(2) by auto
    moreover have "dst (t ! m) \<le> dst (t ! v)" using least [OF that(1) nv(1)] .
    ultimately show ?thesis using src [OF that(1)] arr by force
  qed
  have g1: "1 < length g" and g0: "g \<noteq> []" using ok by (auto simp: arrows_ok_def)
  have nonneg: "0 \<le> dst (t' ! v)" if "v < length g" for v
    using src [OF that] i(5) [OF that] i(5) [OF mg] arr by force
  show "track_inv g t'"
    unfolding track_inv_def
  proof (intro conjI allI impI)
    show "length t' = length g" by (rule len)
    show "dst (t' ! 1) = 0" using le [OF g1] nonneg [OF g1] i(2) by simp
    have "m \<noteq> 0" using m(3) i(4) by (metis less_irrefl)
    then show "\<not> visited (t' ! 0)" using vis [of 0] g0 i(3) by simp
    show "dst (t' ! 0) = kMaxVal" using src [of 0] g0 i(4) arr [of m 0] by force
  next
    fix v assume v: "v < length g"
    show "0 \<le> dst (t' ! v)" by (rule nonneg [OF v])
    show "dst (t' ! v) \<le> kMaxVal" using le [OF v] i(5) [OF v] by simp
    show "walk g v (dst (t' ! v))" if "dst (t' ! v) < kMaxVal"
      using src [OF v] that i(6) [OF v] walk_step [OF i(6) [OF mg m(3)]] by auto
  next
    fix u assume u: "u < length g" "visited (t' ! u)"
    then have u': "u = m \<or> visited (t ! u)" using vis by simp
    then have same: "dst (t' ! u) = dst (t ! u)" using keep [OF u(1)] by auto
    show "dst (t' ! u) < kMaxVal" using u' same m(3) i(7) u(1) by auto
    show "dst (t' ! v) \<le> dst (t' ! u) + w" if e: "edge g u v w" for v w
    proof -
      have v: "v < length g" "0 \<le> w" using arr [OF e] by simp_all
      show ?thesis
      proof (cases "visited (t ! u)")
        case True
        then show ?thesis using i(8) [OF u(1) True e] le [OF v(1)] same by simp
      next
        case False
        then have "u = m" using u' by simp
        then show ?thesis
          using rel [OF v(1), of w] e i(9) [OF v(1) _ mg m(2)] le [OF v(1)] v(2) same by force
      qed
    qed
    show "dst (t' ! u) \<le> dst (t' ! v)" if "v < length g" "\<not> visited (t' ! v)" for v
      using lower [OF that u(1)] u' same by auto
  qed
qed

section \<open>Termination and the result\<close>

definition unvisited :: "neighbor list list \<Rightarrow> node_info list \<Rightarrow> nat set" where
  "unvisited g t = {v. v < length g \<and> \<not> visited (t ! v)}"

lemma step_cases:
  assumes ok: "arrows_ok g" and inv: "track_inv g t"
  shows "dijkstra_step g t = Inr None \<and> (\<forall>v < length g. visited (t ! v) \<or> dst (t ! v) = kMaxVal)
    \<or> (\<exists>t'. dijkstra_step g t = Inr (Some t') \<and> track_inv g t' \<and> card (unvisited g t') < card (unvisited g t))"
proof -
  note i = track_invD [OF inv]
  have "t \<noteq> []" using i(1) ok by (auto simp: arrows_ok_def)
  then obtain m where m: "min_element t = Some m" "m < length t"
      "\<And>j. j < length t \<Longrightarrow> node_key (t ! m) \<le> node_key (t ! j)"
      "\<And>j. j < m \<Longrightarrow> node_key (t ! m) < node_key (t ! j)"
    by (rule min_element_least) blast
  show ?thesis
  proof (cases "dst (t ! m) = kMaxVal")
    case True
    then have key: "node_key (t ! m) = kMaxVal" by (simp add: node_key_def)
    have "visited (t ! v) \<or> dst (t ! v) = kMaxVal" if v: "v < length g" for v
      using m(3) [of v] key v i(1) i(5) [OF v] by (simp add: node_key_def split: if_splits)
    then show ?thesis using m(1) True by (simp add: dijkstra_step_def)
  next
    case False
    note l = least_unvisited [OF inv m(2-4) False]
    have mg: "m < length g" using m(2) i(1) by simp
    have "\<forall>n \<in> set (g ! m). arrow_fits (length (t[m := (t ! m)\<lparr>visited := True\<rparr>])) n"
      using ok nth_mem [OF mg] i(1) by (fastforce simp: arrows_ok_def arrow_fits_def)
    from relax_all_relaxed [OF this, of "dst (t ! m)"]
    obtain t' where t': "relax_all (dst (t ! m)) (g ! m) (t[m := (t ! m)\<lparr>visited := True\<rparr>]) = Inr t'"
        "relaxed (dst (t ! m)) (g ! m) (t[m := (t ! m)\<lparr>visited := True\<rparr>]) t'"
      using i(5) [OF mg] l(2) by auto
    note s = step_inv [OF ok inv m(2) l(1,2,4) t'(2)]
    have "unvisited g t' = unvisited g t - {m}" using s(2) by (auto simp: unvisited_def)
    moreover have "m \<in> unvisited g t" "finite (unvisited g t)" using mg l(1) by (auto simp: unvisited_def)
    ultimately have "card (unvisited g t') < card (unvisited g t)" by (metis card_Diff1_less)
    then show ?thesis using m(1) False t'(1) s(1) mg by (simp add: dijkstra_step_def)
  qed
qed

lemma loop_ends:
  "arrows_ok g \<Longrightarrow> track_inv g t \<Longrightarrow> card (unvisited g t) \<le> fuel \<Longrightarrow>
   \<exists>t'. dijkstra_loop fuel g t = Inr t' \<and> track_inv g t'
     \<and> (\<forall>v < length g. visited (t' ! v) \<or> dst (t' ! v) = kMaxVal)"
proof (induction fuel arbitrary: t)
  case 0
  have "0 \<in> unvisited g t"
    using 0(1) track_invD(3) [OF 0(2)] by (auto simp: unvisited_def arrows_ok_def)
  moreover have "finite (unvisited g t)" by (simp add: unvisited_def)
  ultimately show ?case using 0(3) by auto
next
  case (Suc fuel)
  from step_cases [OF Suc.prems(1,2)] show ?case
  proof (elim disjE exE conjE)
    assume "dijkstra_step g t = Inr None" "\<forall>v < length g. visited (t ! v) \<or> dst (t ! v) = kMaxVal"
    then show ?thesis using Suc.prems(2) by simp
  next
    fix t' assume "dijkstra_step g t = Inr (Some t')" "track_inv g t'" "card (unvisited g t') < card (unvisited g t)"
    then show ?thesis using Suc.IH [of t'] Suc.prems(1,3) by simp
  qed
qed

lemma walk_bound:
  assumes ok: "arrows_ok g" and inv: "track_inv g t"
    and all: "\<forall>v < length g. visited (t ! v) \<or> dst (t ! v) = kMaxVal"
  shows "walk g v l \<Longrightarrow> v < length g \<and> dst (t ! v) \<le> l"
proof (induction rule: walk.induct)
  case walk_start
  then show ?case using ok track_invD(2) [OF inv] by (simp add: arrows_ok_def)
next
  case (walk_step u l v w)
  have v: "v < length g" "0 \<le> w" using arrows_ok_edge [OF ok walk_step(2)] by simp_all
  show ?case
  proof (cases "visited (t ! u)")
    case True
    then show ?thesis using track_invD(8) [OF inv _ _ walk_step(2)] walk_step(3) v(1) by fastforce
  next
    case False
    then show ?thesis using all walk_step(3) v track_invD(5) [OF inv v(1)] by fastforce
  qed
qed

text \<open>
  The specification: the least length of a walk from node 1, capped at \<open>kMaxVal\<close>.
\<close>

definition capped_distance :: "neighbor list list \<Rightarrow> nat \<Rightarrow> int \<Rightarrow> bool" where
  "capped_distance g v d \<longleftrightarrow>
     (\<forall>l. walk g v l \<longrightarrow> d \<le> l) \<and> d \<le> kMaxVal \<and> (d = kMaxVal \<or> walk g v d)"

lemma dijkstra_result:
  assumes "arrows_ok g" "length g \<le> fuel"
  shows "\<exists>t. dijkstra fuel g = Inr t \<and> length t = length g \<and> (\<forall>v < length g. capped_distance g v (dst (t ! v)))"
proof -
  have "card (unvisited g (start_track (length g))) \<le> card {..<length g}"
    by (rule card_mono) (auto simp: unvisited_def)
  then have "card (unvisited g (start_track (length g))) \<le> fuel" using assms(2) by simp
  from loop_ends [OF assms(1) start_inv [OF assms(1)] this]
  obtain t where t: "dijkstra fuel g = Inr t" "track_inv g t"
      "\<forall>v < length g. visited (t ! v) \<or> dst (t ! v) = kMaxVal"
    using dijkstra_start [OF assms(1)] by auto
  have "capped_distance g v (dst (t ! v))" if "v < length g" for v
    using walk_bound [OF assms(1) t(2,3)] track_invD(5,6) [OF t(2) that]
    by (auto simp: capped_distance_def not_less le_less)
  then show ?thesis using t(1) track_invD(1) [OF t(2)] by blast
qed

section \<open>An arrow to node 0\<close>

text \<open>Once node 0 is closer than \<open>kMaxVal\<close>, the loop cannot break any more.\<close>

definition zero_reached :: "neighbor list list \<Rightarrow> node_info list \<Rightarrow> bool" where
  "zero_reached g t \<longleftrightarrow> length t = length g \<and> dst (t ! 0) < kMaxVal
     \<and> (\<forall>v < length g. 0 \<le> dst (t ! v) \<and> dst (t ! v) \<le> kMaxVal)"

definition arrows_in_table :: "neighbor list list \<Rightarrow> bool" where
  "arrows_in_table g \<longleftrightarrow> 1 < length g \<and> (\<forall>ns \<in> set g. \<forall>n \<in> set ns. arrow_fits (length g) n)"

lemma relaxed_range:
  assumes "relaxed r ns t t'" "\<forall>n \<in> set ns. arrow_fits len n" "0 \<le> r" "v < length t"
    "0 \<le> dst (t ! v)" "dst (t ! v) \<le> kMaxVal"
  shows "0 \<le> dst (t' ! v) \<and> dst (t' ! v) \<le> kMaxVal"
proof -
  have "dst (t' ! v) \<le> dst (t ! v)" "dst (t' ! v) = dst (t ! v) \<or> (\<exists>n \<in> set ns. dst (t' ! v) = r + weight n)"
    using assms(1,4) unfolding relaxed_def by auto
  then show ?thesis using assms(2,3,5,6) unfolding arrow_fits_def by force
qed

lemma step_zero:
  assumes g: "arrows_in_table g" and z: "zero_reached g t"
  shows "\<exists>t'. dijkstra_step g t = Inr (Some t') \<and> zero_reached g t'"
proof -
  have len: "length t = length g" and r: "\<And>v. v < length g \<Longrightarrow> 0 \<le> dst (t ! v) \<and> dst (t ! v) \<le> kMaxVal"
    and z0: "dst (t ! 0) < kMaxVal" using z by (simp_all add: zero_reached_def)
  have "t \<noteq> []" using len g by (auto simp: arrows_in_table_def)
  then obtain m where m: "min_element t = Some m" "m < length t"
      "\<And>j. j < length t \<Longrightarrow> node_key (t ! m) \<le> node_key (t ! j)"
      "\<And>j. j < m \<Longrightarrow> node_key (t ! m) < node_key (t ! j)"
    by (rule min_element_least) blast
  have key0: "node_key (t ! 0) \<le> kMaxVal" using z0 by (simp add: node_key_def)
  have d: "dst (t ! m) < kMaxVal"
  proof (cases "m = 0")
    case False
    then have "node_key (t ! m) < kMaxVal" using m(4) [of 0] key0 by simp
    then show ?thesis by (simp add: node_key_def split: if_splits)
  qed (use z0 in simp)
  let ?t = "t[m := (t ! m)\<lparr>visited := True\<rparr>]"
  have fits: "\<forall>n \<in> set (g ! m). arrow_fits (length ?t) n"
    using g nth_mem [of m g] m(2) len by (auto simp: arrows_in_table_def)
  obtain t' where t': "relax_all (dst (t ! m)) (g ! m) ?t = Inr t'" "relaxed (dst (t ! m)) (g ! m) ?t t'"
    using relax_all_relaxed [OF fits, of "dst (t ! m)"] r [of m] m(2) len d by auto
  have same: "dst (?t ! v) = dst (t ! v)" if "v < length g" for v
    using that len by (cases "v = m") simp_all
  have "0 \<le> dst (t' ! v) \<and> dst (t' ! v) \<le> kMaxVal" if v: "v < length g" for v
    using relaxed_range [OF t'(2) fits, of v] r [of m] m(2) v r [OF v] same [OF v] len by simp
  moreover have "dst (t' ! 0) \<le> dst (?t ! 0)" using t'(2) \<open>t \<noteq> []\<close> by (simp add: relaxed_def)
  moreover have "dst (?t ! 0) = dst (t ! 0)" by (cases "m = 0") (use \<open>t \<noteq> []\<close> in simp_all)
  ultimately have "zero_reached g t'"
    using t'(2) len z0 by (simp add: zero_reached_def relaxed_def)
  then show ?thesis using m(1,2) d t'(1) len by (simp add: dijkstra_step_def)
qed

lemma loop_zero: "arrows_in_table g \<Longrightarrow> zero_reached g t \<Longrightarrow> dijkstra_loop fuel g t = Inl Out_Of_Fuel"
proof (induction fuel arbitrary: t)
  case (Suc fuel)
  then show ?case using step_zero [OF Suc.prems] by auto
qed simp

lemma first_step:
  assumes g: "arrows_in_table g" and n: "n \<in> set (g ! 1)" "nend n = 0" "weight n < kMaxVal"
  shows "\<exists>t. dijkstra_step g (start_track (length g)) = Inr (Some t) \<and> zero_reached g t"
proof -
  let ?s = "start_track (length g)"
  have g1: "1 < length g" and gne: "g \<noteq> []" using g by (auto simp: arrows_in_table_def)
  note nth = start_track_nth [OF g1]
  have "?s \<noteq> []" using gne by (metis length_0_conv start_track_length)
  then obtain m where m: "min_element ?s = Some m" "m < length ?s" "\<And>j. j < length ?s \<Longrightarrow> node_key (?s ! m) \<le> node_key (?s ! j)"
    by (rule min_element_least) blast
  have "node_key (?s ! 1) = 0" using g1 by (simp add: nth node_key_def)
  then have "node_key (?s ! m) \<le> 0" using m(3) [of 1] g1 by simp
  then have m1: "m = 1" using m(2) by (cases "m = 1") (simp_all add: nth node_key_def kMaxVal_def)
  let ?t = "?s[1 := (?s ! 1)\<lparr>visited := True\<rparr>]"
  have fits: "\<forall>n \<in> set (g ! 1). arrow_fits (length ?t) n"
    using g nth_mem [OF g1] by (auto simp: arrows_in_table_def)
  obtain t where t: "relax_all 0 (g ! 1) ?t = Inr t" "relaxed 0 (g ! 1) ?t t"
    using relax_all_relaxed [OF fits, of 0] by (auto simp: kMaxVal_def)
  have start: "0 \<le> dst (?t ! v) \<and> dst (?t ! v) \<le> kMaxVal" if "v < length g" for v
    using that g1 by (simp add: nth nth_list_update kMaxVal_def)
  have range: "0 \<le> dst (t ! v) \<and> dst (t ! v) \<le> kMaxVal" if v: "v < length g" for v
    using relaxed_range [OF t(2) fits, of v] start [OF v] v by simp
  have "\<not> visited (?t ! 0)" using g1 gne nth [of 0] by simp
  then have "dst (t ! 0) \<le> weight n"
    using t(2) n(1,2) gne unfolding relaxed_def by force
  then have "zero_reached g t"
    using t(2) n(3) range by (simp add: zero_reached_def relaxed_def)
  moreover have "dst (?s ! 1) = 0" using g1 by (simp add: nth)
  ultimately show ?thesis
    using m(1) m1 t(1) g1 by (simp add: dijkstra_step_def kMaxVal_def)
qed

section \<open>Properties\<close>

text \<open>
  C7. The result is the shortest distance: on a graph whose arrows lead to real nodes with
  weights that are not negative, the loop ends within as many turns as the table has
  entries, and every entry is the least length of a walk from node 1, capped at \<open>kMaxVal\<close>.
\<close>

theorem dijkstra_shortest:
  assumes "arrows_ok g" "length g \<le> fuel"
  shows "\<exists>t. dijkstra fuel g = Inr t \<and> length t = length g
     \<and> (\<forall>v < length g. capped_distance g v (dst (t ! v)))"
  by (rule dijkstra_result [OF assms])

text \<open>A triangle in which the way over node 3 is shorter.\<close>

definition triangle :: "neighbor list list" where
  "triangle = [[], [\<lparr>weight = 9, nend = 2\<rparr>, \<lparr>weight = 2, nend = 3\<rparr>], [], [\<lparr>weight = 4, nend = 2\<rparr>]]"

lemma triangle_distances: "dijkstra 4 triangle = Inr
   [\<lparr>dst = 1000000, visited = False, idx = 0\<rparr>, \<lparr>dst = 0, visited = True, idx = 1\<rparr>,
    \<lparr>dst = 6, visited = True, idx = 2\<rparr>, \<lparr>dst = 2, visited = True, idx = 3\<rparr>]"
  by code_simp

theorem dijkstra_shortest_witness: "capped_distance triangle 2 6"
proof -
  have "arrows_ok triangle" by (simp add: arrows_ok_def triangle_def kMaxVal_def int_max_def)
  from dijkstra_shortest [OF this, of 4] show ?thesis
    by (auto simp: triangle_distances) (auto simp: triangle_def dest!: spec [of _ "2 :: nat"])
qed

text \<open>
  An arrow to the fake node 0 stops the program from ending: once node 0 has a distance,
  \<open>min_element\<close> over visited nodes returns it, its distance is not \<open>kMaxVal\<close>, and the loop
  visits it again, however many turns it is given.
\<close>

theorem dijkstra_zero_diverges:
  assumes "arrows_in_table g" "n \<in> set (g ! 1)" "nend n = 0" "weight n < kMaxVal"
  shows "dijkstra fuel g = Inl Out_Of_Fuel"
proof -
  have "dijkstra fuel g = dijkstra_loop fuel g (start_track (length g))"
    using assms(1) by (simp add: dijkstra_def start_track_def arrows_in_table_def make_track_def)
  moreover obtain t where "dijkstra_step g (start_track (length g)) = Inr (Some t)" "zero_reached g t"
    using first_step [OF assms] by blast
  ultimately show ?thesis using loop_zero [OF assms(1)] by (cases fuel) auto
qed

theorem dijkstra_zero_diverges_witness:
  "dijkstra 100 [[], [\<lparr>weight = 5, nend = 0\<rparr>]] = Inl Out_Of_Fuel"
  by (rule dijkstra_zero_diverges [of _ "\<lparr>weight = 5, nend = 0\<rparr>"])
     (simp_all add: arrows_in_table_def arrow_fits_def kMaxVal_def int_max_def)

end
