(* ===== verification/Lru.thy ===== *)
theory Lru
  imports Prelude
begin

text \<open>
  The least-recently-used cache of \<^verbatim>\<open>projects/high_perf/lru_benchmark.cc\<close>: a list of keys from
  the least to the most recently used and a map from keys to iterators into it. A list node
  has an address, which is what the iterators of the map hold; erasing an iterator that is
  not in the list is undefined behaviour, and so is \<open>front\<close> of an empty list.
  The abstract cache is the list of keys alone. The locale \<open>lru_cache\<close> states what the
  implementation owes to it and proves, once, what a run of \<open>Put\<close>s holds.
\<close>

section \<open>The cache\<close>

record 'k lru =
  lru_list :: "(nat \<times> 'k) list"
  lru_map :: "'k \<Rightarrow> nat option"
  max_size :: nat
  next_node :: nat

definition Lru :: "nat \<Rightarrow> 'k lru" where
  "Lru bound = \<lparr>lru_list = [], lru_map = Map.empty, max_size = bound, next_node = 0\<rparr>"

text \<open>\<open>list_.insert(list_.end(), key)\<close>: the iterator of the new node and the state.\<close>

definition insert_back :: "'k \<Rightarrow> 'k lru \<Rightarrow> nat \<times> 'k lru" where
  "insert_back key s =
     (next_node s, s\<lparr>lru_list := lru_list s @ [(next_node s, key)], next_node := next_node s + 1\<rparr>)"

definition erase_node :: "nat \<Rightarrow> 'k lru \<Rightarrow> 'k lru result" where
  "erase_node i s =
     (if i \<in> set (map fst (lru_list s)) then Inr (s\<lparr>lru_list := filter (\<lambda>n. fst n \<noteq> i) (lru_list s)\<rparr>)
      else Inl Undefined_Behaviour)"

definition set_key :: "'k \<Rightarrow> nat \<times> 'k lru \<Rightarrow> 'k lru" where
  "set_key key r = (snd r)\<lparr>lru_map := (lru_map (snd r))(key \<mapsto> fst r)\<rparr>"

definition Has :: "'k \<Rightarrow> 'k lru \<Rightarrow> (bool \<times> 'k lru) result" where
  "Has key s =
     (case lru_map s key of
        None \<Rightarrow> Inr (False, s)
      | Some list_it \<Rightarrow> bindr (erase_node list_it s) (\<lambda>s'. Inr (True, set_key key (insert_back key s'))))"

text \<open>The entry that makes room: \<open>front\<close>, \<open>pop_front\<close> and \<open>map_.erase\<close>.\<close>

definition evict :: "'k lru \<Rightarrow> 'k lru result" where
  "evict s =
     (case lru_list s of
        [] \<Rightarrow> Inl Undefined_Behaviour
      | (i, oldest) # rest \<Rightarrow> Inr (s\<lparr>lru_list := rest, lru_map := (lru_map s)(oldest := None)\<rparr>))"

definition Put :: "'k \<Rightarrow> 'k lru \<Rightarrow> (bool \<times> 'k lru) result" where
  "Put key s =
     (case lru_map s key of
        Some it \<Rightarrow> bindr (erase_node it s) (\<lambda>s'. Inr (False, set_key key (insert_back key s')))
      | None \<Rightarrow>
          bindr (if length (lru_list s) = max_size s then evict s else Inr s) (\<lambda>s'.
            Inr (True, set_key key (insert_back key s'))))"

text \<open>The loop of the benchmarks: every key in turn.\<close>

fun put_all :: "'k list \<Rightarrow> 'k lru \<Rightarrow> 'k lru result" where
  "put_all [] s = Inr s"
| "put_all (key # keys) s = bindr (Put key s) (\<lambda>r. put_all keys (snd r))"

fun has_all :: "'k list \<Rightarrow> 'k lru \<Rightarrow> (bool list \<times> 'k lru) result" where
  "has_all [] s = Inr ([], s)"
| "has_all (key # keys) s =
     bindr (Has key s) (\<lambda>(b, s'). bindr (has_all keys s') (\<lambda>(bs, s''). Inr (b # bs, s'')))"

section \<open>The abstract cache\<close>

definition touch :: "'k \<Rightarrow> 'k list \<Rightarrow> 'k list" where
  "touch k ks = removeAll k ks @ [k]"

definition has_spec :: "'k \<Rightarrow> 'k list \<Rightarrow> bool \<times> 'k list" where
  "has_spec k ks = (if k \<in> set ks then (True, touch k ks) else (False, ks))"

definition put_spec :: "nat \<Rightarrow> 'k \<Rightarrow> 'k list \<Rightarrow> bool \<times> 'k list" where
  "put_spec n k ks =
     (if k \<in> set ks then (False, touch k ks)
      else (True, (if length ks = n then tl ks else ks) @ [k]))"

definition last_n :: "nat \<Rightarrow> 'k list \<Rightarrow> 'k list" where
  "last_n n ks = drop (length ks - n) ks"

lemma last_n_short: "length ks \<le> n \<Longrightarrow> last_n n ks = ks"
  by (simp add: last_n_def)

lemma last_n_append: "length ys = n \<Longrightarrow> last_n n (xs @ ys) = ys"
  by (simp add: last_n_def)

lemma last_n_split: "\<exists>ps. ks = ps @ last_n n ks \<and> (ps = [] \<or> length (last_n n ks) = n)"
proof -
  have "ks = take (length ks - n) ks @ last_n n ks" by (simp add: last_n_def)
  moreover have "take (length ks - n) ks = [] \<or> length (last_n n ks) = n" by (auto simp: last_n_def)
  ultimately show ?thesis by blast
qed

lemma remdups_snoc: "remdups (ks @ [k]) = touch k (remdups ks)"
proof -
  have "remdups (ks @ [k]) = removeAll k (remdups ks) @ [k]"
    by (induction ks) auto
  then show ?thesis by (simp add: touch_def)
qed

text \<open>One \<open>Put\<close> on the last \<open>n\<close> of a list without repetitions.\<close>

lemma put_last_n:
  assumes "distinct ks" "0 < n"
  shows "snd (put_spec n k (last_n n ks)) = last_n n (touch k ks)"
proof -
  obtain ps where ps: "ks = ps @ last_n n ks" "ps = [] \<or> length (last_n n ks) = n"
    using last_n_split by blast
  define cs where "cs = last_n n ks"
  have ks: "ks = ps @ cs" and full: "ps = [] \<or> length cs = n" and le: "length cs \<le> n"
    using ps cs_def by (simp_all add: last_n_def)
  have d: "distinct cs" "set ps \<inter> set cs = {}" using assms(1) ks by auto
  have "snd (put_spec n k cs) = last_n n (touch k ks)"
  proof (cases "k \<in> set cs")
    case True
    then have "k \<notin> set ps" using d(2) by auto
    then have "touch k ks = ps @ touch k cs" using ks by (simp add: touch_def)
    moreover have "length (touch k cs) = length cs"
      using True d(1) by (simp add: touch_def distinct_remove1_removeAll [symmetric] length_remove1)
        (use True in \<open>cases cs; simp\<close>)
    ultimately show ?thesis
      using True full le by (auto simp: put_spec_def last_n_append last_n_short)
  next
    case False
    then have t: "touch k ks = removeAll k ps @ cs @ [k]" by (simp add: touch_def ks)
    show ?thesis
    proof (cases "length cs = n")
      case True
      then obtain c cs' where c: "cs = c # cs'" using assms(2) by (cases cs) auto
      then have "last_n n (touch k ks) = cs' @ [k]"
        using t True last_n_append [of "cs' @ [k]" n "removeAll k ps @ [c]"] by simp
      then show ?thesis using False True c by (simp add: put_spec_def)
    next
      case not_full: False
      then have "ps = []" using full by simp
      then show ?thesis using False t not_full le by (simp add: put_spec_def last_n_short)
    qed
  qed
  then show ?thesis by (simp add: cs_def)
qed

section \<open>What an implementation owes\<close>

locale lru_cache =
  fixes keys_of :: "'s \<Rightarrow> 'k list"
    and good :: "nat \<Rightarrow> 's \<Rightarrow> bool"
    and has_op :: "'k \<Rightarrow> 's \<Rightarrow> (bool \<times> 's) result"
    and put_op :: "'k \<Rightarrow> 's \<Rightarrow> (bool \<times> 's) result"
    and empty_cache :: "nat \<Rightarrow> 's"
  assumes good_empty: "good n (empty_cache n)" "keys_of (empty_cache n) = []"
    and distinct_keys: "good n s \<Longrightarrow> distinct (keys_of s)"
    and size_bound: "good n s \<Longrightarrow> length (keys_of s) \<le> n"
    and has_refines: "good n s \<Longrightarrow>
      \<exists>s'. has_op k s = Inr (fst (has_spec k (keys_of s)), s') \<and> good n s' \<and> keys_of s' = snd (has_spec k (keys_of s))"
    and put_refines: "good n s \<Longrightarrow> 0 < n \<Longrightarrow>
      \<exists>s'. put_op k s = Inr (fst (put_spec n k (keys_of s)), s') \<and> good n s' \<and> keys_of s' = snd (put_spec n k (keys_of s))"
begin

fun puts :: "'k list \<Rightarrow> 's \<Rightarrow> 's result" where
  "puts [] s = Inr s"
| "puts (k # ks) s = bindr (put_op k s) (\<lambda>r. puts ks (snd r))"

lemma puts_snoc: "puts (ks @ [k]) s = bindr (puts ks s) (\<lambda>s'. bindr (put_op k s') (\<lambda>r. Inr (snd r)))"
  by (induction ks arbitrary: s) (auto simp: bindr_def split: sum.splits)

lemma puts_hold_recent:
  assumes "0 < n"
  shows "\<exists>s. puts ks (empty_cache n) = Inr s \<and> good n s \<and> keys_of s = last_n n (remdups ks)"
proof (induction ks rule: rev_induct)
  case Nil
  show ?case using good_empty [of n] by (simp add: last_n_def)
next
  case (snoc k ks)
  then obtain s where s: "puts ks (empty_cache n) = Inr s" "good n s" "keys_of s = last_n n (remdups ks)" by blast
  obtain s' b where "put_op k s = Inr (b, s')" "good n s'" "keys_of s' = snd (put_spec n k (keys_of s))"
    using put_refines [OF s(2) assms] by blast
  then show ?case
    using s put_last_n [of "remdups ks" n k] assms by (simp add: puts_snoc remdups_snoc del: remdups_append)
qed

lemma has_after_puts:
  assumes "0 < n"
  shows "\<exists>s b s'. puts ks (empty_cache n) = Inr s \<and> has_op k s = Inr (b, s')
    \<and> (b \<longleftrightarrow> k \<in> set (last_n n (remdups ks)))"
  using puts_hold_recent [OF assms, of ks] has_refines [of n _ k] by (fastforce simp: has_spec_def split: if_splits)

end

section \<open>The implementation\<close>

definition keys_of :: "'k lru \<Rightarrow> 'k list" where
  "keys_of s = map snd (lru_list s)"

definition lru_good :: "nat \<Rightarrow> 'k lru \<Rightarrow> bool" where
  "lru_good n s \<longleftrightarrow> max_size s = n \<and> length (lru_list s) \<le> n
     \<and> distinct (map fst (lru_list s)) \<and> distinct (map snd (lru_list s))
     \<and> (\<forall>p \<in> set (lru_list s). fst p < next_node s)
     \<and> (\<forall>k i. lru_map s k = Some i \<longleftrightarrow> (i, k) \<in> set (lru_list s))"

lemma lru_goodD:
  assumes "lru_good n s"
  shows "max_size s = n" "length (lru_list s) \<le> n" "distinct (map fst (lru_list s))"
    "distinct (map snd (lru_list s))" "\<And>p. p \<in> set (lru_list s) \<Longrightarrow> fst p < next_node s"
    "\<And>k i. lru_map s k = Some i \<longleftrightarrow> (i, k) \<in> set (lru_list s)"
  using assms unfolding lru_good_def by blast+

text \<open>A node inserted into a list without its key, all other keys being in order.\<close>

lemma insert_good:
  assumes "max_size s = n" "length (lru_list s) < n" "distinct (map fst (lru_list s))"
    "distinct (map snd (lru_list s))" "k \<notin> snd ` set (lru_list s)"
    "\<And>p. p \<in> set (lru_list s) \<Longrightarrow> fst p < next_node s"
    "\<And>q i. q \<noteq> k \<Longrightarrow> lru_map s q = Some i \<longleftrightarrow> (i, q) \<in> set (lru_list s)"
  shows "lru_good n (set_key k (insert_back k s))
    \<and> keys_of (set_key k (insert_back k s)) = map snd (lru_list s) @ [k]"
proof -
  have "next_node s \<notin> fst ` set (lru_list s)" using assms(6) by fastforce
  then show ?thesis
    using assms by (auto simp: lru_good_def set_key_def insert_back_def keys_of_def less_Suc_eq rev_image_eqI)
qed

lemma filter_node:
  assumes "distinct (map fst l)" "distinct (map snd l)" "(i, k) \<in> set l"
  shows "map snd (filter (\<lambda>p. fst p \<noteq> i) l) = removeAll k (map snd l)"
    "filter (\<lambda>p. fst p \<noteq> i) l = filter (\<lambda>p. snd p \<noteq> k) l"
proof -
  have "fst p \<noteq> i \<longleftrightarrow> snd p \<noteq> k" if "p \<in> set l" for p
  proof -
    have "fst p = fst (i, k) \<longleftrightarrow> p = (i, k)" "snd p = snd (i, k) \<longleftrightarrow> p = (i, k)"
      using that assms by (auto simp: distinct_map inj_on_eq_iff simp del: fst_conv snd_conv)
    then show ?thesis by simp
  qed
  then show eq: "filter (\<lambda>p. fst p \<noteq> i) l = filter (\<lambda>p. snd p \<noteq> k) l" by (rule filter_cong [OF refl])
  show "map snd (filter (\<lambda>p. fst p \<noteq> i) l) = removeAll k (map snd l)"
    unfolding eq by (simp add: removeAll_filter_not_eq filter_map comp_def) metis
qed

lemma erase_then_insert:
  assumes g: "lru_good n s" and k: "lru_map s k = Some i"
  shows "\<exists>s1. erase_node i s = Inr s1 \<and> lru_good n (set_key k (insert_back k s1))
    \<and> keys_of (set_key k (insert_back k s1)) = touch k (keys_of s)"
proof -
  note d = lru_goodD [OF g]
  have ik: "(i, k) \<in> set (lru_list s)" using k d(6) by simp
  let ?l = "filter (\<lambda>p. fst p \<noteq> i) (lru_list s)"
  note f = filter_node [OF d(3,4) ik]
  have "length ?l < length (lru_list s)" using ik by (intro length_filter_less) auto
  then have len: "length ?l < n" using d(2) by simp
  let ?s = "s\<lparr>lru_list := ?l\<rparr>"
  have "lru_good n (set_key k (insert_back k ?s)) \<and> keys_of (set_key k (insert_back k ?s)) = map snd (lru_list ?s) @ [k]"
  proof (rule insert_good)
    show "distinct (map fst (lru_list ?s))" "distinct (map snd (lru_list ?s))"
      using d(3,4) by (simp_all add: distinct_map_filter)
    show "k \<notin> snd ` set (lru_list ?s)" unfolding f(2) by auto
    show "lru_map ?s q = Some j \<longleftrightarrow> (j, q) \<in> set (lru_list ?s)" if "q \<noteq> k" for q j
      using that d(6) unfolding f(2) by simp
  qed (use d len in auto)
  then show ?thesis
    using ik f(1) by (auto simp: erase_node_def touch_def keys_of_def rev_image_eqI)
qed

lemma member_map: "lru_good n s \<Longrightarrow> k \<in> set (keys_of s) \<longleftrightarrow> (\<exists>i. lru_map s k = Some i)"
  by (auto simp: keys_of_def lru_goodD(6)) force

lemma Has_refines:
  assumes "lru_good n s"
  shows "\<exists>s'. Has k s = Inr (fst (has_spec k (keys_of s)), s') \<and> lru_good n s'
    \<and> keys_of s' = snd (has_spec k (keys_of s))"
proof (cases "lru_map s k")
  case None
  then show ?thesis using assms member_map [OF assms, of k] by (simp add: Has_def has_spec_def)
next
  case (Some i)
  then show ?thesis
    using erase_then_insert [OF assms Some] member_map [OF assms, of k] by (auto simp: Has_def has_spec_def)
qed

lemma Put_refines:
  assumes g: "lru_good n s" and n: "0 < n"
  shows "\<exists>s'. Put k s = Inr (fst (put_spec n k (keys_of s)), s') \<and> lru_good n s'
    \<and> keys_of s' = snd (put_spec n k (keys_of s))"
proof (cases "lru_map s k")
  case (Some i)
  then show ?thesis
    using erase_then_insert [OF g Some] member_map [OF g, of k] by (auto simp: Put_def put_spec_def)
next
  case None
  note d = lru_goodD [OF g]
  have nk: "k \<notin> set (keys_of s)" using member_map [OF g, of k] None by simp
  show ?thesis
  proof (cases "length (lru_list s) = n")
    case False
    have "lru_good n (set_key k (insert_back k s)) \<and> keys_of (set_key k (insert_back k s)) = map snd (lru_list s) @ [k]"
      by (rule insert_good) (use d False nk in \<open>auto simp: keys_of_def\<close>)
    then show ?thesis using None False nk d(1) by (simp add: Put_def put_spec_def keys_of_def)
  next
    case True
    then obtain i old l where l: "lru_list s = (i, old) # l" using n by (cases "lru_list s") auto
    let ?s = "s\<lparr>lru_list := l, lru_map := (lru_map s)(old := None)\<rparr>"
    have "lru_good n (set_key k (insert_back k ?s)) \<and> keys_of (set_key k (insert_back k ?s)) = map snd (lru_list ?s) @ [k]"
    proof (rule insert_good)
      show "lru_map ?s q = Some j \<longleftrightarrow> (j, q) \<in> set (lru_list ?s)" if "q \<noteq> k" for q j
        using d(4,6) l by (auto simp: rev_image_eqI)
    qed (use d True nk l in \<open>auto simp: keys_of_def\<close>)
    then show ?thesis
      using None True nk d(1) l by (simp add: Put_def put_spec_def keys_of_def evict_def)
  qed
qed

interpretation lruc: lru_cache keys_of lru_good Has Put Lru
proof
  show "lru_good n (Lru n)" "keys_of (Lru n :: 'k lru) = []" for n
    by (simp_all add: lru_good_def Lru_def keys_of_def)
  show "distinct (keys_of s)" "length (keys_of s) \<le> n" if "lru_good n s" for n and s :: "'k lru"
    using that by (simp_all add: lru_good_def keys_of_def)
qed (rule Has_refines Put_refines, assumption+)+

lemma put_all_puts: "put_all ks s = lruc.puts ks s"
  by (induction ks arbitrary: s) simp_all

lemma put_all_recent:
  "0 < n \<Longrightarrow> \<exists>s. put_all ks (Lru n) = Inr s \<and> lru_good n s \<and> keys_of s = last_n n (remdups ks)"
  unfolding put_all_puts by (rule lruc.puts_hold_recent)

text \<open>
  Looking keys up that are all present only reorders: the first benchmark loop after the
  filling one answers \<open>true\<close> for every key.
\<close>

lemma has_all_present:
  "lru_good n s \<Longrightarrow> set qs \<subseteq> set (keys_of s) \<Longrightarrow>
   \<exists>s'. has_all qs s = Inr (replicate (length qs) True, s') \<and> lru_good n s' \<and> set (keys_of s') = set (keys_of s)"
proof (induction qs arbitrary: s)
  case (Cons q qs)
  obtain s1 where s1: "Has q s = Inr (True, s1)" "lru_good n s1" "keys_of s1 = touch q (keys_of s)"
    using Has_refines [OF Cons.prems(1), of q] Cons.prems(2) by (auto simp: has_spec_def)
  moreover have "set (keys_of s1) = set (keys_of s)" using s1(3) Cons.prems(2) by (auto simp: touch_def)
  ultimately show ?case using Cons.IH [OF s1(2)] Cons.prems(2) by fastforce
qed auto

text \<open>With no room at all the first \<open>Put\<close> reads the front of an empty list.\<close>

lemma lru_zero_size: "Put k (Lru 0) = Inl Undefined_Behaviour"
  by (simp add: Put_def Lru_def evict_def)

section \<open>Properties\<close>

text \<open>
  C12. A cache with room for \<open>n\<close> keys holds, after any run of \<open>Put\<close>s, exactly the last \<open>n\<close>
  different keys, from the least to the most recently used, and \<open>Has\<close> answers whether
  a key is one of them.
\<close>

theorem lru_holds_recent:
  assumes "0 < n"
  shows "\<exists>s. put_all ks (Lru n) = Inr s \<and> keys_of s = last_n n (remdups ks)
    \<and> (\<exists>s'. Has k s = Inr (k \<in> set (last_n n (remdups ks)), s'))"
proof -
  obtain s where "put_all ks (Lru n) = Inr s" "lru_good n s" "keys_of s = last_n n (remdups ks)"
    using put_all_recent [OF assms] by blast
  then show ?thesis
    using Has_refines [of n s k] by (fastforce simp: has_spec_def split: if_splits)
qed

theorem lru_holds_recent_witness:
  "\<exists>s. put_all [1 :: nat, 2, 3, 1, 4] (Lru 3) = Inr s \<and> keys_of s = [3, 1, 4]"
  using lru_holds_recent [of 3 "[1 :: nat, 2, 3, 1, 4]"]
  by (auto simp: last_n_def simp del: put_all.simps)

text \<open>
  C25. Refinement: from a good state (map and list agree, the size within the bound), \<open>Has\<close>
  and \<open>Put\<close> return what the abstract cache returns, never fail, and end in a good state
  that represents the abstract result.
\<close>

theorem lru_refines:
  assumes "lru_good n s" "0 < n"
  shows "(\<exists>s'. Has k s = Inr (fst (has_spec k (keys_of s)), s') \<and> lru_good n s'
        \<and> keys_of s' = snd (has_spec k (keys_of s)))
    \<and> (\<exists>s'. Put k s = Inr (fst (put_spec n k (keys_of s)), s') \<and> lru_good n s'
        \<and> keys_of s' = snd (put_spec n k (keys_of s)))"
  using Has_refines [OF assms(1)] Put_refines [OF assms] by blast

theorem lru_refines_witness:
  "\<exists>s'. Put (7 :: nat) (Lru 2) = Inr (True, s') \<and> keys_of s' = [7]"
proof -
  have e: "keys_of (Lru 2 :: nat lru) = []" by (simp add: keys_of_def Lru_def)
  have "lru_good 2 (Lru 2 :: nat lru)" by (simp add: lru_good_def Lru_def)
  from lru_refines [OF this, of 7] show ?thesis by (auto simp: put_spec_def e)
qed

end
