(* ===== verification/Documents.thy ===== *)
theory Documents
  imports Text_Input
begin

text \<open>
  The documents of \<^verbatim>\<open>edu/talks/sean_parent/inh_evil_reduce_c11_apps.cc\<close> and
  \<^verbatim>\<open>inh_evil_reduce_c98_apps.cc\<close>: objects that hold a value of any type behind a pointer to a
  model, documents that are vectors of objects and can be values themselves, and a history of
  documents with \<open>commit\<close>, \<open>undo\<close> and \<open>current\<close>.

  The heap of models is explicit. An object is the address its smart pointer holds; in one
  family of classes a copy of an object copies its model, and with it all objects inside
  (\<open>unique_ptr\<close>, \<open>scoped_ptr\<close>), in the other it copies the pointer (\<open>shared_ptr\<close> to const). What the
  smart pointers release is not reachable any more and cannot be observed, so cells are never
  reused here. Recursion follows the nesting of documents; the depth a call may need is bounded
  by the number of cells, which is the fuel the operations take, and the lemmas show it suffices.

  The locale \<open>object_copying\<close> is what a history needs of copying; it is interpreted for both
  families, so that the abstract behaviour is proved once.
\<close>

section \<open>Models on the heap\<close>

datatype model =
    Int_model int
  | String_model string
  | Document_model "nat list"
  | My_class_model

record world =
  heap :: "nat \<Rightarrow> model option"
  brk :: nat
  cout_text :: string

definition empty_world :: world where
  "empty_world = \<lparr>heap = Map.empty, brk = 0, cout_text = []\<rparr>"

definition say :: "string \<Rightarrow> world \<Rightarrow> world" where
  "say msg w = w\<lparr>cout_text := cout_text w @ msg\<rparr>"

definition new_model :: "model \<Rightarrow> world \<Rightarrow> nat \<times> world" where
  "new_model m w = (brk w, w\<lparr>heap := (heap w)(brk w \<mapsto> m), brk := brk w + 1\<rparr>)"

definition spaces :: "nat \<Rightarrow> string" where
  "spaces position = replicate position (CHR '' '')"

text \<open>The function templates \<open>draw\<close> for values that a stream can print.\<close>

definition draw_text :: "string \<Rightarrow> nat \<Rightarrow> string" where
  "draw_text x position = spaces position @ x @ [newline]"

definition draw_int :: "int \<Rightarrow> nat \<Rightarrow> string" where
  "draw_int x position = draw_text (show_int x) position"

definition draw_my_class :: "nat \<Rightarrow> string" where
  "draw_my_class position = spaces position @ ''my_class_t()'' @ [newline]"

definition draw_document_with :: "('o \<Rightarrow> nat \<Rightarrow> string result) \<Rightarrow> 'o list \<Rightarrow> nat \<Rightarrow> string result" where
  "draw_document_with dr x position =
     bindr (mapr (\<lambda>e. dr e (position + 2)) x) (\<lambda>parts.
       Inr (spaces position @ ''<document>'' @ [newline] @ concat parts
            @ spaces position @ ''</document>'' @ [newline]))"

text \<open>\<open>draw(object)\<close> is \<open>x.self_->draw_(out, position)\<close>, the virtual call to the model.\<close>

primrec draw_obj :: "nat \<Rightarrow> world \<Rightarrow> nat \<Rightarrow> nat \<Rightarrow> string result" where
  "draw_obj 0 w x position = Inl Out_Of_Fuel"
| "draw_obj (Suc fuel) w x position =
     (case heap w x of
        None \<Rightarrow> Inl Undefined_Behaviour
      | Some (Int_model d) \<Rightarrow> Inr (draw_int d position)
      | Some (String_model d) \<Rightarrow> Inr (draw_text d position)
      | Some My_class_model \<Rightarrow> Inr (draw_my_class position)
      | Some (Document_model d) \<Rightarrow> draw_document_with (draw_obj fuel w) d position)"

definition draw_document :: "world \<Rightarrow> nat list \<Rightarrow> nat \<Rightarrow> string result" where
  "draw_document w x position = draw_document_with (draw_obj (brk w) w) x position"

section \<open>Copying\<close>

fun copy_objs :: "(nat \<Rightarrow> world \<Rightarrow> (nat \<times> world) result) \<Rightarrow> nat list \<Rightarrow> world \<Rightarrow> (nat list \<times> world) result" where
  "copy_objs cp [] w = Inr ([], w)"
| "copy_objs cp (x # xs) w =
     bindr (cp x w) (\<lambda>(y, w1). bindr (copy_objs cp xs w1) (\<lambda>(ys, w2). Inr (y # ys, w2)))"

text \<open>
  The copy constructor over \<open>copy_()\<close>: a new model of the same data, where the data of a
  document are objects and are copied in turn. The class prints \<open>msg\<close> after each copy.
\<close>

primrec copy_obj :: "nat \<Rightarrow> string \<Rightarrow> nat \<Rightarrow> world \<Rightarrow> (nat \<times> world) result" where
  "copy_obj 0 msg x w = Inl Out_Of_Fuel"
| "copy_obj (Suc fuel) msg x w =
     (case heap w x of
        None \<Rightarrow> Inl Undefined_Behaviour
      | Some (Document_model d) \<Rightarrow>
          bindr (copy_objs (copy_obj fuel msg) d w) (\<lambda>(d', w1).
            let (a, w2) = new_model (Document_model d') w1 in Inr (a, say msg w2))
      | Some m \<Rightarrow> (let (a, w1) = new_model m w in Inr (a, say msg w1)))"

text \<open>
  Assignment copies into a temporary and takes its model over: the pointer the left side
  holds afterwards.
\<close>

definition assign_obj :: "string \<Rightarrow> string \<Rightarrow> nat \<Rightarrow> world \<Rightarrow> (nat \<times> world) result" where
  "assign_obj copy_msg assign_msg x w =
     bindr (copy_obj (brk w) copy_msg x w) (\<lambda>(a, w1). Inr (a, say assign_msg w1))"

section \<open>The steps of the talk\<close>

text \<open>The first step keeps the \<open>int\<close> in the object itself.\<close>

definition step1_draw :: "int \<Rightarrow> nat \<Rightarrow> string" where
  "step1_draw self position = draw_int self position"

definition step2_construct :: "int \<Rightarrow> world \<Rightarrow> nat \<times> world" where
  "step2_construct x w = new_model (Int_model x) w"

definition step2_copy :: "nat \<Rightarrow> world \<Rightarrow> (nat \<times> world) result" where
  "step2_copy x w = copy_obj (brk w) [] x w"

definition step2_assign :: "nat \<Rightarrow> world \<Rightarrow> (nat \<times> world) result" where
  "step2_assign x w = assign_obj [] [] x w"

definition step3_construct :: "int \<Rightarrow> world \<Rightarrow> nat \<times> world" where
  "step3_construct x w = (let (a, w1) = new_model (Int_model x) w in (a, say (''ctor'' @ [newline]) w1))"

definition step3_copy :: "nat \<Rightarrow> world \<Rightarrow> (nat \<times> world) result" where
  "step3_copy x w = copy_obj (brk w) (''copy'' @ [newline]) x w"

definition step3_assign :: "nat \<Rightarrow> world \<Rightarrow> (nat \<times> world) result" where
  "step3_assign x w = assign_obj (''copy'' @ [newline]) [] x w"

definition step4_construct_string :: "string \<Rightarrow> world \<Rightarrow> nat \<times> world" where
  "step4_construct_string x w = new_model (String_model x) w"

definition step4_construct_int :: "int \<Rightarrow> world \<Rightarrow> nat \<times> world" where
  "step4_construct_int x w = (let (a, w1) = new_model (Int_model x) w in (a, say (''ctor'' @ [newline]) w1))"

definition step4_copy :: "nat \<Rightarrow> world \<Rightarrow> (nat \<times> world) result" where
  "step4_copy x w = copy_obj (brk w) (''copy'' @ [newline]) x w"

definition step4_assign :: "nat \<Rightarrow> world \<Rightarrow> (nat \<times> world) result" where
  "step4_assign x w = assign_obj (''copy'' @ [newline]) [] x w"

section \<open>Values given to a constructor\<close>

datatype scalar = Scalar_int int | Scalar_string string | Scalar_my_class

datatype value_arg = Arg_scalar scalar | Arg_document "nat list"

fun scalar_model :: "scalar \<Rightarrow> model" where
  "scalar_model (Scalar_int i) = Int_model i"
| "scalar_model (Scalar_string s) = String_model s"
| "scalar_model Scalar_my_class = My_class_model"

text \<open>
  The constructor template: the model is built from the argument, which copies a document
  object by object, and then the class prints its message.
\<close>

definition construct_with ::
  "(nat \<Rightarrow> world \<Rightarrow> (nat \<times> world) result) \<Rightarrow> string \<Rightarrow> value_arg \<Rightarrow> world \<Rightarrow> (nat \<times> world) result" where
  "construct_with cp msg x w =
     bindr (case x of
         Arg_scalar v \<Rightarrow> Inr (scalar_model v, w)
       | Arg_document d \<Rightarrow> bindr (copy_objs cp d w) (\<lambda>(d', w1). Inr (Document_model d', w1)))
       (\<lambda>(m, w1). let (a, w2) = new_model m w1 in Inr (a, say msg w2))"

definition copy_unique :: "string \<Rightarrow> nat \<Rightarrow> world \<Rightarrow> (nat \<times> world) result" where
  "copy_unique msg x w = copy_obj (brk w) msg x w"

definition copy_shared :: "nat \<Rightarrow> world \<Rightarrow> (nat \<times> world) result" where
  "copy_shared x w = Inr (x, w)"

definition step5_construct :: "value_arg \<Rightarrow> world \<Rightarrow> (nat \<times> world) result" where
  "step5_construct x w = construct_with (copy_unique []) [] x w"

definition step5_copy :: "nat \<Rightarrow> world \<Rightarrow> (nat \<times> world) result" where
  "step5_copy x w = copy_unique [] x w"

definition step5_assign :: "nat \<Rightarrow> world \<Rightarrow> (nat \<times> world) result" where
  "step5_assign x w = assign_obj [] [] x w"

definition c98_construct :: "value_arg \<Rightarrow> world \<Rightarrow> (nat \<times> world) result" where
  "c98_construct x w = construct_with (copy_unique (''copy ctor'' @ [newline])) (''ctor'' @ [newline]) x w"

definition c98_copy :: "nat \<Rightarrow> world \<Rightarrow> (nat \<times> world) result" where
  "c98_copy x w = copy_unique (''copy ctor'' @ [newline]) x w"

definition c98_assign :: "nat \<Rightarrow> world \<Rightarrow> (nat \<times> world) result" where
  "c98_assign x w = assign_obj (''copy ctor'' @ [newline]) (''assign'' @ [newline]) x w"

definition ps_construct :: "value_arg \<Rightarrow> world \<Rightarrow> (nat \<times> world) result" where
  "ps_construct x w = construct_with (copy_unique (''copy'' @ [newline])) [] x w"

definition ps_copy :: "nat \<Rightarrow> world \<Rightarrow> (nat \<times> world) result" where
  "ps_copy x w = copy_unique (''copy'' @ [newline]) x w"

definition ps_assign :: "nat \<Rightarrow> world \<Rightarrow> (nat \<times> world) result" where
  "ps_assign x w = assign_obj (''copy'' @ [newline]) [] x w"

definition shared_construct :: "value_arg \<Rightarrow> world \<Rightarrow> (nat \<times> world) result" where
  "shared_construct x w = construct_with copy_shared [] x w"

section \<open>The history\<close>

type_synonym history = "nat list list"

definition commit :: "(nat \<Rightarrow> world \<Rightarrow> (nat \<times> world) result) \<Rightarrow> history \<Rightarrow> world \<Rightarrow> (history \<times> world) result" where
  "commit cp x w =
     bindr (check (x \<noteq> []) Assert_Failed) (\<lambda>_.
     bindr (copy_objs cp (last x) w) (\<lambda>(d, w1). Inr (x @ [d], w1)))"

definition undo :: "history \<Rightarrow> history result" where
  "undo x = bindr (check (x \<noteq> []) Assert_Failed) (\<lambda>_. Inr (butlast x))"

definition current :: "history \<Rightarrow> nat list result" where
  "current x = bindr (check (x \<noteq> []) Assert_Failed) (\<lambda>_. Inr (last x))"

text \<open>What a client does to \<open>current(h)\<close>: append a value, append the document itself, assign to an element.\<close>

definition set_current :: "history \<Rightarrow> nat list \<Rightarrow> history" where
  "set_current x d = butlast x @ [d]"

definition emplace_back ::
  "(value_arg \<Rightarrow> world \<Rightarrow> (nat \<times> world) result) \<Rightarrow> value_arg \<Rightarrow> history \<Rightarrow> world \<Rightarrow> (history \<times> world) result" where
  "emplace_back cons v x w =
     bindr (current x) (\<lambda>d. bindr (cons v w) (\<lambda>(a, w1). Inr (set_current x (d @ [a]), w1)))"

definition assign_element ::
  "(value_arg \<Rightarrow> world \<Rightarrow> (nat \<times> world) result) \<Rightarrow> nat \<Rightarrow> value_arg \<Rightarrow> history \<Rightarrow> world \<Rightarrow> (history \<times> world) result" where
  "assign_element cons i v x w =
     bindr (current x) (\<lambda>d. bindr (cons v w) (\<lambda>(a, w1).
     bindr (vset d (int i) a) (\<lambda>d'. Inr (set_current x d', w1))))"

datatype command = Commit | Undo | Emplace scalar | Emplace_current | Assign nat scalar

definition step_with ::
  "(nat \<Rightarrow> world \<Rightarrow> (nat \<times> world) result) \<Rightarrow> (value_arg \<Rightarrow> world \<Rightarrow> (nat \<times> world) result) \<Rightarrow>
   command \<Rightarrow> history \<times> world \<Rightarrow> (history \<times> world) result" where
  "step_with cp cons c s =
     (case c of
        Commit \<Rightarrow> commit cp (fst s) (snd s)
      | Undo \<Rightarrow> bindr (undo (fst s)) (\<lambda>h. Inr (h, snd s))
      | Emplace v \<Rightarrow> emplace_back cons (Arg_scalar v) (fst s) (snd s)
      | Emplace_current \<Rightarrow> bindr (current (fst s)) (\<lambda>d. emplace_back cons (Arg_document d) (fst s) (snd s))
      | Assign i v \<Rightarrow> assign_element cons i (Arg_scalar v) (fst s) (snd s))"

fun run_with :: "('c \<Rightarrow> 's \<Rightarrow> 's result) \<Rightarrow> 'c list \<Rightarrow> 's \<Rightarrow> 's result" where
  "run_with st [] s = Inr s"
| "run_with st (c # cs) s = bindr (st c s) (run_with st cs)"

definition ps_run :: "command list \<Rightarrow> history \<times> world \<Rightarrow> (history \<times> world) result" where
  "ps_run cs s = run_with (step_with ps_copy ps_construct) cs s"

definition shared_run :: "command list \<Rightarrow> history \<times> world \<Rightarrow> (history \<times> world) result" where
  "shared_run cs s = run_with (step_with copy_shared shared_construct) cs s"

definition draw_current :: "history \<times> world \<Rightarrow> string result" where
  "draw_current s = bindr (current (fst s)) (\<lambda>d. draw_document (snd s) d 0)"

section \<open>Values\<close>

text \<open>The value an object stands for, whatever cells hold it.\<close>

datatype tree = Leaf_value scalar | Document_value "tree list"

fun draw_tree :: "tree \<Rightarrow> nat \<Rightarrow> string" where
  "draw_tree (Leaf_value (Scalar_int i)) pos = draw_int i pos"
| "draw_tree (Leaf_value (Scalar_string s)) pos = draw_text s pos"
| "draw_tree (Leaf_value Scalar_my_class) pos = draw_my_class pos"
| "draw_tree (Document_value ts) pos =
     spaces pos @ ''<document>'' @ [newline] @ concat (map (\<lambda>t. draw_tree t (pos + 2)) ts)
     @ spaces pos @ ''</document>'' @ [newline]"

inductive denotes :: "world \<Rightarrow> nat \<Rightarrow> tree \<Rightarrow> bool" for w where
  denotes_leaf: "heap w x = Some (scalar_model v) \<Longrightarrow> denotes w x (Leaf_value v)"
| denotes_document: "heap w x = Some (Document_model d) \<Longrightarrow> list_all2 (denotes w) d ts \<Longrightarrow>
    denotes w x (Document_value ts)"
  monos list.rel_mono

inductive_cases denotes_leafE: "denotes w x (Leaf_value v)"
inductive_cases denotes_documentE: "denotes w x (Document_value ts)"

definition extends :: "world \<Rightarrow> world \<Rightarrow> bool" where
  "extends w w' \<longleftrightarrow> heap w \<subseteq>\<^sub>m heap w' \<and> brk w \<le> brk w'"

text \<open>Cells lie below the break, and a document was built after the objects in it.\<close>

definition heap_ok :: "world \<Rightarrow> bool" where
  "heap_ok w \<longleftrightarrow> (\<forall>a. heap w a \<noteq> None \<longrightarrow> a < brk w)
     \<and> (\<forall>a d. heap w a = Some (Document_model d) \<longrightarrow> (\<forall>x \<in> set d. x < a))"

lemma extends_refl [simp]: "extends w w"
  by (simp add: extends_def)

lemma extends_trans [trans]: "extends u v \<Longrightarrow> extends v w \<Longrightarrow> extends u w"
  by (auto simp: extends_def intro: map_le_trans)

lemma denotes_extends: "denotes w x t \<Longrightarrow> extends w w' \<Longrightarrow> denotes w' x t"
proof (induction rule: denotes.induct)
  case (denotes_leaf x v)
  then show ?case by (auto simp: extends_def map_le_def dom_def intro!: denotes.denotes_leaf)
next
  case (denotes_document x d ts)
  then have "heap w' x = Some (Document_model d)" by (auto simp: extends_def map_le_def dom_def)
  moreover have "list_all2 (denotes w') d ts"
    using denotes_document(2,3) by (auto elim: list_all2_mono)
  ultimately show ?case by (rule denotes.denotes_document)
qed

lemma list_extends: "list_all2 (denotes w) d ts \<Longrightarrow> extends w w' \<Longrightarrow> list_all2 (denotes w') d ts"
  by (erule list_all2_mono) (rule denotes_extends)

lemma scalar_not_document [simp]: "scalar_model v \<noteq> Document_model d" "Document_model d \<noteq> scalar_model v"
  by (cases v; simp)+

lemma denotes_cell: "denotes w x t \<Longrightarrow> heap_ok w \<Longrightarrow> x < brk w"
  by (auto simp: heap_ok_def elim: denotes.cases)

lemma say_heap [simp]: "heap (say m w) = heap w" "brk (say m w) = brk w" "heap_ok (say m w) = heap_ok w"
    "extends u (say m w) = extends u w" "denotes (say m w) x t = denotes w x t"
  by (simp_all add: say_def heap_ok_def extends_def)
     (auto elim!: denotes_extends simp: extends_def)

lemma new_scalar:
  assumes "heap_ok w" "new_model (scalar_model v) w = (a, w')"
  shows "heap_ok w'" "extends w w'" "denotes w' a (Leaf_value v)"
  using assms
  by (auto simp: new_model_def heap_ok_def extends_def map_le_def dom_def less_Suc_eq intro!: denotes_leaf split: if_splits)

lemma new_document:
  assumes "heap_ok w" "list_all2 (denotes w) d ts" "new_model (Document_model d) w = (a, w')"
  shows "heap_ok w'" "extends w w'" "denotes w' a (Document_value ts)"
proof -
  have ext: "extends w w'" using assms(1,3) by (auto simp: new_model_def heap_ok_def extends_def map_le_def dom_def)
  have "x < brk w" if "x \<in> set d" for x
    using that assms(2) denotes_cell [OF _ assms(1)] by (auto simp: in_set_conv_nth list_all2_conv_all_nth)
  then show "heap_ok w'" using assms(1,3) by (auto simp: new_model_def heap_ok_def less_Suc_eq split: if_splits)
  show "extends w w'" by (rule ext)
  show "denotes w' a (Document_value ts)"
    by (rule denotes_document [of w' a d]) (use assms(3) list_extends [OF assms(2) ext] in \<open>auto simp: new_model_def\<close>)
qed

section \<open>Drawing\<close>

lemma draw_obj_tree:
  "heap_ok w \<Longrightarrow> denotes w x t \<Longrightarrow> x < fuel \<Longrightarrow> draw_obj fuel w x pos = Inr (draw_tree t pos)"
proof (induction fuel arbitrary: x t pos)
  case (Suc fuel)
  from Suc.prems(2) show ?case
  proof (cases rule: denotes.cases)
    case (denotes_leaf v)
    then show ?thesis by (cases v) simp_all
  next
    case (denotes_document d ts)
    have len: "length d = length ts" by (rule list_all2_lengthD [OF denotes_document(3)])
    have "draw_obj fuel w (d ! i) (pos + 2) = Inr (draw_tree (ts ! i) (pos + 2))" if "i < length d" for i
    proof (rule Suc.IH [OF Suc.prems(1)])
      show "denotes w (d ! i) (ts ! i)" using denotes_document(3) that by (simp add: list_all2_conv_all_nth)
      have "d ! i < x" using Suc.prems(1) denotes_document(2) that by (auto simp: heap_ok_def)
      then show "d ! i < fuel" using Suc.prems(3) by simp
    qed
    then have "mapr (\<lambda>e. draw_obj fuel w e (pos + 2)) d = Inr (map (\<lambda>t. draw_tree t (pos + 2)) ts)"
      using len
    proof (induction d arbitrary: ts)
      case (Cons e d)
      then obtain t ts' where ts: "ts = t # ts'" by (cases ts) auto
      have "draw_obj fuel w e (pos + 2) = Inr (draw_tree t (pos + 2))" using Cons.prems(1) [of 0] ts by simp
      moreover have "mapr (\<lambda>e. draw_obj fuel w e (pos + 2)) d = Inr (map (\<lambda>t. draw_tree t (pos + 2)) ts')"
      proof (rule Cons.IH)
        show "draw_obj fuel w (d ! i) (pos + 2) = Inr (draw_tree (ts' ! i) (pos + 2))" if "i < length d" for i
          using Cons.prems(1) [of "Suc i"] that ts by simp
      qed (use Cons.prems(2) ts in simp)
      ultimately show ?case by (simp add: ts)
    qed simp
    then show ?thesis using denotes_document(1,2) by (simp add: draw_document_with_def)
  qed
qed simp

lemma draw_document_tree:
  assumes "heap_ok w" "list_all2 (denotes w) d ts"
  shows "draw_document w d pos = Inr (draw_tree (Document_value ts) pos)"
proof -
  have "mapr (\<lambda>e. draw_obj (brk w) w e (pos + 2)) d = Inr (map (\<lambda>t. draw_tree t (pos + 2)) ts)"
    using assms(2)
  proof (induction rule: list_all2_induct)
    case (Cons x xs t ts)
    then show ?case
      using draw_obj_tree [OF assms(1) Cons(1) denotes_cell [OF Cons(1) assms(1)]] by simp
  qed simp
  then show ?thesis by (simp add: draw_document_def draw_document_with_def)
qed

section \<open>What a history needs of copying\<close>

definition copies :: "(nat \<Rightarrow> world \<Rightarrow> (nat \<times> world) result) \<Rightarrow> nat \<Rightarrow> bool" where
  "copies cp x \<longleftrightarrow> (\<forall>w t. heap_ok w \<longrightarrow> denotes w x t \<longrightarrow>
     (\<exists>y w'. cp x w = Inr (y, w') \<and> heap_ok w' \<and> extends w w' \<and> denotes w' y t))"

lemma copies_list:
  "list_all2 (denotes w) d ts \<Longrightarrow> \<forall>x \<in> set d. copies cp x \<Longrightarrow> heap_ok w \<Longrightarrow>
   \<exists>d' w'. copy_objs cp d w = Inr (d', w') \<and> heap_ok w' \<and> extends w w' \<and> list_all2 (denotes w') d' ts"
proof (induction d arbitrary: w ts)
  case (Cons x d)
  then obtain t ts' where ts: "ts = t # ts'" "denotes w x t" "list_all2 (denotes w) d ts'"
    by (auto simp: list_all2_Cons1)
  obtain y w1 where y: "cp x w = Inr (y, w1)" "heap_ok w1" "extends w w1" "denotes w1 y t"
  proof -
    have "copies cp x" using Cons.prems(2) by simp
    then show ?thesis using Cons.prems(3) ts(2) that unfolding copies_def by blast
  qed
  obtain d' w' where d': "copy_objs cp d w1 = Inr (d', w')" "heap_ok w'" "extends w1 w'" "list_all2 (denotes w') d' ts'"
    using Cons.IH [OF list_extends [OF ts(3) y(3)] _ y(2)] Cons.prems(2) by auto
  then show ?case
    using y ts(1) extends_trans [OF y(3) d'(3)] denotes_extends [OF y(4) d'(3)] by auto
qed auto

definition constructs :: "(value_arg \<Rightarrow> world \<Rightarrow> (nat \<times> world) result) \<Rightarrow> bool" where
  "constructs cons \<longleftrightarrow> (\<forall>w. heap_ok w \<longrightarrow>
     (\<forall>v. \<exists>y w'. cons (Arg_scalar v) w = Inr (y, w') \<and> heap_ok w' \<and> extends w w' \<and> denotes w' y (Leaf_value v)) \<and>
     (\<forall>d ts. list_all2 (denotes w) d ts \<longrightarrow>
        (\<exists>y w'. cons (Arg_document d) w = Inr (y, w') \<and> heap_ok w' \<and> extends w w' \<and> denotes w' y (Document_value ts))))"

lemma construct_with_ok:
  assumes "\<And>x. copies cp x"
  shows "constructs (construct_with cp msg)"
  unfolding constructs_def
proof (intro allI impI conjI)
  fix w v assume ok: "heap_ok w"
  obtain a w' where n: "new_model (scalar_model v) w = (a, w')" by fastforce
  then show "\<exists>y w'. construct_with cp msg (Arg_scalar v) w = Inr (y, w') \<and> heap_ok w' \<and> extends w w' \<and> denotes w' y (Leaf_value v)"
    using new_scalar [OF ok n] by (auto simp: construct_with_def)
next
  fix w d ts assume ok: "heap_ok w" and d: "list_all2 (denotes w) d ts"
  obtain d' w1 where c: "copy_objs cp d w = Inr (d', w1)" "heap_ok w1" "extends w w1" "list_all2 (denotes w1) d' ts"
    using copies_list [OF d _ ok] assms by blast
  obtain a w2 where n: "new_model (Document_model d') w1 = (a, w2)" by fastforce
  show "\<exists>y w'. construct_with cp msg (Arg_document d) w = Inr (y, w') \<and> heap_ok w' \<and> extends w w' \<and> denotes w' y (Document_value ts)"
    using new_document [OF c(2,4) n] c(1) n extends_trans [OF c(3)] by (auto simp: construct_with_def)
qed

section \<open>The abstract history\<close>

fun spec_step :: "command \<Rightarrow> tree list list \<Rightarrow> tree list list result" where
  "spec_step c [] = Inl Assert_Failed"
| "spec_step Commit H = Inr (H @ [last H])"
| "spec_step Undo H = Inr (butlast H)"
| "spec_step (Emplace v) H = Inr (butlast H @ [last H @ [Leaf_value v]])"
| "spec_step Emplace_current H = Inr (butlast H @ [last H @ [Document_value (last H)]])"
| "spec_step (Assign i v) H =
     bindr (vset (last H) (int i) (Leaf_value v)) (\<lambda>d. Inr (butlast H @ [d]))"

lemma spec_step_ne:
  assumes "H \<noteq> []"
  shows "spec_step Commit H = Inr (H @ [last H])" "spec_step Undo H = Inr (butlast H)"
    "spec_step (Emplace v) H = Inr (butlast H @ [last H @ [Leaf_value v]])"
    "spec_step Emplace_current H = Inr (butlast H @ [last H @ [Document_value (last H)]])"
    "spec_step (Assign i v) H = bindr (vset (last H) (int i) (Leaf_value v)) (\<lambda>d. Inr (butlast H @ [d]))"
  using assms by (cases H; simp)+

definition spec_run :: "command list \<Rightarrow> tree list list \<Rightarrow> tree list list result" where
  "spec_run cs H = run_with spec_step cs H"

text \<open>A history in memory stands for an abstract one.\<close>

definition represents :: "history \<times> world \<Rightarrow> tree list list \<Rightarrow> bool" where
  "represents s H \<longleftrightarrow> heap_ok (snd s) \<and> list_all2 (list_all2 (denotes (snd s))) (fst s) H"

text \<open>The concrete result stands for the abstract one, or both fail with the same error.\<close>

definition matches :: "(history \<times> world) result \<Rightarrow> tree list list result \<Rightarrow> bool" where
  "matches r R \<longleftrightarrow> (case R of Inl e \<Rightarrow> r = Inl e | Inr H \<Rightarrow> (\<exists>s. r = Inr s \<and> represents s H))"

lemma represents_last:
  assumes "represents (h, w) H"
  shows "h = [] \<longleftrightarrow> H = []" "H \<noteq> [] \<Longrightarrow> list_all2 (denotes w) (last h) (last H)"
    "list_all2 (list_all2 (denotes w)) (butlast h) (butlast H)" "heap_ok w"
proof -
  have l: "list_all2 (list_all2 (denotes w)) h H" and ok: "heap_ok w" using assms by (simp_all add: represents_def)
  then show e: "h = [] \<longleftrightarrow> H = []" by auto
  have len: "length h = length H" by (rule list_all2_lengthD [OF l])
  show "list_all2 (denotes w) (last h) (last H)" if "H \<noteq> []"
    using l that e len by (simp add: last_conv_nth list_all2_conv_all_nth)
  show "list_all2 (list_all2 (denotes w)) (butlast h) (butlast H)"
    using l len by (simp add: butlast_conv_take list_all2_takeI)
  show "heap_ok w" by (rule ok)
qed

lemma represents_set:
  assumes "represents (h, w) H" "heap_ok w'" "extends w w'" "list_all2 (denotes w') d ts"
  shows "represents (set_current h d, w') (butlast H @ [ts])"
proof -
  have "list_all2 (list_all2 (denotes w')) (butlast h) (butlast H)"
    using represents_last(3) [OF assms(1)] list_extends [OF _ assms(3)] by (auto elim: list_all2_mono)
  then show ?thesis using assms(2,4) by (simp add: represents_def set_current_def list_all2_appendI)
qed

locale object_copying =
  fixes cp :: "nat \<Rightarrow> world \<Rightarrow> (nat \<times> world) result"
    and cons :: "value_arg \<Rightarrow> world \<Rightarrow> (nat \<times> world) result"
  assumes copies_values: "copies cp x"
    and constructs_values: "constructs cons"
begin

lemma scalar_ok:
  assumes "heap_ok w"
  obtains y w' where "cons (Arg_scalar v) w = Inr (y, w')" "heap_ok w'" "extends w w'" "denotes w' y (Leaf_value v)"
  using constructs_values assms unfolding constructs_def by blast

lemma document_ok:
  assumes "heap_ok w" "list_all2 (denotes w) d ts"
  obtains y w' where "cons (Arg_document d) w = Inr (y, w')" "heap_ok w'" "extends w w'" "denotes w' y (Document_value ts)"
  using constructs_values assms unfolding constructs_def by blast

lemma emplace_ok:
  assumes r: "represents (h, w) H" and ne: "H \<noteq> []"
    and c: "cons v w = Inr (y, w')" "heap_ok w'" "extends w w'" "denotes w' y t"
  shows "\<exists>s. emplace_back cons v h w = Inr s \<and> represents s (butlast H @ [last H @ [t]])"
proof -
  have "list_all2 (denotes w') (last h @ [y]) (last H @ [t])"
    using list_extends [OF represents_last(2) [OF r ne] c(3)] c(4) by (simp add: list_all2_appendI)
  from represents_set [OF r c(2,3) this] show ?thesis
    using ne represents_last(1) [OF r] c(1) by (simp add: emplace_back_def current_def)
qed

lemma step_matches:
  assumes r: "represents s H"
  shows "matches (step_with cp cons c s) (spec_step c H)"
proof -
  obtain h w where s: "s = (h, w)" by fastforce
  note l = represents_last [OF r [unfolded s]]
  show ?thesis
  proof (cases "H = []")
    case True
    then show ?thesis
      using l(1) by (cases c) (simp_all add: s matches_def step_with_def commit_def undo_def current_def
          emplace_back_def assign_element_def)
  next
    case ne: False
    note sp = spec_step_ne [OF ne]
    note lastH = l(2) [OF ne]
    show ?thesis
    proof (cases c)
      case Commit
      obtain d w' where "copy_objs cp (last h) w = Inr (d, w')" "heap_ok w'" "extends w w'" "list_all2 (denotes w') d (last H)"
        using copies_list [OF lastH _ l(4)] copies_values by blast
      moreover from this(3) have "list_all2 (list_all2 (denotes w')) h H"
        using r by (auto simp: represents_def s elim!: list_all2_mono intro: denotes_extends)
      ultimately show ?thesis
        using ne l(1) by (simp add: Commit s sp matches_def step_with_def commit_def represents_def list_all2_appendI)
    next
      case Undo
      then show ?thesis
        using ne l(1,3,4) by (simp add: s sp matches_def step_with_def undo_def represents_def)
    next
      case (Emplace v)
      obtain y w' where c: "cons (Arg_scalar v) w = Inr (y, w')" "heap_ok w'" "extends w w'" "denotes w' y (Leaf_value v)"
        by (rule scalar_ok [OF l(4)])
      show ?thesis using emplace_ok [OF r [unfolded s] ne c] by (simp add: Emplace s sp matches_def step_with_def)
    next
      case Emplace_current
      obtain y w' where c: "cons (Arg_document (last h)) w = Inr (y, w')" "heap_ok w'" "extends w w'" "denotes w' y (Document_value (last H))"
        by (rule document_ok [OF l(4) lastH])
      show ?thesis
        using emplace_ok [OF r [unfolded s] ne c] ne l(1)
        by (simp add: Emplace_current s sp matches_def step_with_def current_def)
    next
      case (Assign i v)
      obtain y w' where c: "cons (Arg_scalar v) w = Inr (y, w')" "heap_ok w'" "extends w w'" "denotes w' y (Leaf_value v)"
        by (rule scalar_ok [OF l(4)])
      have len: "length (last h) = length (last H)" by (rule list_all2_lengthD [OF lastH])
      show ?thesis
      proof (cases "i < length (last H)")
        case True
        have "list_all2 (denotes w') ((last h)[i := y]) ((last H)[i := Leaf_value v])"
          by (rule list_all2_update_cong [OF list_extends [OF lastH c(3)] c(4)])
        from represents_set [OF r [unfolded s] c(2,3) this] show ?thesis
          using True len ne l(1) c(1)
          by (simp add: Assign s sp matches_def step_with_def assign_element_def current_def)
      next
        case False
        then show ?thesis
          using len ne l(1) c(1) by (simp add: Assign s sp matches_def step_with_def assign_element_def current_def)
      qed
    qed
  qed
qed

lemma run_matches: "represents s H \<Longrightarrow> matches (run_with (step_with cp cons) cs s) (spec_run cs H)"
proof (induction cs arbitrary: s H)
  case Nil
  then show ?case by (simp add: matches_def spec_run_def)
next
  case (Cons c cs)
  show ?case
  proof (cases "spec_step c H")
    case (Inl e)
    then show ?thesis using step_matches [OF Cons.prems, of c] by (simp add: matches_def spec_run_def)
  next
    case (Inr H')
    then obtain s' where "step_with cp cons c s = Inr s'" "represents s' H'"
      using step_matches [OF Cons.prems, of c] by (auto simp: matches_def)
    then show ?thesis using Cons.IH [of s' H'] Inr by (simp add: spec_run_def)
  qed
qed

end

section \<open>Both families copy values\<close>

lemma copies_shared: "copies copy_shared x"
  by (auto simp: copies_def copy_shared_def)

lemma copies_obj: "x < fuel \<Longrightarrow> copies (copy_obj fuel msg) x"
proof (induction fuel arbitrary: x)
  case (Suc fuel)
  show ?case
    unfolding copies_def
  proof (intro allI impI)
    fix w t assume ok: "heap_ok w" and t: "denotes w x t"
    from t show "\<exists>y w'. copy_obj (Suc fuel) msg x w = Inr (y, w') \<and> heap_ok w' \<and> extends w w' \<and> denotes w' y t"
    proof (cases rule: denotes.cases)
      case (denotes_leaf v)
      obtain a w' where n: "new_model (scalar_model v) w = (a, w')" by fastforce
      have "copy_obj (Suc fuel) msg x w = Inr (a, say msg w')"
        using denotes_leaf(2) n by (cases v) simp_all
      then show ?thesis using new_scalar [OF ok n] denotes_leaf(1) by simp
    next
      case (denotes_document d ts)
      have "\<forall>e \<in> set d. copies (copy_obj fuel msg) e"
        using ok denotes_document(2) Suc.prems by (fastforce simp: heap_ok_def intro: Suc.IH)
      from copies_list [OF denotes_document(3) this ok]
      obtain d' w1 where c: "copy_objs (copy_obj fuel msg) d w = Inr (d', w1)" "heap_ok w1" "extends w w1"
          "list_all2 (denotes w1) d' ts" by blast
      obtain a w2 where n: "new_model (Document_model d') w1 = (a, w2)" by fastforce
      show ?thesis
        using new_document [OF c(2,4) n] c(1) n extends_trans [OF c(3)] denotes_document(1,2) by simp
    qed
  qed
qed simp

lemma copies_unique: "copies (copy_unique msg) x"
  unfolding copies_def
proof (intro allI impI)
  fix w t assume ok: "heap_ok w" and t: "denotes w x t"
  from copies_obj [OF denotes_cell [OF t ok], of msg]
  show "\<exists>y w'. copy_unique msg x w = Inr (y, w') \<and> heap_ok w' \<and> extends w w' \<and> denotes w' y t"
    using ok t unfolding copies_def copy_unique_def by blast
qed

lemma fun_eqs: "ps_copy = copy_unique (''copy'' @ [newline])"
    "ps_construct = construct_with (copy_unique (''copy'' @ [newline])) []"
    "shared_construct = construct_with copy_shared []"
  by (intro ext; simp add: ps_copy_def ps_construct_def shared_construct_def)+

interpretation psc: object_copying ps_copy ps_construct
  unfolding fun_eqs by unfold_locales (rule copies_unique construct_with_ok)+

interpretation shc: object_copying copy_shared shared_construct
  unfolding fun_eqs by unfold_locales (rule copies_shared construct_with_ok)+

section \<open>The programs at the end of the files\<close>

text \<open>A history of one empty document, as \<open>history_t h(1)\<close> makes it.\<close>

definition fresh_history :: "history \<times> world" where
  "fresh_history = ([[]], empty_world)"

lemma fresh_represents: "represents fresh_history [[]]"
  by (simp add: represents_def fresh_history_def heap_ok_def empty_world_def)

lemma run_with_append: "run_with st (cs @ ds) s = bindr (run_with st cs s) (run_with st ds)"
  by (induction cs arbitrary: s) (auto simp: bindr_def split: sum.splits)

text \<open>The test of the shared family, with the three documents it draws.\<close>

definition evel_ps_app :: "(string \<times> string \<times> string) result" where
  "evel_ps_app =
     bindr (shared_run [Emplace (Scalar_int 0), Emplace (Scalar_string ''Hello!'')] fresh_history) (\<lambda>s1.
     bindr (draw_current s1) (\<lambda>out1.
     bindr (shared_run [Commit, Emplace_current, Emplace Scalar_my_class, Assign 1 (Scalar_string ''World'')] s1) (\<lambda>s2.
     bindr (draw_current s2) (\<lambda>out2.
     bindr (shared_run [Undo] s2) (\<lambda>s3.
     bindr (draw_current s3) (\<lambda>out3. Inr (out1, out2, out3)))))))"

text \<open>The test of the fifth step: objects of four types, reversed and drawn.\<close>

definition evel_app :: "string result" where
  "evel_app =
     bindr (step5_construct (Arg_scalar (Scalar_int 0)) empty_world) (\<lambda>(a, w1).
     bindr (step5_construct (Arg_scalar (Scalar_string ''hello'')) w1) (\<lambda>(b, w2).
     bindr (step5_construct (Arg_scalar (Scalar_int 2)) w2) (\<lambda>(c, w3).
     bindr (step5_construct (Arg_scalar Scalar_my_class) w3) (\<lambda>(d, w4).
       draw_document w4 (rev [a, b, c, d]) 0))))"

section \<open>The C++98 program\<close>

text \<open>
  Without move operations a \<open>push_back\<close> constructs a temporary from the argument and copies
  it, and \<open>std::swap\<close> is a copy and two assignments, all of which print.
\<close>

definition c98_draw_text :: "string \<Rightarrow> nat \<Rightarrow> string" where
  "c98_draw_text x position = spaces position @ x @ [newline]"

definition c98_draw_obj :: "world \<Rightarrow> nat \<Rightarrow> nat \<Rightarrow> string result" where
  "c98_draw_obj w x position = draw_obj (brk w) w x position"

definition c98_draw_document :: "world \<Rightarrow> nat list \<Rightarrow> nat \<Rightarrow> string result" where
  "c98_draw_document w x position =
     bindr (mapr (\<lambda>e. c98_draw_obj w e (position + 2)) x) (\<lambda>parts.
       Inr (spaces position @ ''<document>'' @ [newline] @ concat parts
            @ spaces position @ ''</document>'' @ [newline]))"

lemma c98_draw_document_eq: "c98_draw_document w x position = draw_document w x position"
  by (simp add: c98_draw_document_def c98_draw_obj_def draw_document_def draw_document_with_def)

definition c98_push_back :: "value_arg \<Rightarrow> nat list \<Rightarrow> world \<Rightarrow> (nat list \<times> world) result" where
  "c98_push_back x d w =
     bindr (c98_construct x w) (\<lambda>(tmp, w1). bindr (c98_copy tmp w1) (\<lambda>(a, w2). Inr (d @ [a], w2)))"

definition c98_swap :: "nat \<Rightarrow> nat \<Rightarrow> nat list \<Rightarrow> world \<Rightarrow> (nat list \<times> world) result" where
  "c98_swap i j d w =
     bindr (vget d (int i)) (\<lambda>a. bindr (vget d (int j)) (\<lambda>b.
     bindr (c98_copy a w) (\<lambda>(tmp, w1).
     bindr (c98_assign b w1) (\<lambda>(a', w2).
     bindr (c98_assign tmp w2) (\<lambda>(b', w3).
     bindr (vset d (int i) a') (\<lambda>d1. bindr (vset d1 (int j) b') (\<lambda>d2. Inr (d2, w3))))))))"

function c98_reverse :: "nat \<Rightarrow> nat \<Rightarrow> nat list \<Rightarrow> world \<Rightarrow> (nat list \<times> world) result" where
  "c98_reverse i j d w =
     (if i < j then bindr (c98_swap i j d w) (\<lambda>(d', w'). c98_reverse (i + 1) (j - 1) d' w')
      else Inr (d, w))"
  by pat_completeness auto
termination by (relation "measure (\<lambda>(i, j, d, w). j - i)") auto

text \<open>The first test: a document that holds a copy of itself, reversed and drawn; then an assignment.\<close>

definition c98_evel_app :: "string result" where
  "c98_evel_app =
     bindr (c98_push_back (Arg_scalar (Scalar_int 0)) [] empty_world) (\<lambda>(d1, w1).
     bindr (c98_push_back (Arg_scalar (Scalar_string ''hello'')) d1 w1) (\<lambda>(d2, w2).
     bindr (c98_push_back (Arg_document d2) d2 w2) (\<lambda>(d3, w3).
     bindr (c98_push_back (Arg_scalar Scalar_my_class) d3 w3) (\<lambda>(d4, w4).
     bindr (c98_reverse 0 3 d4 w4) (\<lambda>(d5, w5).
     bindr (c98_draw_document w5 d5 0) (\<lambda>out.
     bindr (c98_construct (Arg_scalar (Scalar_string ''hello'')) (say out w5)) (\<lambda>(a, w6).
     bindr (c98_construct (Arg_scalar (Scalar_int 0)) w6) (\<lambda>(b, w7).
     bindr (c98_assign b w7) (\<lambda>(a', w8). Inr (cout_text w8))))))))))"

text \<open>The second test.\<close>

definition c98_evil_app :: "string result" where
  "c98_evil_app =
     bindr (c98_push_back (Arg_scalar (Scalar_int 2)) [] empty_world) (\<lambda>(d, w).
     bindr (c98_draw_document w d 0) (\<lambda>out. Inr (cout_text (say out w))))"

definition lines_of :: "string list \<Rightarrow> string" where
  "lines_of ls = concat (map (\<lambda>l. l @ [newline]) ls)"

lemma c98_evil_output:
  "c98_evil_app = Inr (lines_of [''ctor'', ''copy ctor'', ''<document>'', ''  2'', ''</document>''])"
  by code_simp

text \<open>
  Filling the document prints 4 constructions and 8 copies, reversing it 8 copies and 4
  assignments.
\<close>

lemma c98_evel_output:
  "c98_evel_app = Inr (lines_of (
     [''ctor'', ''copy ctor'', ''ctor'', ''copy ctor'', ''copy ctor'', ''copy ctor'', ''ctor'',
      ''copy ctor'', ''copy ctor'', ''copy ctor'', ''ctor'', ''copy ctor'',
      ''copy ctor'', ''copy ctor'', ''assign'', ''copy ctor'', ''assign'',
      ''copy ctor'', ''copy ctor'', ''copy ctor'', ''copy ctor'', ''assign'', ''copy ctor'', ''assign'']
     @ [''<document>'', ''  my_class_t()'', ''  <document>'', ''    0'', ''    hello'', ''  </document>'',
        ''  hello'', ''  0'', ''</document>'']
     @ [''ctor'', ''ctor'', ''copy ctor'', ''assign'']))"
  by code_simp

lemma evel_app_output:
  "evel_app = Inr (''<document>'' @ [newline] @ ''  my_class_t()'' @ [newline] @ ''  2'' @ [newline]
     @ ''  hello'' @ [newline] @ ''  0'' @ [newline] @ ''</document>'' @ [newline])"
  by code_simp

definition spec_draw :: "tree list list \<Rightarrow> string result" where
  "spec_draw H = (if H = [] then Inl Assert_Failed else Inr (draw_tree (Document_value (last H)) 0))"

lemma draw_represents:
  assumes "represents s H"
  shows "draw_current s = spec_draw H"
proof -
  obtain h w where s: "s = (h, w)" by fastforce
  note l = represents_last [OF assms [unfolded s]]
  show ?thesis
  proof (cases "H = []")
    case False
    then show ?thesis
      using draw_document_tree [OF l(4) l(2) [OF False]] l(1)
      by (simp add: s draw_current_def current_def spec_draw_def del: draw_tree.simps)
  qed (use l(1) in \<open>simp add: s draw_current_def current_def spec_draw_def\<close>)
qed

text \<open>A step that is neither \<open>commit\<close> nor \<open>undo\<close>.\<close>

fun edits :: "command \<Rightarrow> bool" where
  "edits Commit = False"
| "edits Undo = False"
| "edits c = True"

lemma spec_edit: "edits c \<Longrightarrow> H \<noteq> [] \<Longrightarrow> spec_step c H = Inr H' \<Longrightarrow> H' \<noteq> [] \<and> butlast H' = butlast H"
  by (cases H; cases c) (auto simp: bindr_eq_Inr)

lemma spec_edits: "\<forall>c \<in> set cs. edits c \<Longrightarrow> H \<noteq> [] \<Longrightarrow> spec_run cs H = Inr H' \<Longrightarrow> H' \<noteq> [] \<and> butlast H' = butlast H"
proof (induction cs arbitrary: H)
  case (Cons c cs)
  then obtain H1 where "spec_step c H = Inr H1" "spec_run cs H1 = Inr H'" by (auto simp: spec_run_def bindr_eq_Inr)
  then show ?case using Cons spec_edit [of c H H1] by auto
qed (simp add: spec_run_def)

lemma spec_undo_edits:
  assumes "\<forall>c \<in> set cs. edits c" "H \<noteq> []" "spec_run cs (H @ [last H]) = Inr H'"
  shows "spec_run (Commit # cs @ [Undo]) H = Inr H"
proof -
  have "H' \<noteq> [] \<and> butlast H' = H" using spec_edits [OF assms(1) _ assms(3)] by simp
  then obtain T Ts where "H' = T # Ts" "butlast H' = H" by (cases H') auto
  then show ?thesis
    using assms(2,3) by (cases H) (simp_all add: spec_run_def run_with_append)
qed

section \<open>Properties\<close>

text \<open>
  C16. Both families implement the same history: from a new history, any sequence of commits,
  undos, appends and assignments either fails in both with the same error as in the abstract
  one, or succeeds in both, and then both draw the abstract document.
\<close>

theorem documents_equivalent:
  "case spec_run cs [[]] of
     Inl e \<Rightarrow> ps_run cs fresh_history = Inl e \<and> shared_run cs fresh_history = Inl e
   | Inr H \<Rightarrow> \<exists>s s'. ps_run cs fresh_history = Inr s \<and> shared_run cs fresh_history = Inr s'
       \<and> represents s H \<and> represents s' H \<and> draw_current s = spec_draw H \<and> draw_current s' = spec_draw H"
proof (cases "spec_run cs [[]]")
  case (Inl e)
  then show ?thesis
    using psc.run_matches [OF fresh_represents, of cs] shc.run_matches [OF fresh_represents, of cs]
    by (simp add: matches_def ps_run_def shared_run_def)
next
  case (Inr H)
  obtain s where "ps_run cs fresh_history = Inr s" "represents s H"
    using psc.run_matches [OF fresh_represents, of cs] Inr unfolding matches_def ps_run_def by auto
  moreover obtain s' where "shared_run cs fresh_history = Inr s'" "represents s' H"
    using shc.run_matches [OF fresh_represents, of cs] Inr unfolding matches_def shared_run_def by auto
  ultimately show ?thesis using Inr draw_represents by auto
qed

text \<open>
  C35. Undo restores: in either family, after a commit and any successful edits of the current
  document, \<open>undo\<close> leads back to a history that draws what was drawn before the commit, also
  when the document was put into itself.
\<close>

theorem undo_restores:
  assumes "represents s H" "represents s' H" "H \<noteq> []" "\<forall>c \<in> set cs. edits c"
    "spec_run cs (H @ [last H]) = Inr H'"
  shows "\<exists>t t'. ps_run (Commit # cs @ [Undo]) s = Inr t \<and> draw_current t = draw_current s
    \<and> shared_run (Commit # cs @ [Undo]) s' = Inr t' \<and> draw_current t' = draw_current s'"
proof -
  note u = spec_undo_edits [OF assms(4,3,5)]
  obtain t where t: "ps_run (Commit # cs @ [Undo]) s = Inr t" "represents t H"
    using psc.run_matches [OF assms(1), of "Commit # cs @ [Undo]"] u unfolding matches_def ps_run_def by auto
  obtain t' where t': "shared_run (Commit # cs @ [Undo]) s' = Inr t'" "represents t' H"
    using shc.run_matches [OF assms(2), of "Commit # cs @ [Undo]"] u unfolding matches_def shared_run_def by auto
  show ?thesis using t t' draw_represents assms(1,2) by metis
qed

theorem undo_restores_witness:
  "\<exists>t. shared_run [Commit, Emplace_current, Undo] fresh_history = Inr t
     \<and> draw_current t = draw_current fresh_history"
  using undo_restores [OF fresh_represents fresh_represents, of "[Emplace_current]"]
  by (auto simp: spec_run_def)

end
