(* ===== verification/Raw_Vector.thy ===== *)
theory Raw_Vector
  imports Prelude
begin

unbundle bit_operations_syntax

text \<open>
  The containers of \<^verbatim>\<open>edu/courses/adv_cpp_study/top.cpp\<close>: advancing an iterator by its category,
  the reverse iterator, the vector over raw memory with \<open>reserve\<close>, \<open>resize\<close>, \<open>push_back\<close>,
  \<open>pop_back\<close>, indexing and \<open>at\<close>, and the bit references of \<open>Vector<bool>\<close>.

  A memory cell is \<open>None\<close> while no object lives in it. Using such a cell as an object, or a
  cell outside the allocation, is undefined behaviour. The copy constructor of the element
  type is the argument \<open>cp\<close>, and can throw. The class does not initialise its members, so
  states are arbitrary records that satisfy the invariant \<open>vec_ok\<close>.
\<close>

section \<open>Iterators\<close>

datatype category = Input | Forward | Bidirectional | Random_access

text \<open>An iterator is a position; one step forward leaves the range \<open>len\<close> at most at its end.\<close>

definition iter_next :: "nat \<Rightarrow> int \<Rightarrow> int result" where
  "iter_next len i = (if 0 \<le> i \<and> i < int len then Inr (i + 1) else Inl Undefined_Behaviour)"

fun adv_steps :: "nat \<Rightarrow> nat \<Rightarrow> int \<Rightarrow> int result" where
  "adv_steps len 0 i = Inr i"
| "adv_steps len (Suc n) i = bindr (iter_next len i) (adv_steps len n)"

definition adv_jump :: "nat \<Rightarrow> int \<Rightarrow> int \<Rightarrow> int result" where
  "adv_jump len n i = (if 0 \<le> i + n \<and> i + n \<le> int len then Inr (i + n) else Inl Undefined_Behaviour)"

definition my_advance :: "category \<Rightarrow> nat \<Rightarrow> int \<Rightarrow> int \<Rightarrow> int result" where
  "my_advance c len i n = (if c = Random_access then adv_jump len n i else adv_steps len (nat n) i)"

text \<open>Both overloads agree when the iterator moves forward.\<close>

lemma adv_steps_jump:
  "0 \<le> i \<Longrightarrow> i \<le> int len \<Longrightarrow> adv_steps len n i = adv_jump len (int n) i"
proof (induction n arbitrary: i)
  case (Suc n)
  show ?case
  proof (cases "i < int len")
    case True
    then have "adv_steps len (Suc n) i = adv_steps len n (i + 1)" using Suc.prems by (simp add: iter_next_def)
    also have "\<dots> = adv_jump len (int n) (i + 1)" by (rule Suc.IH) (use True Suc.prems in simp_all)
    finally show ?thesis by (simp add: adv_jump_def algebra_simps)
  qed (use Suc.prems in \<open>simp add: iter_next_def adv_jump_def\<close>)
qed (simp add: adv_jump_def)

lemma my_advance_forward:
  "0 \<le> i \<Longrightarrow> i \<le> int len \<Longrightarrow> 0 \<le> n \<Longrightarrow> my_advance c len i n = adv_jump len n i"
  by (simp add: my_advance_def adv_steps_jump)

text \<open>A bidirectional iterator is not moved back by the generic overload, which the standard one does.\<close>

lemma my_advance_back: "n < 0 \<Longrightarrow> my_advance Bidirectional len i n = Inr i"
  by (simp add: my_advance_def)

text \<open>The type function \<open>condtional\<close>, and the step of \<open>reverse_iterator\<close>.\<close>

definition condtional :: "bool \<Rightarrow> 't \<Rightarrow> 't \<Rightarrow> 't" where
  "condtional B U V = (case B of True \<Rightarrow> V | False \<Rightarrow> V)"

lemma condtional_ignores: "condtional B U V = V"
  by (simp add: condtional_def split: bool.split)

definition rev_next :: "nat \<Rightarrow> int \<Rightarrow> int result" where
  "rev_next len i = (if 0 < i \<and> i \<le> int len then Inr (i - 1) else Inl Undefined_Behaviour)"

definition rev_base :: "int \<Rightarrow> int" where
  "rev_base i = i"

lemma rev_next_undo: "rev_next len i = Inr j \<Longrightarrow> iter_next len (rev_base j) = Inr (rev_base i)"
  by (auto simp: rev_next_def iter_next_def rev_base_def split: if_splits)

section \<open>The vector\<close>

record 'a vec =
  arr :: "'a option list"
  sz :: nat
  cap :: nat

text \<open>Constructing in a cell, destroying the object in a cell, reading an object.\<close>

definition place :: "'a option list \<Rightarrow> nat \<Rightarrow> 'a \<Rightarrow> 'a option list result" where
  "place m i x = vset m (int i) (Some x)"

definition read_cell :: "'a option list \<Rightarrow> nat \<Rightarrow> 'a result" where
  "read_cell m i =
     bindr (vget m (int i)) (\<lambda>c. case c of None \<Rightarrow> Inl Undefined_Behaviour | Some x \<Rightarrow> Inr x)"

definition destroy_cell :: "'a option list \<Rightarrow> nat \<Rightarrow> 'a option list result" where
  "destroy_cell m i = bindr (read_cell m i) (\<lambda>_. vset m (int i) None)"

text \<open>
  \<open>uninitialized_copy\<close> of the first \<open>n\<close> elements. When a copy throws, it destroys what it has
  built and the exception goes on, so only the error remains.
\<close>

fun uninit_copy :: "('a \<Rightarrow> 'a result) \<Rightarrow> 'a option list \<Rightarrow> nat list \<Rightarrow> 'a option list \<Rightarrow> 'a option list result" where
  "uninit_copy cp src [] dst = Inr dst"
| "uninit_copy cp src (i # is) dst =
     bindr (read_cell src i) (\<lambda>x. bindr (cp x) (\<lambda>y. bindr (place dst i y) (uninit_copy cp src is)))"

fun destroy_cells :: "nat list \<Rightarrow> 'a option list \<Rightarrow> 'a option list result" where
  "destroy_cells [] m = Inr m"
| "destroy_cells (i # is) m = bindr (destroy_cell m i) (destroy_cells is)"

text \<open>
  The member functions return an error, if any, together with the vector the caller is left
  with.
\<close>

definition reserve :: "('a \<Rightarrow> 'a result) \<Rightarrow> nat \<Rightarrow> 'a vec \<Rightarrow> cpp_error option \<times> 'a vec" where
  "reserve cp n v =
     (if n \<le> cap v then (None, v)
      else case uninit_copy cp (arr v) [0..<sz v] (replicate n None) of
             Inl e \<Rightarrow> (Some e, v)
           | Inr newarr \<Rightarrow>
               (case destroy_cells [0..<sz v] (arr v) of
                  Inl e \<Rightarrow> (Some e, v)
                | Inr _ \<Rightarrow> (None, v\<lparr>arr := newarr, cap := n\<rparr>)))"

text \<open>The construction loop of \<open>resize\<close>: it stops at a throwing copy, leaving what it built.\<close>

fun fill_cells :: "('a \<Rightarrow> 'a result) \<Rightarrow> 'a \<Rightarrow> nat list \<Rightarrow> 'a vec \<Rightarrow> cpp_error option \<times> 'a vec" where
  "fill_cells cp x [] v = (None, v)"
| "fill_cells cp x (i # is) v =
     (case bindr (cp x) (place (arr v) i) of
        Inl e \<Rightarrow> (Some e, v)
      | Inr m \<Rightarrow> fill_cells cp x is (v\<lparr>arr := m\<rparr>))"

definition resize :: "('a \<Rightarrow> 'a result) \<Rightarrow> nat \<Rightarrow> 'a \<Rightarrow> 'a vec \<Rightarrow> cpp_error option \<times> 'a vec" where
  "resize cp n x v =
     (let (e, v1) = (if n > cap v then reserve cp n v else (None, v)) in
      case e of
        Some err \<Rightarrow> (Some err, v1)
      | None \<Rightarrow>
          (let (e2, v2) = fill_cells cp x [sz v1..<n] v1 in
           case e2 of
             Some err \<Rightarrow> (Some err, v2)
           | None \<Rightarrow> (None, if n < sz v2 then v2\<lparr>sz := n\<rparr> else v2)))"

definition vec_push_back :: "('a \<Rightarrow> 'a result) \<Rightarrow> 'a \<Rightarrow> 'a vec \<Rightarrow> cpp_error option \<times> 'a vec" where
  "vec_push_back cp x v =
     (let (e, v1) = (if cap v = sz v then reserve cp (2 * sz v) v else (None, v)) in
      case e of
        Some err \<Rightarrow> (Some err, v1)
      | None \<Rightarrow>
          (case bindr (cp x) (place (arr v1) (sz v1)) of
             Inl err \<Rightarrow> (Some err, v1)
           | Inr m \<Rightarrow> (None, v1\<lparr>arr := m, sz := sz v1 + 1\<rparr>)))"

text \<open>On an empty vector \<open>--sz\<close> wraps around, and the cell it names is outside the array.\<close>

definition pop_back :: "'a vec \<Rightarrow> cpp_error option \<times> 'a vec" where
  "pop_back v =
     (if sz v = 0 then (Some Undefined_Behaviour, v)
      else case destroy_cell (arr v) (sz v - 1) of
             Inl e \<Rightarrow> (Some e, v\<lparr>sz := sz v - 1\<rparr>)
           | Inr m \<Rightarrow> (None, v\<lparr>sz := sz v - 1, arr := m\<rparr>))"

definition vec_index :: "'a vec \<Rightarrow> nat \<Rightarrow> 'a result" where
  "vec_index v i = read_cell (arr v) i"

definition vec_at :: "'a vec \<Rightarrow> nat \<Rightarrow> 'a result" where
  "vec_at v i = (if i \<ge> sz v then Inl Out_Of_Range else read_cell (arr v) i)"

section \<open>Bit references\<close>

record bit_reference =
  bucket_ptr :: nat
  pos :: nat

definition bool_index :: "nat \<Rightarrow> bit_reference" where
  "bool_index i = \<lparr>bucket_ptr = i div 8, pos = i mod 8\<rparr>"

definition bit_assign :: "bit_reference \<Rightarrow> bool \<Rightarrow> 8 word list \<Rightarrow> 8 word list result" where
  "bit_assign r b mem =
     bindr (vget mem (int (bucket_ptr r))) (\<lambda>c.
       vset mem (int (bucket_ptr r)) (if b then c OR push_bit (pos r) 1 else c AND NOT (push_bit (pos r) 1)))"

definition bool_at :: "8 word list \<Rightarrow> nat \<Rightarrow> bool" where
  "bool_at mem i \<longleftrightarrow> bit (mem ! (i div 8)) (i mod 8)"

lemma bit_assign_value:
  assumes "i div 8 < length mem"
  shows "\<exists>mem'. bit_assign (bool_index i) b mem = Inr mem' \<and> length mem' = length mem
    \<and> (\<forall>j < 8 * length mem. bool_at mem' j = (if j = i then b else bool_at mem j))"
proof -
  let ?c = "mem ! (i div 8)"
  let ?c' = "if b then ?c OR push_bit (i mod 8) 1 else ?c AND NOT (push_bit (i mod 8) 1)"
  let ?m = "mem[i div 8 := ?c']"
  have "bit_assign (bool_index i) b mem = Inr ?m"
    using assms by (simp add: bit_assign_def bool_index_def)
  moreover have "bool_at ?m j = (if j = i then b else bool_at mem j)" if "j < 8 * length mem" for j
  proof -
    have k: "j mod 8 < LENGTH(8)" by simp
    have eq: "j = i \<longleftrightarrow> j div 8 = i div 8 \<and> j mod 8 = i mod 8" by (metis div_mult_mod_eq)
    show ?thesis
      using assms k by (auto simp: bool_at_def eq nth_list_update bit_simps)
  qed
  ultimately show ?thesis by auto
qed

section \<open>The invariant of the vector\<close>

definition vec_ok :: "'a vec \<Rightarrow> bool" where
  "vec_ok v \<longleftrightarrow> length (arr v) = cap v \<and> sz v \<le> cap v \<and> (\<forall>i < sz v. arr v ! i \<noteq> None)"

definition elems :: "'a vec \<Rightarrow> 'a list" where
  "elems v = map (\<lambda>i. the (arr v ! i)) [0..<sz v]"

text \<open>A copy constructor that throws or makes an equal object.\<close>

definition faithful :: "('a \<Rightarrow> 'a result) \<Rightarrow> bool" where
  "faithful cp \<longleftrightarrow> (\<forall>x y. cp x = Inr y \<longrightarrow> y = x)"

lemma read_cell_ok: "vec_ok v \<Longrightarrow> i < sz v \<Longrightarrow> read_cell (arr v) i = Inr (the (arr v ! i))"
  by (auto simp: vec_ok_def read_cell_def)

lemma uninit_copy_value:
  assumes "faithful cp" "uninit_copy cp src is dst = Inr dst'" "distinct is"
  shows "length dst' = length dst \<and> (\<forall>i. i \<in> set is \<longrightarrow> i < length dst \<and> dst' ! i = src ! i)
    \<and> (\<forall>i. i \<notin> set is \<longrightarrow> dst' ! i = dst ! i)"
  using assms(2,3)
proof (induction "is" arbitrary: dst)
  case (Cons i "is")
  then obtain x y d where s: "read_cell src i = Inr x" "cp x = Inr y" "place dst i y = Inr d"
      "uninit_copy cp src is d = Inr dst'"
    by (auto simp: bindr_eq_Inr)
  have "src ! i = Some x" using s(1) by (auto simp: read_cell_def bindr_eq_Inr vget_def split: option.splits if_splits)
  moreover have "y = x" using assms(1) s(2) by (simp add: faithful_def)
  moreover have "i < length dst" "d = dst[i := Some y]" using s(3) by (auto simp: place_def vset_def split: if_splits)
  ultimately show ?case using Cons.IH [OF s(4)] Cons.prems(2) by (auto simp: nth_list_update)
qed simp

lemma uninit_copy_runs:
  "\<forall>i \<in> set is. i < length dst \<and> (\<exists>x. read_cell src i = Inr x) \<Longrightarrow>
   (\<exists>dst'. uninit_copy cp src is dst = Inr dst') \<or> (\<exists>i \<in> set is. \<exists>x e. read_cell src i = Inr x \<and> cp x = Inl e \<and> uninit_copy cp src is dst = Inl e)"
proof (induction "is" arbitrary: dst)
  case (Cons i "is")
  then obtain x where x: "read_cell src i = Inr x" "i < length dst" by auto
  show ?case
  proof (cases "cp x")
    case (Inr y)
    have "place dst i y = Inr (dst[i := Some y])" using x(2) by (simp add: place_def)
    then show ?thesis using Cons.IH [of "dst[i := Some y]"] Cons.prems x Inr by auto
  qed (use x in auto)
qed simp

lemma destroy_cells_ok:
  "\<forall>i \<in> set is. \<exists>x. read_cell m i = Inr x \<Longrightarrow> distinct is \<Longrightarrow> \<exists>m'. destroy_cells is m = Inr m'"
proof (induction "is" arbitrary: m)
  case (Cons i "is")
  then obtain x where x: "read_cell m i = Inr x" by auto
  then have i: "i < length m" by (auto simp: read_cell_def bindr_eq_Inr vget_def split: if_splits)
  have "\<exists>x. read_cell (m[i := None]) j = Inr x" if "j \<in> set is" for j
  proof -
    have "i \<noteq> j" using Cons.prems(2) that by auto
    then have "read_cell (m[i := None]) j = read_cell m j" by (simp add: read_cell_def vget_def)
    then show ?thesis using Cons.prems(1) that by simp
  qed
  then show ?case using Cons.IH [of "m[i := None]"] Cons.prems(2) x i by (auto simp: destroy_cell_def)
qed simp

text \<open>\<open>reserve\<close>: strong exception safety, and the same elements in a larger array.\<close>

lemma reserve_result:
  assumes ok: "vec_ok v" and f: "faithful cp" and r: "reserve cp n v = (e, v')"
  shows "vec_ok v' \<and> elems v' = elems v \<and> sz v' = sz v
    \<and> (e = None \<longrightarrow> cap v' = max n (cap v)) \<and> (e \<noteq> None \<longrightarrow> v' = v \<and> (\<exists>x \<in> set (elems v). cp x = Inl (the e)))"
proof (cases "n \<le> cap v")
  case True
  then show ?thesis using ok r by (auto simp: reserve_def)
next
  case False
  have szn: "sz v \<le> n" using ok False by (simp add: vec_ok_def)
  have rd: "\<exists>x. read_cell (arr v) i = Inr x" if "i < sz v" for i
    using read_cell_ok [OF ok that] by simp
  show ?thesis
  proof (cases "uninit_copy cp (arr v) [0..<sz v] (replicate n None)")
    case (Inl err)
    then obtain i x where ix: "i < sz v" "read_cell (arr v) i = Inr x" "cp x = Inl err"
      using uninit_copy_runs [of "[0..<sz v]" "replicate n None" "arr v" cp] rd szn by fastforce
    then have "x \<in> set (elems v)" using read_cell_ok [OF ok ix(1)] by (auto simp: elems_def)
    then show ?thesis using r False Inl ix(3) ok by (auto simp: reserve_def)
  next
    case (Inr newarr)
    note u = uninit_copy_value [OF f Inr distinct_upt]
    obtain m' where "destroy_cells [0..<sz v] (arr v) = Inr m'"
      using destroy_cells_ok [of "[0..<sz v]" "arr v"] rd by auto
    then have v': "v' = v\<lparr>arr := newarr, cap := n\<rparr>" "e = None" using r False Inr by (auto simp: reserve_def)
    then show ?thesis
      using u ok szn False by (auto simp: vec_ok_def elems_def)
  qed
qed

lemma place_end:
  assumes "vec_ok v" "sz v < cap v" "faithful cp" "bindr (cp x) (place (arr v) (sz v)) = Inr m"
  shows "vec_ok (v\<lparr>arr := m, sz := sz v + 1\<rparr>) \<and> elems (v\<lparr>arr := m, sz := sz v + 1\<rparr>) = elems v @ [x]"
proof -
  obtain y where y: "cp x = Inr y" "place (arr v) (sz v) y = Inr m" using assms(4) by (auto simp: bindr_eq_Inr)
  then have "y = x" using assms(3) by (simp add: faithful_def)
  moreover have "sz v < length (arr v)" using assms(1,2) by (simp add: vec_ok_def)
  ultimately have "m = (arr v)[sz v := Some x]" using y(2) by (simp add: place_def)
  then show ?thesis using assms(1,2) by (auto simp: vec_ok_def elems_def nth_list_update less_Suc_eq)
qed

lemma push_back_result:
  assumes ok: "vec_ok v" and c: "0 < cap v" and f: "faithful cp" and r: "vec_push_back cp x v = (e, v')"
  shows "vec_ok v' \<and> (case e of None \<Rightarrow> elems v' = elems v @ [x]
     | Some err \<Rightarrow> elems v' = elems v \<and> (\<exists>y \<in> set (x # elems v). cp y = Inl err))"
proof -
  obtain e1 v1 where r1: "(if cap v = sz v then reserve cp (2 * sz v) v else (None, v)) = (e1, v1)" by fastforce
  have v1: "vec_ok v1 \<and> elems v1 = elems v \<and> (e1 = None \<longrightarrow> sz v1 < cap v1)
      \<and> (e1 \<noteq> None \<longrightarrow> (\<exists>y \<in> set (elems v). cp y = Inl (the e1)))"
  proof (cases "cap v = sz v")
    case True
    then have rr: "reserve cp (2 * sz v) v = (e1, v1)" using r1 by simp
    show ?thesis using reserve_result [OF ok f rr] True c by auto
  next
    case False
    then show ?thesis using r1 ok by (auto simp: vec_ok_def)
  qed
  show ?thesis
  proof (cases e1)
    case (Some err)
    then show ?thesis using r r1 v1 by (auto simp: vec_push_back_def)
  next
    case None
    then have lt: "sz v1 < cap v1" using v1 by simp
    then have fits: "place (arr v1) (sz v1) y = Inr ((arr v1)[sz v1 := Some y])" for y
      using v1 by (simp add: place_def vec_ok_def)
    show ?thesis
    proof (cases "bindr (cp x) (place (arr v1) (sz v1))")
      case (Inl err)
      then have "cp x = Inl err" by (auto simp: bindr_eq_Inl fits)
      then show ?thesis using r r1 None Inl v1 by (auto simp: vec_push_back_def)
    next
      case (Inr m)
      then show ?thesis using r r1 None v1 place_end [OF _ lt f Inr] by (auto simp: vec_push_back_def)
    qed
  qed
qed

lemma pop_back_result:
  assumes "vec_ok v" "0 < sz v"
  shows "\<exists>v'. pop_back v = (None, v') \<and> vec_ok v' \<and> elems v' = butlast (elems v) \<and> cap v' = cap v"
proof -
  have i: "sz v - 1 < length (arr v)" and rc: "read_cell (arr v) (sz v - 1) = Inr (the (arr v ! (sz v - 1)))"
    using assms read_cell_ok [OF assms(1), of "sz v - 1"] by (auto simp: vec_ok_def)
  let ?m = "(arr v)[sz v - 1 := None]"
  have "vset (arr v) (int (sz v - 1)) None = Inr ?m" using i by (rule vset_int)
  then have "destroy_cell (arr v) (sz v - 1) = Inr ?m" using rc by (simp add: destroy_cell_def)
  moreover have "map (\<lambda>i. the (?m ! i)) [0..<sz v - 1] = butlast (elems v)"
    using assms(2) by (cases "sz v") (simp_all add: elems_def)
  ultimately show ?thesis
    using assms by (auto simp: pop_back_def vec_ok_def elems_def nth_list_update)
qed

lemma vec_at_value:
  assumes "vec_ok v"
  shows "vec_at v i = (if i < length (elems v) then Inr (elems v ! i) else Inl Out_Of_Range)"
  using read_cell_ok [OF assms, of i] by (auto simp: vec_at_def elems_def)

text \<open>
  Doubling a size of 0 reserves nothing, and the new element is built outside the array.
\<close>

lemma push_back_empty:
  assumes "vec_ok v" "cap v = 0" "cp x = Inr y"
  shows "vec_push_back cp x v = (Some Undefined_Behaviour, v)"
  using assms by (auto simp: vec_push_back_def reserve_def vec_ok_def place_def)

text \<open>Growing builds the new elements but leaves the size as it was.\<close>

lemma fill_cells_keeps: "fill_cells cp x is v = (e, v') \<Longrightarrow> sz v' = sz v \<and> cap v' = cap v"
proof (induction "is" arbitrary: v)
  case (Cons i "is")
  then show ?case by (cases "bindr (cp x) (place (arr v) i)") auto
qed auto

lemma resize_grow_size:
  assumes "vec_ok v" "faithful cp" "sz v < n" "resize cp n x v = (None, v')"
  shows "sz v' = sz v"
proof -
  obtain e v1 where r1: "(if n > cap v then reserve cp n v else (None, v)) = (e, v1)" by fastforce
  have s1: "sz v1 = sz v"
    using r1 reserve_result [OF assms(1,2), of n e v1] by (auto split: if_splits)
  obtain e2 v2 where r2: "fill_cells cp x [sz v1..<n] v1 = (e2, v2)" by fastforce
  show ?thesis
    using assms(3,4) r1 r2 s1 fill_cells_keeps [OF r2] by (auto simp: resize_def split: option.splits)
qed

section \<open>Properties\<close>

text \<open>
  \<open>push_back\<close> has the strong guarantee: on a vector with an allocation, when copying an
  element may throw but never changes it, it either appends the value and keeps every element,
  or passes on the exception of a copy and leaves the elements as they were.
\<close>

theorem push_back_strong:
  assumes "vec_ok v" "0 < cap v" "faithful cp"
  shows "case vec_push_back cp x v of (e, v') \<Rightarrow> vec_ok v' \<and>
     (case e of None \<Rightarrow> elems v' = elems v @ [x]
      | Some err \<Rightarrow> elems v' = elems v \<and> (\<exists>y \<in> set (x # elems v). cp y = Inl err))"
  using push_back_result [OF assms] by (cases "vec_push_back cp x v") blast

theorem push_back_strong_witness:
  "elems (snd (vec_push_back Inr 7 \<lparr>arr = [Some (5 :: int)], sz = 1, cap = 1\<rparr>)) = [5, 7]"
proof -
  have "vec_ok \<lparr>arr = [Some (5 :: int)], sz = 1, cap = 1\<rparr>" by (simp add: vec_ok_def)
  from push_back_strong [OF this, of Inr 7] show ?thesis
    by (auto simp: faithful_def elems_def split: prod.splits option.splits)
qed

text \<open>
  An assignment through a bit reference changes the bit it was made for and no other.
\<close>

theorem bit_reference_assign:
  assumes "i div 8 < length mem"
  shows "\<exists>mem'. bit_assign (bool_index i) b mem = Inr mem' \<and> length mem' = length mem
    \<and> (\<forall>j < 8 * length mem. bool_at mem' j = (if j = i then b else bool_at mem j))"
  by (rule bit_assign_value [OF assms])

theorem bit_reference_assign_witness:
  "\<exists>mem'. bit_assign (bool_index 9) True [0, 0] = Inr mem' \<and> bool_at mem' 9 \<and> \<not> bool_at mem' 8"
proof -
  obtain mem' where m: "bit_assign (bool_index 9) True [0, 0] = Inr mem'"
      "\<forall>j < 8 * length [0, 0 :: 8 word]. bool_at mem' j = (if j = 9 then True else bool_at [0, 0] j)"
    using bit_reference_assign [of 9 "[0, 0]" True] by auto
  have "bool_at mem' 9" "bool_at mem' 8 = bool_at [0, 0] 8" using m(2) by simp_all
  then show ?thesis using m(1) by (auto simp: bool_at_def)
qed

end
