(* ===== verification/Bit_Masking.thy ===== *)
theory Bit_Masking
  imports Text_Input
begin

unbundle bit_operations_syntax

text \<open>
  The leaf node of \<^verbatim>\<open>projects/high_perf/bit_masking.cc\<close>: a cube of 8 x 8 x 8 values with a bit
  mask of the active ones, the mapping of coordinates to offsets and back, \<open>setActive\<close> and
  \<open>traverse\<close>. The shifts and masks are those of the code, on 32-bit words where the code
  computes with \<open>unsigned\<close>. The lemmas show that the mapping is a bijection between the cube and
  the offsets, and that a traversal lists the active offsets in order.
\<close>

section \<open>The leaf node\<close>

definition DIM :: int where "DIM = 8"
definition Log2Dim :: nat where "Log2Dim = 3"

record 'a leaf_node =
  mask_bit_buffer :: "8 word list"
  data_buffer :: "'a list"
  max_offset :: int

definition DataLeafNode :: "'a \<Rightarrow> 'a leaf_node" where
  "DataLeafNode zero =
     \<lparr>mask_bit_buffer = replicate (nat (DIM * DIM)) 0,
      data_buffer = replicate (nat (DIM * DIM * DIM)) zero,
      max_offset = DIM * DIM * DIM\<rparr>"

text \<open>
  \<open>x & (DIM - 1u)\<close> converts \<open>x\<close> to \<open>unsigned\<close>; the sums are converted back to \<open>int\<close>.
\<close>

definition toOffset :: "int \<Rightarrow> int \<Rightarrow> int \<Rightarrow> int result" where
  "toOffset x y z =
     bindr (check (x < 8 \<and> y < 8 \<and> z < 8) Assert_Failed) (\<lambda>_.
     bindr (check (x \<ge> 0 \<and> y \<ge> 0 \<and> z \<ge> 0) Assert_Failed) (\<lambda>_.
       let mask = (word_of_int DIM :: 32 word) - 1;
           offsetX = to_int (uint (push_bit (2 * Log2Dim) ((word_of_int x :: 32 word) AND mask)));
           offsetXY = to_int (uint (word_of_int offsetX + push_bit Log2Dim ((word_of_int y :: 32 word) AND mask)));
           offset = to_int (uint (word_of_int offsetXY + ((word_of_int z :: 32 word) AND mask))) in
       Inr offset))"

text \<open>The text that \<open>fromOffset\<close> prints is that of the coordinates it computes.\<close>

definition offset_coords :: "int \<Rightarrow> int \<times> int \<times> int" where
  "offset_coords offset =
     (let sLog2X = Log2Dim; sLog2Y = Log2Dim; sLog2Z = Log2Dim;
          x = drop_bit (sLog2Y + sLog2Z) offset;
          n = offset AND (push_bit (sLog2Y + sLog2Z) 1 - 1);
          y = drop_bit sLog2Z n;
          z = n AND (push_bit sLog2Z 1 - 1) in
      (x, y, z))"

definition fromOffset :: "int \<Rightarrow> string" where
  "fromOffset offset =
     (let (x, y, z) = offset_coords offset in
      show_int x @ [newline] @ show_int y @ [newline] @ show_int z @ [newline])"

definition setActive :: "int \<Rightarrow> int \<Rightarrow> int \<Rightarrow> 'a \<Rightarrow> 'a leaf_node \<Rightarrow> 'a leaf_node result" where
  "setActive x y z val s =
     bindr (toOffset x y z) (\<lambda>offset.
     bindr (cdiv offset DIM) (\<lambda>index.
     bindr (cint (index * DIM)) (\<lambda>base.
     bindr (cint (offset - base)) (\<lambda>shift.
     bindr (vget (mask_bit_buffer s) index) (\<lambda>l.
     bindr (vset (mask_bit_buffer s) index (l OR word_of_int (push_bit (nat shift) 1))) (\<lambda>mask.
     bindr (vset (data_buffer s) offset val) (\<lambda>data.
       Inr (s\<lparr>mask_bit_buffer := mask, data_buffer := data\<rparr>))))))))"

text \<open>
  The inner loop looks at the bits of one cell and counts \<open>whole_mask_ptr\<close>; the outer one goes
  over the cells.
\<close>

fun traverse_bits :: "8 word \<Rightarrow> nat list \<Rightarrow> int \<Rightarrow> int list \<times> int" where
  "traverse_bits l [] ptr = ([], ptr)"
| "traverse_bits l (i # is) ptr =
     (let (offsets, ptr') = traverse_bits l is (ptr + 1) in
      ((if uint l AND push_bit i 1 \<noteq> 0 then [ptr] else []) @ offsets, ptr'))"

fun traverse_cells :: "8 word list \<Rightarrow> int \<Rightarrow> int list" where
  "traverse_cells [] ptr = []"
| "traverse_cells (l # ls) ptr =
     (let (offsets, ptr') = traverse_bits l [0..<nat DIM] ptr in offsets @ traverse_cells ls ptr')"

definition traverse :: "'a leaf_node \<Rightarrow> int list" where
  "traverse s = traverse_cells (mask_bit_buffer s) 0"

text \<open>The two-layer structure, whose \<open>setActive\<close> is empty in the code, and the main program.\<close>

record whole_data =
  leafs :: "int leaf_node list"

definition WholeData2LayerDeep :: whole_data where
  "WholeData2LayerDeep = \<lparr>leafs = replicate (2 * 2 * 2) (DataLeafNode 0)\<rparr>"

definition whole_setActive :: "int \<Rightarrow> int \<Rightarrow> int \<Rightarrow> whole_data \<Rightarrow> whole_data" where
  "whole_setActive x y z s = s"

definition masking_main :: "int list result" where
  "masking_main = bindr (setActive 0 0 7 0 (DataLeafNode (0 :: int))) (\<lambda>ln. Inr (traverse ln))"

section \<open>Coordinates and offsets\<close>

definition in_cube :: "int \<Rightarrow> int \<Rightarrow> int \<Rightarrow> bool" where
  "in_cube x y z \<longleftrightarrow> 0 \<le> x \<and> x < 8 \<and> 0 \<le> y \<and> y < 8 \<and> 0 \<le> z \<and> z < 8"

lemma cube_cases: "0 \<le> x \<Longrightarrow> x < 8 \<Longrightarrow> x \<in> {0, 1, 2, 3, 4, 5, 6, 7 :: int}"
  by auto

lemma masked: "0 \<le> x \<Longrightarrow> x < 8 \<Longrightarrow> (word_of_int x :: 32 word) AND 7 = word_of_int x"
proof -
  assume "0 \<le> x" "x < 8"
  then have "x AND 7 = x" using take_bit_eq_mask [of 3 x] by (simp add: take_bit_eq_mod mask_eq_exp_minus_1)
  then show ?thesis by (metis of_int_and_eq of_int_numeral)
qed

lemma toOffset_value:
  assumes "in_cube x y z"
  shows "toOffset x y z = Inr (64 * x + 8 * y + z)"
proof -
  have c: "0 \<le> x" "x < 8" "0 \<le> y" "y < 8" "0 \<le> z" "z < 8" using assms by (simp_all add: in_cube_def)
  have u: "uint (word_of_int a :: 32 word) = a" if "0 \<le> a" "a < 512" for a
    using that by (simp add: uint_word_of_int_eq take_bit_eq_mod)
  have m: "(word_of_int DIM :: 32 word) - 1 = 7" by (simp add: DIM_def)
  have p: "push_bit k (word_of_int a :: 32 word) = word_of_int (2 ^ k * a)" for k a
    by (simp add: push_bit_eq_mult mult.commute)
  have ti: "to_int a = a" if "0 \<le> a" "a < 512" for a
    using that by (intro to_int_ok) (simp add: in_int_iff)
  have k: "2 ^ (2 * Log2Dim) = (64 :: int)" "2 ^ Log2Dim = (8 :: int)" by (simp_all add: Log2Dim_def)
  note raw = of_int_mult of_int_add
  have 1: "to_int (uint (push_bit (2 * Log2Dim) ((word_of_int x :: 32 word) AND 7))) = 64 * x"
    using c unfolding masked [OF c(1,2)] p k by (simp add: u ti del: raw)
  have 2: "to_int (uint (word_of_int (64 * x) + push_bit Log2Dim ((word_of_int y :: 32 word) AND 7))) = 64 * x + 8 * y"
    using c unfolding masked [OF c(3,4)] p k of_int_add [symmetric] by (simp add: u ti del: raw)
  have 3: "to_int (uint (word_of_int (64 * x + 8 * y) + ((word_of_int z :: 32 word) AND 7))) = 64 * x + 8 * y + z"
    using c unfolding masked [OF c(5,6)] of_int_add [symmetric] by (simp add: u ti del: raw)
  show ?thesis
    using c unfolding toOffset_def m Let_def 1 2 3 by simp
qed

lemma offset_coords_value:
  "offset_coords o' = (o' div 64, (o' mod 64) div 8, (o' mod 64) mod 8)"
proof -
  have m64: "a AND 63 = a mod 64" and m8: "a AND 7 = a mod 8" for a :: int
    using take_bit_eq_mask [of 6 a] take_bit_eq_mask [of 3 a]
    by (simp_all add: take_bit_eq_mod mask_eq_exp_minus_1)
  show ?thesis
    by (simp add: offset_coords_def Log2Dim_def drop_bit_eq_div push_bit_eq_mult Let_def m64 m8)
qed

lemma coords_round_trip:
  assumes "in_cube x y z"
  shows "offset_coords (64 * x + 8 * y + z) = (x, y, z)"
proof -
  have r: "0 \<le> 8 * y + z" "8 * y + z < 64" using assms by (simp_all add: in_cube_def)
  have z: "z div 8 = 0" "z mod 8 = z" using assms by (simp_all add: in_cube_def)
  have "(64 * x + (8 * y + z)) div 64 = x" "(64 * x + (8 * y + z)) mod 64 = 8 * y + z"
    using r by (simp_all add: div_pos_pos_trivial)
  moreover have "(8 * y + z) div 8 = y" "(8 * y + z) mod 8 = z" using z by simp_all
  ultimately show ?thesis by (simp add: offset_coords_value add.assoc)
qed

lemma coords_in_cube:
  assumes "0 \<le> o'" "o' < 512" "offset_coords o' = (x, y, z)"
  shows "in_cube x y z" "64 * x + 8 * y + z = o'"
proof -
  have xyz: "x = o' div 64" "y = (o' mod 64) div 8" "z = (o' mod 64) mod 8"
    using assms(3) by (simp_all add: offset_coords_value)
  have "8 * y + z = o' mod 64" unfolding xyz by simp
  then show "64 * x + 8 * y + z = o'" unfolding xyz(1)
    by (metis add.assoc mult_div_mod_eq)
  have "x < 8" using assms(2) xyz(1) by simp
  moreover have "y < 8" using xyz(2) pos_mod_bound [of 64 o'] by simp
  ultimately show "in_cube x y z" using assms(1) by (simp add: in_cube_def xyz pos_imp_zdiv_nonneg_iff)
qed

section \<open>Traversal\<close>

definition active :: "'a leaf_node \<Rightarrow> nat \<Rightarrow> bool" where
  "active s i \<longleftrightarrow> bit (mask_bit_buffer s ! (i div 8)) (i mod 8)"

definition leaf_ok :: "'a leaf_node \<Rightarrow> bool" where
  "leaf_ok s \<longleftrightarrow> length (mask_bit_buffer s) = 64 \<and> length (data_buffer s) = 512"

lemma DataLeafNode_ok: "leaf_ok (DataLeafNode v)"
  by (simp add: leaf_ok_def DataLeafNode_def DIM_def)

lemma traverse_bits_value:
  "traverse_bits l [a..<a + n] ptr = (map (\<lambda>i. ptr + int (i - a)) (filter (bit l) [a..<a + n]), ptr + int n)"
proof (induction n arbitrary: a ptr)
  case (Suc n)
  have u: "[a..<a + Suc n] = a # [Suc a..<Suc a + n]" by (simp add: upt_conv_Cons)
  have b: "uint l AND push_bit a 1 \<noteq> 0 \<longleftrightarrow> bit l a"
    using bit_imp_le_length [of l a]
    by (simp only: bit_iff_and_push_bit_not_eq_0 [symmetric] bit_uint_iff) blast
  have "map (\<lambda>i. ptr + 1 + int (i - Suc a)) (filter (bit l) [Suc a..<Suc a + n])
      = map (\<lambda>i. ptr + int (i - a)) (filter (bit l) [Suc a..<Suc a + n])" by auto
  then show ?case
    unfolding u traverse_bits.simps Suc.IH [of "Suc a" "ptr + 1"] b by (simp add: Let_def)
qed simp

lemma traverse_cells_value:
  "traverse_cells ls ptr = map (\<lambda>i. ptr + int i) (filter (\<lambda>i. bit (ls ! (i div 8)) (i mod 8)) [0..<8 * length ls])"
proof (induction ls arbitrary: ptr)
  case (Cons l ls)
  have "[0..<8 * length (l # ls)] = [0..<8] @ map (\<lambda>i. i + 8) [0..<8 * length ls]"
    using upt_add_eq_append [of 0 8 "8 * length ls"] map_add_upt [of 8 "8 * length ls"] by (simp add: add.commute)
  moreover have "filter (\<lambda>i. bit ((l # ls) ! (i div 8)) (i mod 8)) [0..<8] = filter (bit l) [0..<8]"
    by (rule filter_cong) auto
  moreover have "traverse_bits l [0..<nat DIM] ptr = (map (\<lambda>i. ptr + int i) (filter (bit l) [0..<8]), ptr + 8)"
    using traverse_bits_value [of l 0 8 ptr] by (simp add: DIM_def)
  moreover have "(x + 8) div 8 = Suc (x div 8)" for x :: nat by simp
  ultimately show ?case
    by (simp add: Cons.IH filter_map comp_def add.assoc add.commute [of "8 :: int"] del: upt_Suc div_add_self2)
qed simp

lemma traverse_value: "leaf_ok s \<Longrightarrow> traverse s = map int (filter (active s) [0..<512])"
  by (simp add: traverse_def traverse_cells_value leaf_ok_def active_def [abs_def] del: upt_Suc)

lemma int_eq_div_mod:
  assumes "0 \<le> a"
  shows "int j = a \<longleftrightarrow> j div 8 = nat (a div 8) \<and> j mod 8 = nat (a mod 8)"
proof -
  obtain k where k: "a = int k" using assms nonneg_int_cases by blast
  have "nat (int k div 8) = k div 8" "nat (int k mod 8) = k mod 8"
    using zdiv_int [of k 8] zmod_int [of k 8] by simp_all
  moreover have "j = k \<longleftrightarrow> j div 8 = k div 8 \<and> j mod 8 = k mod 8" by (metis div_mult_mod_eq)
  ultimately show ?thesis by (simp add: k)
qed

lemma setActive_value:
  assumes ok: "leaf_ok s" and c: "in_cube x y z"
  shows "\<exists>s'. setActive x y z val s = Inr s' \<and> leaf_ok s'
    \<and> (\<forall>j. active s' j \<longleftrightarrow> active s j \<or> int j = 64 * x + 8 * y + z)
    \<and> data_buffer s' = (data_buffer s)[nat (64 * x + 8 * y + z) := val]"
proof -
  let ?o = "64 * x + 8 * y + z"
  have o: "0 \<le> ?o" "?o < 512" using c by (simp_all add: in_cube_def)
  let ?i = "?o div 8"
  have i: "0 \<le> ?i" "?i < 64" using o by (simp_all add: pos_imp_zdiv_nonneg_iff)
  have d: "cdiv ?o DIM = Inr ?i" using o by (simp add: cdiv_nonneg DIM_def in_int_iff)
  have b: "cint (?i * DIM) = Inr (?i * 8)" using i by (simp add: DIM_def in_int_iff)
  have sh: "?o - ?i * 8 = ?o mod 8" by (simp add: minus_div_mult_eq_mod)
  have m: "0 \<le> ?o mod 8" "?o mod 8 < 8" by simp_all
  have "in_int (?o mod 8)" using m unfolding in_int_iff by linarith
  then have s8: "cint (?o - ?i * 8) = Inr (?o mod 8)" unfolding sh by (rule cint_ok)
  let ?c = "mask_bit_buffer s ! nat ?i OR word_of_int (push_bit (nat (?o mod 8)) 1)"
  let ?s = "s\<lparr>mask_bit_buffer := (mask_bit_buffer s)[nat ?i := ?c], data_buffer := (data_buffer s)[nat ?o := val]\<rparr>"
  have "setActive x y z val s = Inr ?s"
    using ok i o unfolding setActive_def toOffset_value [OF c] bindr_simps d b s8
    by (simp add: leaf_ok_def)
  moreover have "active ?s j \<longleftrightarrow> active s j \<or> int j = ?o" for j
  proof -
    have bc: "bit ?c k \<longleftrightarrow> bit (mask_bit_buffer s ! nat ?i) k \<or> k = nat (?o mod 8)" if "k < 8" for k
      using that m by (simp add: bit_simps)
    have eq: "int j = ?o \<longleftrightarrow> j div 8 = nat ?i \<and> j mod 8 = nat (?o mod 8)"
      by (rule int_eq_div_mod [OF o(1)])
    show ?thesis
      using bc [of "j mod 8"] i(2) ok unfolding eq
      by (cases "j div 8 = nat ?i") (auto simp: active_def leaf_ok_def)
  qed
  ultimately show ?thesis using ok by (simp add: leaf_ok_def)
qed

section \<open>Properties\<close>

text \<open>
  Coordinates and offsets are in bijection: every cell of the cube has an offset below 512
  from which its coordinates are computed back, and every offset below 512 is that of the
  coordinates computed from it.
\<close>

theorem offset_bijection:
  assumes "in_cube x y z" "0 \<le> i" "i < 512" "offset_coords i = (a, b, c)"
  shows "(\<exists>k. toOffset x y z = Inr k \<and> 0 \<le> k \<and> k < 512 \<and> offset_coords k = (x, y, z))
     \<and> in_cube a b c \<and> toOffset a b c = Inr i"
  using toOffset_value [OF assms(1)] coords_round_trip [OF assms(1)] assms(1)
    coords_in_cube [OF assms(2-4)] toOffset_value [of a b c]
  by (auto simp: in_cube_def)

theorem offset_bijection_witness:
  "toOffset 2 3 1 = Inr 153 \<and> offset_coords 153 = (2, 3, 1)"
  using offset_bijection [of 2 3 1 153 2 3 1] by (simp add: in_cube_def offset_coords_value)

text \<open>
  A traversal lists exactly the active cells, in increasing order: after \<open>setActive\<close> the
  offset of the cell has joined the list, everything else is as before, and the value is stored
  at that offset.
\<close>

theorem traverse_active:
  assumes "leaf_ok s" "in_cube x y z"
  shows "\<exists>s'. setActive x y z val s = Inr s' \<and> leaf_ok s' \<and> sorted (traverse s') \<and> distinct (traverse s')
     \<and> set (traverse s') = insert (64 * x + 8 * y + z) (set (traverse s))
     \<and> data_buffer s' = (data_buffer s)[nat (64 * x + 8 * y + z) := val]"
proof -
  let ?o = "64 * x + 8 * y + z"
  obtain s' where s': "setActive x y z val s = Inr s'" "leaf_ok s'"
      "\<forall>j. active s' j \<longleftrightarrow> active s j \<or> int j = ?o" "data_buffer s' = (data_buffer s)[nat ?o := val]"
    using setActive_value [OF assms] by blast
  have "0 \<le> ?o" "?o < 512" using assms(2) by (simp_all add: in_cube_def)
  then have o: "int (nat ?o) = ?o" "nat ?o < 512" by simp_all
  then have "int j = ?o \<longleftrightarrow> j = nat ?o" for j by (metis nat_int)
  then have "{j. j < 512 \<and> active s' j} = insert (nat ?o) {j. j < 512 \<and> active s j}"
    using s'(3) o(2) by blast
  moreover have "set (traverse t) = int ` {j. j < 512 \<and> active t j}" if "leaf_ok t" for t :: "'a leaf_node"
    unfolding traverse_value [OF that] by auto
  ultimately have "set (traverse s') = insert ?o (set (traverse s))"
    using s'(2) assms(1) o(1) by simp
  moreover have "sorted (traverse s')" "distinct (traverse s')"
    unfolding traverse_value [OF s'(2)]
    by (auto simp: sorted_map distinct_map simp del: upt_Suc intro!: sorted_wrt_filter)
  ultimately show ?thesis using s' by blast
qed

theorem traverse_active_witness:
  "\<exists>s'. setActive 0 0 7 5 (DataLeafNode (0 :: int)) = Inr s' \<and> 7 \<in> set (traverse s')"
  using traverse_active [OF DataLeafNode_ok, of 0 0 7 5 0] by (auto simp: in_cube_def)

end
