(* ===== verification/Reduce_Kernels.thy ===== *)
theory Reduce_Kernels
  imports Prelude
begin

text \<open>
  The parallel reductions of \<^verbatim>\<open>CodeSamples/chapter03/reduceInteger.cu\<close> in the CUDA samples: the
  recursive sum on the host, the kernels, and the main program that compares them. A kernel is
  the list of its phases between barriers; in a phase the threads of the block run in any
  order. The last warp has no barrier: its 32 lanes read before they write, as the hardware
  that the code is for does it. Sums are those of 32-bit words, on the host too.
\<close>

section \<open>The host\<close>

type_synonym mem = "32 word list"

text \<open>\<open>a[i] += a[j]\<close>.\<close>

definition accumulate :: "nat \<Rightarrow> nat \<Rightarrow> mem \<Rightarrow> mem result" where
  "accumulate i j xs =
     bindr (vget xs (int i)) (\<lambda>a. bindr (vget xs (int j)) (\<lambda>b. vset xs (int i) (a + b)))"

text \<open>The statements of some threads, one thread after the other.\<close>

fun run_threads :: "(nat \<Rightarrow> mem \<Rightarrow> mem result) \<Rightarrow> nat list \<Rightarrow> mem \<Rightarrow> mem result" where
  "run_threads f [] xs = Inr xs"
| "run_threads f (t # ts) xs = bindr (f t xs) (run_threads f ts)"

text \<open>A size of 0 calls itself without end, until the stack is exhausted.\<close>

function recursiveReduce :: "mem \<Rightarrow> nat \<Rightarrow> 32 word result" where
  "recursiveReduce xs len =
     (if len = 0 then Inl Undefined_Behaviour
      else if len = 1 then vget xs 0
      else (let stride = len div 2 in
        bindr (run_threads (\<lambda>i. accumulate i (i + stride)) [0..<stride] xs) (\<lambda>xs'.
          recursiveReduce xs' stride)))"
  by pat_completeness auto
termination by (relation "measure snd") auto

declare recursiveReduce.simps [simp del]

section \<open>Phases\<close>

text \<open>What a phase does depends on the order in which its threads run.\<close>

type_synonym phase = "nat list \<Rightarrow> mem \<Rightarrow> mem result"

fun run_phases :: "(nat \<Rightarrow> nat list) \<Rightarrow> nat \<Rightarrow> phase list \<Rightarrow> mem \<Rightarrow> mem result" where
  "run_phases ord k [] xs = Inr xs"
| "run_phases ord k (p # ps) xs = bindr (p (ord k) xs) (run_phases ord (Suc k) ps)"

text \<open>The strides of the loops.\<close>

function doubling :: "nat \<Rightarrow> nat \<Rightarrow> nat list" where
  "doubling stride blockDim =
     (if 0 < stride \<and> stride < blockDim then stride # doubling (stride * 2) blockDim else [])"
  by pat_completeness auto
termination by (relation "measure (\<lambda>(s, b). b - s)") auto

function halving :: "nat \<Rightarrow> nat \<Rightarrow> nat list" where
  "halving stride least = (if least < stride then stride # halving (stride div 2) least else [])"
  by pat_completeness auto
termination by (relation "measure fst") auto

declare doubling.simps [simp del] halving.simps [simp del]

section \<open>Kernels with one element for each thread\<close>

definition neighbored_thread :: "nat \<Rightarrow> nat \<Rightarrow> nat \<Rightarrow> nat \<Rightarrow> nat \<Rightarrow> mem \<Rightarrow> mem result" where
  "neighbored_thread blockIdx blockDim n stride tid idata =
     (let base = blockIdx * blockDim in
      if u32 (base + tid) \<ge> n then Inr idata
      else if tid mod (2 * stride) = 0 then accumulate (base + tid) (base + tid + stride) idata
      else Inr idata)"

definition reduceNeighbored :: "nat \<Rightarrow> nat \<Rightarrow> nat \<Rightarrow> phase list" where
  "reduceNeighbored blockIdx blockDim n =
     map (\<lambda>stride. run_threads (neighbored_thread blockIdx blockDim n stride)) (doubling 1 blockDim)"

definition neighbored_less_thread :: "nat \<Rightarrow> nat \<Rightarrow> nat \<Rightarrow> nat \<Rightarrow> nat \<Rightarrow> mem \<Rightarrow> mem result" where
  "neighbored_less_thread blockIdx blockDim n stride tid idata =
     (let base = blockIdx * blockDim; index = 2 * stride * tid in
      if u32 (base + tid) \<ge> n then Inr idata
      else if index < blockDim then accumulate (base + index) (base + index + stride) idata
      else Inr idata)"

definition reduceNeighboredLess :: "nat \<Rightarrow> nat \<Rightarrow> nat \<Rightarrow> phase list" where
  "reduceNeighboredLess blockIdx blockDim n =
     map (\<lambda>stride. run_threads (neighbored_less_thread blockIdx blockDim n stride)) (doubling 1 blockDim)"

definition interleaved_thread :: "nat \<Rightarrow> nat \<Rightarrow> nat \<Rightarrow> nat \<Rightarrow> nat \<Rightarrow> mem \<Rightarrow> mem result" where
  "interleaved_thread blockIdx blockDim n stride tid idata =
     (let base = blockIdx * blockDim in
      if u32 (base + tid) \<ge> n then Inr idata
      else if tid < stride then accumulate (base + tid) (base + tid + stride) idata
      else Inr idata)"

definition reduceInterleaved :: "nat \<Rightarrow> nat \<Rightarrow> nat \<Rightarrow> phase list" where
  "reduceInterleaved blockIdx blockDim n =
     map (\<lambda>stride. run_threads (interleaved_thread blockIdx blockDim n stride)) (halving (blockDim div 2) 0)"

section \<open>Kernels with several elements for each thread\<close>

text \<open>The first statement, for two, four or eight elements.\<close>

definition unroll_thread :: "nat \<Rightarrow> nat \<Rightarrow> nat \<Rightarrow> nat \<Rightarrow> nat \<Rightarrow> mem \<Rightarrow> mem result" where
  "unroll_thread k blockIdx blockDim n tid idata =
     (let idx = u32 (blockIdx * blockDim * k + tid) in
      if u32 (idx + (k - 1) * blockDim) < n
      then bindr (mapr (\<lambda>j. vget idata (int (u32 (idx + j * blockDim)))) [0..<k]) (\<lambda>as.
        vset idata (int idx) (sum_list as))
      else Inr idata)"

text \<open>A turn of the loop of these kernels: they have no early return.\<close>

definition stride_thread :: "nat \<Rightarrow> nat \<Rightarrow> nat \<Rightarrow> mem \<Rightarrow> mem result" where
  "stride_thread base stride tid idata =
     (if tid < stride then accumulate (base + tid) (base + tid + stride) idata else Inr idata)"

definition reduceUnrolling2 :: "nat \<Rightarrow> nat \<Rightarrow> nat \<Rightarrow> phase list" where
  "reduceUnrolling2 blockIdx blockDim n =
     run_threads (unroll_thread 2 blockIdx blockDim n)
     # map (\<lambda>stride. run_threads (stride_thread (blockIdx * blockDim * 2) stride)) (halving (blockDim div 2) 0)"

definition reduceUnrolling4 :: "nat \<Rightarrow> nat \<Rightarrow> nat \<Rightarrow> phase list" where
  "reduceUnrolling4 blockIdx blockDim n =
     run_threads (unroll_thread 4 blockIdx blockDim n)
     # map (\<lambda>stride. run_threads (stride_thread (blockIdx * blockDim * 4) stride)) (halving (blockDim div 2) 0)"

definition reduceUnrolling8 :: "nat \<Rightarrow> nat \<Rightarrow> nat \<Rightarrow> phase list" where
  "reduceUnrolling8 blockIdx blockDim n =
     run_threads (unroll_thread 8 blockIdx blockDim n)
     # map (\<lambda>stride. run_threads (stride_thread (blockIdx * blockDim * 8) stride)) (halving (blockDim div 2) 0)"

text \<open>\<open>vmem[tid] += vmem[tid + off]\<close> in the lanes of the first warp.\<close>

definition warp_step :: "nat \<Rightarrow> nat \<Rightarrow> nat \<Rightarrow> phase" where
  "warp_step base blockDim off ord vmem =
     bindr (mapr (\<lambda>tid. bindr (vget vmem (int (base + tid))) (\<lambda>a.
       bindr (vget vmem (int (base + tid + off))) (\<lambda>b. Inr (a + b)))) [0..<min 32 blockDim]) (\<lambda>sums.
       Inr (take base vmem @ sums @ drop (base + length sums) vmem))"

definition last_warp :: "nat \<Rightarrow> nat \<Rightarrow> phase list" where
  "last_warp base blockDim = map (warp_step base blockDim) [32, 16, 8, 4, 2, 1]"

definition reduceUnrollWarps :: "nat \<Rightarrow> nat \<Rightarrow> nat \<Rightarrow> phase list" where
  "reduceUnrollWarps blockIdx blockDim n =
     run_threads (unroll_thread 2 blockIdx blockDim n)
     # map (\<lambda>stride. run_threads (stride_thread (blockIdx * blockDim * 2) stride)) (halving (blockDim div 2) 32)
     @ last_warp (blockIdx * blockDim * 2) blockDim"

definition reduceUnrollWarps8 :: "nat \<Rightarrow> nat \<Rightarrow> nat \<Rightarrow> phase list" where
  "reduceUnrollWarps8 blockIdx blockDim n =
     run_threads (unroll_thread 8 blockIdx blockDim n)
     # map (\<lambda>stride. run_threads (stride_thread (blockIdx * blockDim * 8) stride)) (halving (blockDim div 2) 32)
     @ last_warp (blockIdx * blockDim * 8) blockDim"

text \<open>A statement of the complete unrolling, with its condition on the size of the block.\<close>

definition guarded_thread :: "nat \<Rightarrow> nat \<Rightarrow> nat \<Rightarrow> nat \<Rightarrow> mem \<Rightarrow> mem result" where
  "guarded_thread blockSize base stride tid idata =
     (if 2 * stride \<le> blockSize \<and> tid < stride then accumulate (base + tid) (base + tid + stride) idata else Inr idata)"

definition reduceCompleteUnrollWarps8 :: "nat \<Rightarrow> nat \<Rightarrow> nat \<Rightarrow> phase list" where
  "reduceCompleteUnrollWarps8 blockIdx blockDim n =
     run_threads (unroll_thread 8 blockIdx blockDim n)
     # map (\<lambda>stride. run_threads (guarded_thread blockDim (blockIdx * blockDim * 8) stride)) [512, 256, 128, 64]
     @ last_warp (blockIdx * blockDim * 8) blockDim"

definition reduceCompleteUnroll :: "nat \<Rightarrow> nat \<Rightarrow> nat \<Rightarrow> nat \<Rightarrow> phase list" where
  "reduceCompleteUnroll iBlockSize blockIdx blockDim n =
     run_threads (unroll_thread 8 blockIdx blockDim n)
     # map (\<lambda>stride. run_threads (guarded_thread iBlockSize (blockIdx * blockDim * 8) stride)) [512, 256, 128, 64]
     @ last_warp (blockIdx * blockDim * 8) blockDim"

section \<open>Launches and the main program\<close>

text \<open>
  A kernel with the number of elements of a thread and whether a thread behind the end of the
  data returns at once. Its first thread writes the result of the block.
\<close>

record block_kernel =
  body :: "nat \<Rightarrow> nat \<Rightarrow> nat \<Rightarrow> phase list"
  elements :: nat
  returns_early :: bool

type_synonym schedule = "nat \<Rightarrow> nat \<Rightarrow> nat list"

definition run_block :: "block_kernel \<Rightarrow> schedule \<Rightarrow> nat \<Rightarrow> nat \<Rightarrow> nat \<Rightarrow> mem \<times> mem \<Rightarrow> (mem \<times> mem) result" where
  "run_block kn ord blockDim n blockIdx mems =
     (let (idata, odata) = mems; base = blockIdx * blockDim * elements kn in
      bindr (run_phases (ord blockIdx) 0 (body kn blockIdx blockDim n) idata) (\<lambda>idata'.
      if returns_early kn \<and> u32 base \<ge> n then Inr (idata', odata)
      else bindr (vget idata' (int base)) (\<lambda>r. bindr (vset odata (int blockIdx) r) (\<lambda>odata'.
        Inr (idata', odata')))))"

fun run_grid :: "block_kernel \<Rightarrow> schedule \<Rightarrow> nat \<Rightarrow> nat \<Rightarrow> nat list \<Rightarrow> mem \<times> mem \<Rightarrow> (mem \<times> mem) result" where
  "run_grid kn ord blockDim n [] mems = Inr mems"
| "run_grid kn ord blockDim n (b # bs) mems =
     bindr (run_block kn ord blockDim n b mems) (run_grid kn ord blockDim n bs)"

text \<open>
  One test of \<open>main\<close>: the data is copied again, the kernel runs (its blocks in the order
  \<open>blocks\<close>), and the partial sums are added. The partial sums of the test before are still in
  \<open>d_odata\<close>.
\<close>

definition test_kernel :: "block_kernel option \<Rightarrow> nat \<Rightarrow> schedule \<Rightarrow> nat list \<Rightarrow> nat \<Rightarrow> mem \<Rightarrow> mem \<Rightarrow> (32 word \<times> mem) result" where
  "test_kernel kn grid ord blocks blockDim h_idata d_odata =
     bindr (case kn of None \<Rightarrow> Inr (h_idata, d_odata)
            | Some k \<Rightarrow> run_grid k ord blockDim (length h_idata) blocks (h_idata, d_odata)) (\<lambda>(idata, odata).
     bindr (mapr (\<lambda>i. vget odata (int i)) [0..<grid]) (\<lambda>parts. Inr (sum_list parts, odata)))"

text \<open>
  The tests in the order of \<open>main\<close>, each with the divisor of its grid. The loop after the test of
  \<open>reduceUnrolling8\<close>, which adds parts to a sum that has been printed and is reset next, is left out.
\<close>

definition complete_unroll_case :: "nat \<Rightarrow> block_kernel option" where
  "complete_unroll_case blocksize =
     (if blocksize \<in> set [1024, 512, 256, 128, 64]
      then Some \<lparr>body = reduceCompleteUnroll blocksize, elements = 8, returns_early = False\<rparr> else None)"

definition tests :: "nat \<Rightarrow> (block_kernel option \<times> nat) list" where
  "tests blocksize =
     [(Some \<lparr>body = reduceNeighbored, elements = 1, returns_early = True\<rparr>, 1),
      (Some \<lparr>body = reduceNeighboredLess, elements = 1, returns_early = True\<rparr>, 1),
      (Some \<lparr>body = reduceInterleaved, elements = 1, returns_early = True\<rparr>, 1),
      (Some \<lparr>body = reduceUnrolling2, elements = 2, returns_early = False\<rparr>, 2),
      (Some \<lparr>body = reduceUnrolling4, elements = 4, returns_early = False\<rparr>, 4),
      (Some \<lparr>body = reduceUnrolling8, elements = 8, returns_early = False\<rparr>, 8),
      (Some \<lparr>body = reduceUnrollWarps8, elements = 8, returns_early = False\<rparr>, 8),
      (Some \<lparr>body = reduceCompleteUnrollWarps8, elements = 8, returns_early = False\<rparr>, 8),
      (complete_unroll_case blocksize, 8)]"

fun run_tests :: "nat \<Rightarrow> nat \<Rightarrow> (nat \<Rightarrow> nat \<Rightarrow> schedule) \<Rightarrow> (nat \<Rightarrow> nat \<Rightarrow> nat list) \<Rightarrow> (block_kernel option \<times> nat) list \<Rightarrow> mem \<Rightarrow> mem \<Rightarrow> 32 word list result" where
  "run_tests grid blocksize ords blocks [] h_idata d_odata = Inr []"
| "run_tests grid blocksize ords blocks ((kn, d) # ts) h_idata d_odata =
     bindr (test_kernel kn (grid div d) (ords (length ts) (grid div d)) (blocks (length ts) (grid div d)) blocksize h_idata d_odata)
       (\<lambda>(s, odata). bindr (run_tests grid blocksize ords blocks ts h_idata odata) (\<lambda>sums. Inr (s # sums)))"

text \<open>
  The sum of the host, the sums of the tests, and whether the last one is that of the host. The
  data is what \<open>rand\<close> gave, and \<open>d_odata\<close> starts with whatever the device memory held.
\<close>

definition reduce_main :: "nat \<Rightarrow> (nat \<Rightarrow> nat \<Rightarrow> schedule) \<Rightarrow> (nat \<Rightarrow> nat \<Rightarrow> nat list) \<Rightarrow> mem \<Rightarrow> mem \<Rightarrow> (32 word \<times> 32 word list \<times> bool) result" where
  "reduce_main blocksize ords blocks h_idata d_odata =
     bindr (check (blocksize \<noteq> 0) Undefined_Behaviour) (\<lambda>_.
     let len = length h_idata; grid = (len + blocksize - 1) div blocksize in
     bindr (recursiveReduce h_idata len) (\<lambda>cpu_sum.
     bindr (run_tests grid blocksize ords blocks (tests blocksize) h_idata d_odata) (\<lambda>sums.
       Inr (cpu_sum, sums, last sums = cpu_sum))))"

end
