(* ===== verification/Reduce_Phases.thy ===== *)
theory Reduce_Phases
  imports Reduce_Kernels
begin

text \<open>
  What the phases of the reductions do in every order of their threads. A phase is free of
  races when no thread writes a cell that another one reads or writes; then its result is that
  of all threads at once. On top of this, a phase with stride \<open>s\<close> adds the second half of
  \<open>2 * s\<close> cells to the first, or each odd multiple of \<open>s\<close> to the even one before it.
\<close>

section \<open>Threads without races\<close>

lemma run_updates:
  assumes f: "\<And>t ys. t \<in> T \<Longrightarrow> length ys = length xs \<Longrightarrow>
      (\<And>i. i < length xs \<Longrightarrow> (\<And>t'. t' \<in> T \<Longrightarrow> act t' \<Longrightarrow> t' \<noteq> t \<Longrightarrow> i \<noteq> w t') \<Longrightarrow> ys ! i = xs ! i) \<Longrightarrow>
      f t ys = Inr (if act t then ys[w t := v t] else ys)"
    and inj: "inj_on w {t \<in> T. act t}" and bound: "\<And>t. t \<in> T \<Longrightarrow> act t \<Longrightarrow> w t < length xs"
  shows "set ts \<subseteq> T \<Longrightarrow> distinct ts \<Longrightarrow> length ys = length xs \<Longrightarrow>
    (\<And>i. i < length xs \<Longrightarrow> (\<And>t. t \<in> T \<Longrightarrow> act t \<Longrightarrow> t \<notin> set ts \<Longrightarrow> i \<noteq> w t) \<Longrightarrow> ys ! i = xs ! i) \<Longrightarrow>
    \<exists>zs. run_threads f ts ys = Inr zs \<and> length zs = length xs
      \<and> (\<forall>t \<in> set ts. act t \<longrightarrow> zs ! w t = v t)
      \<and> (\<forall>i. (\<forall>t \<in> set ts. act t \<longrightarrow> i \<noteq> w t) \<longrightarrow> zs ! i = ys ! i)"
proof (induction ts arbitrary: ys)
  case (Cons t ts)
  let ?ys = "if act t then ys[w t := v t] else ys"
  have t: "t \<in> T" "t \<notin> set ts" using Cons.prems(1,2) by auto
  have "f t ys = Inr ?ys"
    by (rule f [OF t(1) Cons.prems(3)], rule Cons.prems(4)) (use t in auto)
  moreover have keep: "?ys ! i = xs ! i"
    if "i < length xs" "\<And>t'. t' \<in> T \<Longrightarrow> act t' \<Longrightarrow> t' \<notin> set ts \<Longrightarrow> i \<noteq> w t'" for i
  proof -
    have "act t \<Longrightarrow> i \<noteq> w t" using that(2) t by blast
    moreover have "ys ! i = xs ! i" by (rule Cons.prems(4)) (use that in auto)
    ultimately show ?thesis by auto
  qed
  have "\<exists>zs. run_threads f ts ?ys = Inr zs \<and> length zs = length xs
      \<and> (\<forall>t \<in> set ts. act t \<longrightarrow> zs ! w t = v t) \<and> (\<forall>i. (\<forall>t \<in> set ts. act t \<longrightarrow> i \<noteq> w t) \<longrightarrow> zs ! i = ?ys ! i)"
    by (rule Cons.IH [OF _ _ _ keep]) (use Cons.prems(1-3) in auto)
  then obtain zs where zs: "run_threads f ts ?ys = Inr zs" "length zs = length xs"
      "\<forall>t \<in> set ts. act t \<longrightarrow> zs ! w t = v t" "\<forall>i. (\<forall>t \<in> set ts. act t \<longrightarrow> i \<noteq> w t) \<longrightarrow> zs ! i = ?ys ! i"
    by blast
  moreover have "zs ! w t = v t" if a: "act t"
  proof -
    have "w t \<noteq> w t'" if "t' \<in> set ts" "act t'" for t'
      using inj_onD [OF inj, of t t'] that t a Cons.prems(1) by auto
    then have "zs ! w t = ?ys ! w t" using zs(4) by blast
    then show ?thesis using a bound [OF t(1)] Cons.prems(3) by simp
  qed
  moreover have "zs ! i = ys ! i" if "\<forall>t' \<in> set (t # ts). act t' \<longrightarrow> i \<noteq> w t'" for i
    using zs(4) that by auto
  moreover have "run_threads f (t # ts) ys = Inr zs" using calculation(1) zs(1) by simp
  ultimately show ?case using zs(2,3) by auto
qed simp

text \<open>The threads of a block, in some order.\<close>

definition orders :: "nat \<Rightarrow> nat list \<Rightarrow> bool" where
  "orders blockDim ts \<longleftrightarrow> distinct ts \<and> set ts = {..<blockDim}"

lemma accumulate_value:
  "i < length xs \<Longrightarrow> j < length xs \<Longrightarrow> accumulate i j xs = Inr (xs[i := xs ! i + xs ! j])"
  by (simp add: accumulate_def)

lemma run_accumulates:
  assumes o: "orders blockDim ts"
    and f: "\<And>t ys. t < blockDim \<Longrightarrow> f t ys = (if act t then accumulate (w t) (r t) ys else Inr ys)"
    and inj: "inj_on w {t. t < blockDim \<and> act t}"
    and race: "\<And>t t'. t < blockDim \<Longrightarrow> act t \<Longrightarrow> t' < blockDim \<Longrightarrow> act t' \<Longrightarrow> r t \<noteq> w t'"
    and bound: "\<And>t. t < blockDim \<Longrightarrow> act t \<Longrightarrow> w t < length xs \<and> r t < length xs"
  shows "\<exists>zs. run_threads f ts xs = Inr zs \<and> length zs = length xs
    \<and> (\<forall>t < blockDim. act t \<longrightarrow> zs ! w t = xs ! w t + xs ! r t)
    \<and> (\<forall>i. (\<forall>t < blockDim. act t \<longrightarrow> i \<noteq> w t) \<longrightarrow> zs ! i = xs ! i)"
proof -
  have T: "set ts = {..<blockDim}" "distinct ts" using o by (simp_all add: orders_def)
  have step: "f t ys = Inr (if act t then ys[w t := xs ! w t + xs ! r t] else ys)"
    if "t \<in> {..<blockDim}" "length ys = length xs"
      "\<And>i. i < length xs \<Longrightarrow> (\<And>t'. t' \<in> {..<blockDim} \<Longrightarrow> act t' \<Longrightarrow> t' \<noteq> t \<Longrightarrow> i \<noteq> w t') \<Longrightarrow> ys ! i = xs ! i" for t ys
  proof (cases "act t")
    case True
    have t: "t < blockDim" using that(1) by simp
    have "ys ! w t = xs ! w t"
    proof (rule that(3))
      show "w t \<noteq> w t'" if "t' \<in> {..<blockDim}" "act t'" "t' \<noteq> t" for t'
        using inj_onD [OF inj, of t t'] t True that by auto
    qed (use bound t True in simp)
    moreover have "ys ! r t = xs ! r t"
      by (rule that(3)) (use bound race t True in auto)
    ultimately show ?thesis using f [OF t] True bound [OF t True] that(2) by (simp add: accumulate_value)
  qed (use f that(1) in simp)
  have "inj_on w {t \<in> {..<blockDim}. act t}" using inj by simp
  note inj' = this
  have "\<exists>zs. run_threads f ts xs = Inr zs \<and> length zs = length xs
      \<and> (\<forall>t \<in> set ts. act t \<longrightarrow> zs ! w t = xs ! w t + xs ! r t)
      \<and> (\<forall>i. (\<forall>t \<in> set ts. act t \<longrightarrow> i \<noteq> w t) \<longrightarrow> zs ! i = xs ! i)"
    by (rule run_updates [where T = "{..<blockDim}" and v = "\<lambda>t. xs ! w t + xs ! r t", OF step inj'])
      (simp_all add: bound T)
  then show ?thesis unfolding T(1) Ball_def lessThan_iff .
qed

section \<open>Halving phases\<close>

definition block_sum :: "nat \<Rightarrow> nat \<Rightarrow> mem \<Rightarrow> 32 word" where
  "block_sum base m xs = (\<Sum>i < m. xs ! (base + i))"

text \<open>The phase adds the upper half of \<open>2 * s\<close> cells to the lower and stays in its block.\<close>

definition halves :: "nat \<Rightarrow> nat \<Rightarrow> nat \<Rightarrow> phase \<Rightarrow> bool" where
  "halves base blockDim s p \<longleftrightarrow> (\<forall>ts xs. orders blockDim ts \<longrightarrow> base + blockDim \<le> length xs \<longrightarrow>
     (\<exists>ys. p ts xs = Inr ys \<and> length ys = length xs
       \<and> (\<forall>i < s. ys ! (base + i) = xs ! (base + i) + xs ! (base + s + i))
       \<and> (\<forall>i. i < base \<or> base + blockDim \<le> i \<longrightarrow> ys ! i = xs ! i)))"

lemma halvesD:
  "halves base blockDim s p \<Longrightarrow> orders blockDim ts \<Longrightarrow> base + blockDim \<le> length xs \<Longrightarrow>
   \<exists>ys. p ts xs = Inr ys \<and> length ys = length xs
     \<and> (\<forall>i < s. ys ! (base + i) = xs ! (base + i) + xs ! (base + s + i))
     \<and> (\<forall>i. i < base \<or> base + blockDim \<le> i \<longrightarrow> ys ! i = xs ! i)"
  by (simp add: halves_def)

text \<open>Phases that bring \<open>2 ^ k\<close> cells down to one; some may do nothing.\<close>

inductive halving_phases :: "nat \<Rightarrow> nat \<Rightarrow> nat \<Rightarrow> phase list \<Rightarrow> bool" for base blockDim where
  halving_none: "halving_phases base blockDim 0 []"
| halving_some: "halves base blockDim (2 ^ k) p \<Longrightarrow> halving_phases base blockDim k ps \<Longrightarrow> halving_phases base blockDim (Suc k) (p # ps)"
| halving_idle: "(\<And>ts xs. orders blockDim ts \<Longrightarrow> p ts xs = Inr xs) \<Longrightarrow> halving_phases base blockDim k ps \<Longrightarrow> halving_phases base blockDim k (p # ps)"

lemma sum_lessThan_split: "(\<Sum>i < s + m. f i) = (\<Sum>i < s. f i) + (\<Sum>i < m. f (s + i))"
  for f :: "nat \<Rightarrow> 32 word"
  by (induction m) (simp_all add: add.assoc)

lemma block_sum_half:
  assumes "\<forall>i < s. ys ! (base + i) = xs ! (base + i) + xs ! (base + s + i)"
  shows "block_sum base s ys = block_sum base (2 * s) xs"
proof -
  have "block_sum base (s + s) xs = block_sum base s xs + (\<Sum>i < s. xs ! (base + s + i))"
    unfolding block_sum_def sum_lessThan_split by (simp add: add.assoc)
  then show ?thesis using assms by (simp add: block_sum_def sum.distrib mult_2)
qed

lemma halving_sum:
  "halving_phases base blockDim k ps \<Longrightarrow> (\<And>j. orders blockDim (ord j)) \<Longrightarrow> base + blockDim \<le> length xs \<Longrightarrow>
   \<exists>ys. run_phases ord j ps xs = Inr ys \<and> length ys = length xs \<and> ys ! base = block_sum base (2 ^ k) xs
     \<and> (\<forall>i. i < base \<or> base + blockDim \<le> i \<longrightarrow> ys ! i = xs ! i)"
proof (induction arbitrary: j xs rule: halving_phases.induct)
  case halving_none
  then show ?case by (simp add: block_sum_def)
next
  case (halving_some k p ps)
  obtain ys where ys: "p (ord j) xs = Inr ys" "length ys = length xs"
      "\<forall>i < 2 ^ k. ys ! (base + i) = xs ! (base + i) + xs ! (base + 2 ^ k + i)"
      "\<forall>i. i < base \<or> base + blockDim \<le> i \<longrightarrow> ys ! i = xs ! i"
    using halvesD [OF halving_some.hyps(1) halving_some.prems] by blast
  obtain zs where zs: "run_phases ord (Suc j) ps ys = Inr zs" "length zs = length ys" "zs ! base = block_sum base (2 ^ k) ys"
      "\<forall>i. i < base \<or> base + blockDim \<le> i \<longrightarrow> zs ! i = ys ! i"
    using halving_some.IH [OF halving_some.prems(1), of ys "Suc j"] halving_some.prems(2) ys(2) by auto
  have "block_sum base (2 ^ k) ys = block_sum base (2 ^ Suc k) xs" using block_sum_half [OF ys(3)] by simp
  then show ?case using ys zs by auto
next
  case (halving_idle p k ps)
  then show ?case by simp
qed

section \<open>The halving phases of the kernels\<close>

lemma accumulate_halves:
  assumes "\<And>t ys. t < blockDim \<Longrightarrow> f t ys = (if t < s then accumulate (base + t) (base + t + s) ys else Inr ys)" "2 * s \<le> blockDim"
  shows "halves base blockDim s (run_threads f)"
  unfolding halves_def
proof (intro allI impI)
  fix ts and xs :: mem assume o: "orders blockDim ts" and len: "base + blockDim \<le> length xs"
  have "inj_on ((+) base) {t. t < blockDim \<and> t < s}" by simp
  then obtain zs where zs: "run_threads f ts xs = Inr zs" "length zs = length xs"
      "\<forall>t < blockDim. t < s \<longrightarrow> zs ! (base + t) = xs ! (base + t) + xs ! (base + t + s)"
      "\<forall>i. (\<forall>t < blockDim. t < s \<longrightarrow> i \<noteq> base + t) \<longrightarrow> zs ! i = xs ! i"
    using run_accumulates [OF o, where f = f and act = "\<lambda>t. t < s" and w = "(+) base" and r = "\<lambda>t. base + t + s" and xs = xs]
      assms len by auto
  have "i \<noteq> base + t" if "i < base \<or> base + blockDim \<le> i" "t < blockDim" for i t using that by auto
  then have "\<forall>i. i < base \<or> base + blockDim \<le> i \<longrightarrow> zs ! i = xs ! i" using zs(4) by blast
  moreover have "zs ! (base + i) = xs ! (base + i) + xs ! (base + s + i)" if "i < s" for i
  proof -
    have "base + s + i = base + i + s" "i < blockDim" using that assms(2) by simp_all
    then show ?thesis using zs(3) that by (simp only:)
  qed
  ultimately show "\<exists>ys. run_threads f ts xs = Inr ys \<and> length ys = length xs
      \<and> (\<forall>i < s. ys ! (base + i) = xs ! (base + i) + xs ! (base + s + i))
      \<and> (\<forall>i. i < base \<or> base + blockDim \<le> i \<longrightarrow> ys ! i = xs ! i)"
    using zs(1,2) by blast
qed

lemma interleaved_halves:
  assumes "blockIdx * blockDim + blockDim \<le> n" "n < 2 ^ 32" "2 * s \<le> blockDim"
  shows "halves (blockIdx * blockDim) blockDim s (run_threads (interleaved_thread blockIdx blockDim n s))"
proof (rule accumulate_halves [OF _ assms(3)])
  fix t ys assume "t < blockDim"
  then have "u32 (blockIdx * blockDim + t) < n" using assms(1,2) by (simp add: u32_def)
  then show "interleaved_thread blockIdx blockDim n s t ys
      = (if t < s then accumulate (blockIdx * blockDim + t) (blockIdx * blockDim + t + s) ys else Inr ys)"
    by (simp add: interleaved_thread_def Let_def)
qed

lemma stride_halves: "2 * s \<le> blockDim \<Longrightarrow> halves base blockDim s (run_threads (stride_thread base s))"
  by (rule accumulate_halves) (simp_all add: stride_thread_def)

lemma guarded_halves:
  "2 * s \<le> blockDim \<Longrightarrow> halves base blockDim s (run_threads (guarded_thread blockDim base s))"
  by (rule accumulate_halves) (simp_all add: guarded_thread_def)

lemma guarded_idle: "blockDim < 2 * s \<Longrightarrow> run_threads (guarded_thread blockDim base s) ts xs = Inr xs"
  by (induction ts) (simp_all add: guarded_thread_def)

lemma warp_halves:
  assumes "s \<le> 32" "64 \<le> blockDim"
  shows "halves base blockDim s (warp_step base blockDim s)"
  unfolding halves_def
proof (intro allI impI)
  fix ts and xs :: mem assume len: "base + blockDim \<le> length xs"
  let ?sums = "map (\<lambda>t. xs ! (base + t) + xs ! (base + t + s)) [0..<32]"
  have "mapr (\<lambda>tid. bindr (vget xs (int (base + tid))) (\<lambda>a. bindr (vget xs (int (base + tid + s))) (\<lambda>b. Inr (a + b)))) [0..<32]
      = Inr ?sums"
  proof (rule mapr_ok)
    fix t assume "t \<in> set [0..<32 :: nat]"
    then have "t < 32" by simp
    then have "vget xs (int (base + t)) = Inr (xs ! (base + t))" "vget xs (int (base + t + s)) = Inr (xs ! (base + t + s))"
      using assms len by (intro vget_int; linarith)+
    then show "bindr (vget xs (int (base + t))) (\<lambda>a. bindr (vget xs (int (base + t + s))) (\<lambda>b. Inr (a + b)))
        = Inr (xs ! (base + t) + xs ! (base + t + s))" by (simp only: bindr_simps)
  qed
  moreover have "min 32 blockDim = 32" using assms(2) by simp
  ultimately have "warp_step base blockDim s ts xs = Inr (take base xs @ ?sums @ drop (base + 32) xs)"
    by (simp add: warp_step_def del: upt_Suc)
  moreover have "(take base xs @ ?sums @ drop (base + 32) xs) ! (base + i) = xs ! (base + i) + xs ! (base + s + i)"
    if "i < s" for i
    using that assms len by (simp add: nth_append add_ac del: upt_Suc)
  moreover have "(take base xs @ ?sums @ drop (base + 32) xs) ! i = xs ! i" if "i < base \<or> base + blockDim \<le> i" for i
    using that assms len by (auto simp: nth_append simp del: upt_Suc)
  ultimately show "\<exists>ys. warp_step base blockDim s ts xs = Inr ys \<and> length ys = length xs
      \<and> (\<forall>i < s. ys ! (base + i) = xs ! (base + i) + xs ! (base + s + i))
      \<and> (\<forall>i. i < base \<or> base + blockDim \<le> i \<longrightarrow> ys ! i = xs ! i)"
    using assms(2) len by (intro exI [of _ "take base xs @ ?sums @ drop (base + 32) xs"]) (simp del: upt_Suc)
qed

end
