(* ===== verification/Reduce_Correct.thy ===== *)
theory Reduce_Correct
  imports Reduce_Phases
begin

text \<open>
  Every kernel of \<^verbatim>\<open>reduceInteger.cu\<close> leaves the sum of its block in the first cell, in every
  order of the threads of each phase. The locale \<open>summing_kernel\<close> states this contract; what
  follows from it for the grid and for a test of the main program is proved once in it, and
  each kernel interprets it.
\<close>

section \<open>Neighbored pairs\<close>

definition sums_pairs :: "nat \<Rightarrow> nat \<Rightarrow> nat \<Rightarrow> phase \<Rightarrow> bool" where
  "sums_pairs base blockDim s p \<longleftrightarrow> (\<forall>ts xs. orders blockDim ts \<longrightarrow> base + blockDim \<le> length xs \<longrightarrow>
     (\<exists>ys. p ts xs = Inr ys \<and> length ys = length xs
       \<and> (\<forall>i. (i + 1) * (2 * s) \<le> blockDim \<longrightarrow> ys ! (base + i * (2 * s)) = xs ! (base + i * (2 * s)) + xs ! (base + i * (2 * s) + s))
       \<and> (\<forall>i. i < base \<or> base + blockDim \<le> i \<longrightarrow> ys ! i = xs ! i)))"

lemma pairsD:
  "sums_pairs base blockDim s p \<Longrightarrow> orders blockDim ts \<Longrightarrow> base + blockDim \<le> length xs \<Longrightarrow>
   \<exists>ys. p ts xs = Inr ys \<and> length ys = length xs
     \<and> (\<forall>i. (i + 1) * (2 * s) \<le> blockDim \<longrightarrow> ys ! (base + i * (2 * s)) = xs ! (base + i * (2 * s)) + xs ! (base + i * (2 * s) + s))
     \<and> (\<forall>i. i < base \<or> base + blockDim \<le> i \<longrightarrow> ys ! i = xs ! i)"
  by (simp add: sums_pairs_def)

text \<open>A multiple of \<open>2 * s\<close> below the size of the block has its partner in the block.\<close>

lemma partner_inside: "(2 * s) dvd blockDim \<Longrightarrow> (2 * s) dvd t \<Longrightarrow> t < blockDim \<Longrightarrow> t + 2 * s \<le> blockDim"
  for s t blockDim :: nat
proof -
  assume "(2 * s) dvd blockDim" "(2 * s) dvd t" "t < blockDim"
  then obtain a b where "blockDim = 2 * s * a" "t = 2 * s * b" by (auto elim!: dvdE)
  moreover from this have "b < a" using \<open>t < blockDim\<close> by simp
  then have "2 * s * (b + 1) \<le> 2 * s * a" by (intro mult_le_mono2) simp
  ultimately show ?thesis by simp
qed

lemma neighbored_pairs:
  assumes s: "0 < s" and d: "(2 * s) dvd blockDim" and n: "blockIdx * blockDim + blockDim \<le> n" "n < 2 ^ 32"
  shows "sums_pairs (blockIdx * blockDim) blockDim s (run_threads (neighbored_thread blockIdx blockDim n s))"
  unfolding sums_pairs_def
proof (intro allI impI)
  let ?base = "blockIdx * blockDim" and ?f = "neighbored_thread blockIdx blockDim n s"
  fix ts and xs :: mem assume o: "orders blockDim ts" and len: "?base + blockDim \<le> length xs"
  have f: "?f t ys = (if (2 * s) dvd t then accumulate (?base + t) (?base + t + s) ys else Inr ys)" if "t < blockDim" for t ys
  proof -
    have "u32 (?base + t) < n" using that n by (simp add: u32_def)
    then show ?thesis by (simp add: neighbored_thread_def Let_def dvd_eq_mod_eq_0)
  qed
  have race: "?base + t + s \<noteq> ?base + t'" if "(2 * s) dvd t" "(2 * s) dvd t'" for t t'
  proof
    assume "?base + t + s = ?base + t'"
    then have "(2 * s) dvd s" using that by (metis add_left_imp_eq dvd_add_right_iff add.assoc)
    then show False using s by (auto dest: dvd_imp_le)
  qed
  have bound: "?base + t < length xs \<and> ?base + t + s < length xs" if "t < blockDim" "(2 * s) dvd t" for t
    using partner_inside [OF d that(2,1)] len s by linarith
  obtain zs where zs: "run_threads ?f ts xs = Inr zs" "length zs = length xs"
      "\<forall>t < blockDim. (2 * s) dvd t \<longrightarrow> zs ! (?base + t) = xs ! (?base + t) + xs ! (?base + t + s)"
      "\<forall>i. (\<forall>t < blockDim. (2 * s) dvd t \<longrightarrow> i \<noteq> ?base + t) \<longrightarrow> zs ! i = xs ! i"
    using run_accumulates [OF o, where f = ?f and act = "\<lambda>t. (2 * s) dvd t" and w = "(+) ?base" and r = "\<lambda>t. ?base + t + s" and xs = xs,
      OF f _ race bound] by auto
  have "zs ! (?base + i * (2 * s)) = xs ! (?base + i * (2 * s)) + xs ! (?base + i * (2 * s) + s)" if "(i + 1) * (2 * s) \<le> blockDim" for i
  proof -
    have "i * (2 * s) < blockDim" using that s by simp
    then show ?thesis using zs(3) by simp
  qed
  moreover have "zs ! i = xs ! i" if "i < ?base \<or> ?base + blockDim \<le> i" for i using zs(4) that by auto
  ultimately show "\<exists>ys. run_threads ?f ts xs = Inr ys \<and> length ys = length xs
      \<and> (\<forall>i. (i + 1) * (2 * s) \<le> blockDim \<longrightarrow> ys ! (?base + i * (2 * s)) = xs ! (?base + i * (2 * s)) + xs ! (?base + i * (2 * s) + s))
      \<and> (\<forall>i. i < ?base \<or> ?base + blockDim \<le> i \<longrightarrow> ys ! i = xs ! i)"
    using zs(1,2) by blast
qed

lemma neighbored_less_pairs:
  assumes s: "0 < s" and d: "(2 * s) dvd blockDim" and n: "blockIdx * blockDim + blockDim \<le> n" "n < 2 ^ 32"
  shows "sums_pairs (blockIdx * blockDim) blockDim s (run_threads (neighbored_less_thread blockIdx blockDim n s))"
  unfolding sums_pairs_def
proof (intro allI impI)
  let ?base = "blockIdx * blockDim" and ?f = "neighbored_less_thread blockIdx blockDim n s"
  fix ts and xs :: mem assume o: "orders blockDim ts" and len: "?base + blockDim \<le> length xs"
  have f: "?f t ys = (if 2 * s * t < blockDim then accumulate (?base + 2 * s * t) (?base + 2 * s * t + s) ys else Inr ys)"
    if "t < blockDim" for t ys
  proof -
    have "u32 (?base + t) < n" using that n by (simp add: u32_def)
    then show ?thesis by (simp add: neighbored_less_thread_def Let_def)
  qed
  have race: "?base + 2 * s * t + s \<noteq> ?base + 2 * s * t'" for t t'
  proof
    assume "?base + 2 * s * t + s = ?base + 2 * s * t'"
    then have "2 * s * t + s = 2 * s * t'" by simp
    then have "(2 * s) dvd s" by (metis dvd_add_right_iff dvd_triv_left)
    then show False using s by (auto dest: dvd_imp_le)
  qed
  have bound: "?base + 2 * s * t < length xs \<and> ?base + 2 * s * t + s < length xs" if "2 * s * t < blockDim" for t
    using partner_inside [OF d _ that] len s by simp
  have inj: "inj_on (\<lambda>t. ?base + 2 * s * t) A" for A using s by (auto simp: inj_on_def)
  obtain zs where zs: "run_threads ?f ts xs = Inr zs" "length zs = length xs"
      "\<forall>t < blockDim. 2 * s * t < blockDim \<longrightarrow> zs ! (?base + 2 * s * t) = xs ! (?base + 2 * s * t) + xs ! (?base + 2 * s * t + s)"
      "\<forall>i. (\<forall>t < blockDim. 2 * s * t < blockDim \<longrightarrow> i \<noteq> ?base + 2 * s * t) \<longrightarrow> zs ! i = xs ! i"
    using run_accumulates [OF o, where f = ?f and act = "\<lambda>t. 2 * s * t < blockDim" and w = "\<lambda>t. ?base + 2 * s * t"
      and r = "\<lambda>t. ?base + 2 * s * t + s" and xs = xs, OF f inj race bound] by auto
  have "zs ! (?base + i * (2 * s)) = xs ! (?base + i * (2 * s)) + xs ! (?base + i * (2 * s) + s)" if "(i + 1) * (2 * s) \<le> blockDim" for i
  proof -
    have "2 * s * i < blockDim" using that s by (simp add: mult.commute)
    moreover from this have "i < blockDim" using s by (metis le_less_trans mult_le_mono1 nat_mult_1 one_le_mult_iff Suc_leI le_refl one_add_one trans_le_add1 One_nat_def)
    ultimately show ?thesis using zs(3) by (simp add: mult.commute)
  qed
  moreover have "zs ! i = xs ! i" if "i < ?base \<or> ?base + blockDim \<le> i" for i using zs(4) that by auto
  ultimately show "\<exists>ys. run_threads ?f ts xs = Inr ys \<and> length ys = length xs
      \<and> (\<forall>i. (i + 1) * (2 * s) \<le> blockDim \<longrightarrow> ys ! (?base + i * (2 * s)) = xs ! (?base + i * (2 * s)) + xs ! (?base + i * (2 * s) + s))
      \<and> (\<forall>i. i < ?base \<or> ?base + blockDim \<le> i \<longrightarrow> ys ! i = xs ! i)"
    using zs(1,2) by blast
qed

lemma sum_pairs: "(\<Sum>i < m. g (2 * i) + g (2 * i + 1)) = (\<Sum>i < 2 * m. g i)" for g :: "nat \<Rightarrow> 32 word"
  by (induction m) (simp_all add: add.assoc)

lemma doubling_sum:
  assumes p: "\<And>j. j < k \<Longrightarrow> sums_pairs base (2 ^ k) (2 ^ j) (p (2 ^ j))" and o: "\<And>l. orders (2 ^ k) (ord l)"
  shows "j \<le> k \<Longrightarrow> base + 2 ^ k \<le> length xs \<Longrightarrow>
    \<exists>ys. run_phases ord l (map p (doubling (2 ^ j) (2 ^ k))) xs = Inr ys \<and> length ys = length xs
      \<and> ys ! base = (\<Sum>i < 2 ^ (k - j). xs ! (base + i * 2 ^ j))
      \<and> (\<forall>i. i < base \<or> base + 2 ^ k \<le> i \<longrightarrow> ys ! i = xs ! i)"
proof (induction "k - j" arbitrary: j l xs)
  case 0
  then show ?case by (subst doubling.simps) simp
next
  case (Suc d)
  then have j: "j < k" by simp
  then have dl: "doubling (2 ^ j) (2 ^ k) = 2 ^ j # doubling (2 ^ Suc j) (2 ^ k)"
    by (subst doubling.simps) (simp add: mult.commute)
  obtain ys where ys: "p (2 ^ j) (ord l) xs = Inr ys" "length ys = length xs"
      "\<forall>i. (i + 1) * (2 * 2 ^ j) \<le> 2 ^ k \<longrightarrow> ys ! (base + i * (2 * 2 ^ j)) = xs ! (base + i * (2 * 2 ^ j)) + xs ! (base + i * (2 * 2 ^ j) + 2 ^ j)"
      "\<forall>i. i < base \<or> base + 2 ^ k \<le> i \<longrightarrow> ys ! i = xs ! i"
    using pairsD [OF p [OF j] o Suc.prems(2)] by blast
  have "\<exists>zs. run_phases ord (Suc l) (map p (doubling (2 ^ Suc j) (2 ^ k))) ys = Inr zs \<and> length zs = length ys
      \<and> zs ! base = (\<Sum>i < 2 ^ (k - Suc j). ys ! (base + i * 2 ^ Suc j))
      \<and> (\<forall>i. i < base \<or> base + 2 ^ k \<le> i \<longrightarrow> zs ! i = ys ! i)"
    by (rule Suc.hyps(1)) (use Suc.hyps(2) Suc.prems(2) j ys(2) in auto)
  then obtain zs where zs: "run_phases ord (Suc l) (map p (doubling (2 ^ Suc j) (2 ^ k))) ys = Inr zs" "length zs = length ys"
      "zs ! base = (\<Sum>i < 2 ^ (k - Suc j). ys ! (base + i * 2 ^ Suc j))"
      "\<forall>i. i < base \<or> base + 2 ^ k \<le> i \<longrightarrow> zs ! i = ys ! i" by blast
  have e: "ys ! (base + i * 2 ^ Suc j) = xs ! (base + 2 * i * 2 ^ j) + xs ! (base + (2 * i + 1) * 2 ^ j)" if "i < 2 ^ (k - Suc j)" for i
  proof -
    have "(i + 1) * 2 ^ Suc j \<le> 2 ^ (k - Suc j) * 2 ^ Suc j" using that by (intro mult_le_mono1) simp
    also have "\<dots> = 2 ^ (k - Suc j + Suc j)" by (rule power_add [symmetric])
    also have "\<dots> = 2 ^ k" using j by simp
    finally have "(i + 1) * (2 * 2 ^ j) \<le> 2 ^ k" by simp
    moreover have "i * 2 ^ Suc j = i * (2 * 2 ^ j)" "2 * i * 2 ^ j = i * (2 * 2 ^ j)" "base + (2 * i + 1) * 2 ^ j = base + i * (2 * 2 ^ j) + 2 ^ j"
      by simp_all
    ultimately show ?thesis using ys(3) by (simp only:)
  qed
  have "zs ! base = (\<Sum>i < 2 ^ (k - Suc j). xs ! (base + 2 * i * 2 ^ j) + xs ! (base + (2 * i + 1) * 2 ^ j))"
    unfolding zs(3) by (rule sum.cong [OF refl]) (simp only: e lessThan_iff)
  also have "\<dots> = (\<Sum>i < 2 * 2 ^ (k - Suc j). xs ! (base + i * 2 ^ j))"
    using sum_pairs [of "\<lambda>i. xs ! (base + i * 2 ^ j)"] by simp
  also have "2 * 2 ^ (k - Suc j) = (2 :: nat) ^ (k - j)" using j by (metis Suc_diff_Suc power_Suc)
  finally have "zs ! base = (\<Sum>i < 2 ^ (k - j). xs ! (base + i * 2 ^ j))" .
  then show ?case using ys(1,2,4) zs(1,2,4) by (simp add: dl)
qed

section \<open>The first statement of the unrolled kernels\<close>

lemma sum_list_upt: "sum_list (map f [0..<m]) = (\<Sum>j < m. f j)" for f :: "nat \<Rightarrow> 32 word"
  by (simp add: interv_sum_list_conv_sum_set_nat atLeast0LessThan)

lemma block_sum_columns: "(\<Sum>t < d. \<Sum>j < m. xs ! (base + t + j * d)) = block_sum base (m * d) xs"
proof (induction m)
  case 0
  then show ?case by (simp add: block_sum_def)
next
  case (Suc m)
  have e: "Suc m * d = m * d + d" by simp
  show ?case
    using Suc unfolding block_sum_def e sum_lessThan_split by (simp add: sum.distrib add_ac)
qed

lemma unroll_phase:
  assumes m: "0 < m" and o: "orders blockDim ts" and len: "blockIdx * blockDim * m + m * blockDim \<le> length xs" "length xs < 2 ^ 32"
  shows "\<exists>ys. run_threads (unroll_thread m blockIdx blockDim (length xs)) ts xs = Inr ys \<and> length ys = length xs
    \<and> block_sum (blockIdx * blockDim * m) blockDim ys = block_sum (blockIdx * blockDim * m) (m * blockDim) xs
    \<and> (\<forall>i. i < blockIdx * blockDim * m \<or> blockIdx * blockDim * m + blockDim \<le> i \<longrightarrow> ys ! i = xs ! i)
    \<and> (\<forall>t < blockDim. ys ! (blockIdx * blockDim * m + t) = (\<Sum>j < m. xs ! (blockIdx * blockDim * m + t + j * blockDim)))"
proof -
  let ?base = "blockIdx * blockDim * m" and ?f = "unroll_thread m blockIdx blockDim (length xs)"
  let ?v = "\<lambda>t. \<Sum>j < m. xs ! (?base + t + j * blockDim)"
  have T: "set ts = {..<blockDim}" "distinct ts" using o by (simp_all add: orders_def)
  have below: "?base + t + j * blockDim < length xs" if "t < blockDim" "j < m" for t j
  proof -
    have "(j + 1) * blockDim \<le> m * blockDim" using that(2) by (intro mult_le_mono1) simp
    then show ?thesis using that(1) len(1) by simp
  qed
  have step: "?f t ys = Inr (if True then ys[?base + t := ?v t] else ys)"
    if t: "t \<in> {..<blockDim}" and ly: "length ys = length xs"
      and same: "\<And>i. i < length xs \<Longrightarrow> (\<And>t'. t' \<in> {..<blockDim} \<Longrightarrow> True \<Longrightarrow> t' \<noteq> t \<Longrightarrow> i \<noteq> ?base + t') \<Longrightarrow> ys ! i = xs ! i" for t ys
  proof -
    have u: "u32 (?base + t) = ?base + t" "u32 (?base + t + j * blockDim) = ?base + t + j * blockDim" if "j < m" for j
      using below [of t j] t that len(2) by (simp_all add: u32_def)
    have g: "ys ! (?base + t + j * blockDim) = xs ! (?base + t + j * blockDim)" if "j < m" for j
    proof (rule same)
      show "?base + t + j * blockDim < length xs" using below t that by simp
      show "?base + t + j * blockDim \<noteq> ?base + t'" if "t' \<in> {..<blockDim}" "t' \<noteq> t" for t'
        using that t by (cases j) auto
    qed
    have "mapr (\<lambda>j. vget ys (int (u32 (?base + t + j * blockDim)))) [0..<m] = Inr (map (\<lambda>j. xs ! (?base + t + j * blockDim)) [0..<m])"
    proof (rule mapr_ok)
      fix j assume "j \<in> set [0..<m]"
      then have j: "j < m" by simp
      have "vget ys (int (?base + t + j * blockDim)) = Inr (ys ! (?base + t + j * blockDim))"
        using below [of t j] t j ly by (intro vget_int) simp
      then show "vget ys (int (u32 (?base + t + j * blockDim))) = Inr (xs ! (?base + t + j * blockDim))"
        unfolding u(2) [OF j] g [OF j] .
    qed
    moreover have "u32 (?base + t + (m - 1) * blockDim) < length xs" using u(2) [of "m - 1"] below [of t "m - 1"] t m by simp
    moreover have "vset ys (int (?base + t)) z = Inr (ys[?base + t := z])" for z
      using below [of t 0] t m ly by (intro vset_int) simp
    ultimately show ?thesis
      using u(1) [OF m] by (simp add: unroll_thread_def Let_def sum_list_upt del: of_nat_add of_nat_mult)
  qed
  have "inj_on ((+) ?base) {t \<in> {..<blockDim}. True}" by simp
  note inj = this
  have "\<exists>zs. run_threads ?f ts xs = Inr zs \<and> length zs = length xs \<and> (\<forall>t \<in> set ts. True \<longrightarrow> zs ! (?base + t) = ?v t)
      \<and> (\<forall>i. (\<forall>t \<in> set ts. True \<longrightarrow> i \<noteq> ?base + t) \<longrightarrow> zs ! i = xs ! i)"
    by (rule run_updates [where T = "{..<blockDim}" and v = ?v, OF step inj]) (use T below [of _ 0] m in simp_all)
  then obtain zs where zs: "run_threads ?f ts xs = Inr zs" "length zs = length xs" "\<forall>t < blockDim. zs ! (?base + t) = ?v t"
      "\<forall>i. (\<forall>t < blockDim. i \<noteq> ?base + t) \<longrightarrow> zs ! i = xs ! i"
    unfolding T(1) by auto
  have "block_sum ?base blockDim zs = block_sum ?base (m * blockDim) xs"
    using zs(3) by (simp add: block_sum_columns [symmetric]) (simp add: block_sum_def)
  moreover have "zs ! i = xs ! i" if "i < ?base \<or> ?base + blockDim \<le> i" for i using zs(4) that by auto
  ultimately show ?thesis using zs(1-3) by blast
qed

section \<open>The loops that halve\<close>

lemma halving_to_one:
  assumes "\<And>s. 2 * s \<le> blockDim \<Longrightarrow> halves base blockDim s (p s)"
  shows "2 ^ Suc k \<le> blockDim \<Longrightarrow> halving_phases base blockDim (Suc k) (map p (halving (2 ^ k) 0))"
proof (induction k)
  case 0
  have "halving 1 0 = [1]" by (simp add: halving.simps)
  moreover have "halves base blockDim (2 ^ 0) (p 1)" using assms [of 1] 0 by simp
  ultimately show ?case by (auto intro: halving_some halving_none)
next
  case (Suc k)
  have "halving (2 ^ Suc k) 0 = 2 ^ Suc k # halving (2 ^ k) 0" by (subst halving.simps) simp
  moreover have "halves base blockDim (2 ^ Suc k) (p (2 ^ Suc k))" using assms Suc.prems by simp
  moreover have "halving_phases base blockDim (Suc k) (map p (halving (2 ^ k) 0))" using Suc by simp
  ultimately show ?case by (simp add: halving_some del: power_Suc)
qed

lemma halving_to_warp:
  assumes "\<And>s. 2 * s \<le> blockDim \<Longrightarrow> halves base blockDim s (p s)" "halving_phases base blockDim 6 qs"
  shows "2 ^ (d + 6) \<le> blockDim \<Longrightarrow> halving_phases base blockDim (d + 6) (map p (halving (2 ^ (d + 5)) 32) @ qs)"
proof (induction d)
  case 0
  then show ?case using assms(2) by (simp add: halving.simps)
next
  case (Suc d)
  have "(32 :: nat) < 2 ^ (Suc d + 5)" using power_strict_increasing [of 5 "Suc d + 5" "2 :: nat"] by simp
  moreover have "(2 :: nat) ^ (Suc d + 5) div 2 = 2 ^ (d + 5)" unfolding add_Suc power_Suc by simp
  moreover have "Suc d + 5 = d + 6" by simp
  ultimately have "halving (2 ^ (Suc d + 5)) 32 = 2 ^ (d + 6) # halving (2 ^ (d + 5)) 32"
    by (subst halving.simps) (simp only: if_True)
  moreover have "2 * 2 ^ (d + 6) \<le> blockDim" using Suc.prems unfolding add_Suc power_Suc .
  then have "halves base blockDim (2 ^ (d + 6)) (p (2 ^ (d + 6)))" by (rule assms(1))
  moreover have "halving_phases base blockDim (d + 6) (map p (halving (2 ^ (d + 5)) 32) @ qs)"
    by (rule Suc.IH) (use \<open>2 * 2 ^ (d + 6) \<le> blockDim\<close> in linarith)
  ultimately show ?case unfolding add_Suc [of d 6] by (simp only: list.map append_Cons halving_some)
qed

lemma last_warp_halving: "64 \<le> blockDim \<Longrightarrow> halving_phases base blockDim 6 (last_warp base blockDim)"
proof -
  assume "64 \<le> blockDim"
  then have "halves base blockDim (2 ^ k) (warp_step base blockDim (2 ^ k))" if "k \<le> 5" for k
    using warp_halves [of "2 ^ k" blockDim base] power_increasing [of k 5 "2 :: nat"] that by simp
  from this [of 5] this [of 4] this [of 3] this [of 2] this [of 1] this [of 0]
  have "halving_phases base blockDim (Suc (Suc (Suc (Suc (Suc (Suc 0)))))) (last_warp base blockDim)"
    unfolding last_warp_def list.map
    by (intro halving_some halving_none) (simp_all add: numeral_eq_Suc)
  then show ?thesis by (simp add: numeral_eq_Suc)
qed

lemma complete_halving:
  assumes "6 \<le> k" "k \<le> 10" "halving_phases base (2 ^ k) 6 qs"
  shows "halving_phases base (2 ^ k) k (map (\<lambda>s. run_threads (guarded_thread (2 ^ k) base s)) [512, 256, 128, 64] @ qs)"
proof -
  let ?p = "\<lambda>s. run_threads (guarded_thread (2 ^ k) base s)"
  have h: "halving_phases base (2 ^ k) (if 2 * 2 ^ j \<le> (2 :: nat) ^ k then Suc n else n) (?p (2 ^ j) # ps)"
    if "halving_phases base (2 ^ k) n ps" "2 * 2 ^ j \<le> (2 :: nat) ^ k \<longrightarrow> n = j" for j n ps
  proof (cases "2 * 2 ^ j \<le> (2 :: nat) ^ k")
    case True
    then show ?thesis using that guarded_halves [of "2 ^ j" "2 ^ k" base] by (auto intro: halving_some)
  next
    case False
    then show ?thesis using that(1) guarded_idle [of "2 ^ k" "2 ^ j" base] by (auto intro: halving_idle)
  qed
  consider "k = 6" | "k = 7" | "k = 8" | "k = 9" | "k = 10" using assms(1,2) by linarith
  then show ?thesis
    using h [OF h [OF h [OF h [OF assms(3)]]], of 6 7 8 9] by cases simp_all
qed

section \<open>The contract of a kernel\<close>

text \<open>
  A kernel for each size of a block. Its phases leave the sum of the \<open>elements\<close> parts of the
  block in the first cell and do not touch the other blocks.
\<close>

definition sums_block :: "(nat \<Rightarrow> nat \<Rightarrow> nat \<Rightarrow> phase list) \<Rightarrow> nat \<Rightarrow> nat \<Rightarrow> bool" where
  "sums_block phases e blockDim \<longleftrightarrow> (\<forall>b xs ord. length xs < 2 ^ 32 \<longrightarrow> b * blockDim * e + e * blockDim \<le> length xs \<longrightarrow>
     (\<forall>j. orders blockDim (ord j)) \<longrightarrow>
     (\<exists>ys. run_phases ord 0 (phases b blockDim (length xs)) xs = Inr ys \<and> length ys = length xs
       \<and> ys ! (b * blockDim * e) = block_sum (b * blockDim * e) (e * blockDim) xs
       \<and> (\<forall>i. i < b * blockDim * e \<or> b * blockDim * e + e * blockDim \<le> i \<longrightarrow> ys ! i = xs ! i)))"

text \<open>The kernels that unroll the first statement and then halve the block.\<close>

lemma unrolled_sums:
  assumes e: "0 < e" and ph: "\<And>b n. phases b (2 ^ k) n = run_threads (unroll_thread e b (2 ^ k) n) # rest b"
    and h: "\<And>b. halving_phases (b * 2 ^ k * e) (2 ^ k) k (rest b)"
  shows "sums_block phases e (2 ^ k)"
  unfolding sums_block_def
proof (intro allI impI)
  fix b xs and ord :: "nat \<Rightarrow> nat list"
  let ?base = "b * 2 ^ k * e"
  assume len: "length xs < 2 ^ 32" "?base + e * 2 ^ k \<le> length (xs :: mem)" and o: "\<forall>j. orders (2 ^ k) (ord j)"
  obtain ys where ys: "run_threads (unroll_thread e b (2 ^ k) (length xs)) (ord 0) xs = Inr ys" "length ys = length xs"
      "block_sum ?base (2 ^ k) ys = block_sum ?base (e * 2 ^ k) xs"
      "\<forall>i. i < ?base \<or> ?base + 2 ^ k \<le> i \<longrightarrow> ys ! i = xs ! i"
    using unroll_phase [OF e, of "2 ^ k" "ord 0" b xs] o len by blast
  have in_block: "2 ^ k \<le> e * 2 ^ k" using e by simp
  have "?base + 2 ^ k \<le> length ys" using in_block len(2) ys(2) by linarith
  then obtain zs where zs: "run_phases ord (Suc 0) (rest b) ys = Inr zs" "length zs = length ys" "zs ! ?base = block_sum ?base (2 ^ k) ys"
      "\<forall>i. i < ?base \<or> ?base + 2 ^ k \<le> i \<longrightarrow> zs ! i = ys ! i"
    using halving_sum [OF h [of b], of ord ys "Suc 0"] o by blast
  have "zs ! i = xs ! i" if "i < ?base \<or> ?base + e * 2 ^ k \<le> i" for i
  proof -
    have "i < ?base \<or> ?base + 2 ^ k \<le> i" using that in_block by linarith
    then show ?thesis using zs(4) ys(4) by metis
  qed
  then show "\<exists>ys. run_phases ord 0 (phases b (2 ^ k) (length xs)) xs = Inr ys \<and> length ys = length xs
      \<and> ys ! ?base = block_sum ?base (e * 2 ^ k) xs
      \<and> (\<forall>i. i < ?base \<or> ?base + e * 2 ^ k \<le> i \<longrightarrow> ys ! i = xs ! i)"
    using ys zs by (simp add: ph)
qed

lemma half_of_power: "1 \<le> k \<Longrightarrow> (2 :: nat) ^ k div 2 = 2 ^ (k - 1)"
  by (cases k) simp_all

lemma stride_rest: "1 \<le> k \<Longrightarrow> halving_phases base (2 ^ k) k (map (\<lambda>s. run_threads (stride_thread base s)) (halving (2 ^ k div 2) 0))"
  using halving_to_one [of "2 ^ k" base "\<lambda>s. run_threads (stride_thread base s)" "k - 1", OF stride_halves]
  by (simp add: half_of_power)

lemma stride_warp_rest:
  assumes "6 \<le> k"
  shows "halving_phases base (2 ^ k) k (map (\<lambda>s. run_threads (stride_thread base s)) (halving (2 ^ k div 2) 32) @ last_warp base (2 ^ k))"
proof -
  have big: "64 \<le> (2 :: nat) ^ k" using power_increasing [OF assms, of "2 :: nat"] by simp
  have "k - 6 + 6 = k" "k - 6 + 5 = k - 1" using assms by simp_all
  then show ?thesis
    using halving_to_warp [of "2 ^ k" base "\<lambda>s. run_threads (stride_thread base s)" "last_warp base (2 ^ k)" "k - 6",
      OF stride_halves last_warp_halving [OF big]] assms
    by (simp add: half_of_power)
qed

lemma complete_rest:
  assumes "6 \<le> k" "k \<le> 10"
  shows "halving_phases base (2 ^ k) k (map (\<lambda>s. run_threads (guarded_thread (2 ^ k) base s)) [512, 256, 128, 64] @ last_warp base (2 ^ k))"
proof -
  have "64 \<le> (2 :: nat) ^ k" using power_increasing [OF assms(1), of "2 :: nat"] by simp
  then show ?thesis by (intro complete_halving [OF assms] last_warp_halving)
qed

lemma strided_sums:
  assumes "\<And>b n. phases b (2 ^ k) n = run_threads (unroll_thread e b (2 ^ k) n)
      # map (\<lambda>s. run_threads (stride_thread (b * 2 ^ k * e) s)) (halving (2 ^ k div 2) 0)" "0 < e" "1 \<le> k"
  shows "sums_block phases e (2 ^ k)"
  by (rule unrolled_sums, rule assms(2), rule assms(1), rule stride_rest [OF assms(3)])

lemma warp_sums:
  assumes "\<And>b n. phases b (2 ^ k) n = run_threads (unroll_thread e b (2 ^ k) n)
      # map (\<lambda>s. run_threads (stride_thread (b * 2 ^ k * e) s)) (halving (2 ^ k div 2) 32) @ last_warp (b * 2 ^ k * e) (2 ^ k)"
    "0 < e" "6 \<le> k"
  shows "sums_block phases e (2 ^ k)"
  by (rule unrolled_sums, rule assms(2), rule assms(1), rule stride_warp_rest [OF assms(3)])

lemma complete_sums:
  assumes "\<And>b n. phases b (2 ^ k) n = run_threads (unroll_thread e b (2 ^ k) n)
      # map (\<lambda>s. run_threads (guarded_thread (2 ^ k) (b * 2 ^ k * e) s)) [512, 256, 128, 64] @ last_warp (b * 2 ^ k * e) (2 ^ k)"
    "0 < e" "6 \<le> k" "k \<le> 10"
  shows "sums_block phases e (2 ^ k)"
  by (rule unrolled_sums, rule assms(2), rule assms(1), rule complete_rest [OF assms(3,4)])

lemma unrolled_kernels_sum:
  assumes "6 \<le> k" "k \<le> 10"
  shows "sums_block reduceUnrolling2 2 (2 ^ k)" "sums_block reduceUnrolling4 4 (2 ^ k)" "sums_block reduceUnrolling8 8 (2 ^ k)"
    "sums_block reduceUnrollWarps 2 (2 ^ k)" "sums_block reduceUnrollWarps8 8 (2 ^ k)"
    "sums_block reduceCompleteUnrollWarps8 8 (2 ^ k)" "sums_block (reduceCompleteUnroll (2 ^ k)) 8 (2 ^ k)"
proof -
  have k: "1 \<le> k" "Suc 0 \<le> k" using assms by simp_all
  show "sums_block reduceUnrolling2 2 (2 ^ k)" "sums_block reduceUnrolling4 4 (2 ^ k)" "sums_block reduceUnrolling8 8 (2 ^ k)"
    by (rule strided_sums; simp add: reduceUnrolling2_def reduceUnrolling4_def reduceUnrolling8_def k)+
  show "sums_block reduceUnrollWarps 2 (2 ^ k)" "sums_block reduceUnrollWarps8 8 (2 ^ k)"
    by (rule warp_sums; simp add: reduceUnrollWarps_def reduceUnrollWarps8_def assms)+
  show "sums_block reduceCompleteUnrollWarps8 8 (2 ^ k)" "sums_block (reduceCompleteUnroll (2 ^ k)) 8 (2 ^ k)"
    by (rule complete_sums; simp add: reduceCompleteUnrollWarps8_def reduceCompleteUnroll_def assms)+
qed

text \<open>The kernels with one element for each thread.\<close>

lemma interleaved_sums: "1 \<le> k \<Longrightarrow> sums_block reduceInterleaved 1 (2 ^ k)"
  unfolding sums_block_def
proof (intro allI impI)
  fix b xs and ord :: "nat \<Rightarrow> nat list"
  assume k: "1 \<le> k" and len: "length xs < 2 ^ 32" "b * 2 ^ k * 1 + 1 * 2 ^ k \<le> length (xs :: mem)" and o: "\<forall>j. orders (2 ^ k) (ord j)"
  have "halves (b * 2 ^ k) (2 ^ k) s (run_threads (interleaved_thread b (2 ^ k) (length xs) s))" if "2 * s \<le> 2 ^ k" for s
    using interleaved_halves len that by simp
  from halving_to_one [OF this, of "k - 1"]
  have "halving_phases (b * 2 ^ k) (2 ^ k) k (reduceInterleaved b (2 ^ k) (length xs))"
    using k by (simp add: reduceInterleaved_def half_of_power)
  from halving_sum [OF this, of ord xs 0]
  show "\<exists>ys. run_phases ord 0 (reduceInterleaved b (2 ^ k) (length xs)) xs = Inr ys \<and> length ys = length xs
      \<and> ys ! (b * 2 ^ k * 1) = block_sum (b * 2 ^ k * 1) (1 * 2 ^ k) xs
      \<and> (\<forall>i. i < b * 2 ^ k * 1 \<or> b * 2 ^ k * 1 + 1 * 2 ^ k \<le> i \<longrightarrow> ys ! i = xs ! i)"
    using len(2) o by simp
qed

lemma doubling_sums:
  assumes ph: "\<And>b n. phases b (2 ^ k) n = map (p b n) (doubling 1 (2 ^ k))"
    and p: "\<And>b n j. j < k \<Longrightarrow> b * 2 ^ k + 2 ^ k \<le> n \<Longrightarrow> n < 2 ^ 32 \<Longrightarrow> sums_pairs (b * 2 ^ k) (2 ^ k) (2 ^ j) (p b n (2 ^ j))"
  shows "sums_block phases 1 (2 ^ k)"
  unfolding sums_block_def
proof (intro allI impI)
  fix b xs and ord :: "nat \<Rightarrow> nat list"
  assume len: "length xs < 2 ^ 32" "b * 2 ^ k * 1 + 1 * 2 ^ k \<le> length (xs :: mem)" and o: "\<forall>j. orders (2 ^ k) (ord j)"
  have len': "b * 2 ^ k + 2 ^ k \<le> length xs" using len(2) by simp
  have "\<exists>ys. run_phases ord 0 (map (p b (length xs)) (doubling (2 ^ 0) (2 ^ k))) xs = Inr ys \<and> length ys = length xs
      \<and> ys ! (b * 2 ^ k) = (\<Sum>i < 2 ^ (k - 0). xs ! (b * 2 ^ k + i * 2 ^ 0))
      \<and> (\<forall>i. i < b * 2 ^ k \<or> b * 2 ^ k + 2 ^ k \<le> i \<longrightarrow> ys ! i = xs ! i)"
    by (rule doubling_sum [OF p]) (use len' len(1) o in simp_all)
  then show "\<exists>ys. run_phases ord 0 (phases b (2 ^ k) (length xs)) xs = Inr ys \<and> length ys = length xs
      \<and> ys ! (b * 2 ^ k * 1) = block_sum (b * 2 ^ k * 1) (1 * 2 ^ k) xs
      \<and> (\<forall>i. i < b * 2 ^ k * 1 \<or> b * 2 ^ k * 1 + 1 * 2 ^ k \<le> i \<longrightarrow> ys ! i = xs ! i)"
    by (simp add: ph block_sum_def)
qed

lemma stride_divides: "j < k \<Longrightarrow> (2 * 2 ^ j :: nat) dvd 2 ^ k"
  using le_imp_power_dvd [of "Suc j" k "2 :: nat"] by simp

lemma neighbored_sums: "sums_block reduceNeighbored 1 (2 ^ k)" "sums_block reduceNeighboredLess 1 (2 ^ k)"
proof -
  show "sums_block reduceNeighbored 1 (2 ^ k)"
    by (rule doubling_sums [where p = "\<lambda>b n s. run_threads (neighbored_thread b (2 ^ k) n s)"])
      (simp_all add: reduceNeighbored_def neighbored_pairs stride_divides)
  show "sums_block reduceNeighboredLess 1 (2 ^ k)"
    by (rule doubling_sums [where p = "\<lambda>b n s. run_threads (neighbored_less_thread b (2 ^ k) n s)"])
      (simp_all add: reduceNeighboredLess_def neighbored_less_pairs stride_divides)
qed

end
