(* ===== verification/Reduce_Main.thy ===== *)
theory Reduce_Main
  imports Reduce_Correct
begin

text \<open>
  The grid, the tests of the main program and the host sum of \<^verbatim>\<open>reduceInteger.cu\<close>: for every
  block size that the program has a complete unrolling for, every order of the threads and of
  the blocks, each test prints the sum of the host.
\<close>

section \<open>The host\<close>

lemma host_sum: "2 ^ k \<le> length xs \<Longrightarrow> recursiveReduce xs (2 ^ k) = Inr (block_sum 0 (2 ^ k) xs)"
proof (induction k arbitrary: xs)
  case 0
  then have "vget xs (int 0) = Inr (xs ! 0)" by (intro vget_int) auto
  then show ?case by (simp add: recursiveReduce.simps [of xs "Suc 0"] block_sum_def)
next
  case (Suc k)
  let ?s = "2 ^ k :: nat"
  have o: "orders ?s [0..<?s]" by (auto simp: orders_def)
  obtain zs where zs: "run_threads (\<lambda>i. accumulate i (i + ?s)) [0..<?s] xs = Inr zs" "length zs = length xs"
      "\<forall>t < ?s. zs ! t = xs ! t + xs ! (t + ?s)"
    using run_accumulates [OF o, where f = "\<lambda>i. accumulate i (i + ?s)" and act = "\<lambda>_. True" and w = "\<lambda>t. t" and r = "\<lambda>t. t + ?s" and xs = xs]
      Suc.prems by auto
  have "recursiveReduce xs (2 ^ Suc k) = recursiveReduce zs ?s"
    using zs(1) by (subst recursiveReduce.simps) (simp add: Let_def)
  also have "\<dots> = Inr (block_sum 0 ?s zs)" using Suc zs(2) by simp
  also have "block_sum 0 ?s zs = block_sum 0 (2 ^ Suc k) xs"
    using block_sum_half [of ?s zs 0 xs] zs(3) by (simp add: add.commute)
  finally show ?case .
qed

lemma block_sum_all: "block_sum 0 (length xs) xs = sum_list xs"
  by (simp add: block_sum_def sum_list_sum_nth atLeast0LessThan)

section \<open>The contract and the grid\<close>

locale summing_kernel =
  fixes kn :: "nat \<Rightarrow> block_kernel"
  assumes some_elements: "0 < elements (kn d)"
    and sums: "6 \<le> k \<Longrightarrow> k \<le> 10 \<Longrightarrow> sums_block (body (kn (2 ^ k))) (elements (kn (2 ^ k))) (2 ^ k)"
begin

definition part :: "nat \<Rightarrow> nat" where
  "part k = elements (kn (2 ^ k)) * 2 ^ k"

lemma part_pos: "0 < part k"
  using some_elements by (simp add: part_def)

lemma run_block_value:
  assumes k: "6 \<le> k" "k \<le> 10" and n: "length xs < 2 ^ 32" "b * part k + part k \<le> length xs" "b < length od"
    and o: "\<And>j. orders (2 ^ k) (ord b j)"
  shows "\<exists>ys. run_block (kn (2 ^ k)) ord (2 ^ k) (length xs) b (xs, od) = Inr (ys, od[b := block_sum (b * part k) (part k) xs])
    \<and> length ys = length xs \<and> (\<forall>i. i < b * part k \<or> b * part k + part k \<le> i \<longrightarrow> ys ! i = xs ! i)"
proof -
  let ?e = "elements (kn (2 ^ k))"
  have base: "c * 2 ^ k * ?e = c * part k" "?e * 2 ^ k = part k" for c by (simp_all add: part_def)
  obtain ys where ys: "run_phases (ord b) 0 (body (kn (2 ^ k)) b (2 ^ k) (length xs)) xs = Inr ys" "length ys = length xs"
      "ys ! (b * part k) = block_sum (b * part k) (part k) xs"
      "\<forall>i. i < b * part k \<or> b * part k + part k \<le> i \<longrightarrow> ys ! i = xs ! i"
    using sums [OF k] n(1,2) o unfolding sums_block_def base by blast
  have "b * part k < length xs" using n(2) part_pos [of k] by linarith
  moreover from this have "u32 (b * part k) = b * part k" using n(1) unfolding u32_def by (intro mod_less) linarith
  ultimately have g: "\<not> length xs \<le> u32 (b * part k)" "b * part k < length ys" using ys(2) by simp_all
  from g(2) have "vget ys (int (b * part k)) = Inr (ys ! (b * part k))" by (rule vget_int)
  moreover have "vset od (int b) z = Inr (od[b := z])" for z using n(3) by (rule vset_int)
  ultimately have "run_block (kn (2 ^ k)) ord (2 ^ k) (length xs) b (xs, od) = Inr (ys, od[b := block_sum (b * part k) (part k) xs])"
    using ys(1,3) g(1) by (simp add: run_block_def Let_def base(1) del: of_nat_mult)
  then show ?thesis using ys(2,4) by blast
qed

lemma block_sum_frame:
  assumes "\<forall>i. i < b * S \<or> b * S + S \<le> i \<longrightarrow> ys ! i = xs ! i" "b' \<noteq> b"
  shows "block_sum (b' * S) S ys = block_sum (b' * S) S xs"
  unfolding block_sum_def
proof (rule sum.cong [OF refl])
  fix i assume "i \<in> {..<S}"
  then have i: "i < S" by simp
  have "b' * S + i < b * S \<or> b * S + S \<le> b' * S + i"
  proof (cases "b' < b")
    case True
    then have "(b' + 1) * S \<le> b * S" by (intro mult_le_mono1) simp
    then show ?thesis using i by simp
  next
    case False
    then have "(b + 1) * S \<le> b' * S" using assms(2) by (intro mult_le_mono1) simp
    then show ?thesis by simp
  qed
  then show "ys ! (b' * S + i) = xs ! (b' * S + i)" using assms(1) by blast
qed

lemma run_grid_value:
  assumes k: "6 \<le> k" "k \<le> 10" and o: "\<And>b j. orders (2 ^ k) (ord b j)" and n: "n < 2 ^ 32"
  shows "distinct bs \<Longrightarrow> (\<And>b. b \<in> set bs \<Longrightarrow> b < length od \<and> b * part k + part k \<le> n) \<Longrightarrow> length xs = n \<Longrightarrow>
    \<exists>ys od'. run_grid (kn (2 ^ k)) ord (2 ^ k) n bs (xs, od) = Inr (ys, od') \<and> length od' = length od
      \<and> (\<forall>b \<in> set bs. od' ! b = block_sum (b * part k) (part k) xs) \<and> (\<forall>b. b \<notin> set bs \<longrightarrow> od' ! b = od ! b)"
proof (induction bs arbitrary: xs od)
  case (Cons b bs)
  have b: "b < length od" "b * part k + part k \<le> n" using Cons.prems(2) by simp_all
  let ?od = "od[b := block_sum (b * part k) (part k) xs]"
  obtain ys where ys: "run_block (kn (2 ^ k)) ord (2 ^ k) n b (xs, od) = Inr (ys, ?od)" "length ys = n"
      "\<forall>i. i < b * part k \<or> b * part k + part k \<le> i \<longrightarrow> ys ! i = xs ! i"
    using run_block_value [OF k, of xs b od ord] n b o Cons.prems(3) by auto
  obtain zs od' where zs: "run_grid (kn (2 ^ k)) ord (2 ^ k) n bs (ys, ?od) = Inr (zs, od')" "length od' = length ?od"
      "\<forall>c \<in> set bs. od' ! c = block_sum (c * part k) (part k) ys" "\<forall>c. c \<notin> set bs \<longrightarrow> od' ! c = ?od ! c"
    using Cons.IH [of ?od ys] Cons.prems(1,2) ys(2) by auto
  have "od' ! c = block_sum (c * part k) (part k) xs" if "c \<in> set (b # bs)" for c
  proof (cases "c = b")
    case True
    then show ?thesis using zs(4) Cons.prems(1) b(1) by simp
  next
    case False
    then show ?thesis using zs(3) that block_sum_frame [OF ys(3) False] by simp
  qed
  then show ?case using ys(1) zs by auto
qed simp

lemma blocks_together: "(\<Sum>b < G. block_sum (b * S) S xs) = block_sum 0 (G * S) xs"
proof (induction G)
  case (Suc G)
  have e: "Suc G * S = G * S + S" by simp
  show ?case using Suc unfolding e block_sum_def sum_lessThan_split by simp
qed (simp add: block_sum_def)

lemma test_value:
  assumes k: "6 \<le> k" "k \<le> 10" and o: "\<And>b j. orders (2 ^ k) (ord b j)" and n: "length xs < 2 ^ 32"
    and G: "G * part k = length xs" "G \<le> length od" and bs: "orders G blocks"
  shows "\<exists>od'. test_kernel (Some (kn (2 ^ k))) G ord blocks (2 ^ k) xs od = Inr (sum_list xs, od') \<and> length od' = length od"
proof -
  have b: "distinct blocks" "set blocks = {..<G}" using bs by (simp_all add: orders_def)
  have inside: "b < length od \<and> b * part k + part k \<le> length xs" if "b \<in> set blocks" for b
  proof -
    have "b < G" using that b(2) by simp
    then have "(b + 1) * part k \<le> G * part k" by (intro mult_le_mono1) simp
    then show ?thesis using G \<open>b < G\<close> by simp
  qed
  obtain ys od' where g: "run_grid (kn (2 ^ k)) ord (2 ^ k) (length xs) blocks (xs, od) = Inr (ys, od')" "length od' = length od"
      "\<forall>b \<in> set blocks. od' ! b = block_sum (b * part k) (part k) xs"
    using run_grid_value [where ord = ord and od = od, OF k o n b(1) inside] by blast
  have "mapr (\<lambda>i. vget od' (int i)) [0..<G] = Inr (map ((!) od') [0..<G])"
    by (rule mapr_ok) (use g(2) G(2) in simp)
  moreover have "sum_list (map ((!) od') [0..<G]) = (\<Sum>b < G. block_sum (b * part k) (part k) xs)"
    unfolding sum_list_upt using g(3) b(2) by (intro sum.cong) simp_all
  ultimately show ?thesis
    using g(1,2) by (simp add: test_kernel_def blocks_together G(1) block_sum_all)
qed

end

interpretation neighbored: summing_kernel "\<lambda>_. \<lparr>body = reduceNeighbored, elements = 1, returns_early = True\<rparr>"
  by unfold_locales (simp_all add: neighbored_sums del: One_nat_def)

interpretation neighbored_less: summing_kernel "\<lambda>_. \<lparr>body = reduceNeighboredLess, elements = 1, returns_early = True\<rparr>"
  by unfold_locales (simp_all add: neighbored_sums del: One_nat_def)

interpretation interleaved: summing_kernel "\<lambda>_. \<lparr>body = reduceInterleaved, elements = 1, returns_early = True\<rparr>"
  by unfold_locales (simp_all add: interleaved_sums del: One_nat_def)

interpretation unrolling2: summing_kernel "\<lambda>_. \<lparr>body = reduceUnrolling2, elements = 2, returns_early = False\<rparr>"
  by unfold_locales (simp_all add: unrolled_kernels_sum)

interpretation unrolling4: summing_kernel "\<lambda>_. \<lparr>body = reduceUnrolling4, elements = 4, returns_early = False\<rparr>"
  by unfold_locales (simp_all add: unrolled_kernels_sum)

interpretation unrolling8: summing_kernel "\<lambda>_. \<lparr>body = reduceUnrolling8, elements = 8, returns_early = False\<rparr>"
  by unfold_locales (simp_all add: unrolled_kernels_sum)

interpretation unroll_warps: summing_kernel "\<lambda>_. \<lparr>body = reduceUnrollWarps, elements = 2, returns_early = False\<rparr>"
  by unfold_locales (simp_all add: unrolled_kernels_sum)

interpretation unroll_warps8: summing_kernel "\<lambda>_. \<lparr>body = reduceUnrollWarps8, elements = 8, returns_early = False\<rparr>"
  by unfold_locales (simp_all add: unrolled_kernels_sum)

interpretation complete_warps8: summing_kernel "\<lambda>_. \<lparr>body = reduceCompleteUnrollWarps8, elements = 8, returns_early = False\<rparr>"
  by unfold_locales (simp_all add: unrolled_kernels_sum)

interpretation complete: summing_kernel "\<lambda>d. \<lparr>body = reduceCompleteUnroll d, elements = 8, returns_early = False\<rparr>"
  by unfold_locales (simp_all add: unrolled_kernels_sum)

section \<open>The tests in sequence\<close>

lemma complete_unroll_case_power:
  "6 \<le> k \<Longrightarrow> k \<le> 10 \<Longrightarrow>
   complete_unroll_case (2 ^ k) = Some \<lparr>body = reduceCompleteUnroll (2 ^ k), elements = 8, returns_early = False\<rparr>"
proof -
  assume "6 \<le> k" "k \<le> 10"
  then consider "k = 6" | "k = 7" | "k = 8" | "k = 9" | "k = 10" by linarith
  then show ?thesis by cases (simp_all add: complete_unroll_case_def)
qed

text \<open>A test whose kernel covers the data with its part of the grid.\<close>

definition sums_data :: "nat \<Rightarrow> nat \<Rightarrow> mem \<Rightarrow> block_kernel option \<times> nat \<Rightarrow> bool" where
  "sums_data grid blockDim data t \<longleftrightarrow> (\<forall>ord blocks od. (\<forall>b j. orders blockDim (ord b j)) \<longrightarrow> orders (grid div snd t) blocks \<longrightarrow>
     grid \<le> length od \<longrightarrow>
     (\<exists>od'. test_kernel (fst t) (grid div snd t) ord blocks blockDim data od = Inr (sum_list data, od') \<and> length od' = length od))"

context summing_kernel
begin

lemma data_summed:
  assumes "6 \<le> k" "k \<le> 10" "length data < 2 ^ 32" "grid div d * part k = length data"
  shows "sums_data grid (2 ^ k) data (Some (kn (2 ^ k)), d)"
  unfolding sums_data_def fst_conv snd_conv
proof (intro allI impI)
  fix ord :: schedule and blocks and od :: mem
  assume "\<forall>b j. orders (2 ^ k) (ord b j)" "orders (grid div d) blocks" "grid \<le> length od"
  then show "\<exists>od'. test_kernel (Some (kn (2 ^ k))) (grid div d) ord blocks (2 ^ k) data od = Inr (sum_list data, od') \<and> length od' = length od"
    using test_value [OF assms(1,2) _ assms(3,4)] by (meson div_le_dividend le_trans)
qed

end

lemma run_tests_value:
  assumes "\<And>t g b j. orders blockDim (ords t g b j)" "\<And>t g. orders g (blocks t g)"
  shows "\<forall>t \<in> set ts. sums_data grid blockDim data t \<Longrightarrow> grid \<le> length od \<Longrightarrow>
    run_tests grid blockDim ords blocks ts data od = Inr (replicate (length ts) (sum_list data))"
proof (induction ts arbitrary: od)
  case (Cons t ts)
  obtain kn d where t: "t = (kn, d)" by fastforce
  then obtain od' where od': "test_kernel kn (grid div d) (ords (length ts) (grid div d)) (blocks (length ts) (grid div d)) blockDim data od
      = Inr (sum_list data, od')" "length od' = length od"
    using Cons.prems assms unfolding sums_data_def by force
  then show ?case using Cons.IH [of od'] Cons.prems by (simp add: t)
qed simp

lemma tests_sum_data:
  assumes k: "6 \<le> k" "k \<le> 10" and K: "k + 3 \<le> K" "K \<le> 30" and len: "length data = 2 ^ K"
  shows "\<forall>t \<in> set (tests (2 ^ k)). sums_data (2 ^ (K - k)) (2 ^ k) data t"
proof -
  have G: "(2 :: nat) ^ (K - k) = 8 * 2 ^ (K - k - 3)"
  proof -
    have "K - k = 3 + (K - k - 3)" using K(1) by simp
    then have "(2 :: nat) ^ (K - k) = 2 ^ (3 + (K - k - 3))" by (rule arg_cong)
    then show ?thesis by (simp add: power_add)
  qed
  have all: "2 ^ (K - k) * (2 :: nat) ^ k = 2 ^ K" using K(1) by (simp flip: power_add)
  have n: "length data < 2 ^ 32" using len K(2) power_increasing [of K 30 "2 :: nat"] by simp
  have one: "2 ^ (K - k) div 1 * (1 * 2 ^ k) = length data" using all len by simp
  have two: "2 ^ (K - k) div 2 * (2 * 2 ^ k) = length data" and four: "2 ^ (K - k) div 4 * (4 * 2 ^ k) = length data"
    and eight: "2 ^ (K - k) div 8 * (8 * 2 ^ k) = length data"
    using all len unfolding G by simp_all
  have "sums_data (2 ^ (K - k)) (2 ^ k) data (Some \<lparr>body = reduceNeighbored, elements = 1, returns_early = True\<rparr>, 1)"
    using neighbored.data_summed [OF k n, of "2 ^ (K - k)" 1] one by (simp add: neighbored.part_def del: One_nat_def)
  moreover have "sums_data (2 ^ (K - k)) (2 ^ k) data (Some \<lparr>body = reduceNeighboredLess, elements = 1, returns_early = True\<rparr>, 1)"
    using neighbored_less.data_summed [OF k n, of "2 ^ (K - k)" 1] one by (simp add: neighbored_less.part_def del: One_nat_def)
  moreover have "sums_data (2 ^ (K - k)) (2 ^ k) data (Some \<lparr>body = reduceInterleaved, elements = 1, returns_early = True\<rparr>, 1)"
    using interleaved.data_summed [OF k n, of "2 ^ (K - k)" 1] one by (simp add: interleaved.part_def del: One_nat_def)
  moreover have "sums_data (2 ^ (K - k)) (2 ^ k) data (Some \<lparr>body = reduceUnrolling2, elements = 2, returns_early = False\<rparr>, 2)"
    using unrolling2.data_summed [OF k n, of "2 ^ (K - k)" 2] two by (simp add: unrolling2.part_def del: One_nat_def)
  moreover have "sums_data (2 ^ (K - k)) (2 ^ k) data (Some \<lparr>body = reduceUnrolling4, elements = 4, returns_early = False\<rparr>, 4)"
    using unrolling4.data_summed [OF k n, of "2 ^ (K - k)" 4] four by (simp add: unrolling4.part_def del: One_nat_def)
  moreover have "sums_data (2 ^ (K - k)) (2 ^ k) data (Some \<lparr>body = reduceUnrolling8, elements = 8, returns_early = False\<rparr>, 8)"
    using unrolling8.data_summed [OF k n, of "2 ^ (K - k)" 8] eight by (simp add: unrolling8.part_def del: One_nat_def)
  moreover have "sums_data (2 ^ (K - k)) (2 ^ k) data (Some \<lparr>body = reduceUnrollWarps8, elements = 8, returns_early = False\<rparr>, 8)"
    using unroll_warps8.data_summed [OF k n, of "2 ^ (K - k)" 8] eight by (simp add: unroll_warps8.part_def del: One_nat_def)
  moreover have "sums_data (2 ^ (K - k)) (2 ^ k) data (Some \<lparr>body = reduceCompleteUnrollWarps8, elements = 8, returns_early = False\<rparr>, 8)"
    using complete_warps8.data_summed [OF k n, of "2 ^ (K - k)" 8] eight by (simp add: complete_warps8.part_def del: One_nat_def)
  moreover have "sums_data (2 ^ (K - k)) (2 ^ k) data (complete_unroll_case (2 ^ k), 8)"
    unfolding complete_unroll_case_power [OF k]
    using complete.data_summed [OF k n, of "2 ^ (K - k)" 8] eight by (simp add: complete.part_def del: One_nat_def)
  ultimately show ?thesis unfolding tests_def by (simp only: list.set ball_simps simp_thms)
qed

lemma grid_size: "k \<le> K \<Longrightarrow> ((2 :: nat) ^ K + 2 ^ k - 1) div 2 ^ k = 2 ^ (K - k)"
proof -
  assume "k \<le> K"
  then have e: "(2 :: nat) ^ K = 2 ^ (K - k) * 2 ^ k" by (simp flip: power_add)
  have "(2 :: nat) ^ K + 2 ^ k - 1 = (2 ^ k - 1) + 2 ^ (K - k) * 2 ^ k" unfolding e by simp
  also have "\<dots> div 2 ^ k = 2 ^ (K - k) + (2 ^ k - 1) div 2 ^ k" by (rule div_mult_self1) simp
  also have "\<dots> = 2 ^ (K - k)" by simp
  finally show ?thesis .
qed

section \<open>Properties\<close>

text \<open>
  C4. For every block size from 64 to 1024 that is a power of two and every data size that is
  a power of two of at least eight blocks, all nine kernels print the sum of the host, whatever
  the order of the threads in each phase and of the blocks, and the test passes.
\<close>

theorem reductions_agree:
  assumes "6 \<le> k" "k \<le> 10" "k + 3 \<le> K" "K \<le> 30" "length data = 2 ^ K" "2 ^ (K - k) \<le> length od"
    "\<And>t g b j. orders (2 ^ k) (ords t g b j)" "\<And>t g. orders g (blocks t g)"
  shows "reduce_main (2 ^ k) ords blocks data od = Inr (sum_list data, replicate 9 (sum_list data), True)"
proof -
  have "recursiveReduce data (2 ^ K) = Inr (sum_list data)"
    using host_sum [of K data] block_sum_all [of data] assms(5) by simp
  moreover have "run_tests (2 ^ (K - k)) (2 ^ k) ords blocks (tests (2 ^ k)) data od = Inr (replicate (length (tests (2 ^ k))) (sum_list data))"
    by (rule run_tests_value [OF assms(7,8) tests_sum_data [OF assms(1-5)] assms(6)])
  moreover have "length (tests (2 ^ k)) = 9" by (simp add: tests_def)
  moreover have "(2 ^ K + 2 ^ k - 1) div 2 ^ k = (2 :: nat) ^ (K - k)" using grid_size assms(3) by simp
  moreover have "last (replicate 9 (sum_list data)) = sum_list data" by (simp add: last_replicate)
  ultimately show ?thesis
    unfolding reduce_main_def Let_def assms(5) by simp
qed

theorem reductions_agree_witness:
  "reduce_main (2 ^ 6) (\<lambda>t g b j. [0..<64]) (\<lambda>t g. rev [0..<g]) (replicate (2 ^ 9) 3) (replicate 8 0)
   = Inr (sum_list (replicate (2 ^ 9) 3), replicate 9 (sum_list (replicate (2 ^ 9) 3)), True)"
  by (rule reductions_agree [of 6 9]) (simp_all add: orders_def lessThan_atLeast0 del: upt_Suc)

end
