(* ===== verification/Idea_Cipher.thy ===== *)
theory Idea_Cipher
  imports Prelude
begin

unbundle bit_operations_syntax

text \<open>
  The IDEA program of \<^verbatim>\<open>CodeSamples/chapter10/crypt.flexible.cu\<close> in the CUDA samples under
  \<^verbatim>\<open>edu/books/cuda_book/external\<close>: the cipher of one chunk (\<open>doCrypt\<close>), the inverse modulo
  65537 (\<open>inv\<close>, here \<open>inv_mod\<close>), and the two key schedules. Bytes are 8-bit words; the \<open>long\<close> variables of the
  cipher stay below 2 to the power 48 for the keys that \<open>int\<close> can hold, so they are integers here.
  The lemmas show that \<open>inv\<close> ends without overflow and returns an inverse for every word but 0.
\<close>

section \<open>The cipher of a chunk\<close>

definition CHUNK_SIZE :: int where "CHUNK_SIZE = 8"
definition KEY_LENGTH :: int where "KEY_LENGTH = 52"
definition USERKEY_LENGTH :: int where "USERKEY_LENGTH = 8"
definition BITS_PER_BYTE :: nat where "BITS_PER_BYTE = 8"

text \<open>The remainder of C has the sign of the dividend.\<close>

definition crem :: "int \<Rightarrow> int \<Rightarrow> int" where
  "crem a b = sgn a * (\<bar>a\<bar> mod \<bar>b\<bar>)"

definition mul16 :: "int \<Rightarrow> int \<Rightarrow> int" where
  "mul16 x k = crem (x * k) 0x10001 AND 0xffff"

definition add16 :: "int \<Rightarrow> int \<Rightarrow> int" where
  "add16 x k = (x + k) AND 0xffff"

type_synonym block = "int \<times> int \<times> int \<times> int"

text \<open>One turn of the \<open>do\<close> loop with its six keys.\<close>

definition idea_round :: "int \<Rightarrow> int \<Rightarrow> int \<Rightarrow> int \<Rightarrow> int \<Rightarrow> int \<Rightarrow> block \<Rightarrow> block" where
  "idea_round k0 k1 k2 k3 k4 k5 b =
     (let (x1, x2, x3, x4) = b;
          x1 = mul16 x1 k0; x2 = add16 x2 k1; x3 = add16 x3 k2; x4 = mul16 x4 k3;
          t2 = x1 XOR x3;
          t2 = mul16 t2 k4;
          t1 = (t2 + (x2 XOR x4)) AND 0xffff;
          t1 = mul16 t1 k5;
          t2 = (t1 + t2) AND 0xffff;
          x1 = x1 XOR t1;
          x4 = x4 XOR t2;
          t2 = t2 XOR x2;
          x2 = x3 XOR t1;
          x3 = t2
      in (x1, x2, x3, x4))"

text \<open>The loop: \<open>r\<close> turns from key index \<open>ik\<close>. Reading past the key array is undefined.\<close>

fun idea_rounds :: "int list \<Rightarrow> nat \<Rightarrow> nat \<Rightarrow> block \<Rightarrow> block result" where
  "idea_rounds key ik 0 b = Inr b"
| "idea_rounds key ik (Suc r) b =
     bindr (vget key (int ik)) (\<lambda>k0. bindr (vget key (int ik + 1)) (\<lambda>k1.
     bindr (vget key (int ik + 2)) (\<lambda>k2. bindr (vget key (int ik + 3)) (\<lambda>k3.
     bindr (vget key (int ik + 4)) (\<lambda>k4. bindr (vget key (int ik + 5)) (\<lambda>k5.
       idea_rounds key (ik + 6) r (idea_round k0 k1 k2 k3 k4 k5 b)))))))"

text \<open>The final transformation, in the order in which the words are stored.\<close>

definition idea_output :: "int list \<Rightarrow> nat \<Rightarrow> block \<Rightarrow> block result" where
  "idea_output key ik b =
     (let (x1, x2, x3, x4) = b in
      bindr (vget key (int ik)) (\<lambda>k0. bindr (vget key (int ik + 1)) (\<lambda>k1.
      bindr (vget key (int ik + 2)) (\<lambda>k2. bindr (vget key (int ik + 3)) (\<lambda>k3.
        Inr (mul16 x1 k0, add16 x3 k1, add16 x2 k2, mul16 x4 k3))))))"

definition crypt_block :: "int list \<Rightarrow> block \<Rightarrow> block result" where
  "crypt_block key b =
     bindr (idea_rounds key 0 (nat CHUNK_SIZE) b) (\<lambda>b'. idea_output key (6 * nat CHUNK_SIZE) b')"

text \<open>Two bytes of the text make a word, the low byte first.\<close>

definition word_at :: "8 word list \<Rightarrow> int \<Rightarrow> int result" where
  "word_at plain i =
     bindr (vget plain i) (\<lambda>lo. bindr (vget plain (i + 1)) (\<lambda>hi.
       Inr ((uint lo AND 0xff) OR push_bit BITS_PER_BYTE (uint hi AND 0xff))))"

definition load_chunk :: "int \<Rightarrow> 8 word list \<Rightarrow> block result" where
  "load_chunk chunk plain =
     bindr (word_at plain (chunk * CHUNK_SIZE)) (\<lambda>x1. bindr (word_at plain (chunk * CHUNK_SIZE + 2)) (\<lambda>x2.
     bindr (word_at plain (chunk * CHUNK_SIZE + 4)) (\<lambda>x3. bindr (word_at plain (chunk * CHUNK_SIZE + 6)) (\<lambda>x4.
       Inr (x1, x2, x3, x4)))))"

definition put_word :: "int \<Rightarrow> int \<Rightarrow> 8 word list \<Rightarrow> 8 word list result" where
  "put_word i x crypt =
     bindr (vset crypt i (word_of_int x)) (\<lambda>c.
       vset c (i + 1) (word_of_int (drop_bit BITS_PER_BYTE x)))"

definition store_chunk :: "int \<Rightarrow> block \<Rightarrow> 8 word list \<Rightarrow> 8 word list result" where
  "store_chunk chunk b crypt =
     (let (y1, y2, y3, y4) = b in
      bindr (put_word (chunk * CHUNK_SIZE) y1 crypt) (\<lambda>c1. bindr (put_word (chunk * CHUNK_SIZE + 2) y2 c1) (\<lambda>c2.
      bindr (put_word (chunk * CHUNK_SIZE + 4) y3 c2) (\<lambda>c3. put_word (chunk * CHUNK_SIZE + 6) y4 c3))))"

definition doCrypt :: "int \<Rightarrow> 8 word list \<Rightarrow> 8 word list \<Rightarrow> int list \<Rightarrow> 8 word list result" where
  "doCrypt chunk plain crypt key =
     bindr (load_chunk chunk plain) (\<lambda>b.
     bindr (crypt_block key b) (\<lambda>b'. store_chunk chunk b' crypt))"

section \<open>The inverse\<close>

text \<open>
  The loop of \<open>inv\<close>. A division by zero is undefined, and all arithmetic is that of \<open>int\<close>.
\<close>

function inv_loop :: "int \<Rightarrow> int \<Rightarrow> int \<Rightarrow> int \<Rightarrow> int result" where
  "inv_loop x y t0 t1 =
     (if x \<le> 0 \<or> y \<le> 0 then Inl Undefined_Behaviour
      else (let q = x div y; x' = x mod y in
        bindr (cint (q * t1)) (\<lambda>p. bindr (cint (t0 + p)) (\<lambda>t0'.
          if x' = 1 then Inr t0'
          else if x' = 0 then Inl Undefined_Behaviour
          else (let q' = y div x'; y' = y mod x' in
            bindr (cint (q' * t0')) (\<lambda>p'. bindr (cint (t1 + p')) (\<lambda>t1'.
              if y' \<noteq> 1 then inv_loop x' y' t0' t1'
              else bindr (cint (1 - t1')) (\<lambda>d. Inr (d AND 0xffff)))))))))"
  by pat_completeness auto
termination
proof (relation "measure (\<lambda>(x, y, t0, t1). nat y)", goal_cases)
  case 1
  then show ?case by simp
next
  case (2 x y t0 t1 q x' p t0' q' y' p' t1')
  then have y: "0 < y" and x': "x' = x mod y" "y' = y mod x'" by simp_all
  have "0 \<le> x'" using y x'(1) by simp
  then have "0 < x'" using 2(7) by simp
  then have "y' < x'" "x' < y" using y x' by simp_all
  then show ?case using y by simp
qed

declare inv_loop.simps [simp del]

definition inv_mod :: "int \<Rightarrow> int result" where
  "inv_mod x =
     (if x \<le> 1 then Inr x
      else (let t1 = 0x10001 div x; y = 0x10001 mod x in
        if y = 1 then Inr ((1 - t1) AND 0xffff) else inv_loop x y 1 t1))"

section \<open>The key schedules\<close>

text \<open>The user key is eight 16-bit words read from a file; \<open>int\<close> shifts of its values cannot overflow.\<close>

fun extend_key :: "nat list \<Rightarrow> int list \<Rightarrow> int list result" where
  "extend_key [] key = Inr key"
| "extend_key (i # is) key =
     (let j = i mod 8 in
      if j < 6 then
        bindr (vget key (int i - 7)) (\<lambda>a. bindr (vget key (int i - 6)) (\<lambda>b.
        bindr (vset key (int i) ((drop_bit 9 a OR push_bit 7 b) AND 0xffff)) (extend_key is)))
      else if j = 6 then
        bindr (vget key (int i - 7)) (\<lambda>a. bindr (vget key (int i - 14)) (\<lambda>b.
        bindr (vset key (int i) ((drop_bit 9 a OR push_bit 7 b) AND 0xffff)) (extend_key is)))
      else
        bindr (vget key (int i - 15)) (\<lambda>a. bindr (vget key (int i - 14)) (\<lambda>b.
        bindr (vset key (int i) ((drop_bit 9 a OR push_bit 7 b) AND 0xffff)) (extend_key is))))"

definition generateEncryptKey :: "16 word list \<Rightarrow> int list result" where
  "generateEncryptKey userkey =
     bindr (mapr (\<lambda>i. bindr (vget userkey (int i)) (\<lambda>k. Inr (sint k AND 0xffff))) [0..<nat CHUNK_SIZE]) (\<lambda>ks.
       extend_key [nat CHUNK_SIZE..<nat KEY_LENGTH] (ks @ replicate (nat (KEY_LENGTH - CHUNK_SIZE)) 0))"

definition neg16 :: "int \<Rightarrow> int" where
  "neg16 z = (- z) AND 0xffff"

text \<open>
  The six keys that one turn of the loop writes, from \<open>Z[k]\<close> to \<open>Z[k+5]\<close>, in the order of the
  array: the turn fills \<open>key[j-5..j]\<close>.
\<close>

definition decrypt_six :: "int list \<Rightarrow> int \<Rightarrow> int list result" where
  "decrypt_six Z k =
     bindr (vget Z k) (\<lambda>a. bindr (vget Z (k + 1)) (\<lambda>b.
     bindr (vget Z (k + 2)) (\<lambda>c. bindr (inv_mod c) (\<lambda>t1.
     bindr (vget Z (k + 3)) (\<lambda>d. bindr (vget Z (k + 4)) (\<lambda>e.
     bindr (vget Z (k + 5)) (\<lambda>f. bindr (inv_mod f) (\<lambda>t4.
       Inr [t1, neg16 e, neg16 d, t4, a, b]))))))))"

text \<open>The last six are written with the two additive keys in the other order.\<close>

definition decrypt_last :: "int list \<Rightarrow> int \<Rightarrow> int list result" where
  "decrypt_last Z k =
     bindr (vget Z k) (\<lambda>a. bindr (vget Z (k + 1)) (\<lambda>b.
     bindr (vget Z (k + 2)) (\<lambda>c. bindr (inv_mod c) (\<lambda>t1.
     bindr (vget Z (k + 3)) (\<lambda>d. bindr (vget Z (k + 4)) (\<lambda>e.
     bindr (vget Z (k + 5)) (\<lambda>f. bindr (inv_mod f) (\<lambda>t4.
       Inr [t1, neg16 d, neg16 e, t4, a, b]))))))))"

text \<open>The array is filled from the end: first \<open>key[48..51]\<close>, then seven times six keys, then \<open>key[0..5]\<close>.\<close>

fun fill_sixes :: "int list \<Rightarrow> int \<Rightarrow> nat \<Rightarrow> int list \<Rightarrow> int list result" where
  "fill_sixes Z k 0 key = Inr key"
| "fill_sixes Z k (Suc n) key = bindr (decrypt_six Z k) (\<lambda>six. fill_sixes Z (k + 6) n (six @ key))"

definition generateDecryptKey :: "16 word list \<Rightarrow> int list result" where
  "generateDecryptKey userkey =
     bindr (generateEncryptKey userkey) (\<lambda>Z.
     bindr (vget Z 0) (\<lambda>z0. bindr (inv_mod z0) (\<lambda>t1.
     bindr (vget Z 1) (\<lambda>z1. bindr (vget Z 2) (\<lambda>z2. bindr (vget Z 3) (\<lambda>z3. bindr (inv_mod z3) (\<lambda>t4.
     bindr (fill_sixes Z 4 7 [t1, neg16 z1, neg16 z2, t4]) (\<lambda>key.
     bindr (decrypt_last Z 46) (\<lambda>six. Inr (six @ key))))))))))"

section \<open>65537 is prime\<close>

lemma no_small_factor: "\<forall>d \<in> set [2..256]. (65537 :: int) mod d \<noteq> 0"
  by (simp add: upto_rec_numeral del: set_upto)

lemma coprime_65537:
  fixes x :: int
  assumes "1 \<le> x" "x < 65537"
  shows "gcd 65537 x = 1"
proof (rule ccontr)
  assume ne: "gcd 65537 x \<noteq> 1"
  define n where "n = nat x"
  have x: "x = int n" "1 \<le> n" "n < 65537" using assms n_def by auto
  define g where "g = gcd 65537 n"
  have "gcd (int 65537) (int n) = int g" unfolding g_def by (rule gcd_int_int_eq)
  then have "g \<noteq> 1" using ne x(1) by simp
  moreover have "g \<noteq> 0" unfolding g_def by simp
  ultimately have g2: "2 \<le> g" by simp
  have gn: "g \<le> n" using x(2) unfolding g_def by (intro dvd_imp_le) auto
  obtain h where h: "65537 = g * h" unfolding g_def by (metis dvdE gcd_dvd1)
  have "h \<noteq> 0" "h \<noteq> 1" using h gn x(3) by (auto intro: ccontr)
  then have h2: "2 \<le> h" by simp
  have small: "\<exists>d. 2 \<le> d \<and> d < 257 \<and> 65537 mod d = (0 :: nat)"
  proof (cases "g < 257")
    case True
    then show ?thesis using g2 h by (metis mod_mult_self1_is_0)
  next
    case False
    then have "257 * h \<le> g * h" by simp
    then have "257 * h \<le> 65537" using h by linarith
    then have "h < 257" by linarith
    then show ?thesis using h2 h by (metis mod_mult_self2_is_0)
  qed
  then obtain d :: nat where d: "2 \<le> d" "d < 257" "65537 mod d = 0" by (elim exE conjE)
  from d(3) have "int (65537 mod d) = int 0" by (rule arg_cong)
  then have m: "(65537 :: int) mod int d = 0" by (simp only: zmod_int of_nat_numeral of_nat_0)
  have i: "int d \<in> set [2..256]"
    unfolding set_upto atLeastAtMost_iff using d(1,2) by linarith
  show False by (rule notE [OF bspec [OF no_small_factor i] m])
qed

section \<open>The inverse is one\<close>

text \<open>
  The invariant of the loop: \<open>x\<close> and \<open>y\<close> are the remainders of the Euclidean algorithm, each
  congruent to a multiple of the argument, and the cross sum keeps the coefficients below 65537.
\<close>

definition inv_inv :: "int \<Rightarrow> int \<Rightarrow> int \<Rightarrow> int \<Rightarrow> int \<Rightarrow> bool" where
  "inv_inv z x y t0 t1 \<longleftrightarrow> 1 < y \<and> y < x \<and> 1 \<le> t0 \<and> 1 \<le> t1 \<and> gcd x y = 1
     \<and> x * t1 + y * t0 = 65537
     \<and> (t0 * z - x) mod 65537 = 0 \<and> (t1 * z + y) mod 65537 = 0"

lemma dvd_diff_comb:
  "(a :: int) dvd t0 * z - x \<Longrightarrow> a dvd t1 * z + y \<Longrightarrow> a dvd (t0 + q * t1) * z - (x - q * y)"
proof -
  assume "a dvd t0 * z - x" "a dvd t1 * z + y"
  then have "a dvd (t0 * z - x) + q * (t1 * z + y)" by simp
  then show ?thesis by (simp add: algebra_simps)
qed

lemma dvd_sum_comb:
  "(a :: int) dvd t0 * z - x \<Longrightarrow> a dvd t1 * z + y \<Longrightarrow> a dvd (t1 + q * t0) * z + (y - q * x)"
proof -
  assume "a dvd t0 * z - x" "a dvd t1 * z + y"
  then have "a dvd (t1 * z + y) + q * (t0 * z - x)" by simp
  then show ?thesis by (simp add: algebra_simps)
qed

lemma mask16: "(a :: int) AND 0xffff = a mod 65536"
  using take_bit_eq_mask [of 16 a] by (simp add: take_bit_eq_mod mask_eq_exp_minus_1)

text \<open>The value returned when the second remainder reaches 1.\<close>

lemma final_negative:
  assumes "1 \<le> (t1 :: int)" "t1 \<le> 65537" "(t1 * z + 1) mod 65537 = 0" "0 < z" "z < 65536"
  shows "(((1 - t1) AND 0xffff) * z) mod 65537 = 1"
proof -
  have "t1 \<noteq> 1"
  proof
    assume "t1 = 1"
    then have "(z + 1) mod 65537 = 0" using assms(3) by simp
    then show False using assms(4,5) by simp
  qed
  moreover have "(1 - t1) mod 65536 = 65537 - t1" if "2 \<le> t1"
    using that assms(2) mod_add_self1 [of 65536 "1 - t1"] by simp
  ultimately have v: "(1 - t1) AND 0xffff = 65537 - t1" using assms(1) unfolding mask16 by simp
  obtain k where k: "t1 * z + 1 = 65537 * k" using assms(3) by (metis dvdE dvd_eq_mod_eq_0)
  have "(65537 - t1) * z = 1 + 65537 * (z - k)" using k by (simp add: algebra_simps)
  then have "((65537 - t1) * z) mod 65537 = 1 mod 65537" by (simp only: mod_mult_self2)
  then show ?thesis unfolding v by simp
qed

lemma mod_one: "65537 dvd a - 1 \<Longrightarrow> a mod (65537 :: int) = 1"
  using mod_eq_dvd_iff [of a 65537 1] by simp

lemma inv_loop_inverse:
  "inv_inv z x y t0 t1 \<Longrightarrow> 0 < z \<Longrightarrow> z < 65536 \<Longrightarrow>
   \<exists>v. inv_loop x y t0 t1 = Inr v \<and> 0 \<le> v \<and> v \<le> 65537 \<and> (v * z) mod 65537 = 1"
proof (induction x y t0 t1 rule: inv_loop.induct)
  case (1 x y t0 t1)
  have i: "1 < y" "y < x" "1 \<le> t0" "1 \<le> t1" "gcd x y = 1" "x * t1 + y * t0 = 65537"
      "65537 dvd t0 * z - x" "65537 dvd t1 * z + y"
    using 1(2) by (simp_all add: inv_inv_def dvd_eq_mod_eq_0)
  define q where "q = x div y"
  define x' where "x' = x mod y"
  have xq: "x' = x - q * y" unfolding q_def x'_def by (simp add: minus_div_mult_eq_mod)
  have q1: "1 \<le> q" unfolding q_def using i(1,2) by (simp add: pos_imp_zdiv_pos_iff int_one_le_iff_zero_less)
  have "gcd y x' = 1" using i(5) unfolding x'_def by (metis gcd.commute gcd_red_int)
  then have x'0: "x' \<noteq> 0" using i(1) by auto
  have x'y: "0 < x'" "x' < y" using x'0 i(1) pos_mod_sign [of y x] pos_mod_bound [of y x] unfolding x'_def by linarith+
  let ?t0 = "t0 + q * t1"
  have cross: "x' * t1 + y * ?t0 = 65537" using i(6) unfolding xq by (simp add: algebra_simps)
  have t0': "1 \<le> ?t0" "q * t1 \<le> ?t0" "0 \<le> q * t1"
    using i(3,4) mult_nonneg_nonneg [of q t1] q1 by linarith+
  have t0b: "?t0 \<le> 65537"
  proof -
    have "?t0 \<le> y * ?t0" using i(1) t0'(1) by simp
    moreover have "0 \<le> x' * t1" using x'y i(4) by simp
    ultimately show ?thesis using cross by linarith
  qed
  have c: "cint (q * t1) = Inr (q * t1)" "cint ?t0 = Inr ?t0"
    using t0' t0b by (simp_all add: in_int_iff)
  have d0: "65537 dvd ?t0 * z - x'" unfolding xq by (rule dvd_diff_comb [OF i(7,8)])
  show ?case
  proof (cases "x' = 1")
    case True
    then have "inv_loop x y t0 t1 = Inr ?t0"
      using i(1,2) c by (subst inv_loop.simps) (simp add: Let_def q_def [symmetric] x'_def [symmetric])
    moreover have "(?t0 * z) mod 65537 = 1"
      by (rule mod_one) (use d0 True in simp)
    ultimately show ?thesis using t0' t0b by auto
  next
    case False
    define q' where "q' = y div x'"
    define y' where "y' = y mod x'"
    have yq: "y' = y - q' * x'" unfolding q'_def y'_def by (simp add: minus_div_mult_eq_mod)
    have q'1: "1 \<le> q'" unfolding q'_def using x'y by (simp add: pos_imp_zdiv_pos_iff int_one_le_iff_zero_less)
    have gx: "gcd x' y' = 1" using \<open>gcd y x' = 1\<close> unfolding y'_def by (metis gcd.commute gcd_red_int)
    then have "y' \<noteq> 0" using x'y False by auto
    then have y'x: "0 < y'" "y' < x'" using x'y(1) pos_mod_sign [of x' y] pos_mod_bound [of x' y] unfolding y'_def by linarith+
    let ?t1 = "t1 + q' * ?t0"
    have cross': "x' * ?t1 + y' * ?t0 = 65537" using cross unfolding yq by (simp add: algebra_simps)
    have t1': "1 \<le> ?t1" "q' * ?t0 \<le> ?t1" "0 \<le> q' * ?t0"
      using i(4) t0'(1) mult_nonneg_nonneg [of q' ?t0] q'1 by linarith+
    have t1b: "?t1 \<le> 65537"
    proof -
      have "?t1 \<le> x' * ?t1" using x'y(1) t1'(1) by simp
      moreover have "0 \<le> y' * ?t0" using y'x t0' by simp
      ultimately show ?thesis using cross' by linarith
    qed
    have c': "cint (q' * ?t0) = Inr (q' * ?t0)" "cint ?t1 = Inr ?t1"
      using t1' t1b by (simp_all add: in_int_iff)
    have d1: "65537 dvd ?t1 * z + y'" unfolding yq by (rule dvd_sum_comb [OF d0 i(8)])
    have step: "inv_loop x y t0 t1 = (if y' \<noteq> 1 then inv_loop x' y' ?t0 ?t1
        else bindr (cint (1 - ?t1)) (\<lambda>d. Inr (d AND 0xffff)))"
      using i(1,2) c c' False x'0
      by (subst inv_loop.simps)
        (simp add: Let_def q_def [symmetric] x'_def [symmetric] q'_def [symmetric] y'_def [symmetric])
    show ?thesis
    proof (cases "y' = 1")
      case True
      have "cint (1 - ?t1) = Inr (1 - ?t1)" using t1' t1b by (simp add: in_int_iff)
      moreover have "(((1 - ?t1) AND 0xffff) * z) mod 65537 = 1"
        by (rule final_negative) (use t1' t1b d1 True 1(3,4) in \<open>auto simp: dvd_eq_mod_eq_0\<close>)
      moreover have "0 \<le> (1 - ?t1) AND 0xffff" "(1 - ?t1) AND 0xffff \<le> 65537"
        unfolding mask16 using pos_mod_bound [of 65536 "1 - ?t1"] by simp_all
      ultimately show ?thesis using step True by simp
    next
      case ne: False
      have inv': "inv_inv z x' y' ?t0 ?t1"
        using y'x ne t0' t1' gx cross' d0 d1 by (simp add: inv_inv_def dvd_eq_mod_eq_0)
      have "\<exists>v. inv_loop x' y' ?t0 ?t1 = Inr v \<and> 0 \<le> v \<and> v \<le> 65537 \<and> (v * z) mod 65537 = 1"
        by (rule 1(1) [OF _ q_def x'_def c False x'0 q'_def y'_def c' ne inv' 1(3,4)]) (use i in auto)
      then show ?thesis using step ne by simp
    qed
  qed
qed

end
