(* ===== verification/Idea_Round_Trip.thy ===== *)
theory Idea_Round_Trip
  imports Idea_Cipher
begin

unbundle bit_operations_syntax

text \<open>
  Decryption undoes encryption, block by block. A round is the composition of a key layer
  (two products modulo 65537 and two sums modulo 65536) and a mixing layer that is its own
  inverse up to a swap of the middle words. The code keeps only the low 16 bits of a product,
  so the product 65536 becomes 0 and cannot be undone; \<open>mul_ok\<close> says when a product can.
\<close>

lemma inv_correct:
  assumes "0 < z" "z < 65536"
  shows "\<exists>v. inv_mod z = Inr v \<and> 0 \<le> v \<and> v \<le> 65537 \<and> (v * z) mod 65537 = 1"
proof (cases "z = 1")
  case True
  then show ?thesis by (simp add: inv_mod_def)
next
  case False
  then have z: "1 < z" using assms(1) by simp
  let ?t1 = "65537 div z" and ?y = "65537 mod z"
  have g: "gcd z ?y = 1" using coprime_65537 [of z] assms by (simp add: gcd_red_int [symmetric] gcd.commute)
  then have y0: "?y \<noteq> 0" using z by auto
  have y: "0 < ?y" "?y < z" using z y0 pos_mod_sign [of z 65537] pos_mod_bound [of z 65537] by linarith+
  have t1: "1 \<le> ?t1" using zdiv_mono1 [of z 65537 z] assms z by simp
  have t1': "?t1 \<le> 65537" using zdiv_mono2 [of 65537 1 z] z by simp
  have sum: "?t1 * z + ?y = 65537" by simp
  show ?thesis
  proof (cases "?y = 1")
    case True
    have "(((1 - ?t1) AND 0xffff) * z) mod 65537 = 1"
      by (rule final_negative) (use t1 t1' sum True assms in simp_all)
    moreover have "0 \<le> (1 - ?t1) AND 0xffff" "(1 - ?t1) AND 0xffff \<le> 65537"
      unfolding mask16 using pos_mod_bound [of 65536 "1 - ?t1"] by simp_all
    ultimately show ?thesis using z True by (simp add: inv_mod_def)
  next
    case False
    have "inv_inv z z ?y 1 ?t1"
      using y False t1 g sum by (simp add: inv_inv_def mult.commute)
    from inv_loop_inverse [OF this assms] show ?thesis
      using z False by (simp add: inv_mod_def)
  qed
qed

text \<open>The value of \<open>inv_mod\<close> where it has one.\<close>

definition ninv :: "int \<Rightarrow> int" where
  "ninv z = (case inv_mod z of Inr v \<Rightarrow> v | Inl e \<Rightarrow> 0)"

lemma inv_ninv: "0 \<le> z \<Longrightarrow> z < 65536 \<Longrightarrow> inv_mod z = Inr (ninv z) \<and> 0 \<le> ninv z"
  using inv_correct [of z] by (cases "z = 0") (auto simp: ninv_def inv_mod_def)

lemma ninv_mult: "0 < z \<Longrightarrow> z < 65536 \<Longrightarrow> (ninv z * z) mod 65537 = 1"
  using inv_correct [of z] by (auto simp: ninv_def)

section \<open>Products and sums of words\<close>

definition word16 :: "int \<Rightarrow> bool" where
  "word16 x \<longleftrightarrow> 0 \<le> x \<and> x < 65536"

lemma word16_mask [simp]: "word16 (a AND 0xffff)"
  unfolding word16_def mask16 by simp

lemma word16_mul [simp]: "word16 (mul16 x k)"
  by (simp add: mul16_def)

lemma word16_add [simp]: "word16 (add16 x k)"
  by (simp add: add16_def)

lemma word16_take: "word16 x \<longleftrightarrow> take_bit 16 x = x"
  by (simp add: word16_def take_bit_int_eq_self_iff)

lemma word16_xor [simp]: "word16 x \<Longrightarrow> word16 y \<Longrightarrow> word16 (x XOR y)"
  by (simp add: word16_take)

definition mul_ok :: "int \<Rightarrow> int \<Rightarrow> bool" where
  "mul_ok x k \<longleftrightarrow> (k \<noteq> 0 \<or> x = 0) \<and> (x * k) mod 65537 \<noteq> 65536"

lemma mul16_nonneg: "0 \<le> x \<Longrightarrow> 0 \<le> k \<Longrightarrow> mul16 x k = (x * k) mod 65537 mod 65536"
proof -
  assume "0 \<le> x" "0 \<le> k"
  then have "0 \<le> x * k" by simp
  then have "crem (x * k) 0x10001 = (x * k) mod 65537" by (auto simp: crem_def sgn_if)
  then show ?thesis unfolding mul16_def mask16 by simp
qed

lemma mul16_inverse:
  assumes x: "word16 x" and k: "word16 k" and ok: "mul_ok x k"
  shows "mul16 (mul16 x k) (ninv k) = x"
proof (cases "k = 0")
  case True
  then have "x = 0" using ok by (simp add: mul_ok_def)
  then show ?thesis using inv_ninv [of 0] by (simp add: mul16_nonneg True)
next
  case False
  have r: "0 \<le> x" "x < 65536" "0 < k" "k < 65536" using x k False by (simp_all add: word16_def)
  let ?m = "(x * k) mod 65537"
  have "?m \<noteq> 65536" "?m < 65537" using ok by (simp_all add: mul_ok_def)
  then have "?m < 65536" by linarith
  moreover have m0: "0 \<le> ?m" by simp
  ultimately have m: "mul16 x k = ?m" using r by (simp add: mul16_nonneg)
  have "0 \<le> ninv k" using inv_ninv [of k] r by simp
  then have "mul16 ?m (ninv k) = (?m * ninv k) mod 65537 mod 65536" by (rule mul16_nonneg [OF m0])
  also have "(?m * ninv k) mod 65537 = (x * ((ninv k * k) mod 65537)) mod 65537"
    by (simp only: mod_mult_left_eq mod_mult_right_eq ac_simps)
  also have "\<dots> = x" using r by (simp add: ninv_mult)
  finally show ?thesis using m r by simp
qed

lemma add16_inverse:
  assumes "word16 x"
  shows "add16 (add16 x k) (neg16 k) = x"
proof -
  have "((x + k) mod 65536 + (- k) mod 65536) mod 65536 = x mod 65536"
    by (simp add: mod_add_eq)
  then show ?thesis using assms unfolding add16_def neg16_def mask16 by (simp add: word16_def)
qed

section \<open>The two layers of a round\<close>

definition swap_mid :: "block \<Rightarrow> block" where
  "swap_mid b = (let (x1, x2, x3, x4) = b in (x1, x3, x2, x4))"

definition key_layer :: "int \<Rightarrow> int \<Rightarrow> int \<Rightarrow> int \<Rightarrow> block \<Rightarrow> block" where
  "key_layer k0 k1 k2 k3 b =
     (let (x1, x2, x3, x4) = b in (mul16 x1 k0, add16 x2 k1, add16 x3 k2, mul16 x4 k3))"

definition mix_layer :: "int \<Rightarrow> int \<Rightarrow> block \<Rightarrow> block" where
  "mix_layer k4 k5 b =
     (let (x1, x2, x3, x4) = b; s = mul16 (x1 XOR x3) k4;
          t1 = mul16 ((s + (x2 XOR x4)) AND 0xffff) k5; t2 = (t1 + s) AND 0xffff in
      (x1 XOR t1, x3 XOR t1, t2 XOR x2, x4 XOR t2))"

lemma idea_round_layers: "idea_round k0 k1 k2 k3 k4 k5 b = mix_layer k4 k5 (key_layer k0 k1 k2 k3 b)"
  by (cases b) (simp add: idea_round_def mix_layer_def key_layer_def Let_def)

definition block16 :: "block \<Rightarrow> bool" where
  "block16 b = (let (x1, x2, x3, x4) = b in word16 x1 \<and> word16 x2 \<and> word16 x3 \<and> word16 x4)"

lemma swap_mid_swap [simp]: "swap_mid (swap_mid b) = b"
  by (cases b) (simp add: swap_mid_def)

lemma key_layer_word16 [simp]: "block16 (key_layer k0 k1 k2 k3 b)"
  by (cases b) (simp add: key_layer_def block16_def)

lemma mix_layer_word16: "block16 b \<Longrightarrow> block16 (mix_layer k4 k5 b)"
  by (cases b) (simp add: mix_layer_def block16_def Let_def)

lemma xor_cancel: "(a XOR t) XOR (c XOR t) = a XOR (c :: int)" "(a XOR t) XOR t = a"
  by (simp_all add: bit_eq_iff bit_simps) blast+

lemma xor_turn: "(t XOR x2) XOR (x4 XOR t) = x2 XOR (x4 :: int)" "t XOR (t XOR x2) = x2"
  by (simp_all add: bit_eq_iff bit_simps) blast+

text \<open>The two values that are mixed in depend on the words only through two exclusive ors.\<close>

definition mix_values :: "int \<Rightarrow> int \<Rightarrow> int \<Rightarrow> int \<Rightarrow> int \<times> int" where
  "mix_values k4 k5 u v =
     (let s = mul16 u k4; t1 = mul16 ((s + v) AND 0xffff) k5 in (t1, (t1 + s) AND 0xffff))"

lemma mix_layer_values:
  "mix_layer k4 k5 (x1, x2, x3, x4) =
     (let (t1, t2) = mix_values k4 k5 (x1 XOR x3) (x2 XOR x4) in
      (x1 XOR t1, x3 XOR t1, t2 XOR x2, x4 XOR t2))"
  by (simp add: mix_layer_def mix_values_def Let_def)

lemma mix_layer_involution: "mix_layer k4 k5 (swap_mid (mix_layer k4 k5 b)) = swap_mid b"
proof -
  obtain x1 x2 x3 x4 where b: "b = (x1, x2, x3, x4)" by (cases b) auto
  obtain t1 t2 where t: "mix_values k4 k5 (x1 XOR x3) (x2 XOR x4) = (t1, t2)" by fastforce
  show ?thesis
    unfolding b mix_layer_values swap_mid_def t Let_def prod.case
    by (simp add: mix_layer_values xor_cancel xor_turn t)
qed

definition layer_ok :: "int \<Rightarrow> int \<Rightarrow> block \<Rightarrow> bool" where
  "layer_ok k0 k3 b = (let (x1, x2, x3, x4) = b in mul_ok x1 k0 \<and> mul_ok x4 k3)"

lemma key_layer_inverse:
  assumes "block16 b" "word16 k0" "word16 k3" "layer_ok k0 k3 b"
  shows "key_layer (ninv k0) (neg16 k1) (neg16 k2) (ninv k3) (key_layer k0 k1 k2 k3 b) = b"
    "key_layer (ninv k0) (neg16 k2) (neg16 k1) (ninv k3) (swap_mid (key_layer k0 k1 k2 k3 b)) = swap_mid b"
  using assms by (cases b; simp add: key_layer_def swap_mid_def block16_def layer_ok_def mul16_inverse add16_inverse)+

section \<open>The rounds over a key array\<close>

definition round6 :: "int list \<Rightarrow> block \<Rightarrow> block" where
  "round6 s b = idea_round (s ! 0) (s ! 1) (s ! 2) (s ! 3) (s ! 4) (s ! 5) b"

lemma idea_rounds_segments:
  "\<forall>s \<in> set sixes. length s = 6 \<Longrightarrow>
   idea_rounds (pre @ concat sixes @ post) (length pre) (length sixes) b = Inr (foldl (\<lambda>b s. round6 s b) b sixes)"
proof (induction sixes arbitrary: pre b)
  case (Cons s sixes)
  have len: "length s = 6" using Cons.prems by simp
  let ?key = "pre @ concat (s # sixes) @ post"
  have g: "vget ?key (int (length pre) + int j) = Inr (s ! j)" if "j < 6" for j
  proof -
    have "vget ?key (int (length pre + j)) = Inr (?key ! (length pre + j))" using that len by (intro vget_int) simp
    then show ?thesis using that len by (simp add: nth_append)
  qed
  have "idea_rounds ?key (length pre) (Suc (length sixes)) b
      = idea_rounds ?key (length pre + 6) (length sixes) (round6 s b)"
    using g [of 0] g [of 1] g [of 2] g [of 3] g [of 4] g [of 5] by (simp add: round6_def)
  also have "\<dots> = Inr (foldl (\<lambda>b s. round6 s b) (round6 s b) sixes)"
    using Cons.IH [of "pre @ s" "round6 s b"] Cons.prems len by simp
  finally show ?case by simp
qed simp

text \<open>The keys of round \<open>r\<close>.\<close>

definition seg :: "int list \<Rightarrow> nat \<Rightarrow> int list" where
  "seg Z r = map (\<lambda>j. Z ! (6 * r + j)) [0, 1, 2, 3, 4, 5]"

lemma key_index_split: "[0..<52] = concat (map (\<lambda>r. map (\<lambda>j. 6 * r + j) [0, 1, 2, 3, 4, 5]) [0..<8]) @ [48, 49, 50, 51 :: nat]"
  by code_simp

lemma key_split:
  assumes "length Z = 52"
  shows "Z = concat (map (seg Z) [0..<8]) @ [Z ! 48, Z ! 49, Z ! 50, Z ! 51]"
proof -
  have "Z = map ((!) Z) [0..<52]" using map_nth [of Z] assms by simp
  also have "\<dots> = concat (map (seg Z) [0..<8]) @ [Z ! 48, Z ! 49, Z ! 50, Z ! 51]"
    unfolding key_index_split by (simp add: map_concat comp_def seg_def [abs_def] del: upt_Suc)
  finally show ?thesis .
qed

definition enc_state :: "int list \<Rightarrow> block \<Rightarrow> nat \<Rightarrow> block" where
  "enc_state Z b r = foldl (\<lambda>b i. round6 (seg Z i) b) b [0..<r]"

lemma enc_state_simps [simp]:
  "enc_state Z b 0 = b" "enc_state Z b (Suc r) = round6 (seg Z r) (enc_state Z b r)"
  by (simp_all add: enc_state_def)

lemma output_value:
  assumes "length pre = 48"
  shows "idea_output (pre @ [a0, a1, a2, a3]) 48 b = Inr (key_layer a0 a1 a2 a3 (swap_mid b))"
proof -
  have g: "vget (pre @ [a0, a1, a2, a3]) (48 + int j) = Inr ([a0, a1, a2, a3] ! j)" if "j < 4" for j
  proof -
    have "vget (pre @ [a0, a1, a2, a3]) (int (48 + j)) = Inr ((pre @ [a0, a1, a2, a3]) ! (48 + j))"
      using that assms by (intro vget_int) simp
    then show ?thesis using assms by (simp add: nth_append)
  qed
  show ?thesis
    using g [of 0] g [of 1] g [of 2] g [of 3]
    by (cases b) (simp add: idea_output_def key_layer_def swap_mid_def Let_def numeral_2_eq_2 numeral_3_eq_3)
qed

lemma crypt_block_segments:
  assumes "length sixes = 8" "\<forall>s \<in> set sixes. length s = 6"
  shows "crypt_block (concat sixes @ [a0, a1, a2, a3]) b
    = Inr (key_layer a0 a1 a2 a3 (swap_mid (foldl (\<lambda>b s. round6 s b) b sixes)))"
proof -
  have len: "length (concat sixes) = 48"
    using assms by (simp add: length_concat map_idI cong: map_cong) (simp add: map_replicate_const sum_list_replicate)
  show ?thesis
    using idea_rounds_segments [OF assms(2), of "[]" "[a0, a1, a2, a3]" b] assms(1)
    by (simp add: crypt_block_def CHUNK_SIZE_def output_value [OF len])
qed

lemma crypt_block_enc:
  assumes "length Z = 52"
  shows "crypt_block Z b = Inr (key_layer (Z ! 48) (Z ! 49) (Z ! 50) (Z ! 51) (swap_mid (enc_state Z b 8)))"
proof -
  have "crypt_block (concat (map (seg Z) [0..<8]) @ [Z ! 48, Z ! 49, Z ! 50, Z ! 51]) b
      = Inr (key_layer (Z ! 48) (Z ! 49) (Z ! 50) (Z ! 51) (swap_mid (foldl (\<lambda>b s. round6 s b) b (map (seg Z) [0..<8]))))"
    by (rule crypt_block_segments) (simp_all add: seg_def del: upt_Suc)
  moreover have "foldl (\<lambda>b s. round6 s b) b (map (seg Z) [0..<8]) = enc_state Z b 8"
    unfolding enc_state_def by (simp add: foldl_map del: upt_Suc)
  ultimately show ?thesis using key_split [OF assms] by metis
qed

section \<open>The decryption key\<close>

definition dsix :: "int list \<Rightarrow> nat \<Rightarrow> int list" where
  "dsix Z i = [ninv (Z ! (6 * i + 6)), neg16 (Z ! (6 * i + 8)), neg16 (Z ! (6 * i + 7)), ninv (Z ! (6 * i + 9)),
     Z ! (6 * i + 4), Z ! (6 * i + 5)]"

definition dlast :: "int list \<Rightarrow> int list" where
  "dlast Z = [ninv (Z ! 48), neg16 (Z ! 49), neg16 (Z ! 50), ninv (Z ! 51), Z ! 46, Z ! 47]"

definition decrypt_key :: "int list \<Rightarrow> int list" where
  "decrypt_key Z = concat (dlast Z # rev (map (dsix Z) [0..<7]))
     @ [ninv (Z ! 0), neg16 (Z ! 1), neg16 (Z ! 2), ninv (Z ! 3)]"

definition key16 :: "int list \<Rightarrow> bool" where
  "key16 Z \<longleftrightarrow> length Z = 52 \<and> (\<forall>i < 52. word16 (Z ! i))"

lemma key16_inv: "key16 Z \<Longrightarrow> i < 52 \<Longrightarrow> inv_mod (Z ! i) = Inr (ninv (Z ! i))"
  using inv_ninv by (simp add: key16_def word16_def)

lemma key16_get: "key16 Z \<Longrightarrow> i < 52 \<Longrightarrow> vget Z (int i) = Inr (Z ! i)"
  by (rule vget_int) (simp add: key16_def)

lemma decrypt_six_value:
  assumes Z: "key16 Z" and i: "i < 7"
  shows "decrypt_six Z (int (6 * i + 4)) = Inr (dsix Z i)"
proof -
  have g: "vget Z (int (6 * i + 4) + int j) = Inr (Z ! (6 * i + 4 + j))" if "j < 6" for j
    using key16_get [OF Z, of "6 * i + 4 + j"] i that by simp
  have v: "inv_mod (Z ! (6 * i + 4 + j)) = Inr (ninv (Z ! (6 * i + 4 + j)))" if "j < 6" for j
    using key16_inv [OF Z, of "6 * i + 4 + j"] i that by simp
  show ?thesis
    using g [of 0] g [of 1] g [of 2] g [of 3] g [of 4] g [of 5] v [of 2] v [of 5]
    by (simp add: decrypt_six_def dsix_def add.commute)
qed

lemma fill_sixes_value:
  assumes "key16 Z"
  shows "i + n \<le> 7 \<Longrightarrow> fill_sixes Z (int (6 * i + 4)) n key = Inr (concat (rev (map (dsix Z) [i..<i + n])) @ key)"
proof (induction n arbitrary: i key)
  case (Suc n)
  have u: "[i..<i + Suc n] = i # [Suc i..<Suc i + n]" by (simp add: upt_conv_Cons)
  have "fill_sixes Z (int (6 * i + 4)) (Suc n) key = fill_sixes Z (int (6 * i + 4) + 6) n (dsix Z i @ key)"
    using decrypt_six_value [OF assms, of i] Suc.prems by simp
  also have "int (6 * i + 4) + 6 = int (6 * Suc i + 4)" by simp
  also have "fill_sixes Z (int (6 * Suc i + 4)) n (dsix Z i @ key)
      = Inr (concat (rev (map (dsix Z) [Suc i..<Suc i + n])) @ dsix Z i @ key)"
    by (rule Suc.IH) (use Suc.prems in simp)
  finally show ?case unfolding u by simp
qed simp

lemma decrypt_last_value:
  assumes "key16 Z"
  shows "decrypt_last Z 46 = Inr (dlast Z)"
  using key16_get [OF assms, of 46] key16_get [OF assms, of 47] key16_get [OF assms, of 48]
    key16_get [OF assms, of 49] key16_get [OF assms, of 50] key16_get [OF assms, of 51]
    key16_inv [OF assms, of 48] key16_inv [OF assms, of 51]
  by (simp add: decrypt_last_def dlast_def)

lemma generateDecryptKey_value:
  assumes "generateEncryptKey userkey = Inr Z" "key16 Z"
  shows "generateDecryptKey userkey = Inr (decrypt_key Z)"
  using assms(1) key16_get [OF assms(2), of 0] key16_get [OF assms(2), of 1] key16_get [OF assms(2), of 2]
    key16_get [OF assms(2), of 3] key16_inv [OF assms(2), of 0] key16_inv [OF assms(2), of 3]
    fill_sixes_value [OF assms(2), of 0 7] decrypt_last_value [OF assms(2)]
  by (simp add: generateDecryptKey_def decrypt_key_def del: fill_sixes.simps upt_Suc)

section \<open>The encryption key\<close>

lemma extend_key_value:
  "\<forall>i \<in> set is. 8 \<le> i \<and> i < 52 \<Longrightarrow> key16 key \<Longrightarrow> \<exists>Z. extend_key is key = Inr Z \<and> key16 Z"
proof (induction "is" arbitrary: key)
  case (Cons i "is")
  have i: "8 \<le> i" "i < 52" using Cons.prems(1) by simp_all
  have g: "vget key (int i - int d) = Inr (key ! (i - d))" if "d \<le> i" for d
    using key16_get [OF Cons.prems(2), of "i - d"] that i by (simp add: of_nat_diff)
  have st: "vset key (int i) x = Inr (key[i := x])" for x
    by (rule vset_int) (use Cons.prems(2) i in \<open>simp add: key16_def\<close>)
  have k: "key16 (key[i := x AND 0xffff])" for x
    using Cons.prems(2) i by (simp add: key16_def nth_list_update)
  have j6: "14 \<le> i" if "i mod 8 = 6"
    using i that by presburger
  have j7: "15 \<le> i" if "\<not> i mod 8 < 6" "i mod 8 \<noteq> 6"
    using i that by presburger
  have "\<exists>x. extend_key (i # is) key = extend_key is (key[i := x AND 0xffff])"
    using g [of 7] g [of 6] g [of 14] g [of 15] i j6 j7 st by (auto simp: Let_def)
  then show ?case using Cons.IH k Cons.prems(1) by fastforce
qed simp

lemma generateEncryptKey_ok:
  assumes "length userkey = 8"
  shows "\<exists>Z. generateEncryptKey userkey = Inr Z \<and> key16 Z"
proof -
  let ?f = "\<lambda>i. sint (userkey ! i) AND 0xffff"
  have m: "mapr (\<lambda>i. bindr (vget userkey (int i)) (\<lambda>k. Inr (sint k AND 0xffff))) [0..<8] = Inr (map ?f [0..<8])"
    by (rule mapr_ok) (use assms in simp)
  have "key16 (map ?f [0..<8] @ replicate 44 0)"
    unfolding key16_def
  proof (intro conjI allI impI)
    fix i :: nat assume "i < 52"
    then show "word16 ((map ?f [0..<8] @ replicate 44 0) ! i)"
      by (cases "i < 8") (simp_all add: nth_append word16_def [of 0] del: upt_Suc)
  qed simp
  then obtain Z where "extend_key [8..<52] (map ?f [0..<8] @ replicate 44 0) = Inr Z" "key16 Z"
    using extend_key_value [of "[8..<52]", unfolded set_upt] by (meson atLeastLessThan_iff)
  moreover have nats: "nat CHUNK_SIZE = 8" "nat KEY_LENGTH = 52" "nat (KEY_LENGTH - CHUNK_SIZE) = 44"
    by (simp_all add: CHUNK_SIZE_def KEY_LENGTH_def)
  have "generateEncryptKey userkey = extend_key [8..<52] (map ?f [0..<8] @ replicate 44 0)"
    unfolding generateEncryptKey_def by (simp only: nats m bindr_simps)
  ultimately show ?thesis by metis
qed

section \<open>Decryption undoes encryption\<close>

definition seg_layer :: "int list \<Rightarrow> nat \<Rightarrow> block \<Rightarrow> block" where
  "seg_layer Z r b = key_layer (Z ! (6 * r)) (Z ! (6 * r + 1)) (Z ! (6 * r + 2)) (Z ! (6 * r + 3)) b"

definition clean_block :: "int list \<Rightarrow> block \<Rightarrow> bool" where
  "clean_block Z b \<longleftrightarrow> (\<forall>r < 8. layer_ok (Z ! (6 * r)) (Z ! (6 * r + 3)) (enc_state Z b r))
     \<and> layer_ok (Z ! 48) (Z ! 51) (swap_mid (enc_state Z b 8))"

lemma round6_seg: "round6 (seg Z r) b = mix_layer (Z ! (6 * r + 4)) (Z ! (6 * r + 5)) (seg_layer Z r b)"
  by (simp add: round6_def seg_def idea_round_layers seg_layer_def numeral_2_eq_2 numeral_3_eq_3)

lemma enc_state_word16: "block16 b \<Longrightarrow> block16 (enc_state Z b r)"
  by (induction r) (simp_all add: round6_seg seg_layer_def mix_layer_word16)

lemma clean_layer: "clean_block Z b \<Longrightarrow> r < 8 \<Longrightarrow> layer_ok (Z ! (6 * r)) (Z ! (6 * r + 3)) (enc_state Z b r)"
  by (simp add: clean_block_def)

lemma six_lengths [simp]: "length (dlast Z) = 6" "length (dsix Z i) = 6"
  by (simp_all add: dlast_def dsix_def)

lemma round6_dsix:
  assumes Z: "key16 Z" and b: "block16 b" and c: "clean_block Z b" and n: "n < 7"
  shows "round6 (dsix Z n) (swap_mid (seg_layer Z (Suc n) (enc_state Z b (Suc n)))) = swap_mid (seg_layer Z n (enc_state Z b n))"
proof -
  let ?E = "enc_state Z b (Suc n)"
  have k: "word16 (Z ! (6 * n + 6))" "word16 (Z ! (6 * n + 9))" using Z n by (simp_all add: key16_def)
  have idx: "6 * Suc n = 6 * n + 6" "6 * Suc n + 3 = 6 * n + 9" by simp_all
  have ok: "layer_ok (Z ! (6 * n + 6)) (Z ! (6 * n + 9)) ?E"
    using clean_layer [OF c, of "Suc n"] n unfolding idx by (simp add: add.commute del: enc_state_simps)
  have "seg_layer Z (Suc n) ?E = key_layer (Z ! (6 * n + 6)) (Z ! (6 * n + 7)) (Z ! (6 * n + 8)) (Z ! (6 * n + 9)) ?E"
    by (simp add: seg_layer_def add.commute)
  then have "key_layer (ninv (Z ! (6 * n + 6))) (neg16 (Z ! (6 * n + 8))) (neg16 (Z ! (6 * n + 7))) (ninv (Z ! (6 * n + 9)))
      (swap_mid (seg_layer Z (Suc n) ?E)) = swap_mid ?E"
    using key_layer_inverse(2) [OF enc_state_word16 [OF b] k ok] by simp
  then have "round6 (dsix Z n) (swap_mid (seg_layer Z (Suc n) ?E))
      = mix_layer (Z ! (6 * n + 4)) (Z ! (6 * n + 5)) (swap_mid ?E)"
    by (simp add: round6_def dsix_def idea_round_layers)
  also have "\<dots> = swap_mid (seg_layer Z n (enc_state Z b n))"
    unfolding enc_state_simps round6_seg by (rule mix_layer_involution)
  finally show ?thesis .
qed

lemma undo_rounds:
  assumes "key16 Z" "block16 b" "clean_block Z b"
  shows "n \<le> 7 \<Longrightarrow> foldl (\<lambda>b s. round6 s b) (swap_mid (seg_layer Z n (enc_state Z b n))) (rev (map (dsix Z) [0..<n]))
    = swap_mid (seg_layer Z 0 b)"
proof (induction n)
  case (Suc n)
  then show ?case using round6_dsix [OF assms, of n] by (simp del: enc_state_simps)
qed simp

lemma decrypt_block:
  assumes Z: "key16 Z" and b: "block16 b" and c: "clean_block Z b"
  shows "bindr (crypt_block Z b) (crypt_block (decrypt_key Z)) = Inr b"
proof -
  let ?E = "enc_state Z b 8"
  let ?out = "key_layer (Z ! 48) (Z ! 49) (Z ! 50) (Z ! 51) (swap_mid ?E)"
  have w: "word16 (Z ! i)" if "i < 52" for i using Z that by (simp add: key16_def)
  have sw: "block16 (swap_mid ?E)" using enc_state_word16 [OF b, of Z 8] by (cases ?E) (simp add: block16_def swap_mid_def)
  have e8: "?E = mix_layer (Z ! 46) (Z ! 47) (seg_layer Z 7 (enc_state Z b 7))"
    using enc_state_simps(2) [of Z b 7] round6_seg [of Z 7 "enc_state Z b 7"] by simp
  have "round6 (dlast Z) ?out = mix_layer (Z ! 46) (Z ! 47) (swap_mid ?E)"
    using key_layer_inverse(1) [OF sw w w, of 48 51 "Z ! 49" "Z ! 50"] c
    by (simp add: round6_def dlast_def idea_round_layers clean_block_def)
  also have "\<dots> = swap_mid (seg_layer Z 7 (enc_state Z b 7))" unfolding e8 by (rule mix_layer_involution)
  finally have first: "round6 (dlast Z) ?out = swap_mid (seg_layer Z 7 (enc_state Z b 7))" .
  have all: "foldl (\<lambda>b s. round6 s b) ?out (dlast Z # rev (map (dsix Z) [0..<7])) = swap_mid (seg_layer Z 0 b)"
    using undo_rounds [OF assms, of 7] by (simp add: first del: upt_Suc)
  have "crypt_block (decrypt_key Z) ?out
      = Inr (key_layer (ninv (Z ! 0)) (neg16 (Z ! 1)) (neg16 (Z ! 2)) (ninv (Z ! 3)) (seg_layer Z 0 b))"
    unfolding decrypt_key_def
    by (subst crypt_block_segments) (use all in \<open>auto simp del: foldl_Cons upt_Suc\<close>)
  also have "key_layer (ninv (Z ! 0)) (neg16 (Z ! 1)) (neg16 (Z ! 2)) (ninv (Z ! 3)) (seg_layer Z 0 b) = b"
    unfolding seg_layer_def using c key_layer_inverse(1) [OF b w w, of 0 3 "Z ! 1" "Z ! 2"]
    clean_layer [OF c, of 0] by (simp add: numeral_2_eq_2)
  finally show ?thesis using Z by (simp add: crypt_block_enc key16_def)
qed

end
