(* ===== verification/Idea_Text.thy ===== *)
theory Idea_Text
  imports Idea_Round_Trip
begin

unbundle bit_operations_syntax

text \<open>
  Whole texts in \<^verbatim>\<open>crypt.flexible.cu\<close>: the loop on the host, the kernel whose threads stride
  over the chunks, and the round trip of a text. A run of the kernel is an order of the chunks
  in which the threads get to them; threads write disjoint cells and read only the input, so
  the chunk is the step of the interleaving. The result of every order is that of the host.
\<close>

section \<open>Host and kernel\<close>

fun crypt_chunks :: "int list \<Rightarrow> 8 word list \<Rightarrow> 8 word list \<Rightarrow> int list \<Rightarrow> 8 word list result" where
  "crypt_chunks [] plain crypt key = Inr crypt"
| "crypt_chunks (c # cs) plain crypt key =
     bindr (doCrypt c plain crypt key) (\<lambda>crypt'. crypt_chunks cs plain crypt' key)"

definition h_encrypt_decrypt :: "8 word list \<Rightarrow> 8 word list \<Rightarrow> int list \<Rightarrow> int \<Rightarrow> 8 word list result" where
  "h_encrypt_decrypt plain crypt key plainLength =
     (let nChunks = plainLength div CHUNK_SIZE in crypt_chunks [0..nChunks - 1] plain crypt key)"

text \<open>The chunks of one thread, in the order of its loop.\<close>

function thread_chunks :: "int \<Rightarrow> int \<Rightarrow> int \<Rightarrow> int list" where
  "thread_chunks tid nthreads nChunks =
     (if 0 < nthreads \<and> tid < nChunks then tid # thread_chunks (tid + nthreads) nthreads nChunks else [])"
  by pat_completeness auto
termination by (relation "measure (\<lambda>(t, n, c). nat (c - t))") auto

declare thread_chunks.simps [simp del]

text \<open>
  A schedule of a launch with \<open>nthreads\<close> threads: some order of all steps of all threads.
\<close>

definition is_schedule :: "int \<Rightarrow> int \<Rightarrow> int list \<Rightarrow> bool" where
  "is_schedule nthreads nChunks order \<longleftrightarrow>
     set order = (\<Union>t \<in> {0..<nthreads}. set (thread_chunks t nthreads nChunks)) \<and> distinct order"

definition d_encrypt_decrypt :: "int list \<Rightarrow> 8 word list \<Rightarrow> 8 word list \<Rightarrow> int list \<Rightarrow> 8 word list result" where
  "d_encrypt_decrypt order plain crypt dkey = crypt_chunks order plain crypt dkey"

lemma thread_chunks_set:
  assumes "0 < n"
  shows "set (thread_chunks t n m) = {c. t \<le> c \<and> c < m \<and> n dvd c - t}"
  using assms
proof (induction t n m rule: thread_chunks.induct)
  case (1 t n m)
  show ?case
  proof (cases "0 < n \<and> t < m")
    case True
    have a: "c = t \<or> t + n \<le> c" if "t \<le> c" "n dvd c - t" for c
      using zdvd_imp_le [OF that(2)] that(1) by linarith
    have b: "n dvd c - (t + n) \<longleftrightarrow> n dvd c - t" for c
      using dvd_add_triv_right_iff [of n "c - (t + n)"] by simp
    have "(t \<le> c \<and> c < m \<and> n dvd c - t) \<longleftrightarrow> c = t \<or> (t + n \<le> c \<and> c < m \<and> n dvd c - (t + n))" for c
      using True a [of c] b [of c] by (cases "c = t") auto
    then have "{c. t \<le> c \<and> c < m \<and> n dvd c - t} = insert t {c. t + n \<le> c \<and> c < m \<and> n dvd c - (t + n)}"
      by blast
    moreover have "set (thread_chunks t n m) = insert t (set (thread_chunks (t + n) n m))"
      using True by (subst thread_chunks.simps) simp
    ultimately show ?thesis by (simp only: 1(1) [OF True 1(2)])
  next
    case False
    then show ?thesis using 1(2) by (subst thread_chunks.simps) (auto simp: not_less)
  qed
qed

text \<open>Together the threads reach every chunk.\<close>

lemma threads_reach:
  assumes "0 < n"
  shows "(\<Union>t \<in> {0..<n}. set (thread_chunks t n m)) = {0..<m}"
proof -
  have "\<exists>t. 0 \<le> t \<and> t < n \<and> t \<le> c \<and> n dvd c - t" if "0 \<le> c" for c
    using assms that zmod_le_nonneg_dividend [of c n]
    by (intro exI [of _ "c mod n"]) (auto simp: minus_mod_eq_mult_div)
  then show ?thesis using assms by (fastforce simp: thread_chunks_set)
qed

lemma schedule_set: "0 < n \<Longrightarrow> is_schedule n m order \<Longrightarrow> set order = {0..<m}"
  by (simp add: is_schedule_def threads_reach)

lemma schedule_in_order: "0 < n \<Longrightarrow> is_schedule n m [0..m - 1]"
  by (auto simp: is_schedule_def threads_reach)

section \<open>Chunks in the text\<close>

definition load_word :: "8 word list \<Rightarrow> nat \<Rightarrow> int" where
  "load_word plain i = (uint (plain ! i) AND 0xff) OR push_bit 8 (uint (plain ! (i + 1)) AND 0xff)"

definition load_block :: "8 word list \<Rightarrow> nat \<Rightarrow> block" where
  "load_block plain c =
     (load_word plain (8 * c), load_word plain (8 * c + 2), load_word plain (8 * c + 4), load_word plain (8 * c + 6))"

definition word_bytes :: "int \<Rightarrow> 8 word list" where
  "word_bytes x = [word_of_int x, word_of_int (drop_bit 8 x)]"

definition block_bytes :: "block \<Rightarrow> 8 word list" where
  "block_bytes b = (let (y1, y2, y3, y4) = b in word_bytes y1 @ word_bytes y2 @ word_bytes y3 @ word_bytes y4)"

lemma length_block_bytes [simp]: "length (block_bytes b) = 8"
  by (cases b) (simp add: block_bytes_def word_bytes_def)

lemma load_chunk_value:
  assumes "8 * c + 8 \<le> length plain"
  shows "load_chunk (int c) plain = Inr (load_block plain c)"
proof -
  have w: "word_at plain (int c * CHUNK_SIZE + int j) = Inr (load_word plain (8 * c + j))" if "j \<le> 6" for j
  proof -
    have "vget plain (int (8 * c + j)) = Inr (plain ! (8 * c + j))" "vget plain (int (8 * c + j + 1)) = Inr (plain ! (8 * c + j + 1))"
      using assms that by (intro vget_int; simp)+
    then show ?thesis by (simp add: word_at_def load_word_def CHUNK_SIZE_def BITS_PER_BYTE_def algebra_simps)
  qed
  show ?thesis using w [of 0] w [of 2] w [of 4] w [of 6] by (simp add: load_chunk_def load_block_def)
qed

text \<open>Eight bytes written from position \<open>8 * c\<close> on.\<close>

lemma store_chunk_value:
  assumes "8 * c + 8 \<le> length crypt"
  shows "\<exists>crypt'. store_chunk (int c) b crypt = Inr crypt' \<and> length crypt' = length crypt
    \<and> (\<forall>i < length crypt. crypt' ! i = (if i div 8 = c then block_bytes b ! (i mod 8) else crypt ! i))"
proof -
  obtain y1 y2 y3 y4 where b: "b = (y1, y2, y3, y4)" by (cases b) auto
  have p: "put_word (int c * CHUNK_SIZE + int j) y m = Inr (m[8 * c + j := word_of_int y, 8 * c + j + 1 := word_of_int (drop_bit 8 y)])"
    if "j \<le> 6" "length m = length crypt" for j y m
  proof -
    have "vset m (int (8 * c + j)) z = Inr (m[8 * c + j := z])" for z using assms that by (intro vset_int) simp
    moreover have "vset m' (int (8 * c + j + 1)) z = Inr (m'[8 * c + j + 1 := z])" if "length m' = length crypt" for m' :: "8 word list" and z
      using assms that \<open>j \<le> 6\<close> by (intro vset_int) simp
    ultimately show ?thesis using that(2) by (simp add: put_word_def CHUNK_SIZE_def BITS_PER_BYTE_def algebra_simps)
  qed
  let ?m = "crypt[8 * c := word_of_int y1, 8 * c + 1 := word_of_int (drop_bit 8 y1),
     8 * c + 2 := word_of_int y2, 8 * c + 3 := word_of_int (drop_bit 8 y2),
     8 * c + 4 := word_of_int y3, 8 * c + 5 := word_of_int (drop_bit 8 y3),
     8 * c + 6 := word_of_int y4, 8 * c + 7 := word_of_int (drop_bit 8 y4)]"
  have "store_chunk (int c) b crypt = Inr ?m"
    using p [of 0 crypt y1] p [of 2 _ y2] p [of 4 _ y3] p [of 6 _ y4]
    by (simp add: store_chunk_def b numeral_eq_Suc)
  moreover have "?m ! i = (if i div 8 = c then block_bytes b ! (i mod 8) else crypt ! i)" if "i < length crypt" for i
  proof (cases "i div 8 = c")
    case True
    then have i: "i = 8 * c + i mod 8" by (metis mult_div_mod_eq)
    have "i mod 8 < 8" by simp
    then consider "i mod 8 = 0" | "i mod 8 = 1" | "i mod 8 = 2" | "i mod 8 = 3" | "i mod 8 = 4" | "i mod 8 = 5"
      | "i mod 8 = 6" | "i mod 8 = 7" by linarith
    then show ?thesis using assms i True
      by cases (simp_all add: b block_bytes_def word_bytes_def nth_list_update)
  next
    case False
    then have "i \<noteq> 8 * c + j" if "j < 8" for j using that by auto
    then show ?thesis using False by (simp add: nth_list_update del: One_nat_def)
  qed
  ultimately show ?thesis by auto
qed

section \<open>The result of any order\<close>

definition crypted :: "int list \<Rightarrow> block \<Rightarrow> block" where
  "crypted key b = (case crypt_block key b of Inr b' \<Rightarrow> b' | Inl e \<Rightarrow> b)"

definition key_ok :: "int list \<Rightarrow> bool" where
  "key_ok key \<longleftrightarrow> (\<forall>b. crypt_block key b = Inr (crypted key b))"

lemma key_okD: "key_ok key \<Longrightarrow> crypt_block key b = Inr (crypted key b)"
  unfolding key_ok_def by blast

lemma key_ok_length: "length key = 52 \<Longrightarrow> key_ok key"
  by (simp add: key_ok_def crypted_def crypt_block_enc)

lemma crypt_chunks_value:
  assumes "key_ok key" "length crypt = length plain"
  shows "distinct order \<Longrightarrow> \<forall>c \<in> set order. 0 \<le> c \<and> 8 * c + 8 \<le> int (length plain) \<Longrightarrow>
    \<exists>crypt'. crypt_chunks order plain crypt key = Inr crypt' \<and> length crypt' = length plain
      \<and> (\<forall>i < length plain. crypt' ! i = (if int (i div 8) \<in> set order
            then block_bytes (crypted key (load_block plain (i div 8))) ! (i mod 8) else crypt ! i))"
  using assms(2)
proof (induction order arbitrary: crypt)
  case (Cons c order)
  define n where "n = nat c"
  have c: "c = int n" and le: "8 * n + 8 \<le> length plain" using Cons.prems(2) by (auto simp: n_def)
  obtain c1 where c1: "store_chunk c (crypted key (load_block plain n)) crypt = Inr c1" "length c1 = length plain"
      "\<forall>i < length plain. c1 ! i = (if i div 8 = n then block_bytes (crypted key (load_block plain n)) ! (i mod 8) else crypt ! i)"
    using store_chunk_value [of n crypt "crypted key (load_block plain n)"] le Cons.prems(3) unfolding c by auto
  have "doCrypt c plain crypt key = Inr c1"
    using key_okD [OF assms(1)] c1(1) load_chunk_value [OF le] by (simp add: doCrypt_def c)
  moreover obtain c2 where "crypt_chunks order plain c1 key = Inr c2" "length c2 = length plain"
      "\<forall>i < length plain. c2 ! i = (if int (i div 8) \<in> set order
            then block_bytes (crypted key (load_block plain (i div 8))) ! (i mod 8) else c1 ! i)"
    using Cons.IH [OF _ _ c1(2)] Cons.prems(1,2) by auto
  ultimately show ?case using c1(3) c by auto
qed auto

text \<open>The specification of a whole text.\<close>

definition crypt_text :: "int list \<Rightarrow> 8 word list \<Rightarrow> 8 word list" where
  "crypt_text key plain =
     map (\<lambda>i. block_bytes (crypted key (load_block plain (i div 8))) ! (i mod 8)) [0..<length plain]"

lemma crypt_chunks_text:
  assumes "key_ok key" "length crypt = length plain" "length plain = 8 * m" "distinct order" "set order = {0..<int m}"
  shows "crypt_chunks order plain crypt key = Inr (crypt_text key plain)"
proof -
  obtain c where c: "crypt_chunks order plain crypt key = Inr c" "length c = length plain"
      "\<forall>i < length plain. c ! i = (if int (i div 8) \<in> set order
            then block_bytes (crypted key (load_block plain (i div 8))) ! (i mod 8) else crypt ! i)"
    using crypt_chunks_value [OF assms(1,2,4)] assms(3,5) by auto
  have "int (i div 8) \<in> set order" if "i < length plain" for i
    using that assms(3,5) by auto
  then have "c = crypt_text key plain"
    using c(2,3) by (intro nth_equalityI) (simp_all add: crypt_text_def)
  then show ?thesis using c(1) by simp
qed

lemma host_text:
  assumes "key_ok key" "length crypt = length plain" "length plain = 8 * m"
  shows "h_encrypt_decrypt plain crypt key (int (length plain)) = Inr (crypt_text key plain)"
proof -
  have "set [0..int m - 1] = {0..<int m}" by auto
  then show ?thesis
    using crypt_chunks_text [OF assms, of "[0..int m - 1]"] assms(3)
    by (simp add: h_encrypt_decrypt_def CHUNK_SIZE_def)
qed

lemma kernel_text:
  assumes "key_ok key" "length crypt = length plain" "length plain = 8 * m" "0 < n" "is_schedule n (int m) order"
  shows "d_encrypt_decrypt order plain crypt key = Inr (crypt_text key plain)"
  using crypt_chunks_text [OF assms(1-3)] schedule_set [OF assms(4,5)] assms(5)
  by (simp add: d_encrypt_decrypt_def is_schedule_def)

section \<open>Round trip of a text\<close>

lemma word_bytes_load:
  assumes "word16 x"
  shows "(uint (word_of_int x :: 8 word) AND 0xff) OR push_bit 8 (uint (word_of_int (drop_bit 8 x) :: 8 word) AND 0xff) = x"
proof (rule bit_eqI)
  fix n
  have m: "bit (0xff :: int) k \<longleftrightarrow> k < 8" for k
    using bit_mask_iff [of 8 k, where ?'a = int] by (simp add: mask_eq_exp_minus_1)
  have "(65280 :: int) = push_bit 8 0xff" by (simp add: push_bit_eq_mult)
  then have m2: "bit (65280 :: int) k \<longleftrightarrow> 8 \<le> k \<and> k < 16" for k
    by (simp only: bit_push_bit_iff m) auto
  have x: "\<not> bit x n" if "\<not> n < 16"
    using assms that unfolding word16_take by (metis bit_take_bit_iff)
  show "bit ((uint (word_of_int x :: 8 word) AND 0xff) OR push_bit 8 (uint (word_of_int (drop_bit 8 x) :: 8 word) AND 0xff)) n
      \<longleftrightarrow> bit x n"
    using x by (cases "n < 16") (auto simp: bit_simps m m2)
qed

lemma load_block_word16: "block16 (load_block plain c)"
proof -
  have "word16 (load_word plain i)" for i
  proof -
    have "take_bit 16 (load_word plain i) = load_word plain i"
      unfolding load_word_def
      by (rule bit_eqI) (auto simp: bit_simps dest: bit_imp_le_length)
    then show ?thesis by (simp add: word16_take)
  qed
  then show ?thesis by (simp add: load_block_def block16_def)
qed

lemma length_crypt_text [simp]: "length (crypt_text key plain) = length plain"
  by (simp add: crypt_text_def)

lemma crypt_text_nth:
  "8 * c + 8 \<le> length plain \<Longrightarrow> j < 8 \<Longrightarrow>
   crypt_text key plain ! (8 * c + j) = block_bytes (crypted key (load_block plain c)) ! j"
  by (simp add: crypt_text_def)

lemma load_word_bytes:
  assumes "word16 y" "plain ! (i + j) = word_of_int y" "plain ! (i + (j + 1)) = word_of_int (drop_bit 8 y)"
  shows "load_word plain (i + j) = y"
  using word_bytes_load [OF assms(1)] assms(2,3) by (simp add: load_word_def add.assoc)

lemma load_block_bytes:
  assumes "block16 b" "\<And>j. j < 8 \<Longrightarrow> plain ! (8 * c + j) = block_bytes b ! j"
  shows "load_block plain c = b"
proof -
  obtain y1 y2 y3 y4 where b: "b = (y1, y2, y3, y4)" by (cases b) auto
  have w: "word16 y1" "word16 y2" "word16 y3" "word16 y4" using assms(1) by (simp_all add: b block16_def)
  have n: "block_bytes b ! 0 = word_of_int y1" "block_bytes b ! (0 + 1) = word_of_int (drop_bit 8 y1)"
      "block_bytes b ! 2 = word_of_int y2" "block_bytes b ! (2 + 1) = word_of_int (drop_bit 8 y2)"
      "block_bytes b ! 4 = word_of_int y3" "block_bytes b ! (4 + 1) = word_of_int (drop_bit 8 y3)"
      "block_bytes b ! 6 = word_of_int y4" "block_bytes b ! (6 + 1) = word_of_int (drop_bit 8 y4)"
    by (simp_all add: b block_bytes_def word_bytes_def)
  have "load_word plain (8 * c + 0) = y1"
    by (rule load_word_bytes [OF w(1)]) (subst assms(2), simp, rule n)+
  moreover have "load_word plain (8 * c + 2) = y2"
    by (rule load_word_bytes [OF w(2)]) (subst assms(2), simp, rule n)+
  moreover have "load_word plain (8 * c + 4) = y3"
    by (rule load_word_bytes [OF w(3)]) (subst assms(2), simp, rule n)+
  moreover have "load_word plain (8 * c + 6) = y4"
    by (rule load_word_bytes [OF w(4)]) (subst assms(2), simp, rule n)+
  ultimately show ?thesis by (simp add: b load_block_def)
qed

lemma word_bytes_load_word: "word_bytes (load_word plain i) = [plain ! i, plain ! (i + 1)]"
proof -
  have m: "bit (0xff :: int) k \<longleftrightarrow> k < 8" for k
    using bit_mask_iff [of 8 k, where ?'a = int] by (simp add: mask_eq_exp_minus_1)
  have "(65280 :: int) = push_bit 8 0xff" by (simp add: push_bit_eq_mult)
  then have m2: "bit (65280 :: int) k \<longleftrightarrow> 8 \<le> k \<and> k < 16" for k
    by (simp only: bit_push_bit_iff m) auto
  let ?h = "uint (plain ! (i + 1)) AND 0xff" and ?l = "uint (plain ! i) AND 0xff"
  have lo: "word_of_int (?l OR push_bit 8 ?h) = plain ! i"
    by (rule bit_word_eqI) (auto simp: bit_simps m m2)
  have "word_of_int (drop_bit 8 (?l OR push_bit 8 ?h)) = plain ! (i + 1)"
    by (rule bit_word_eqI) (auto simp: bit_simps m m2)
  then show ?thesis using lo by (simp add: word_bytes_def load_word_def)
qed

lemma word_bytes_nth: "word_bytes (load_word plain (i + j)) = [plain ! (i + j), plain ! (i + (j + 1))]"
  by (simp add: word_bytes_load_word add.assoc)

lemma block_bytes_load: "j < 8 \<Longrightarrow> block_bytes (load_block plain c) ! j = plain ! (8 * c + j)"
proof -
  assume "j < 8"
  have "block_bytes (load_block plain c) =
     [plain ! (8 * c + 0), plain ! (8 * c + (0 + 1)), plain ! (8 * c + 2), plain ! (8 * c + (2 + 1)),
      plain ! (8 * c + 4), plain ! (8 * c + (4 + 1)), plain ! (8 * c + 6), plain ! (8 * c + (6 + 1))]"
    unfolding block_bytes_def load_block_def Let_def prod.case word_bytes_nth
      word_bytes_nth [of plain "8 * c" 0, unfolded add_0_right]
    by (simp only: append_Cons append_Nil add_0_right)
  moreover have "0 + 1 = (1 :: nat)" "2 + 1 = (3 :: nat)" "4 + 1 = (5 :: nat)" "6 + 1 = (7 :: nat)" by simp_all
  ultimately have "block_bytes (load_block plain c) = map (\<lambda>j. plain ! (8 * c + j)) [0, 1, 2, 3, 4, 5, 6, 7]"
    by (simp only: list.map)
  moreover have "[0, 1, 2, 3, 4, 5, 6, 7] ! j = j"
    using \<open>j < 8\<close> by (auto simp: nth_Cons split: nat.splits)
  moreover have "j < length [0 :: nat, 1, 2, 3, 4, 5, 6, 7]" using \<open>j < 8\<close> by simp
  ultimately show ?thesis by (simp only: nth_map)
qed

definition clean_text :: "int list \<Rightarrow> 8 word list \<Rightarrow> bool" where
  "clean_text Z plain \<longleftrightarrow> (\<forall>c < length plain div 8. clean_block Z (load_block plain c))"

lemma crypted_word16: "length Z = 52 \<Longrightarrow> block16 (crypted Z b)"
  by (simp add: crypted_def crypt_block_enc)

lemma decrypt_chunk:
  assumes Z: "key16 Z" and m: "length plain = 8 * m" and i: "i < length plain"
    and c: "clean_block Z (load_block plain (i div 8))"
  shows "crypt_text (decrypt_key Z) (crypt_text Z plain) ! i = plain ! i"
proof -
  define n where "n = i div 8"
  have n1: "n < m" using i m by (simp add: n_def less_mult_imp_div_less mult.commute)
  then have n: "8 * n + 8 \<le> length plain" unfolding m by linarith
  have ij: "i = 8 * n + i mod 8" "i mod 8 < 8" by (simp_all add: n_def)
  have len: "length Z = 52" using Z by (simp add: key16_def)
  have load: "load_block (crypt_text Z plain) n = crypted Z (load_block plain n)"
    by (rule load_block_bytes [OF crypted_word16 [OF len]]) (rule crypt_text_nth [OF n])
  have "clean_block Z (load_block plain n)" using c by (simp only: n_def)
  from decrypt_block [OF Z load_block_word16 this]
  have "crypt_block (decrypt_key Z) (crypted Z (load_block plain n)) = Inr (load_block plain n)"
    by (simp only: key_okD [OF key_ok_length [OF len]] bindr_simps)
  then have "crypted (decrypt_key Z) (crypted Z (load_block plain n)) = load_block plain n"
    by (simp add: crypted_def [of "decrypt_key Z"])
  then have "crypt_text (decrypt_key Z) (crypt_text Z plain) ! (8 * n + i mod 8)
      = block_bytes (load_block plain n) ! (i mod 8)"
    using crypt_text_nth [of n "crypt_text Z plain" "i mod 8"] n ij(2) load by simp
  then show "crypt_text (decrypt_key Z) (crypt_text Z plain) ! i = plain ! i"
    using block_bytes_load [OF ij(2)] ij(1) by metis
qed

lemma decrypt_text:
  assumes "key16 Z" "length plain = 8 * m" "clean_text Z plain"
  shows "crypt_text (decrypt_key Z) (crypt_text Z plain) = plain"
proof (rule nth_equalityI)
  fix i assume "i < length (crypt_text (decrypt_key Z) (crypt_text Z plain))"
  then have i: "i < length plain" by simp
  then have "i div 8 < length plain div 8" using assms(2) by (simp add: less_mult_imp_div_less mult.commute)
  then have "clean_block Z (load_block plain (i div 8))" using assms(3) unfolding clean_text_def by blast
  from decrypt_chunk [OF assms(1,2) i this] show "crypt_text (decrypt_key Z) (crypt_text Z plain) ! i = plain ! i" .
qed simp

lemma decrypt_key_length: "length (decrypt_key Z) = 52"
  by (simp add: decrypt_key_def upt_rec)

text \<open>The words of both keys fit in 16 bits.\<close>

lemma ninv_word16: "word16 z \<Longrightarrow> word16 (ninv z)"
proof (cases "z = 0")
  case True
  then show ?thesis by (simp add: ninv_def inv_mod_def word16_def)
next
  case False
  assume "word16 z"
  then have z: "0 < z" "z < 65536" using False by (simp_all add: word16_def)
  obtain v where v: "inv_mod z = Inr v" "0 \<le> v" "v \<le> 65537" "(v * z) mod 65537 = 1"
    using inv_correct [OF z] by blast
  have "v \<noteq> 65537" using v(4) by auto
  moreover have "v \<noteq> 65536"
  proof
    assume "v = 65536"
    then have "(- z + 65537 * z) mod 65537 = 1" using v(4) by simp
    then have "(- z) mod 65537 = 1" by (simp only: mod_mult_self2)
    then show False using z by (simp add: zmod_zminus1_eq_if)
  qed
  ultimately show ?thesis using v by (simp add: ninv_def word16_def)
qed

lemma neg16_word16: "word16 (neg16 z)"
  by (simp add: neg16_def mask16 word16_def)

lemma decrypt_key_word16: "key16 Z \<Longrightarrow> key16 (decrypt_key Z)"
proof -
  assume Z: "key16 Z"
  then have w: "word16 (Z ! i)" if "i < 52" for i using that by (simp add: key16_def)
  have "\<forall>x \<in> set (dsix Z i). word16 x" if "i < 7" for i
    using that by (simp add: dsix_def neg16_word16 ninv_word16 w)
  moreover have "\<forall>x \<in> set (dlast Z). word16 x" by (simp add: dlast_def neg16_word16 ninv_word16 w)
  ultimately have "\<forall>x \<in> set (decrypt_key Z). word16 x"
    by (auto simp: decrypt_key_def neg16_word16 ninv_word16 w simp del: upt_Suc)
  then show ?thesis using decrypt_key_length by (simp add: key16_def)
qed

section \<open>Colliding blocks\<close>

lemma mul16_lost:
  assumes "word16 k" "k \<noteq> 1"
  shows "\<exists>x. word16 x \<and> x \<noteq> 0 \<and> mul16 x k = 0"
proof (cases "k = 0")
  case True
  then show ?thesis by (intro exI [of _ 1]) (simp add: word16_def mul16_nonneg)
next
  case False
  then have k: "0 < k" "k < 65536" using assms(1) by (simp_all add: word16_def)
  define v where "v = ninv k mod 65537"
  have "(v * k) mod 65537 = (ninv k * k) mod 65537" by (simp add: v_def mod_mult_left_eq)
  then have vk: "(v * k) mod 65537 = 1" using ninv_mult [OF k] by simp
  have v: "0 \<le> v" "v < 65537" by (simp_all add: v_def)
  have "v \<noteq> 0" using vk by auto
  moreover have "v \<noteq> 1" using vk k assms(2) by auto
  ultimately have v2: "2 \<le> v" using v(1) by linarith
  let ?x = "65537 - v"
  have "?x * k = 65536 - (v * k - 1) + 65537 * (k - 1)" by (simp add: algebra_simps)
  moreover have "65537 dvd v * k - 1" using vk mod_eq_dvd_iff [of "v * k" 65537 1] by simp
  then obtain q where "v * k - 1 = 65537 * q" by (auto elim: dvdE)
  ultimately have "?x * k = 65536 + 65537 * (k - 1 - q)" by (simp add: algebra_simps)
  then have "(?x * k) mod 65537 = 65536" by (simp only: mod_mult_self2) simp
  moreover have "word16 ?x" "?x \<noteq> 0" using v v2 by (simp_all add: word16_def)
  ultimately show ?thesis using k by (intro exI [of _ ?x]) (simp add: mul16_nonneg word16_def)
qed

lemma enc_state_first:
  assumes "seg_layer Z 0 b = seg_layer Z 0 b'"
  shows "enc_state Z b (Suc r) = enc_state Z b' (Suc r)"
  using assms by (induction r) (simp_all add: round6_seg)

section \<open>Evaluation on concrete keys\<close>

text \<open>
  Rewrite rules that compute a round from its inputs, each intermediate value once, and the
  condition \<open>clean_block\<close> as one pass over the rounds.
\<close>

lemma upt8: "[0..<8] = [0, 1, 2, 3, 4, 5, 6, 7]"
  by code_simp

fun clean_run :: "int list list \<Rightarrow> int \<Rightarrow> int \<Rightarrow> block \<Rightarrow> bool" where
 "clean_run [] k0 k3 b = layer_ok k0 k3 (swap_mid b)"
| "clean_run (s#ss) k0 k3 b = (layer_ok (s!0) (s!3) b \<and> clean_run ss k0 k3 (round6 s b))"

lemma clean_run_states:
  "clean_run (map (seg Z) [r..<n]) k0 k3 (enc_state Z b r) \<longleftrightarrow>
   (\<forall>i. r \<le> i \<and> i < n \<longrightarrow> layer_ok (Z ! (6 * i)) (Z ! (6 * i + 3)) (enc_state Z b i)) \<and> layer_ok k0 k3 (swap_mid (enc_state Z b n))"
  if "r \<le> n" for r n
  using that
proof (induction "n - r" arbitrary: r)
  case (Suc d)
  then have r: "[r..<n] = r # [Suc r..<n]" by (simp add: upt_rec)
  have s: "seg Z r ! 0 = Z ! (6 * r)" "seg Z r ! 3 = Z ! (6 * r + 3)" by (simp_all add: seg_def)
  have IH: "clean_run (map (seg Z) [Suc r..<n]) k0 k3 (enc_state Z b (Suc r)) \<longleftrightarrow>
   (\<forall>i. Suc r \<le> i \<and> i < n \<longrightarrow> layer_ok (Z ! (6 * i)) (Z ! (6 * i + 3)) (enc_state Z b i)) \<and> layer_ok k0 k3 (swap_mid (enc_state Z b n))"
    by (rule Suc.hyps(1)) (use Suc.hyps(2) in auto)
  have sp: "(\<forall>i. r \<le> i \<and> i < n \<longrightarrow> P i) \<longleftrightarrow> P r \<and> (\<forall>i. Suc r \<le> i \<and> i < n \<longrightarrow> P i)" for P
    using \<open>r \<le> n\<close> Suc.hyps(2) by (auto simp: Suc_le_eq) (metis le_neq_implies_less)
  show ?case
    unfolding r list.map clean_run.simps sp s IH [unfolded enc_state_simps] by blast
qed auto

lemma clean_block_run:
  "clean_block Z b \<longleftrightarrow> clean_run (map (seg Z) [0, 1, 2, 3, 4, 5, 6, 7]) (Z ! 48) (Z ! 51) b"
  using clean_run_states [of 0 8 Z "Z ! 48" "Z ! 51" b] unfolding upt8 by (simp add: clean_block_def del: enc_state_simps(2))

definition mix_second :: "int \<Rightarrow> int \<Rightarrow> int \<times> int" where
  "mix_second s t1 = (t1, (t1 + s) AND 0xffff)"

definition mix_first :: "int \<Rightarrow> int \<Rightarrow> int \<Rightarrow> int \<times> int" where
  "mix_first k5 v s = mix_second s (mul16 ((s + v) AND 0xffff) k5)"

fun mix_apply :: "block \<Rightarrow> int \<times> int \<Rightarrow> block" where
  "mix_apply (x1, x2, x3, x4) (t1, t2) = (x1 XOR t1, x3 XOR t1, t2 XOR x2, x4 XOR t2)"

lemma mix_layer_eval:
  "mix_layer k4 k5 (x1, x2, x3, x4) = mix_apply (x1, x2, x3, x4) (mix_first k5 (x2 XOR x4) (mul16 (x1 XOR x3) k4))"
  by (simp add: mix_layer_values mix_values_def mix_first_def mix_second_def Let_def)

lemma key_layer_eval: "key_layer k0 k1 k2 k3 (x1, x2, x3, x4) = (mul16 x1 k0, (x2 + k1) mod 65536, (x3 + k2) mod 65536, mul16 x4 k3)"
  by (simp add: key_layer_def add16_def mask16)

lemma mul16_eval: "mul16 x k = sgn (x * k) * (\<bar>x * k\<bar> mod 65537) mod 65536"
  by (simp add: mul16_def crem_def mask16)


lemma round6_eval:
  "round6 s (x1, x2, x3, x4) = mix_layer (s ! 4) (s ! 5)
     (mul16 x1 (s ! 0), (x2 + s ! 1) mod 65536, (x3 + s ! 2) mod 65536, mul16 x4 (s ! 3))"
  by (simp add: round6_def idea_round_layers key_layer_eval)
lemmas idea_evals = round6_eval mul16_eval mix_layer_eval mix_first_def mix_second_def mask16 layer_ok_def
  mul_ok_def swap_mid_def

text \<open>The key schedule of the user key 1, ..., 8, and a block that it encrypts without loss.\<close>

definition sample_key :: "int list" where
  "sample_key = [1, 2, 3, 4, 5, 6, 7, 8, 384, 512, 640, 768, 896, 1024, 128, 256,
      16385, 32769, 49153, 1, 16386, 32768, 49152, 0, 192, 224, 256, 32, 64,
      96, 128, 160, 32768, 4096, 8192, 12288, 16384, 20480, 24576, 28672, 8,
      16, 24, 32, 40, 48, 56, 64, 3072, 4096, 5120, 6144]"

lemma sample_key_generated: "generateEncryptKey [1, 2, 3, 4, 5, 6, 7, 8] = Inr sample_key"
  by code_simp

lemma sample_block_clean: "clean_block sample_key (1, 2, 3, 4)"
  unfolding clean_block_run sample_key_def
  by (simp add: seg_def del: clean_run.simps) (simp add: idea_evals)

lemma sample_text_clean: "clean_text sample_key [1, 0, 2, 0, 3, 0, 4, 0]"
proof -
  have "load_block [1, 0, 2, 0, 3, 0, 4, 0] 0 = (1, 2, 3, 4)" by code_simp
  then show ?thesis using sample_block_clean by (simp add: clean_text_def)
qed

section \<open>Properties\<close>

text \<open>
  C21. The inverse of the key schedule: for every 16-bit word but 0 the loop ends, no
  intermediate value overflows, and the result is an inverse modulo 65537.
\<close>

theorem inv_mod_correct:
  assumes "0 < z" "z < 65536"
  shows "\<exists>v. inv_mod z = Inr v \<and> 0 \<le> v \<and> v \<le> 65537 \<and> (v * z) mod 65537 = 1"
  by (rule inv_correct [OF assms])

theorem inv_mod_correct_witness: "\<exists>v. inv_mod 3 = Inr v \<and> (v * 3) mod 65537 = 1"
  using inv_mod_correct [of 3] by auto

text \<open>
  Decryption undoes encryption: with the two keys generated from one user key, a text of
  whole chunks is returned, provided no product of an encryption is one that 16 bits cannot
  hold (\<open>clean_text\<close>, which can be computed).
\<close>

theorem idea_text_round_trip:
  assumes "length userkey = 8" "generateEncryptKey userkey = Inr Z" "length plain = 8 * m" "clean_text Z plain"
    "length crypt = length plain" "length out = length plain"
  shows "\<exists>D ciphertext. generateDecryptKey userkey = Inr D
    \<and> h_encrypt_decrypt plain crypt Z (int (length plain)) = Inr ciphertext
    \<and> h_encrypt_decrypt ciphertext out D (int (length ciphertext)) = Inr plain"
proof -
  have Z: "key16 Z" using generateEncryptKey_ok [OF assms(1)] assms(2) by auto
  have kz: "key_ok Z" using Z by (simp add: key_ok_length key16_def)
  have kd: "key_ok (decrypt_key Z)" by (rule key_ok_length [OF decrypt_key_length])
  have "h_encrypt_decrypt (crypt_text Z plain) out (decrypt_key Z) (int (length (crypt_text Z plain))) = Inr plain"
    using host_text [OF kd, of out "crypt_text Z plain" m] assms(3,6) decrypt_text [OF Z assms(3,4)] by simp
  then show ?thesis
    using generateDecryptKey_value [OF assms(2) Z] host_text [OF kz assms(5,3)] by blast
qed

theorem idea_text_round_trip_witness:
  "\<exists>D ciphertext. generateDecryptKey [1, 2, 3, 4, 5, 6, 7, 8] = Inr D
    \<and> h_encrypt_decrypt [1, 0, 2, 0, 3, 0, 4, 0] (replicate 8 0) sample_key 8 = Inr ciphertext
    \<and> h_encrypt_decrypt ciphertext (replicate 8 0) D (int (length ciphertext)) = Inr [1, 0, 2, 0, 3, 0, 4, 0]"
  using idea_text_round_trip [OF _ sample_key_generated _ sample_text_clean, of 1 "replicate 8 0" "replicate 8 0"]
  by simp

text \<open>
  The kernel computes what the host computes, for every positive number of threads and
  every order in which they get to their chunks.
\<close>

theorem kernel_equals_host:
  assumes "length key = 52" "length crypt = length plain" "length plain = 8 * m" "0 < n"
    "is_schedule n (int m) order"
  shows "d_encrypt_decrypt order plain crypt key = h_encrypt_decrypt plain crypt key (int (length plain))"
  using host_text [OF key_ok_length [OF assms(1)] assms(2,3)]
    kernel_text [OF key_ok_length [OF assms(1)] assms(2-5)] by simp

lemma sample_schedule: "is_schedule 2 4 [1, 0, 3, 2]"
proof -
  have "{0..<2} = {0, 1 :: int}" by auto
  moreover have "thread_chunks 0 2 4 = [0, 2]" "thread_chunks 1 2 4 = [1, 3]"
    by (simp_all add: thread_chunks.simps)
  ultimately show ?thesis by (auto simp: is_schedule_def)
qed

theorem kernel_equals_host_witness:
  "d_encrypt_decrypt [1, 0, 3, 2] (replicate 32 7) (replicate 32 0) (replicate 52 2)
   = h_encrypt_decrypt (replicate 32 7) (replicate 32 0) (replicate 52 2) 32"
  using kernel_equals_host [of "replicate 52 2" "replicate 32 0" "replicate 32 7" 4 2 "[1, 0, 3, 2]"] sample_schedule
  by simp

text \<open>
  The cipher is not injective: whenever the first key word is not 1, two different chunks
  have the same encryption, so that no key decrypts both. The product 65536 is stored as 0.
\<close>

theorem idea_collision:
  assumes "key16 Z" "Z ! 0 \<noteq> 1"
  shows "\<exists>b b'. b \<noteq> b' \<and> block16 b \<and> block16 b' \<and> crypt_block Z b = crypt_block Z b'"
proof -
  have "word16 (Z ! 0)" using assms(1) by (simp add: key16_def)
  then obtain x where x: "word16 x" "x \<noteq> 0" "mul16 x (Z ! 0) = 0" using mul16_lost assms(2) by blast
  have z: "word16 0" by (simp add: word16_def)
  have "mul16 0 (Z ! 0) = 0" by (simp add: mul16_def crem_def)
  then have "seg_layer Z 0 (x, 0, 0, 0) = seg_layer Z 0 (0, 0, 0, 0)"
    using x(3) by (simp add: seg_layer_def key_layer_def)
  from enc_state_first [OF this, of 7]
  have "crypt_block Z (x, 0, 0, 0) = crypt_block Z (0, 0, 0, 0)"
    using assms(1) by (simp add: crypt_block_enc key16_def del: enc_state_simps)
  moreover have "(x, 0, 0, 0) \<noteq> (0 :: int, 0 :: int, 0 :: int, 0 :: int)" using x(2) by simp
  moreover have "block16 (x, 0, 0, 0)" "block16 (0, 0, 0, 0)" using x(1) z by (simp_all add: block16_def)
  ultimately show ?thesis by blast
qed

theorem idea_collision_witness:
  "\<exists>b b'. b \<noteq> b' \<and> block16 b \<and> block16 b' \<and> crypt_block (replicate 52 2) b = crypt_block (replicate 52 2) b'"
  using idea_collision [of "replicate 52 2"] by (simp add: key16_def word16_def)

text \<open>
  C33. Both key schedules are defined for every user key of eight words: no access leaves an
  array, no \<open>int\<close> overflows, and both keys are 52 words of 16 bits.
\<close>

theorem key_schedules_typed:
  assumes "length userkey = 8"
  shows "\<exists>Z D. generateEncryptKey userkey = Inr Z \<and> key16 Z \<and> generateDecryptKey userkey = Inr D \<and> key16 D"
  using generateEncryptKey_ok [OF assms] generateDecryptKey_value decrypt_key_word16 by blast

theorem key_schedules_typed_witness:
  "\<exists>Z D. generateEncryptKey (replicate 8 (-1)) = Inr Z \<and> key16 Z \<and> generateDecryptKey (replicate 8 (-1)) = Inr D \<and> key16 D"
  by (rule key_schedules_typed) simp

end
