(* ===== verification/Idea_Devices.thy ===== *)
theory Idea_Devices
  imports Idea_Driver
begin

unbundle bit_operations_syntax

text \<open>
  Every run of the devices encrypts the whole text. A position of a buffer is right when it
  holds the byte of the text (or of its encryption) that belongs there; every operation writes
  right bytes only, so that the order between streams and devices does not matter.
\<close>

section \<open>Copies\<close>

lemma cudaMemcpy_value:
  assumes "a + n \<le> length dst" "b + n \<le> length src"
  shows "\<exists>r. cudaMemcpy dst (int a) src (int b) (int n) = Inr r \<and> length r = length dst
    \<and> (\<forall>i < length dst. r ! i = (if a \<le> i \<and> i < a + n then src ! (b + (i - a)) else dst ! i))"
proof -
  let ?r = "take a dst @ take n (drop b src) @ drop (a + n) dst"
  have "nat (int a + int n) = a + n" by simp
  then have "cudaMemcpy dst (int a) src (int b) (int n) = Inr ?r"
    using assms by (simp add: cudaMemcpy_def)
  moreover have "length ?r = length dst" using assms by simp
  moreover have "?r ! i = (if a \<le> i \<and> i < a + n then src ! (b + (i - a)) else dst ! i)" if "i < length dst" for i
    using assms that by (auto simp: nth_append)
  ultimately show ?thesis by blast
qed

section \<open>The layout of the work\<close>

text \<open>
  Device \<open>d\<close> has the chunks from \<open>sd d\<close> on in a buffer of \<open>len d\<close> bytes; its stream \<open>b\<close> has
  \<open>nb d b\<close> of them, from \<open>ob d b\<close> on.
\<close>

definition layout :: "8 word list \<Rightarrow> int list \<Rightarrow> stream_work list list \<Rightarrow> (nat \<Rightarrow> nat) \<Rightarrow> (nat \<Rightarrow> nat) \<Rightarrow>
    (nat \<Rightarrow> nat \<Rightarrow> nat) \<Rightarrow> (nat \<Rightarrow> nat \<Rightarrow> nat) \<Rightarrow> bool" where
  "layout plain starts works sd len ob nb \<longleftrightarrow> 8 dvd length plain \<and>
     (\<forall>d < length works. starts ! d = int (8 * sd d) \<and> 8 * sd d + len d \<le> length plain
       \<and> (\<forall>b < length (works ! d). blockOffset (works ! d ! b) = int (8 * ob d b)
            \<and> localChunks (works ! d ! b) = int (nb d b) \<and> 8 * ob d b + 8 * nb d b \<le> len d))"

definition shaped :: "8 word list \<Rightarrow> stream_work list list \<Rightarrow> (nat \<Rightarrow> nat) \<Rightarrow> gpu_memory \<Rightarrow> bool" where
  "shaped plain works len mem \<longleftrightarrow> length (plains mem) = length works \<and> length (crypts mem) = length works
     \<and> length (host_crypt mem) = length plain
     \<and> (\<forall>d < length works. length (plains mem ! d) = len d \<and> length (crypts mem ! d) = len d)"

definition right_plain where
  "right_plain plain sd mem d p \<longleftrightarrow> plains mem ! d ! p = plain ! (8 * sd d + p)"

definition right_crypt where
  "right_crypt plain key sd mem d p \<longleftrightarrow> crypts mem ! d ! p = crypt_text key plain ! (8 * sd d + p)"

definition right_host where
  "right_host plain key mem p \<longleftrightarrow> host_crypt mem ! p = crypt_text key plain ! p"

text \<open>What an operation leaves right in the memory.\<close>

definition keeps where
  "keeps plain key works sd len mem mem' \<longleftrightarrow> shaped plain works len mem'
     \<and> (\<forall>d < length works. \<forall>p < len d. right_plain plain sd mem d p \<longrightarrow> right_plain plain sd mem' d p)
     \<and> (\<forall>d < length works. \<forall>p < len d. right_crypt plain key sd mem d p \<longrightarrow> right_crypt plain key sd mem' d p)
     \<and> (\<forall>p < length plain. right_host plain key mem p \<longrightarrow> right_host plain key mem' p)"

fun achieved where
  "achieved plain key sd ob nb mem (Copy_in d b) \<longleftrightarrow>
     (\<forall>i < 8 * nb d b. right_plain plain sd mem d (8 * ob d b + i))"
| "achieved plain key sd ob nb mem (Crypt_chunk d b c) \<longleftrightarrow>
     (\<forall>i < 8. right_crypt plain key sd mem d (8 * (ob d b + nat c) + i))"
| "achieved plain key sd ob nb mem (Copy_out d b) \<longleftrightarrow>
     (\<forall>i < 8 * nb d b. right_host plain key mem (8 * (sd d + ob d b) + i))"

fun valid_op where
  "valid_op works nb (Crypt_chunk d b c) \<longleftrightarrow> d < length works \<and> b < length (works ! d) \<and> 0 \<le> c \<and> c < int (nb d b)"
| "valid_op works nb op \<longleftrightarrow> fst (stream_of op) < length works \<and> snd (stream_of op) < length (works ! fst (stream_of op))"

lemma copy_in_step:
  assumes l: "layout plain starts works sd len ob nb" and s: "shaped plain works len mem"
    and v: "valid_op works nb (Copy_in d b)"
  shows "\<exists>mem'. exec_op plain key starts works (Copy_in d b) mem = Inr mem'
    \<and> keeps plain key works sd len mem mem' \<and> achieved plain key sd ob nb mem' (Copy_in d b)"
proof -
  have d: "d < length works" "b < length (works ! d)" using v by simp_all
  then have g: "starts ! d = int (8 * sd d)" "8 * sd d + len d \<le> length plain"
      "blockOffset (works ! d ! b) = int (8 * ob d b)" "localChunks (works ! d ! b) = int (nb d b)"
      "8 * ob d b + 8 * nb d b \<le> len d"
    using l by (simp_all add: layout_def)
  have len: "length (plains mem ! d) = len d" "d < length (plains mem)" using s d by (simp_all add: shaped_def)
  obtain r where r: "cudaMemcpy (plains mem ! d) (int (8 * ob d b)) plain (int (8 * sd d + 8 * ob d b)) (int (8 * nb d b)) = Inr r"
      "length r = len d"
      "\<forall>i < len d. r ! i = (if 8 * ob d b \<le> i \<and> i < 8 * ob d b + 8 * nb d b
         then plain ! (8 * sd d + 8 * ob d b + (i - 8 * ob d b)) else plains mem ! d ! i)"
    using cudaMemcpy_value [of "8 * ob d b" "8 * nb d b" "plains mem ! d" "8 * sd d + 8 * ob d b" plain] g(2,5) len(1)
    by auto
  let ?m = "mem\<lparr>plains := (plains mem)[d := r]\<rparr>"
  have "exec_op plain key starts works (Copy_in d b) mem = Inr ?m"
    using r(1) g(1,3,4) by (simp add: CHUNK_SIZE_def mult.commute)
  moreover have "keeps plain key works sd len mem ?m"
    using s r(2,3) len(2) by (auto simp: keeps_def shaped_def right_plain_def right_crypt_def right_host_def nth_list_update)
  moreover have "achieved plain key sd ob nb ?m (Copy_in d b)"
    using r(3) len(2) g(5) by (simp add: right_plain_def add.assoc)
  ultimately show ?thesis by blast
qed

lemma copy_out_step:
  assumes l: "layout plain starts works sd len ob nb" and s: "shaped plain works len mem"
    and v: "valid_op works nb (Copy_out d b)"
    and ready: "\<forall>p. 8 * ob d b \<le> p \<longrightarrow> p < 8 * ob d b + 8 * nb d b \<longrightarrow> right_crypt plain key sd mem d p"
  shows "\<exists>mem'. exec_op plain key starts works (Copy_out d b) mem = Inr mem'
    \<and> keeps plain key works sd len mem mem' \<and> achieved plain key sd ob nb mem' (Copy_out d b)"
proof -
  have d: "d < length works" "b < length (works ! d)" using v by simp_all
  then have g: "starts ! d = int (8 * sd d)" "8 * sd d + len d \<le> length plain"
      "blockOffset (works ! d ! b) = int (8 * ob d b)" "localChunks (works ! d ! b) = int (nb d b)"
      "8 * ob d b + 8 * nb d b \<le> len d"
    using l by (simp_all add: layout_def)
  have len: "length (crypts mem ! d) = len d" "length (host_crypt mem) = length plain" using s d by (simp_all add: shaped_def)
  obtain r where r: "cudaMemcpy (host_crypt mem) (int (8 * sd d + 8 * ob d b)) (crypts mem ! d) (int (8 * ob d b)) (int (8 * nb d b)) = Inr r"
      "length r = length plain"
      "\<forall>i < length plain. r ! i = (if 8 * sd d + 8 * ob d b \<le> i \<and> i < 8 * sd d + 8 * ob d b + 8 * nb d b
         then crypts mem ! d ! (8 * ob d b + (i - (8 * sd d + 8 * ob d b))) else host_crypt mem ! i)"
    using cudaMemcpy_value [of "8 * sd d + 8 * ob d b" "8 * nb d b" "host_crypt mem" "8 * ob d b" "crypts mem ! d"] g(2,5) len
    by auto
  have right: "r ! i = crypt_text key plain ! i"
    if "8 * sd d + 8 * ob d b \<le> i" "i < 8 * sd d + 8 * ob d b + 8 * nb d b" for i
  proof -
    have i: "i < length plain" using that g(2,5) by linarith
    let ?p = "8 * ob d b + (i - (8 * sd d + 8 * ob d b))"
    have "8 * sd d + ?p = i" "8 * ob d b \<le> ?p" "?p < 8 * ob d b + 8 * nb d b" using that by linarith+
    then show ?thesis using r(3) i that ready unfolding right_crypt_def by metis
  qed
  let ?m = "mem\<lparr>host_crypt := r\<rparr>"
  have "exec_op plain key starts works (Copy_out d b) mem = Inr ?m"
    using r(1) g(1,3,4) by (simp add: CHUNK_SIZE_def mult.commute)
  moreover have "keeps plain key works sd len mem ?m"
  proof -
    have "r ! p = crypt_text key plain ! p" if "p < length plain" "host_crypt mem ! p = crypt_text key plain ! p" for p
      using right [of p] r(3) that by (cases "8 * sd d + 8 * ob d b \<le> p \<and> p < 8 * sd d + 8 * ob d b + 8 * nb d b") auto
    then show ?thesis using s r(2) by (auto simp: keeps_def shaped_def right_plain_def right_crypt_def right_host_def)
  qed
  moreover have "achieved plain key sd ob nb ?m (Copy_out d b)"
    using right by (simp add: right_host_def distrib_left)
  ultimately show ?thesis by blast
qed

lemma load_block_cong:
  assumes "\<And>j. j < 8 \<Longrightarrow> xs ! (8 * c + j) = ys ! (8 * g + j)"
  shows "load_block xs c = load_block ys g"
  by (rule load_block_bytes [OF load_block_word16]) (simp add: assms block_bytes_load)

lemma crypt_step:
  assumes l: "layout plain starts works sd len ob nb" and s: "shaped plain works len mem"
    and v: "valid_op works nb (Crypt_chunk d b c)" and k: "key_ok key"
    and ready: "achieved plain key sd ob nb mem (Copy_in d b)"
  shows "\<exists>mem'. exec_op plain key starts works (Crypt_chunk d b c) mem = Inr mem'
    \<and> keeps plain key works sd len mem mem' \<and> achieved plain key sd ob nb mem' (Crypt_chunk d b c)"
proof -
  have d: "d < length works" "b < length (works ! d)" using v by simp_all
  then have g: "8 * sd d + len d \<le> length plain" "blockOffset (works ! d ! b) = int (8 * ob d b)"
      "8 * ob d b + 8 * nb d b \<le> len d"
    using l by (simp_all add: layout_def)
  define n where "n = nat c"
  have c: "c = int n" "n < nb d b" using v by (simp_all add: n_def nat_less_iff)
  have len: "length (plains mem ! d) = len d" "length (crypts mem ! d) = len d" "d < length (crypts mem)"
    using s d by (simp_all add: shaped_def)
  let ?o = "8 * ob d b" and ?G = "sd d + ob d b + n"
  let ?P = "drop ?o (plains mem ! d)" and ?C = "drop ?o (crypts mem ! d)"
  have fits: "8 * n + 8 \<le> length ?P" "8 * n + 8 \<le> length ?C" using len g(3) c(2) by simp_all
  have "?P ! (8 * n + j) = plain ! (8 * ?G + j)" if "j < 8" for j
  proof -
    have "8 * n + j < 8 * nb d b" using c(2) that by linarith
    then have "plains mem ! d ! (?o + (8 * n + j)) = plain ! (8 * sd d + (?o + (8 * n + j)))"
      using ready by (simp add: right_plain_def)
    then show ?thesis using fits(1) that len(1) by (simp add: distrib_left add.assoc)
  qed
  then have b: "load_block ?P n = load_block plain ?G" by (rule load_block_cong)
  obtain q where q: "doCrypt c ?P ?C key = Inr q" "length q = length ?C"
      "\<forall>i < length ?C. q ! i = (if i div 8 = n then block_bytes (crypted key (load_block plain ?G)) ! (i mod 8) else ?C ! i)"
    using store_chunk_value [OF fits(2), of "crypted key (load_block plain ?G)"] load_chunk_value [OF fits(1)] key_okD [OF k]
    by (auto simp: doCrypt_def c(1) b)
  have "8 * (n + 1) \<le> 8 * nb d b" using c(2) by (intro mult_le_mono2) simp
  then have all: "8 * ?G + 8 \<le> length plain" using g(1,3) unfolding distrib_left by linarith
  let ?r = "take ?o (crypts mem ! d) @ q"
  have lr: "length ?r = len d" using q(2) len(2) g(3) by simp
  have new: "?r ! (8 * (ob d b + n) + i) = crypt_text key plain ! (8 * ?G + i)" if "i < 8" for i
  proof -
    have "?r ! (8 * (ob d b + n) + i) = q ! (8 * n + i)" using len(2) g(3) by (simp add: nth_append distrib_left add.assoc)
    also have "\<dots> = block_bytes (crypted key (load_block plain ?G)) ! i" using q(3) fits(2) that by simp
    finally show ?thesis using crypt_text_nth [OF all that] by simp
  qed
  have old: "?r ! p = crypts mem ! d ! p \<or> ?r ! p = crypt_text key plain ! (8 * sd d + p)" if "p < len d" for p
  proof (cases "?o \<le> p \<and> (p - ?o) div 8 = n")
    case True
    then have pe: "p = 8 * (ob d b + n) + p mod 8"
      by (metis add_mult_distrib2 le_add_diff_inverse mod_mult_self4 mult_div_mod_eq add.assoc)
    have "8 * sd d + p = 8 * sd d + (8 * (ob d b + n) + p mod 8)" using pe by (rule arg_cong)
    then have "8 * sd d + p = 8 * ?G + p mod 8" by (simp only: distrib_left add.assoc)
    moreover have "?r ! (8 * (ob d b + n) + p mod 8) = crypt_text key plain ! (8 * ?G + p mod 8)" by (rule new) simp
    ultimately show ?thesis unfolding pe [symmetric] by (simp only:) simp
  next
    case False
    have "q ! (p - ?o) = crypts mem ! d ! p" if "?o \<le> p"
      using False q(3) that \<open>p < len d\<close> len(2) by simp
    then show ?thesis using len(2) \<open>p < len d\<close> g(3) by (auto simp: nth_append)
  qed
  let ?m = "mem\<lparr>crypts := (crypts mem)[d := ?r]\<rparr>"
  have "exec_op plain key starts works (Crypt_chunk d b c) mem = Inr ?m"
    using q(1) g(2) by (simp add: nat_mult_distrib)
  moreover have "keeps plain key works sd len mem ?m"
  proof -
    have "?r ! p = crypt_text key plain ! (8 * sd d + p)"
      if "p < len d" "crypts mem ! d ! p = crypt_text key plain ! (8 * sd d + p)" for p
      using old [OF that(1)] that(2) by auto
    then show ?thesis
      using s lr len(3) by (auto simp: keeps_def shaped_def right_plain_def right_crypt_def right_host_def nth_list_update)
  qed
  moreover have "achieved plain key sd ob nb ?m (Crypt_chunk d b c)"
    using new len(3) by (simp add: right_crypt_def c(1) distrib_left add.assoc)
  ultimately show ?thesis by blast
qed

section \<open>Runs\<close>

text \<open>What the order within a stream gives an operation: its input is there.\<close>

definition inputs_ready where
  "inputs_ready nb earlier op \<longleftrightarrow>
     (case op of Copy_in d b \<Rightarrow> True
      | Crypt_chunk d b c \<Rightarrow> Copy_in d b \<in> earlier
      | Copy_out d b \<Rightarrow> (\<forall>c. 0 \<le> c \<and> c < int (nb d b) \<longrightarrow> Crypt_chunk d b c \<in> earlier))"

lemma stream_prefix:
  assumes "filter P (earlier @ op # later) = first # middle @ [final]" "P op"
  shows "(op \<noteq> first \<longrightarrow> first \<in> set earlier) \<and> (op = final \<longrightarrow> final \<notin> set (first # middle) \<longrightarrow> set middle \<subseteq> set earlier)"
proof -
  have e: "filter P earlier @ op # filter P later = first # middle @ [final]" using assms by simp
  have "first \<in> set earlier" if "op \<noteq> first"
    using e that by (cases "filter P earlier") (auto simp: filter_eq_Cons_iff)
  moreover have "set middle \<subseteq> set earlier" if "op = final" "final \<notin> set (first # middle)"
  proof -
    have "filter P earlier @ final # filter P later = (first # middle) @ final # []" using e that(1) by simp
    then have "filter P earlier = first # middle"
      using that(2) by (auto simp: append_eq_append_conv2 append_eq_Cons_conv Cons_eq_append_conv)
    then have "set middle \<subseteq> set (filter P earlier)" by auto
    then show ?thesis by auto
  qed
  ultimately show ?thesis by blast
qed

lemma run_ready:
  assumes r: "is_run maxThreads works (earlier @ op # later)"
    and launches: "\<forall>d < length works. \<forall>b < length (works ! d). launch_ok maxThreads (works ! d ! b)"
    and l: "layout plain starts works sd len ob nb"
  shows "valid_op works nb op \<and> inputs_ready nb (set earlier) op"
proof -
  obtain d b where db: "stream_of op = (d, b)" by fastforce
  then have v: "d < length works" "b < length (works ! d)" using r by (auto simp: is_run_def)
  then obtain cs where cs: "kernel_steps maxThreads (works ! d ! b) cs"
      "filter (\<lambda>op. stream_of op = (d, b)) (earlier @ op # later) = Copy_in d b # map (Crypt_chunk d b) cs @ [Copy_out d b]"
    using r unfolding is_run_def stream_run_def by meson
  have la: "launch_ok maxThreads (works ! d ! b)" using launches v by blast
  have "localChunks (works ! d ! b) = int (nb d b)" using l v by (simp add: layout_def)
  then have "is_schedule (nThreadBlocks (works ! d ! b) * nThreadsPerBlock (works ! d ! b)) (int (nb d b)) cs"
    using cs(1) la by (simp add: kernel_steps_def)
  moreover have "0 < nThreadBlocks (works ! d ! b) * nThreadsPerBlock (works ! d ! b)"
    using la by (simp add: launch_ok_def)
  ultimately have set: "set cs = {0..<int (nb d b)}" by (rule schedule_set [rotated])
  have "op \<in> set (filter (\<lambda>op. stream_of op = (d, b)) (earlier @ op # later))" using db by simp
  then have "op = Copy_in d b \<or> op \<in> Crypt_chunk d b ` {0..<int (nb d b)} \<or> op = Copy_out d b"
    unfolding cs(2) using set by auto
  then show ?thesis
    using stream_prefix [OF cs(2)] db v set by (auto simp: inputs_ready_def image_subset_iff)
qed

definition gpu_inv where
  "gpu_inv plain key works sd len ob nb D mem \<longleftrightarrow>
     shaped plain works len mem \<and> (\<forall>op \<in> D. valid_op works nb op \<and> achieved plain key sd ob nb mem op)"

lemma achieved_kept:
  assumes l: "layout plain starts works sd len ob nb" and k: "keeps plain key works sd len mem mem'"
    and v: "valid_op works nb op" and a: "achieved plain key sd ob nb mem op"
  shows "achieved plain key sd ob nb mem' op"
proof -
  obtain d b where db: "stream_of op = (d, b)" by fastforce
  then have vd: "d < length works" "b < length (works ! d)" using v by (cases op; simp)+
  then have g: "8 * ob d b + 8 * nb d b \<le> len d" "8 * sd d + len d \<le> length plain" using l by (simp_all add: layout_def)
  show ?thesis
  proof (cases op)
    case (Crypt_chunk d' b' c)
    have "nat c < nb d b" using v db Crypt_chunk by (simp add: nat_less_iff)
    then have "8 * (nat c + 1) \<le> 8 * nb d b" by (intro mult_le_mono2) simp
    then have "8 * (ob d b + nat c) + i < len d" if "i < 8" for i using g(1) that unfolding distrib_left by linarith
    then show ?thesis using a k vd db Crypt_chunk by (simp add: keeps_def)
  next
    case (Copy_out d' b')
    then have "8 * (sd d + ob d b) + i < length plain" if "i < 8 * nb d b" for i using g that by simp
    then show ?thesis using a k vd db Copy_out by (simp add: keeps_def)
  qed (use a k vd db g in \<open>simp add: keeps_def\<close>)
qed

lemma chunks_achieved:
  assumes "\<forall>c. 0 \<le> c \<and> c < int (nb d b) \<longrightarrow> achieved plain key sd ob nb mem (Crypt_chunk d b c)"
    "8 * ob d b \<le> p" "p < 8 * ob d b + 8 * nb d b"
  shows "right_crypt plain key sd mem d p"
proof -
  define c where "c = (p - 8 * ob d b) div 8"
  have "c < nb d b" using assms(2,3) by (auto simp: c_def)
  then have "achieved plain key sd ob nb mem (Crypt_chunk d b (int c))" using assms(1) by (simp del: achieved.simps)
  moreover have "p = 8 * (ob d b + c) + (p - 8 * ob d b) mod 8" using assms(2) by (simp add: c_def distrib_left)
  ultimately show ?thesis by (metis achieved.simps(2) mod_less_divisor nat_int zero_less_numeral)
qed

lemma gpu_step_inv:
  assumes l: "layout plain starts works sd len ob nb" and k: "key_ok key"
    and i: "gpu_inv plain key works sd len ob nb D mem"
    and v: "valid_op works nb op" and r: "inputs_ready nb D op"
  shows "\<exists>mem'. exec_op plain key starts works op mem = Inr mem' \<and> gpu_inv plain key works sd len ob nb (insert op D) mem'"
proof -
  have s: "shaped plain works len mem" and done_ops: "\<forall>op \<in> D. valid_op works nb op \<and> achieved plain key sd ob nb mem op"
    using i by (simp_all add: gpu_inv_def)
  have "\<exists>mem'. exec_op plain key starts works op mem = Inr mem'
    \<and> keeps plain key works sd len mem mem' \<and> achieved plain key sd ob nb mem' op"
  proof (cases op)
    case (Copy_in d b)
    then show ?thesis using copy_in_step [OF l s] v by blast
  next
    case (Crypt_chunk d b c)
    then show ?thesis using crypt_step [OF l s _ k] v r done_ops by (auto simp: inputs_ready_def simp del: exec_op.simps achieved.simps)
  next
    case (Copy_out d b)
    then have "\<forall>c. 0 \<le> c \<and> c < int (nb d b) \<longrightarrow> achieved plain key sd ob nb mem (Crypt_chunk d b c)"
      using r done_ops by (auto simp: inputs_ready_def simp del: achieved.simps)
    then show ?thesis using copy_out_step [OF l s] chunks_achieved v Copy_out by blast
  qed
  then show ?thesis
    using achieved_kept [OF l] done_ops v unfolding gpu_inv_def by (metis insert_iff keeps_def)
qed

lemma exec_ops_inv:
  assumes l: "layout plain starts works sd len ob nb" and k: "key_ok key"
  shows "(\<And>earlier op later. ops = earlier @ op # later \<Longrightarrow> valid_op works nb op \<and> inputs_ready nb (D \<union> set earlier) op) \<Longrightarrow>
     gpu_inv plain key works sd len ob nb D mem \<Longrightarrow>
     \<exists>mem'. exec_ops plain key starts works ops mem = Inr mem' \<and> gpu_inv plain key works sd len ob nb (D \<union> set ops) mem'"
proof (induction ops arbitrary: D mem)
  case (Cons op ops)
  have "valid_op works nb op \<and> inputs_ready nb D op" using Cons.prems(1) [of "[]" op ops] by simp
  then obtain m where m: "exec_op plain key starts works op mem = Inr m" "gpu_inv plain key works sd len ob nb (insert op D) m"
    using gpu_step_inv [OF l k Cons.prems(2)] by blast
  have "valid_op works nb op' \<and> inputs_ready nb (insert op D \<union> set earlier) op'" if "ops = earlier @ op' # later" for earlier op' later
    using Cons.prems(1) [of "op # earlier" op' later] that by simp
  from Cons.IH [OF this m(2)] show ?case using m(1) by simp
qed simp

text \<open>The streams together copy every position of the text back.\<close>

definition covers where
  "covers plain works sd ob nb \<longleftrightarrow> (\<forall>p < length plain. \<exists>d < length works. \<exists>b < length (works ! d).
     8 * (sd d + ob d b) \<le> p \<and> p < 8 * (sd d + ob d b) + 8 * nb d b)"

lemma run_text:
  assumes l: "layout plain starts works sd len ob nb" and k: "key_ok key"
    and s: "shaped plain works len mem" and c: "covers plain works sd ob nb"
    and r: "is_run maxThreads works order"
    and launches: "\<forall>d < length works. \<forall>b < length (works ! d). launch_ok maxThreads (works ! d ! b)"
  shows "\<exists>mem'. exec_ops plain key starts works order mem = Inr mem' \<and> host_crypt mem' = crypt_text key plain"
proof -
  have "gpu_inv plain key works sd len ob nb {} mem" using s by (simp add: gpu_inv_def)
  moreover have "valid_op works nb op \<and> inputs_ready nb ({} \<union> set earlier) op" if "order = earlier @ op # later" for earlier op later
    using run_ready [OF _ launches l] r that by simp
  ultimately obtain m where m: "exec_ops plain key starts works order mem = Inr m" "gpu_inv plain key works sd len ob nb (set order) m"
    using exec_ops_inv [OF l k, of order "{}" mem] by auto
  have "host_crypt m ! p = crypt_text key plain ! p" if "p < length plain" for p
  proof -
    obtain d b where db: "d < length works" "b < length (works ! d)" "8 * (sd d + ob d b) \<le> p" "p < 8 * (sd d + ob d b) + 8 * nb d b"
      using c \<open>p < length plain\<close> unfolding covers_def by blast
    then obtain cs where "filter (\<lambda>op. stream_of op = (d, b)) order = Copy_in d b # map (Crypt_chunk d b) cs @ [Copy_out d b]"
      using r unfolding is_run_def stream_run_def by meson
    then have "Copy_out d b \<in> set (filter (\<lambda>op. stream_of op = (d, b)) order)" by simp
    then have "achieved plain key sd ob nb m (Copy_out d b)" using m(2) by (simp add: gpu_inv_def del: achieved.simps)
    moreover have "p = 8 * (sd d + ob d b) + (p - 8 * (sd d + ob d b))" using db(3) by simp
    moreover have "p - 8 * (sd d + ob d b) < 8 * nb d b" using db(3,4) by linarith
    ultimately show ?thesis unfolding achieved.simps right_host_def by metis
  qed
  moreover have "length (host_crypt m) = length plain" using m(2) by (simp add: gpu_inv_def shaped_def)
  ultimately have "host_crypt m = crypt_text key plain" by (intro nth_equalityI) simp_all
  then show ?thesis using m(1) by blast
qed

end
