(* ===== verification/Idea_Main.thy ===== *)
theory Idea_Main
  imports Idea_Devices
begin

text \<open>
  The main program of \<^verbatim>\<open>crypt.flexible.cu\<close>: the split over the devices has the layout that
  the runs need, provided every device gets at least one chunk; the program as a function of
  its arguments and of the files; and the round trip of a file.
\<close>

section \<open>The split of a text over the devices\<close>

definition chunks_per_device :: "nat \<Rightarrow> nat \<Rightarrow> nat" where
  "chunks_per_device N n = (N + n - 1) div n"

definition device_chunks :: "nat \<Rightarrow> nat \<Rightarrow> nat \<Rightarrow> nat" where
  "device_chunks N cpd d = (if d * cpd + cpd > N then N - d * cpd else cpd)"

lemma chunks_per_device_bounds:
  assumes "0 < n"
  shows "N \<le> n * chunks_per_device N n" "n * chunks_per_device N n < N + n"
proof -
  let ?q = "chunks_per_device N n"
  have "N + n - 1 = n * ?q + (N + n - 1) mod n" unfolding chunks_per_device_def by simp
  moreover have "(N + n - 1) mod n < n" using assms by simp
  ultimately show "N \<le> n * ?q" "n * ?q < N + n" using assms by linarith+
qed

lemma chunks_per_device_int:
  "0 < n \<Longrightarrow> (int N + int n - 1) div int n = int (chunks_per_device N n)"
proof -
  assume "0 < n"
  then have "int N + int n - 1 = int (N + n - 1)" by (simp add: of_nat_diff)
  then show ?thesis unfolding chunks_per_device_def zdiv_int by (rule arg_cong)
qed

lemma device_range_value:
  assumes "8 * (d * cpd + cpd) \<le> 2147483647" "N < 2147483648" "d * cpd \<le> N"
  shows "device_range (int (8 * N)) (int cpd) (int d) = Inr (int (8 * (d * cpd)), int (8 * device_chunks N cpd d))"
proof -
  have c: "cint (int d * int cpd) = Inr (int (d * cpd))" "cint (int (d * cpd) * 8) = Inr (int (8 * (d * cpd)))"
      "cint (int cpd * 8) = Inr (int (8 * cpd))" "cint (int (8 * (d * cpd)) + int (8 * cpd)) = Inr (int (8 * (d * cpd + cpd)))"
    using assms(1) by (simp_all add: in_int_iff flip: of_nat_mult of_nat_add)
  have s: "to_size (int (8 * (d * cpd + cpd))) = int (8 * (d * cpd + cpd))"
    using assms(1) by (simp add: to_size_def flip: of_nat_mult of_nat_add)
  have l: "to_int (int (8 * N) - int (8 * (d * cpd))) = int (8 * (N - d * cpd))" if "N < d * cpd + cpd"
  proof -
    have "int (8 * N) - int (8 * (d * cpd)) = int (8 * (N - d * cpd))" using assms(3) by (simp add: of_nat_diff)
    moreover have "8 * (N - d * cpd) \<le> 2147483647"
    proof -
      have "N - d * cpd \<le> cpd" using that by simp
      then show ?thesis using assms(1) unfolding distrib_left by linarith
    qed
    ultimately show ?thesis by (simp add: in_int_iff)
  qed
  have "int (8 * (d * cpd + cpd)) > int (8 * N) \<longleftrightarrow> N < d * cpd + cpd" by (simp only: of_nat_less_iff) auto
  then show ?thesis
    unfolding device_range_def CHUNK_SIZE_def c bindr_simps s
    using l by (simp only: device_chunks_def split: if_split) simp
qed

section \<open>The work of a device\<close>

definition B :: nat where "B = 1024000"

lemma BLOCK_int: "BLOCK_SIZE_IN_CHUNKS = int B"
  by (simp add: BLOCK_SIZE_IN_CHUNKS_def B_def)

definition blocks_of :: "nat \<Rightarrow> nat" where
  "blocks_of L = (L + B - 1) div B"

definition block_chunks :: "nat \<Rightarrow> nat \<Rightarrow> nat" where
  "block_chunks L b = (if b * B + B > L then L - b * B else B)"

lemma block_below: "b < blocks_of L \<Longrightarrow> b * B < L"
proof -
  assume "b < blocks_of L"
  then have "(b + 1) * B \<le> L + B - 1" unfolding blocks_of_def by (metis Suc_eq_plus1 Suc_leI less_eq_div_iff_mult_less_eq B_def zero_less_numeral)
  then show ?thesis by (simp add: B_def)
qed

lemma blocks_pos: "0 < L \<Longrightarrow> 0 < blocks_of L"
  by (simp add: blocks_of_def B_def div_greater_zero_iff)

lemma crem_eight: "crem (int (8 * L)) 8 = 0"
  by (simp add: crem_def)

lemma cdiv_eight: "8 * L \<le> 2147483647 \<Longrightarrow> cdiv (int (8 * L)) 8 = Inr (int L)"
  by (subst cdiv_nonneg) (simp_all add: in_int_iff)

definition allocates :: "cuda_runtime \<Rightarrow> int \<Rightarrow> bool" where
  "allocates rt n \<longleftrightarrow> (\<forall>c len. 0 \<le> len \<and> len \<le> n \<longrightarrow>
     (\<exists>buf. cudaMalloc rt c len = Some buf \<and> int (length buf) = len))"

definition buffer :: "cuda_runtime \<Rightarrow> nat \<Rightarrow> int \<Rightarrow> 8 word list" where
  "buffer rt c len = (case cudaMalloc rt c len of Some b \<Rightarrow> b | None \<Rightarrow> [])"

lemma allocates_buffer:
  "allocates rt n \<Longrightarrow> 0 \<le> len \<Longrightarrow> len \<le> n \<Longrightarrow> cudaMalloc rt c len = Some (buffer rt c len) \<and> int (length (buffer rt c len)) = len"
  unfolding allocates_def buffer_def by (metis option.simps(5))

definition context_of :: "cuda_runtime \<Rightarrow> nat \<Rightarrow> nat \<Rightarrow> device_context" where
  "context_of rt d L = \<lparr>dPlain = buffer rt (2 * d) (int (8 * L)), dCrypt = buffer rt (2 * d + 1) (int (8 * L)),
     nBlocks = int (blocks_of L)\<rparr>"

lemma init_context_value:
  assumes "allocates rt n" "int (8 * L) \<le> n" "8 * L \<le> 2000000000"
  shows "init_context (cudaMalloc rt) d (int (8 * L)) = Inr (context_of rt d L)"
proof -
  have s: "to_size (int (8 * L)) = int (8 * L)" using assms(3) by (simp add: to_size_def)
  have b: "cdiv (int L + int B - 1) (int B) = Inr (int (blocks_of L))"
  proof -
    have "int L + int B - 1 = int (L + B - 1)" by (simp add: B_def of_nat_diff)
    then show ?thesis using assms(3) by (subst cdiv_nonneg) (simp_all add: B_def blocks_of_def in_int_iff zdiv_int)
  qed
  have c: "cint (int L + int B - 1) = Inr (int L + int B - 1)" using assms(3) by (simp add: in_int_iff B_def)
  have m: "cudaMalloc rt k (int (8 * L)) = Some (buffer rt k (int (8 * L)))" for k
    using allocates_buffer [OF assms(1), of "int (8 * L)"] assms(2) by simp
  have e: "cdiv (int (8 * L)) 8 = Inr (int L)" using cdiv_eight assms(3) by simp
  show ?thesis
    unfolding init_context_def CHUNK_SIZE_def crem_eight s m e BLOCK_int option.case bindr_simps c b context_of_def by simp
qed

definition work_of :: "int \<Rightarrow> int \<Rightarrow> nat \<Rightarrow> nat \<Rightarrow> stream_work" where
  "work_of grid threads L b = \<lparr>blockOffset = int (8 * (b * B)), localChunks = int (block_chunks L b),
     nThreadBlocks = grid, nThreadsPerBlock = threads\<rparr>"

lemma block_work_value:
  assumes "b * B < L" "8 * L \<le> 2000000000"
  shows "block_work (int L) grid threads (int b) = Inr (work_of grid threads L b)"
proof -
  have c: "cint (int b * int B) = Inr (int (b * B))" "cint (int (b * B) * 8) = Inr (int (8 * (b * B)))"
      "cint (int (b * B) + int B) = Inr (int (b * B + B))"
    using assms by (simp_all add: in_int_iff B_def flip: of_nat_mult of_nat_add)
  have "int (b * B + B) > int L \<longleftrightarrow> b * B + B > L" by linarith
  then show ?thesis
    unfolding block_work_def BLOCK_int CHUNK_SIZE_def c bindr_simps work_of_def block_chunks_def
    using assms(1) by (simp add: of_nat_diff)
qed

definition grid_blocks :: "int \<Rightarrow> int \<Rightarrow> nat \<Rightarrow> int" where
  "grid_blocks maxGrid threads L = (let g = (int L + threads - 1) div threads in if g > maxGrid then maxGrid else g)"

lemma grid_pos: "0 < threads \<Longrightarrow> 0 < L \<Longrightarrow> 0 < maxGrid \<Longrightarrow> 0 < grid_blocks maxGrid threads L"
  by (simp add: grid_blocks_def Let_def pos_imp_zdiv_pos_iff)

lemma driver_value:
  assumes "0 < L" "8 * L \<le> 2000000000" "0 < threads" "threads \<le> 1000000000" "nBlocks ctx = int (blocks_of L)"
  shows "encrypt_decrypt_driver maxGrid (int (8 * L)) threads ctx
    = Inr (map (work_of (grid_blocks maxGrid threads L) threads L) [0..<blocks_of L])"
proof -
  have e: "cdiv (int (8 * L)) 8 = Inr (int L)" using cdiv_eight assms(2) by simp
  have c: "cint (int L + threads) = Inr (int L + threads)" "cint (int L + threads - 1) = Inr (int L + threads - 1)"
      "cdiv (int L + threads - 1) threads = Inr ((int L + threads - 1) div threads)"
    using assms(1-4) by (simp_all add: cdiv_nonneg in_int_iff)
  have "mapr (block_work (int L) g threads) [0..int (blocks_of L) - 1] = Inr (map (work_of g threads L) [0..<blocks_of L])" for g
  proof -
    have "[0..int (blocks_of L) - 1] = map int [0..<blocks_of L]"
      by (rule nth_equalityI) simp_all
    moreover have "mapr (block_work (int L) g threads) (map int bs) = mapr (\<lambda>b. block_work (int L) g threads (int b)) bs" for bs
      by (induction bs) simp_all
    moreover have "mapr (\<lambda>b. block_work (int L) g threads (int b)) [0..<blocks_of L] = Inr (map (work_of g threads L) [0..<blocks_of L])"
      by (rule mapr_ok) (rule block_work_value [OF block_below assms(2)], simp)
    ultimately show ?thesis by simp
  qed
  then show ?thesis
    unfolding encrypt_decrypt_driver_def CHUNK_SIZE_def e bindr_simps c Let_def grid_blocks_def assms(5)
    using blocks_pos [OF assms(1)] by simp
qed

section \<open>The text over all devices\<close>

text \<open>
  What the program relies on in the CUDA runtime for a text of \<open>N\<close> chunks: memory for the parts
  of the text, an admissible number of threads, and that it runs what it is given.
\<close>

definition runtime_ok :: "cuda_runtime \<Rightarrow> int \<Rightarrow> nat \<Rightarrow> bool" where
  "runtime_ok rt threads N \<longleftrightarrow> allocates rt (int (8 * N)) \<and> 0 < maxGridSize rt
     \<and> 0 < threads \<and> threads \<le> maxThreadsPerBlock rt \<and> threads \<le> 1000000000
     \<and> (\<forall>works. is_run (maxThreadsPerBlock rt) works (run_order rt works))"

text \<open>Every device gets a chunk, and no \<open>int\<close> of the split overflows.\<close>

definition split_ok :: "nat \<Rightarrow> nat \<Rightarrow> bool" where
  "split_ok N n \<longleftrightarrow> 0 < n \<and> (n - 1) * chunks_per_device N n < N \<and> 8 * (N + n) \<le> 2000000000"

definition starts_of :: "nat \<Rightarrow> nat \<Rightarrow> int list" where
  "starts_of N n = map (\<lambda>d. int (8 * (d * chunks_per_device N n))) [0..<n]"

definition works_of :: "cuda_runtime \<Rightarrow> int \<Rightarrow> nat \<Rightarrow> nat \<Rightarrow> stream_work list list" where
  "works_of rt threads N n = map (\<lambda>d. let L = device_chunks N (chunks_per_device N n) d in
     map (work_of (grid_blocks (maxGridSize rt) threads L) threads L) [0..<blocks_of L]) [0..<n]"

definition initial_memory :: "cuda_runtime \<Rightarrow> nat \<Rightarrow> nat \<Rightarrow> 8 word list \<Rightarrow> gpu_memory" where
  "initial_memory rt N n crypt =
     (let cs = map (\<lambda>d. context_of rt d (device_chunks N (chunks_per_device N n) d)) [0..<n] in
      \<lparr>plains = map dPlain cs, crypts = map dCrypt cs, host_crypt = crypt\<rparr>)"

lemma split_device:
  assumes "split_ok N n" "d < n"
  shows "d * chunks_per_device N n < N" "0 < device_chunks N (chunks_per_device N n) d"
    "d * chunks_per_device N n + device_chunks N (chunks_per_device N n) d \<le> N"
    "8 * (d * chunks_per_device N n + chunks_per_device N n) \<le> 2000000000"
proof -
  let ?q = "chunks_per_device N n"
  have "d * ?q \<le> (n - 1) * ?q" using assms(2) by (intro mult_le_mono1) simp
  also have "\<dots> < N" using assms(1) unfolding split_ok_def by blast
  finally show a: "d * ?q < N" .
  have "(d + 1) * ?q \<le> n * ?q" using assms(2) by (intro mult_le_mono1) simp
  moreover have n: "0 < n" "8 * (N + n) \<le> 2000000000" using assms(1) by (simp_all add: split_ok_def)
  ultimately have b: "d * ?q + ?q < N + n" using chunks_per_device_bounds(2) [of n N] by simp
  then have "8 * (d * ?q + ?q) \<le> 8 * (N + n)" by (intro mult_le_mono2) simp
  then show "8 * (d * ?q + ?q) \<le> 2000000000" using n(2) by linarith
  have "?q \<noteq> 0" using chunks_per_device_bounds(1) [OF n(1), of N] a by (intro notI) simp
  then show "0 < device_chunks N ?q d" using a by (simp add: device_chunks_def)
  show "d * ?q + device_chunks N ?q d \<le> N" using a by (simp add: device_chunks_def)
qed

lemma devices_value:
  assumes r: "runtime_ok rt threads N" and s: "split_ok N n" and len: "length plain = 8 * N"
  shows "crypt_on_devices rt (int n) threads plain crypt key =
    bindx (lift (exec_ops plain key (starts_of N n) (works_of rt threads N n) (run_order rt (works_of rt threads N n))
      (initial_memory rt N n crypt))) (\<lambda>mem. Inr (host_crypt mem))"
proof -
  let ?q = "chunks_per_device N n"
  let ?L = "device_chunks N ?q"
  have n: "0 < n" "8 * (N + n) \<le> 2000000000" using s by (simp_all add: split_ok_def)
  have t: "to_int (int (length plain) div 8) = int N" using len n(2) by (simp add: in_int_iff)
  have q: "cint (int N + int n) = Inr (int N + int n)" "cint (int N + int n - 1) = Inr (int N + int n - 1)"
    using n by (simp_all add: in_int_iff)
  have qd: "cdiv (int N + int n - 1) (int n) = Inr (int ?q)"
    using n by (subst cdiv_nonneg) (simp_all add: in_int_iff chunks_per_device_int)
  have rng: "mapr (\<lambda>d. device_range (int (length plain)) (int ?q) (int d)) [0..<n]
      = Inr (map (\<lambda>d. (int (8 * (d * ?q)), int (8 * ?L d))) [0..<n])"
  proof (rule mapr_ok)
    fix d assume "d \<in> set [0..<n]"
    then have d: "d < n" by simp
    have "8 * (d * ?q + ?q) \<le> 2147483647" "d * ?q \<le> N" "N < 2147483648"
      using split_device [OF s d] n(2) unfolding distrib_left by linarith+
    then show "device_range (int (length plain)) (int ?q) (int d) = Inr (int (8 * (d * ?q)), int (8 * ?L d))"
      unfolding len by (intro device_range_value)
  qed
  have L: "0 < ?L d" "int (8 * ?L d) \<le> int (8 * N)" "8 * ?L d \<le> 2000000000" if "d < n" for d
    using split_device [OF s that] n(2) unfolding distrib_left by linarith+
  define rs where "rs = map (\<lambda>d. (int (8 * (d * ?q)), int (8 * ?L d))) [0..<n]"
  have rsd: "snd (rs ! d) = int (8 * ?L d)" if "d < n" for d using that by (simp add: rs_def)
  have ctx: "mapx (\<lambda>d. init_context (cudaMalloc rt) d (snd (rs ! d))) [0..<n] = Inr (map (\<lambda>d. context_of rt d (?L d)) [0..<n])"
  proof (rule mapx_ok)
    fix d assume "d \<in> set [0..<n]"
    then have d: "d < n" by simp
    have "allocates rt (int (8 * N))" using r by (simp add: runtime_ok_def)
    from init_context_value [OF this L(2,3) [OF d]]
    show "init_context (cudaMalloc rt) d (snd (rs ! d)) = Inr (context_of rt d (?L d))" unfolding rsd [OF d] .
  qed
  define cs where "cs = map (\<lambda>d. context_of rt d (?L d)) [0..<n]"
  have wk: "mapr (\<lambda>d. encrypt_decrypt_driver (maxGridSize rt) (snd (rs ! d)) threads (cs ! d)) [0..<n] = Inr (works_of rt threads N n)"
    unfolding works_of_def
  proof (rule mapr_ok)
    fix d assume "d \<in> set [0..<n]"
    then have d: "d < n" by simp
    have "nBlocks (cs ! d) = int (blocks_of (?L d))" using d by (simp add: cs_def context_of_def)
    moreover have "0 < threads" "threads \<le> 1000000000" using r by (simp_all add: runtime_ok_def)
    ultimately show "encrypt_decrypt_driver (maxGridSize rt) (snd (rs ! d)) threads (cs ! d)
        = Inr (let L = ?L d in map (work_of (grid_blocks (maxGridSize rt) threads L) threads L) [0..<blocks_of L])"
      unfolding rsd [OF d] Let_def using L [OF d] by (intro driver_value)
  qed
  have fst_rs: "map fst rs = starts_of N n" by (simp add: rs_def starts_of_def)
  show ?thesis
    unfolding crypt_on_devices_def Let_def CHUNK_SIZE_def t q qd bindr_simps run_simps nat_int rng
      rs_def [symmetric] ctx cs_def [symmetric] wk fst_rs
    by (simp add: initial_memory_def Let_def cs_def)
qed

lemma block_layout:
  assumes "b < blocks_of L"
  shows "8 * (b * B) + 8 * block_chunks L b \<le> 8 * L"
proof -
  have "b * B + block_chunks L b \<le> L" using block_below [OF assms] by (simp add: block_chunks_def)
  then show ?thesis by linarith
qed

lemma devices_layout:
  assumes "split_ok N n" "length plain = 8 * N"
  shows "layout plain (starts_of N n) (works_of rt threads N n) (\<lambda>d. d * chunks_per_device N n)
    (\<lambda>d. 8 * device_chunks N (chunks_per_device N n) d) (\<lambda>d b. b * B)
    (\<lambda>d b. block_chunks (device_chunks N (chunks_per_device N n) d) b)"
  unfolding layout_def
proof (intro conjI allI impI)
  show "8 dvd length plain" using assms(2) by simp
next
  fix d assume "d < length (works_of rt threads N n)"
  then have d: "d < n" by (simp add: works_of_def)
  then show "starts_of N n ! d = int (8 * (d * chunks_per_device N n))" by (simp add: starts_of_def)
  show "8 * (d * chunks_per_device N n) + 8 * device_chunks N (chunks_per_device N n) d \<le> length plain"
    using split_device(3) [OF assms(1) d] assms(2) by linarith
  fix b assume "b < length (works_of rt threads N n ! d)"
  then have b: "b < blocks_of (device_chunks N (chunks_per_device N n) d)" using d by (simp add: works_of_def Let_def)
  then show "blockOffset (works_of rt threads N n ! d ! b) = int (8 * (b * B))"
      "localChunks (works_of rt threads N n ! d ! b) = int (block_chunks (device_chunks N (chunks_per_device N n) d) b)"
    using d by (simp_all add: works_of_def Let_def work_of_def)
  show "8 * (b * B) + 8 * block_chunks (device_chunks N (chunks_per_device N n) d) b
      \<le> 8 * device_chunks N (chunks_per_device N n) d"
    by (rule block_layout [OF b])
qed

text \<open>The block and the device of a chunk.\<close>

lemma block_of_chunk:
  assumes "c < L"
  shows "c div B < blocks_of L \<and> c div B * B \<le> c \<and> c < c div B * B + block_chunks L (c div B)"
proof -
  have B: "0 < B" by (simp add: B_def)
  have c: "c div B * B + c mod B = c" "c mod B < B" by (rule div_mult_mod_eq) (rule mod_less_divisor [OF B])
  have below: "c div B * B \<le> c" "c < c div B * B + B" using c by linarith+
  have "(c div B + 1) * B \<le> L + B - 1"
    using assms below(1) B unfolding distrib_right by linarith
  then have "c div B < blocks_of L"
    unfolding blocks_of_def using B by (metis Suc_eq_plus1 Suc_le_eq less_eq_div_iff_mult_less_eq)
  moreover have "c < x + (if x + B > L then L - x else B)" if "x \<le> c" "c < x + B" for x
    using that assms by auto
  ultimately show ?thesis using below unfolding block_chunks_def by blast
qed

lemma devices_cover:
  assumes s: "split_ok N n" and len: "length plain = 8 * N"
  shows "covers plain (works_of rt threads N n) (\<lambda>d. d * chunks_per_device N n) (\<lambda>d b. b * B)
    (\<lambda>d b. block_chunks (device_chunks N (chunks_per_device N n) d) b)"
  unfolding covers_def
proof (intro allI impI)
  let ?q = "chunks_per_device N n"
  fix p assume "p < length plain"
  define g where "g = p div 8"
  have g: "g < N" "8 * g \<le> p" "p < 8 * g + 8" using \<open>p < length plain\<close> len by (auto simp: g_def)
  have n: "0 < n" using s by (simp add: split_ok_def)
  have q: "0 < ?q" using chunks_per_device_bounds(1) [OF n, of N] g(1) by (intro gr0I) auto
  define d where "d = g div ?q"
  have "g < n * ?q" using chunks_per_device_bounds(1) [OF n, of N] g(1) by linarith
  then have d: "d < n" by (simp add: d_def less_mult_imp_div_less)
  define c where "c = g - d * ?q"
  have gd: "d * ?q + g mod ?q = g" "g mod ?q < ?q" unfolding d_def by (rule div_mult_mod_eq) (rule mod_less_divisor [OF q])
  then have c: "g = d * ?q + c" "c < ?q" by (simp_all add: c_def)
  have "c < device_chunks N ?q d" using c g(1) by (auto simp: device_chunks_def)
  from block_of_chunk [OF this] have b: "c div B < blocks_of (device_chunks N ?q d)" "c div B * B \<le> c"
      "c < c div B * B + block_chunks (device_chunks N ?q d) (c div B)" by blast+
  have "8 * (c + 1) \<le> 8 * (c div B * B + block_chunks (device_chunks N ?q d) (c div B))"
    using b(3) by (intro mult_le_mono2) simp
  then have "8 * (d * ?q + c div B * B) \<le> p"
      "p < 8 * (d * ?q + c div B * B) + 8 * block_chunks (device_chunks N ?q d) (c div B)"
    using g(2,3) b(2) c(1) unfolding distrib_left by linarith+
  moreover have "d < length (works_of rt threads N n)" "c div B < length (works_of rt threads N n ! d)"
    using d b(1) by (simp_all add: works_of_def Let_def)
  ultimately show "\<exists>d < length (works_of rt threads N n). \<exists>b < length (works_of rt threads N n ! d).
      8 * (d * ?q + b * B) \<le> p \<and> p < 8 * (d * ?q + b * B) + 8 * block_chunks (device_chunks N ?q d) b"
    by blast
qed

lemma devices_shaped:
  assumes r: "runtime_ok rt threads N" and s: "split_ok N n" and len: "length crypt = length plain"
  shows "shaped plain (works_of rt threads N n) (\<lambda>d. 8 * device_chunks N (chunks_per_device N n) d) (initial_memory rt N n crypt)"
proof -
  have "int (length (buffer rt k (int (8 * device_chunks N (chunks_per_device N n) d)))) = int (8 * device_chunks N (chunks_per_device N n) d)"
    if "d < n" for d k
    using allocates_buffer [of rt "int (8 * N)"] split_device(3) [OF s that] r by (simp add: runtime_ok_def)
  then have "length (buffer rt k (int (8 * device_chunks N (chunks_per_device N n) d))) = 8 * device_chunks N (chunks_per_device N n) d"
    if "d < n" for d k using that of_nat_eq_iff by blast
  then show ?thesis using len by (simp add: shaped_def initial_memory_def works_of_def context_of_def Let_def)
qed

lemma devices_launch:
  assumes r: "runtime_ok rt threads N" and s: "split_ok N n"
  shows "\<forall>d < length (works_of rt threads N n). \<forall>b < length (works_of rt threads N n ! d).
    launch_ok (maxThreadsPerBlock rt) (works_of rt threads N n ! d ! b)"
  using r split_device(2) [OF s] by (auto simp: works_of_def Let_def launch_ok_def work_of_def runtime_ok_def intro!: grid_pos)

lemma devices_text:
  assumes r: "runtime_ok rt threads N" and s: "split_ok N n" and len: "length plain = 8 * N" "length crypt = length plain"
    and k: "key_ok key"
  shows "crypt_on_devices rt (int n) threads plain crypt key = Inr (crypt_text key plain)"
proof -
  have "is_run (maxThreadsPerBlock rt) (works_of rt threads N n) (run_order rt (works_of rt threads N n))"
    using r by (simp add: runtime_ok_def)
  from run_text [OF devices_layout [OF s len(1)] k devices_shaped [OF r s len(2)] devices_cover [OF s len(1)] this devices_launch [OF r s]]
  show ?thesis unfolding devices_value [OF r s len(1)] by auto
qed

end
