(* ===== verification/Idea_Program.thy ===== *)
theory Idea_Program
  imports Idea_Main
begin

text \<open>
  The program of \<^verbatim>\<open>crypt.flexible.cu\<close> as a function of its arguments and of the files, what
  happens when a device is left without work, and the round trip of a file.
\<close>

section \<open>The program\<close>

datatype action = ENCRYPT | DECRYPT

definition crypt_action :: "string \<Rightarrow> action option" where
  "crypt_action arg =
     (if take 7 arg = ''encrypt'' then Some ENCRYPT
      else if take 7 arg = ''decrypt'' then Some DECRYPT else None)"

text \<open>\<open>atoi\<close> of the standard library; a value that \<open>int\<close> cannot hold is undefined.\<close>

definition digit_of :: "char \<Rightarrow> int" where
  "digit_of c = of_char c - 48"

fun leading_number :: "int \<Rightarrow> string \<Rightarrow> int" where
  "leading_number v [] = v"
| "leading_number v (c # cs) =
     (if 0 \<le> digit_of c \<and> digit_of c \<le> 9 then leading_number (10 * v + digit_of c) cs else v)"

definition atoi :: "string \<Rightarrow> int result" where
  "atoi s =
     (case dropWhile (\<lambda>c. c \<in> set '' \<newline>'' \<or> c \<in> set [CHR 0x09, CHR 0x0B, CHR 0x0C, CHR 0x0D]) s of
        [] \<Rightarrow> Inr 0
      | c # cs \<Rightarrow> cint (if c = CHR ''-'' then - leading_number 0 cs
                      else if c = CHR ''+'' then leading_number 0 cs else leading_number 0 (c # cs)))"

text \<open>The key file holds eight words, the low byte first.\<close>

definition user_words :: "8 word list \<Rightarrow> 16 word list" where
  "user_words bytes = map (\<lambda>i. word_cat (bytes ! (2 * i + 1)) (bytes ! (2 * i))) [0..<nat USERKEY_LENGTH]"

definition crypt_key :: "cuda_runtime \<Rightarrow> action \<Rightarrow> 16 word list \<Rightarrow> int list run" where
  "crypt_key rt a userkey =
     (case cudaMallocHost rt 0 (KEY_LENGTH * 4) of None \<Rightarrow> Inl (Exit 1)
      | Some _ \<Rightarrow> (case a of
          ENCRYPT \<Rightarrow> lift (generateEncryptKey userkey)
        | DECRYPT \<Rightarrow> (case cudaMallocHost rt 1 (KEY_LENGTH * 4) of None \<Rightarrow> Inl (Exit 1)
            | Some _ \<Rightarrow> lift (generateDecryptKey userkey))))"

type_synonym files = "string \<Rightarrow> 8 word list option"

text \<open>The part of \<open>main\<close> behind the checks: the buffers, the run and the output.\<close>

definition crypt_file :: "cuda_runtime \<Rightarrow> int \<Rightarrow> int list \<Rightarrow> 8 word list \<Rightarrow> 8 word list run" where
  "crypt_file rt threads key content =
     (case cudaMallocHost rt 2 (int (length content)) of None \<Rightarrow> Inl (Exit 1)
      | Some _ \<Rightarrow> (case cudaMallocHost rt 3 (int (length content)) of None \<Rightarrow> Inl (Exit 1)
        | Some crypt \<Rightarrow> (case deviceCount rt of
            None \<Rightarrow> lift (h_encrypt_decrypt content crypt key (to_int (int (length content))))
          | Some n \<Rightarrow> crypt_on_devices rt n threads content crypt key)))"

text \<open>
  The output file is emptied when it is opened, before the key and the text are looked at.
\<close>

definition crypt_main :: "cuda_runtime \<Rightarrow> (string \<Rightarrow> bool) \<Rightarrow> files \<Rightarrow> string list \<Rightarrow> (int \<times> files) run" where
  "crypt_main rt writable fs argv =
     (if length argv \<noteq> 6 then Inr (1, fs)
      else case crypt_action (argv ! 1) of None \<Rightarrow> Inr (1, fs)
      | Some a \<Rightarrow> (case fs (argv ! 2) of None \<Rightarrow> Inr (1, fs)
        | Some input \<Rightarrow>
            if \<not> writable (argv ! 3) then Inr (1, fs)
            else (let fs' = fs(argv ! 3 \<mapsto> []); content = (if argv ! 2 = argv ! 3 then [] else input) in
              case fs' (argv ! 4) of None \<Rightarrow> Inr (1, fs')
              | Some keyfile \<Rightarrow> bindx (lift (atoi (argv ! 5))) (\<lambda>threads.
                  if int (length keyfile) \<noteq> 2 * USERKEY_LENGTH then Inr (1, fs')
                  else bindx (crypt_key rt a (user_words keyfile)) (\<lambda>key.
                    if int (length content) mod CHUNK_SIZE \<noteq> 0 then Inr (1, fs')
                    else bindx (crypt_file rt threads key content) (\<lambda>crypt.
                      Inr (0, fs'(argv ! 3 \<mapsto> crypt))))))))"

section \<open>The program on good input\<close>

definition host_memory :: "cuda_runtime \<Rightarrow> int \<Rightarrow> bool" where
  "host_memory rt n \<longleftrightarrow> (\<forall>c len. 0 \<le> len \<and> len \<le> n \<longrightarrow>
     (\<exists>buf. cudaMallocHost rt c len = Some buf \<and> int (length buf) = len))"

text \<open>The devices, or the host when there is none, can take a text of \<open>N\<close> chunks.\<close>

definition crypt_ready :: "cuda_runtime \<Rightarrow> int \<Rightarrow> nat \<Rightarrow> bool" where
  "crypt_ready rt threads N \<longleftrightarrow> host_memory rt (int (8 * N) + KEY_LENGTH * 4) \<and> 8 * N \<le> 2000000000
     \<and> (case deviceCount rt of None \<Rightarrow> True
        | Some n \<Rightarrow> 0 < n \<and> runtime_ok rt threads N \<and> split_ok N (nat n))"

lemma crypt_file_text:
  assumes r: "crypt_ready rt threads N" and len: "length content = 8 * N" and k: "key_ok key"
  shows "crypt_file rt threads key content = Inr (crypt_text key content)"
proof -
  have m: "\<exists>buf. cudaMallocHost rt c (int (8 * N)) = Some buf \<and> int (length buf) = int (8 * N)" for c
    using r by (auto simp: crypt_ready_def host_memory_def KEY_LENGTH_def)
  obtain x where x: "cudaMallocHost rt 2 (int (8 * N)) = Some x" using m by blast
  obtain crypt where c: "cudaMallocHost rt 3 (int (8 * N)) = Some crypt" "int (length crypt) = int (8 * N)" using m by blast
  then have lc: "length crypt = length content" using len of_nat_eq_iff by metis
  have n: "to_int (int (length content)) = int (length content)" using r len by (simp add: crypt_ready_def in_int_iff)
  show ?thesis
  proof (cases "deviceCount rt")
    case None
    then show ?thesis
      using x c(1) host_text [OF k lc len] n by (simp add: crypt_file_def len)
  next
    case (Some n)
    then have "0 < n" "runtime_ok rt threads N" "split_ok N (nat n)" using r by (simp_all add: crypt_ready_def)
    then show ?thesis
      using devices_text [OF _ _ len lc k, of rt threads "nat n"] x c(1) Some by (simp add: crypt_file_def len)
  qed
qed

lemma crypt_main_text:
  assumes r: "crypt_ready rt threads N" and len: "length content = 8 * N" and k: "key_ok key"
    and files: "fs inp = Some content" "fs keyname = Some keyfile" "inp \<noteq> outp" "keyname \<noteq> outp" "writable outp"
    and key: "length keyfile = 16" "crypt_key rt a (user_words keyfile) = Inr key"
    and args: "crypt_action act = Some a" "atoi T = Inr threads"
  shows "crypt_main rt writable fs [prog, act, inp, outp, keyname, T] = Inr (0, fs(outp \<mapsto> crypt_text key content))"
  using files key args crypt_file_text [OF r len k] len
  by (simp add: crypt_main_def USERKEY_LENGTH_def CHUNK_SIZE_def)

lemma crypt_key_value:
  assumes "crypt_ready rt threads N" "generateEncryptKey userkey = Inr Z" "key16 Z"
  shows "crypt_key rt ENCRYPT userkey = Inr Z" "crypt_key rt DECRYPT userkey = Inr (decrypt_key Z)"
proof -
  have "\<exists>buf. cudaMallocHost rt c (KEY_LENGTH * 4) = Some buf" for c
  proof -
    have "0 \<le> KEY_LENGTH * 4 \<and> KEY_LENGTH * 4 \<le> int (8 * N) + KEY_LENGTH * 4" by (simp add: KEY_LENGTH_def)
    then show ?thesis using assms(1) unfolding crypt_ready_def host_memory_def by blast
  qed
  then show "crypt_key rt ENCRYPT userkey = Inr Z" "crypt_key rt DECRYPT userkey = Inr (decrypt_key Z)"
    using assms(2) generateDecryptKey_value [OF assms(2,3)] by (auto simp: crypt_key_def split: option.splits)
qed

lemma length_user_words [simp]: "length (user_words bytes) = 8"
  by (simp add: user_words_def USERKEY_LENGTH_def)

section \<open>A device without work\<close>

lemma mapr_nth: "mapr f xs = Inr ys \<Longrightarrow> i < length xs \<Longrightarrow> f (xs ! i) = Inr (ys ! i)"
  by (induction xs arbitrary: ys i) (auto simp: bindr_eq_Inr nth_Cons split: nat.splits)

lemma bindx_eq_Inr: "bindx r f = Inr y \<longleftrightarrow> (\<exists>x. r = Inr x \<and> f x = Inr y)"
  by (auto simp: bindx_def split: sum.splits)

lemma lift_eq_Inr: "lift r = Inr x \<longleftrightarrow> r = Inr x"
  by (auto simp: lift_def split: sum.splits)

lemma mapx_nth: "mapx f xs = Inr ys \<Longrightarrow> i < length xs \<Longrightarrow> f (xs ! i) = Inr (ys ! i)"
  by (induction xs arbitrary: ys i) (auto simp: bindx_eq_Inr nth_Cons split: nat.splits)

lemma late_range:
  assumes "N \<le> d * q" "0 < q" "8 * (d * q + q) \<le> 2000000000"
  shows "device_range (int (8 * N)) (int q) (int d) = Inr (int (8 * (d * q)), int (8 * N) - int (8 * (d * q)))"
proof -
  have c: "cint (int d * int q) = Inr (int (d * q))" "cint (int (d * q) * 8) = Inr (int (8 * (d * q)))"
      "cint (int q * 8) = Inr (int (8 * q))" "cint (int (8 * (d * q)) + int (8 * q)) = Inr (int (8 * (d * q + q)))"
    using assms(3) by (simp_all add: in_int_iff flip: of_nat_mult of_nat_add)
  have s: "to_size (int (8 * (d * q + q))) = int (8 * (d * q + q))"
    using assms(3) by (simp add: to_size_def flip: of_nat_mult of_nat_add)
  have "8 * N \<le> 8 * (d * q)" "8 * (d * q) \<le> 2000000000" "8 * N < 8 * (d * q + q)"
    using assms unfolding distrib_left by linarith+
  then have "int (8 * (d * q + q)) > int (8 * N)" "in_int (int (8 * N) - int (8 * (d * q)))"
    unfolding in_int_iff of_nat_less_iff by linarith+
  then show ?thesis unfolding device_range_def CHUNK_SIZE_def c bindr_simps s by simp
qed

text \<open>A part of length 0 has no stream, and a negative length is refused by the device.\<close>

lemma empty_context:
  assumes "init_context malloc d 0 = Inr ctx"
  shows "nBlocks ctx = 0"
  using assms
  by (auto simp: init_context_def CHUNK_SIZE_def crem_def cdiv_def BLOCK_SIZE_IN_CHUNKS_def in_int_iff sgn_if split: option.splits)

lemma negative_context:
  assumes "\<And>c len. 2 ^ 63 \<le> len \<Longrightarrow> malloc c len = None" "0 < k" "8 * k \<le> 2000000000"
  shows "init_context malloc d (- (8 * k)) = Inl (Exit 1)"
proof -
  have "(- (8 * k)) mod 2 ^ 64 = (2 ^ 64 + - (8 * k)) mod 2 ^ 64" by (simp only: mod_add_self1)
  also have "\<dots> = 2 ^ 64 - 8 * k" using assms(2,3) by (subst mod_pos_pos_trivial) simp_all
  finally have "to_size (- (8 * k)) = 2 ^ 64 - 8 * k" by (simp only: to_size_def)
  then have "malloc (2 * d) (to_size (- (8 * k))) = None" using assms by simp
  then show ?thesis using assms(2) by (simp add: init_context_def CHUNK_SIZE_def crem_def abs_mult)
qed

section \<open>A run of one stream after the other\<close>

text \<open>Every work has a run: the streams in turn, and in each the chunks in turn.\<close>

definition stream_ops :: "int \<Rightarrow> stream_work \<Rightarrow> nat \<Rightarrow> nat \<Rightarrow> gpu_op list" where
  "stream_ops maxThreads w d b =
     Copy_in d b # map (Crypt_chunk d b) (if launch_ok maxThreads w then [0..localChunks w - 1] else []) @ [Copy_out d b]"

definition in_turn :: "int \<Rightarrow> stream_work list list \<Rightarrow> gpu_op list" where
  "in_turn maxThreads works =
     concat (map (\<lambda>d. concat (map (\<lambda>b. stream_ops maxThreads (works ! d ! b) d b) [0..<length (works ! d)])) [0..<length works])"

lemma filter_concat_one:
  "i < n \<Longrightarrow> (\<And>j. filter P (f j) = (if j = i then r else [])) \<Longrightarrow> filter P (concat (map f [0..<n])) = r"
proof -
  assume "i < n" and f: "\<And>j. filter P (f j) = (if j = i then r else [])"
  have "filter P (concat (map f [0..<m])) = (if i < m then r else [])" for m
    by (induction m) (auto simp: f)
  then show ?thesis using \<open>i < n\<close> by simp
qed

lemma stream_ops_filter:
  "filter (\<lambda>op. stream_of op = (d, b)) (stream_ops maxThreads w d' b') = (if d' = d \<and> b' = b then stream_ops maxThreads w d b else [])"
  by (auto simp: stream_ops_def filter_empty_conv)

lemma in_turn_is_run: "is_run maxThreads works (in_turn maxThreads works)"
  unfolding is_run_def
proof (intro conjI ballI allI impI)
  fix op assume "op \<in> set (in_turn maxThreads works)"
  then show "case stream_of op of (d, b) \<Rightarrow> d < length works \<and> b < length (works ! d)"
    by (auto simp: in_turn_def stream_ops_def)
next
  fix d b assume d: "d < length works" and b: "b < length (works ! d)"
  let ?w = "works ! d ! b"
  have "filter (\<lambda>op. stream_of op = (d, b)) (concat (map (\<lambda>b. stream_ops maxThreads (works ! d' ! b) d' b) [0..<length (works ! d')]))
      = (if d' = d then stream_ops maxThreads ?w d b else [])" for d'
  proof (cases "d' = d")
    case True
    then show ?thesis using b by (simp add: filter_concat_one [of b] stream_ops_filter)
  next
    case False
    then show ?thesis by (simp add: filter_empty_conv) (auto simp: stream_ops_def)
  qed
  then have "filter (\<lambda>op. stream_of op = (d, b)) (in_turn maxThreads works) = stream_ops maxThreads ?w d b"
    unfolding in_turn_def by (rule filter_concat_one [OF d])
  moreover have "kernel_steps maxThreads ?w (if launch_ok maxThreads ?w then [0..localChunks ?w - 1] else [])"
    by (simp add: kernel_steps_def launch_ok_def schedule_in_order)
  ultimately show "stream_run maxThreads works (in_turn maxThreads works) d b"
    unfolding stream_run_def stream_ops_def by blast
qed

text \<open>A runtime with \<open>n\<close> devices that grants up to 10000 bytes.\<close>

definition sample_runtime :: "int \<Rightarrow> cuda_runtime" where
  "sample_runtime n =
     (let grant = (\<lambda>c len. if 0 \<le> len \<and> len \<le> 10000 then Some (replicate (nat len) 0) else None) in
      \<lparr>cudaMalloc = grant, cudaMallocHost = grant, deviceCount = Some n, maxGridSize = 65535,
       maxThreadsPerBlock = 1024, run_order = in_turn 1024\<rparr>)"

lemma sample_runtime_ok: "8 * N \<le> 9000 \<Longrightarrow> runtime_ok (sample_runtime n) 256 N"
  by (simp add: runtime_ok_def sample_runtime_def allocates_def in_turn_is_run Let_def)

lemma sample_ready: "crypt_ready (sample_runtime 1) 256 1"
proof -
  have "split_ok 1 1" by (simp add: split_ok_def chunks_per_device_def)
  moreover have "deviceCount (sample_runtime 1) = Some 1" "host_memory (sample_runtime 1) (8 + 208)"
    by (simp_all add: sample_runtime_def host_memory_def Let_def)
  ultimately show ?thesis
    using sample_runtime_ok [of 1 1] by (simp add: crypt_ready_def KEY_LENGTH_def)
qed

section \<open>Properties\<close>

text \<open>
  C13. For every number of devices, provided each gets a chunk, every number of threads that the
  device admits and every order of the streams, the devices return what the loop on the host
  returns.
\<close>

theorem devices_equal_host:
  assumes "runtime_ok rt threads N" "split_ok N n" "length plain = 8 * N" "length crypt = length plain" "length key = 52"
  shows "crypt_on_devices rt (int n) threads plain crypt key = lift (h_encrypt_decrypt plain crypt key (int (length plain)))"
  using devices_text [OF assms(1-4) key_ok_length [OF assms(5)]] host_text [OF key_ok_length [OF assms(5)] assms(4,3)]
  by simp

theorem devices_equal_host_witness:
  "crypt_on_devices (sample_runtime 2) 2 256 (replicate 24 7) (replicate 24 0) (replicate 52 2)
   = lift (h_encrypt_decrypt (replicate 24 7) (replicate 24 0) (replicate 52 2) 24)"
  using devices_equal_host [of "sample_runtime 2" 256 3 2 "replicate 24 7" "replicate 24 0" "replicate 52 2"]
    sample_runtime_ok [of 3 2]
  by (simp add: split_ok_def chunks_per_device_def)

text \<open>
  When the text does not reach the last device, the program stops without a result: the
  length of the last part is 0, and there is no stream for the key, or it is negative, and the
  device refuses the allocation.
\<close>

theorem device_without_work:
  assumes "1 < n" "0 < N" "N \<le> (n - 1) * chunks_per_device N n" "8 * (N + n) \<le> 2000000000" "length plain = 8 * N"
    "\<And>c len. 2 ^ 63 \<le> len \<Longrightarrow> cudaMalloc rt c len = None"
  shows "\<exists>stop. crypt_on_devices rt (int n) threads plain crypt key = Inl stop"
proof (rule ccontr)
  let ?q = "chunks_per_device N n" and ?d = "n - 1"
  have n: "0 < n" "8 * N + 8 * n \<le> 2000000000" using assms(1,4) by simp_all
  assume "\<not> ?thesis"
  then obtain out where out: "crypt_on_devices rt (int n) threads plain crypt key = Inr out"
    by (cases "crypt_on_devices rt (int n) threads plain crypt key") auto
  have t: "to_int (int (length plain) div 8) = int N" using assms(5) n(2) by (simp add: in_int_iff)
  have q: "cint (int N + int n) = Inr (int N + int n)" "cint (int N + int n - 1) = Inr (int N + int n - 1)"
      "cdiv (int N + int n - 1) (int n) = Inr (int ?q)"
    using n chunks_per_device_int [OF n(1)] by (simp_all add: in_int_iff cdiv_nonneg)
  obtain rs cs ws where rs: "mapr (\<lambda>d. device_range (int (length plain)) (int ?q) (int d)) [0..<n] = Inr rs"
    and cs: "mapx (\<lambda>d. init_context (cudaMalloc rt) d (snd (rs ! d))) [0..<n] = Inr cs"
    and ws: "mapr (\<lambda>d. encrypt_decrypt_driver (maxGridSize rt) (snd (rs ! d)) threads (cs ! d)) [0..<n] = Inr ws"
    using out unfolding crypt_on_devices_def Let_def CHUNK_SIZE_def t q bindr_simps run_simps nat_int
    by (auto simp: bindx_eq_Inr lift_eq_Inr simp del: mapr.simps mapx.simps upt_Suc)
  have nq: "?d * ?q + ?q = n * ?q" using n(1) by (cases n) simp_all
  have "8 * (n * ?q) \<le> 8 * (N + n)" using chunks_per_device_bounds(2) [OF n(1), of N] by (intro mult_le_mono2) simp
  then have small: "8 * (?d * ?q + ?q) \<le> 2000000000" unfolding nq using assms(4) by linarith
  have "0 < ?q" using chunks_per_device_bounds(1) [OF n(1), of N] assms(2) by (intro gr0I) simp
  note late = late_range [OF assms(3) this small]
  have "device_range (int (8 * N)) (int ?q) (int ?d) = Inr (rs ! ?d)"
    using mapr_nth [OF rs, of ?d] n(1) assms(5) by simp
  then have "snd (rs ! ?d) = int (8 * N) - int (8 * (?d * ?q))"
    unfolding late sum.inject by (metis snd_conv)
  note sk = this
  have "8 * (?d * ?q) \<le> 2000000000" using small unfolding distrib_left by (rule add_leD1)
  moreover have "\<exists>k. s = - (8 * k) \<and> 0 \<le> k \<and> 8 * k \<le> 2000000000"
    if "N \<le> x" "8 * x \<le> 2000000000" "s = int (8 * N) - int (8 * x)" for x s
    using that by (intro exI [of _ "int x - int N"]) auto
  ultimately obtain k where k: "snd (rs ! ?d) = - (8 * k)" "0 \<le> k" "8 * k \<le> 2000000000"
    using assms(3) sk by blast
  have ctx: "init_context (cudaMalloc rt) ?d (- (8 * k)) = Inr (cs ! ?d)"
    using mapx_nth [OF cs, of ?d] n(1) k(1) by simp
  show False
  proof (cases "k = 0")
    case True
    then have "nBlocks (cs ! ?d) = 0" using ctx empty_context by simp
    moreover have "encrypt_decrypt_driver (maxGridSize rt) (snd (rs ! ?d)) threads (cs ! ?d) = Inr (ws ! ?d)"
      using mapr_nth [OF ws, of ?d] n(1) by simp
    ultimately show False by (simp add: encrypt_decrypt_driver_def bindr_eq_Inr Let_def)
  next
    case False
    then show False using negative_context [OF assms(6)] k(2,3) ctx by simp
  qed
qed

theorem device_without_work_witness:
  "\<exists>stop. crypt_on_devices (sample_runtime 4) 4 256 (replicate 40 7) (replicate 40 0) (replicate 52 2) = Inl stop"
  using device_without_work [of 4 5 "replicate 40 7" "sample_runtime 4" 256 "replicate 40 0" "replicate 52 2"]
  by (simp add: chunks_per_device_def sample_runtime_def Let_def)

text \<open>
  C10. With one key file and a text of whole chunks, both runs return 0, and the second writes a text that
  agrees with the first in every chunk whose encryption loses no product (\<open>clean_block\<close>), hence the
  first text when none is lost. A product is lost when it is 65536, which 16 bits store as 0; by
  \<open>idea_collision\<close> the other chunks cannot be decrypted in general.
\<close>

theorem crypt_program_round_trip:
  assumes "crypt_ready rt threads N" "length content = 8 * N"
    and "length keyfile = 16" "generateEncryptKey (user_words keyfile) = Inr Z"
    and "atoi T = Inr threads"
    and "fs inp = Some content" "fs keyname = Some keyfile" "distinct [inp, enc, outp, keyname]" "writable enc" "writable outp"
  shows "\<exists>fs' fs'' decrypted. crypt_main rt writable fs [prog, ''encrypt'', inp, enc, keyname, T] = Inr (0, fs')
    \<and> crypt_main rt writable fs' [prog, ''decrypt'', enc, outp, keyname, T] = Inr (0, fs'') \<and> fs'' outp = Some decrypted
    \<and> length decrypted = length content
    \<and> (\<forall>i < length content. clean_block Z (load_block content (i div 8)) \<longrightarrow> decrypted ! i = content ! i)
    \<and> (clean_text Z content \<longrightarrow> decrypted = content)"
proof -
  have Z: "key16 Z" using generateEncryptKey_ok [of "user_words keyfile"] assms(4) by auto
  have k: "key_ok Z" "key_ok (decrypt_key Z)" using Z by (simp_all add: key_ok_length key16_def decrypt_key_length)
  note keys = crypt_key_value [OF assms(1,4) Z]
  have act: "crypt_action ''encrypt'' = Some ENCRYPT" "crypt_action ''decrypt'' = Some DECRYPT"
    by (simp_all add: crypt_action_def)
  let ?fs = "fs(enc \<mapsto> crypt_text Z content)"
  have ne: "inp \<noteq> enc" "keyname \<noteq> enc" "enc \<noteq> outp" "keyname \<noteq> outp" using assms(8) by auto
  have "crypt_main rt writable fs [prog, ''encrypt'', inp, enc, keyname, T] = Inr (0, ?fs)"
    by (rule crypt_main_text [where fs = fs and inp = inp and keyname = keyname and outp = enc and writable = writable,
          OF assms(1,2) k(1) assms(6,7) ne(1,2) assms(9,3) keys(1) act(1) assms(5)])
  moreover have "?fs enc = Some (crypt_text Z content)" "?fs keyname = Some keyfile" using assms(7) ne(2) by simp_all
  moreover have "length (crypt_text Z content) = 8 * N" using assms(2) by simp
  ultimately have "crypt_main rt writable fs [prog, ''encrypt'', inp, enc, keyname, T] = Inr (0, ?fs)
      \<and> crypt_main rt writable ?fs [prog, ''decrypt'', enc, outp, keyname, T]
        = Inr (0, ?fs(outp \<mapsto> crypt_text (decrypt_key Z) (crypt_text Z content)))"
    using crypt_main_text [where fs = ?fs and inp = enc and keyname = keyname and outp = outp and writable = writable,
          OF assms(1) _ k(2) _ _ ne(3,4) assms(10,3) keys(2) act(2) assms(5), of "crypt_text Z content" prog]
    by blast
  then show ?thesis using decrypt_chunk [OF Z assms(2)] decrypt_text [OF Z assms(2)] by auto
qed

definition sample_files :: files where
  "sample_files = [''text'' \<mapsto> [1, 0, 2, 0, 3, 0, 4, 0], ''key'' \<mapsto> [1, 0, 2, 0, 3, 0, 4, 0, 5, 0, 6, 0, 7, 0, 8, 0]]"

lemma sample_user_words: "user_words [1, 0, 2, 0, 3, 0, 4, 0, 5, 0, 6, 0, 7, 0, 8, 0] = [1, 2, 3, 4, 5, 6, 7, 8]"
  by code_simp

theorem crypt_program_round_trip_witness:
  "\<exists>fs' fs''. crypt_main (sample_runtime 1) (\<lambda>_. True) sample_files [''crypt'', ''encrypt'', ''text'', ''enc'', ''key'', ''256''] = Inr (0, fs')
    \<and> crypt_main (sample_runtime 1) (\<lambda>_. True) fs' [''crypt'', ''decrypt'', ''enc'', ''out'', ''key'', ''256''] = Inr (0, fs'')
    \<and> fs'' ''out'' = Some [1, 0, 2, 0, 3, 0, 4, 0]"
proof -
  have "atoi ''256'' = Inr 256" by code_simp
  from crypt_program_round_trip [OF sample_ready _ _ _ this, where content = "[1, 0, 2, 0, 3, 0, 4, 0]" and Z = sample_key
      and keyfile = "[1, 0, 2, 0, 3, 0, 4, 0, 5, 0, 6, 0, 7, 0, 8, 0]" and fs = sample_files and inp = "''text''"
      and keyname = "''key''" and enc = "''enc''" and outp = "''out''" and writable = "\<lambda>_. True" and prog = "''crypt''"]
  show ?thesis using sample_text_clean by (simp add: sample_files_def sample_user_words sample_key_generated)
qed

end
