(* ===== verification/Device_Grid.thy ===== *)
theory Device_Grid
  imports Transition
begin

text \<open>
  A grid of CUDA threads at work on an input and an output array, with one tile of shared
  memory for each block. The control flow of the kernels here depends on the coordinates of a
  thread alone, so the code of a kernel gives, for each thread, the statements that touch
  memory; the grid interleaves the statements of all threads, and the threads of a block pass
  a barrier together. A barrier that one thread of the block waits at and another one has left behind
  by ending is undefined behaviour: the CUDA manual allows \<open>__syncthreads\<close> in conditional code only
  where the condition is the same for the whole block.

  The locale \<open>copying_kernel\<close> is the contract of a kernel that moves elements: every statement
  moves an element to where it belongs. It shows, for all interleavings, that no access fails,
  that a run cannot get stuck or go on for ever, and what the output holds at its end.
\<close>

section \<open>Threads and their statements\<close>

type_synonym block_index = "nat \<times> nat"
type_synonym thread = "block_index \<times> (nat \<times> nat)"
type_synonym cell = "nat \<times> nat"

datatype instr =
    Load cell nat    \<comment> \<open>\<open>tile[y][x] = in[i]\<close>\<close>
  | Barrier          \<comment> \<open>\<open>__syncthreads()\<close>\<close>
  | Store nat cell   \<comment> \<open>\<open>out[o] = tile[y][x]\<close>\<close>
  | Move nat nat     \<comment> \<open>\<open>out[o] = in[i]\<close>\<close>

text \<open>A launch: the dimensions of the grid, of a block and of the tile, and the code.\<close>

record kernel =
  gridDim :: "nat \<times> nat"
  blockDim :: "nat \<times> nat"
  tileDim :: "nat \<times> nat"
  code :: "thread \<Rightarrow> instr list"

definition pairs :: "nat \<times> nat \<Rightarrow> (nat \<times> nat) list" where
  "pairs d = List.product [0..<fst d] [0..<snd d]"

definition blocks :: "kernel \<Rightarrow> block_index list" where
  "blocks K = pairs (gridDim K)"

definition threads :: "kernel \<Rightarrow> thread list" where
  "threads K = List.product (blocks K) (pairs (blockDim K))"

definition in_tile :: "kernel \<Rightarrow> cell \<Rightarrow> bool" where
  "in_tile K c \<longleftrightarrow> fst c < fst (tileDim K) \<and> snd c < snd (tileDim K)"

record 'a device =
  pending :: "thread \<Rightarrow> instr list"
  tiles :: "block_index \<Rightarrow> cell \<Rightarrow> 'a option"
  outp :: "'a list"
  failed :: bool

text \<open>Shared memory is not initialised, and reading a cell before it is written is an error.\<close>

fun execute :: "kernel \<Rightarrow> 'a list \<Rightarrow> block_index \<Rightarrow> instr \<Rightarrow> 'a device \<Rightarrow> 'a device result" where
  "execute K xs b (Load c i) s =
     (if in_tile K c
      then bindr (vget xs (int i)) (\<lambda>v.
        Inr (s\<lparr>tiles := (tiles s)(b := (tiles s b)(c \<mapsto> v))\<rparr>))
      else Inl Undefined_Behaviour)"
| "execute K xs b Barrier s = Inr s"
| "execute K xs b (Store o' c) s =
     (case if in_tile K c then tiles s b c else None of
        None \<Rightarrow> Inl Undefined_Behaviour
      | Some v \<Rightarrow> bindr (vset (outp s) (int o') v) (\<lambda>ys. Inr (s\<lparr>outp := ys\<rparr>)))"
| "execute K xs b (Move o' i) s =
     bindr (vget xs (int i)) (\<lambda>v.
       bindr (vset (outp s) (int o') v) (\<lambda>ys. Inr (s\<lparr>outp := ys\<rparr>)))"

definition launched :: "kernel \<Rightarrow> 'a list \<Rightarrow> 'a device" where
  "launched K ys = \<lparr>pending = code K, tiles = (\<lambda>_ _. None), outp = ys, failed = False\<rparr>"

definition finished :: "kernel \<Rightarrow> 'a device \<Rightarrow> bool" where
  "finished K s \<longleftrightarrow> list_all (\<lambda>th. pending s th = []) (threads K)"

definition at_barrier :: "kernel \<Rightarrow> 'a device \<Rightarrow> block_index \<Rightarrow> bool" where
  "at_barrier K s b \<longleftrightarrow>
     list_all (\<lambda>t. pending s (b, t) \<noteq> [] \<and> hd (pending s (b, t)) = Barrier) (pairs (blockDim K))"

inductive grid_step :: "kernel \<Rightarrow> 'a list \<Rightarrow> 'a device \<Rightarrow> 'a device \<Rightarrow> bool"
  for K :: kernel and xs :: "'a list" where
  thread_step: "grid_step K xs s (s'\<lparr>pending := (pending s)(th := ps)\<rparr>)"
    if "\<not> failed s" "th \<in> set (threads K)" "pending s th = ins # ps" "ins \<noteq> Barrier"
      "execute K xs (fst th) ins s = Inr s'"
| thread_fails: "grid_step K xs s (s\<lparr>failed := True\<rparr>)"
    if "\<not> failed s" "th \<in> set (threads K)" "pending s th = ins # ps" "ins \<noteq> Barrier"
      "execute K xs (fst th) ins s = Inl e"
| barrier_opens: "grid_step K xs s
    (s\<lparr>pending := (\<lambda>th. if fst th = b then tl (pending s th) else pending s th)\<rparr>)"
    if "\<not> failed s" "b \<in> set (blocks K)" "at_barrier K s b"
| barrier_diverges: "grid_step K xs s (s\<lparr>failed := True\<rparr>)"
    if "\<not> failed s" "th \<in> set (threads K)" "pending s th = Barrier # ps"
      "th' \<in> set (threads K)" "fst th' = fst th" "pending s th' = []"

text \<open>
  A run that has failed has undefined behaviour and no further transitions.

  The statements that are still to be executed.
\<close>

definition remaining :: "kernel \<Rightarrow> 'a device \<Rightarrow> nat" where
  "remaining K s = (\<Sum>th\<leftarrow>threads K. length (pending s th))"

definition reaches :: "kernel \<Rightarrow> 'a list \<Rightarrow> 'a list \<Rightarrow> 'a device \<Rightarrow> bool" where
  "reaches K xs ys s \<longleftrightarrow> reach (\<lambda>s. s = launched K ys) (grid_step K xs) s"

lemma set_pairs: "p \<in> set (pairs d) \<longleftrightarrow> fst p < fst d \<and> snd p < snd d"
  by (cases p) (simp add: pairs_def)

lemma set_blocks: "b \<in> set (blocks K) \<longleftrightarrow> fst b < fst (gridDim K) \<and> snd b < snd (gridDim K)"
  by (simp add: blocks_def set_pairs)

lemma set_threads:
  "th \<in> set (threads K) \<longleftrightarrow> fst th \<in> set (blocks K) \<and> snd th \<in> set (pairs (blockDim K))"
  by (cases th) (simp add: threads_def)

lemma distinct_threads: "distinct (threads K)"
  by (simp add: threads_def blocks_def pairs_def distinct_product)

lemma finished_iff: "finished K s \<longleftrightarrow> (\<forall>th \<in> set (threads K). pending s th = [])"
  by (simp add: finished_def list_all_iff)

lemma at_barrierD:
  assumes "at_barrier K s (fst th)" "th \<in> set (threads K)"
  shows "\<exists>ps. pending s th = Barrier # ps"
proof -
  have "pending s th \<noteq> [] \<and> hd (pending s th) = Barrier"
    using assms by (cases th) (simp add: at_barrier_def list_all_iff set_threads)
  then show ?thesis by (cases "pending s th") auto
qed

lemma at_barrierI:
  assumes "\<And>th. th \<in> set (threads K) \<Longrightarrow> fst th = b \<Longrightarrow> \<exists>ps. pending s th = Barrier # ps"
    and "b \<in> set (blocks K)"
  shows "at_barrier K s b"
  unfolding at_barrier_def list_all_iff
proof
  fix t assume "t \<in> set (pairs (blockDim K))"
  then have "\<exists>ps. pending s (b, t) = Barrier # ps" using assms by (simp add: set_threads)
  then show "pending s (b, t) \<noteq> [] \<and> hd (pending s (b, t)) = Barrier" by auto
qed

lemma sum_list_upd:
  "distinct ts \<Longrightarrow> t \<in> set ts \<Longrightarrow>
   (\<Sum>u\<leftarrow>ts. length ((f(t := p)) u)) + length (f t) = (\<Sum>u\<leftarrow>ts. length (f u)) + length p"
proof (induction ts)
  case (Cons u ts)
  show ?case
  proof (cases "t = u")
    case True
    then have "(\<Sum>u\<leftarrow>ts. length ((f(t := p)) u)) = (\<Sum>u\<leftarrow>ts. length (f u))"
      using Cons.prems by (intro arg_cong [of _ _ sum_list] map_cong) auto
    then show ?thesis using True by simp
  next
    case False
    then show ?thesis using Cons by simp
  qed
qed simp

lemma sum_list_less:
  assumes "\<And>u. u \<in> set ts \<Longrightarrow> f u \<le> (g u :: nat)" "t \<in> set ts" "f t < g t"
  shows "sum_list (map f ts) < sum_list (map g ts)"
  using assms
proof (induction ts)
  case (Cons u ts)
  have l: "sum_list (map f ts) \<le> sum_list (map g ts)"
    by (rule sum_list_mono) (simp add: Cons.prems(1))
  show ?case
  proof (cases "t = u")
    case True
    then show ?thesis using l Cons.prems(3) by simp
  next
    case False
    then have "sum_list (map f ts) < sum_list (map g ts)" using Cons by simp
    then show ?thesis using Cons.prems(1) [of u] by simp
  qed
qed simp

lemma execute_pending: "execute K xs b ins s = Inr s' \<Longrightarrow> pending s' = pending s"
  by (cases ins) (auto simp: bindr_eq_Inr split: if_splits option.splits)

lemma remaining_thread:
  assumes "th \<in> set (threads K)" "pending s th = ins # ps"
  shows "remaining K (s'\<lparr>pending := (pending s)(th := ps)\<rparr>) < remaining K s"
  using sum_list_upd [OF distinct_threads assms(1), of "pending s" ps] assms(2)
  by (simp add: remaining_def)

lemma remaining_barrier:
  assumes "th \<in> set (threads K)" "at_barrier K s (fst th)"
  shows "remaining K (s\<lparr>pending := (\<lambda>t. if fst t = fst th then tl (pending s t) else pending s t)\<rparr>)
         < remaining K s"
proof -
  obtain ps where p: "pending s th = Barrier # ps" using at_barrierD [OF assms(2,1)] by auto
  show ?thesis unfolding remaining_def
    by (rule sum_list_less [where t = th]) (auto simp: p assms(1))
qed

section \<open>Barriers in divergent code\<close>

lemma execute_failed: "execute K xs b ins s = Inr s' \<Longrightarrow> failed s' = failed s"
  by (cases ins) (auto simp: bindr_eq_Inr split: if_splits option.splits)

text \<open>
  Where one thread of a block comes to a barrier after its first statement and another one has no
  statement at all, some run fails.
\<close>

lemma barrier_diverges_run:
  assumes "th \<in> set (threads K)" "th' \<in> set (threads K)" "fst th' = fst th"
    and "code K th = ins # Barrier # ps" "ins \<noteq> Barrier" "code K th' = []"
  shows "\<exists>s. reaches K xs ys s \<and> failed s"
proof -
  let ?s = "launched K ys"
  have start: "reach (\<lambda>s. s = ?s) (grid_step K xs) ?s" by (rule reach_init) simp
  have p: "pending ?s th = ins # Barrier # ps" "pending ?s th' = []" "\<not> failed ?s"
    using assms(4,6) by (simp_all add: launched_def)
  show ?thesis
  proof (cases "execute K xs (fst th) ins ?s")
    case (Inl e)
    from reach_step [OF start grid_step.thread_fails [OF p(3) assms(1) p(1) assms(5) Inl]]
    show ?thesis unfolding reaches_def by (intro exI [of _ "?s\<lparr>failed := True\<rparr>"] conjI) simp_all
  next
    case (Inr s')
    let ?t = "s'\<lparr>pending := (pending ?s)(th := Barrier # ps)\<rparr>"
    have t: "reach (\<lambda>s. s = ?s) (grid_step K xs) ?t"
      by (rule reach_step [OF start grid_step.thread_step [OF p(3) assms(1) p(1) assms(5) Inr]])
    have "th' \<noteq> th" using assms(4,6) by auto
    then have "pending ?t th = Barrier # ps" "pending ?t th' = []" "\<not> failed ?t"
      using p(2,3) execute_failed [OF Inr] by simp_all
    then have "grid_step K xs ?t (?t\<lparr>failed := True\<rparr>)"
      using grid_step.barrier_diverges [of ?t th K ps th' xs] assms(1-3) by blast
    from reach_step [OF t this] show ?thesis unfolding reaches_def by (intro exI [of _ "?t\<lparr>failed := True\<rparr>"] conjI) simp_all
  qed
qed

section \<open>Kernels that move elements\<close>

fun target :: "instr \<Rightarrow> nat option" where
  "target (Load c i) = None"
| "target Barrier = None"
| "target (Store o' c) = Some o'"
| "target (Move o' i) = Some o'"

definition writes :: "kernel \<Rightarrow> nat \<Rightarrow> bool" where
  "writes K o' \<longleftrightarrow> list_ex (\<lambda>th. list_ex (\<lambda>ins. target ins = Some o') (code K th)) (threads K)"

lemma writesI: "th \<in> set (threads K) \<Longrightarrow> ins \<in> set (code K th) \<Longrightarrow> target ins = Some o' \<Longrightarrow> writes K o'"
  unfolding writes_def list_ex_iff by blast

text \<open>
  \<open>want\<close> says which element belongs into a cell of the tile of a block, and \<open>src\<close> which one
  belongs into a position of the output.
\<close>

locale copying_kernel =
  fixes K :: kernel
    and xs :: "'a list"
    and m :: nat
    and sync :: bool
    and ld st :: "thread \<Rightarrow> instr list"
    and want :: "block_index \<Rightarrow> cell \<Rightarrow> nat"
    and src :: "nat \<Rightarrow> nat"
  assumes block_pos: "0 < fst (blockDim K)" "0 < snd (blockDim K)"
    and code_eq: "th \<in> set (threads K) \<Longrightarrow>
      code K th = ld th @ (if sync then [Barrier] else []) @ st th"
    and loads_right: "th \<in> set (threads K) \<Longrightarrow> ins \<in> set (ld th) \<Longrightarrow>
      \<exists>c i. ins = Load c i \<and> in_tile K c \<and> i = want (fst th) c \<and> i < length xs"
    and stores_right: "th \<in> set (threads K) \<Longrightarrow> ins \<in> set (st th) \<Longrightarrow>
      (\<exists>o' i. ins = Move o' i \<and> i = src o' \<and> i < length xs \<and> o' < m)
      \<or> (\<exists>o' c. ins = Store o' c \<and> o' < m \<and> in_tile K c \<and> want (fst th) c = src o'
          \<and> (\<exists>th' \<in> set (threads K). fst th' = fst th \<and> Load c (src o') \<in> set (ld th')))"
    and no_sync: "\<not> sync \<Longrightarrow> th \<in> set (threads K) \<Longrightarrow> ld th = []"
begin

definition before :: "'a device \<Rightarrow> thread \<Rightarrow> bool" where
  "before s th \<longleftrightarrow> (\<exists>pre rest. ld th = pre @ rest \<and> pending s th = rest @ Barrier # st th
     \<and> (\<forall>c i. Load c i \<in> set pre \<longrightarrow> tiles s (fst th) c \<noteq> None))"

definition after :: "'a device \<Rightarrow> thread \<Rightarrow> bool" where
  "after s th \<longleftrightarrow> (\<exists>pre. st th = pre @ pending s th
     \<and> (\<forall>ins o'. ins \<in> set pre \<longrightarrow> target ins = Some o' \<longrightarrow> outp s ! o' = xs ! src o')
     \<and> (\<forall>c i. Load c i \<in> set (ld th) \<longrightarrow> tiles s (fst th) c \<noteq> None))"

definition phases :: "(block_index \<Rightarrow> bool) \<Rightarrow> 'a device \<Rightarrow> bool" where
  "phases P s \<longleftrightarrow> (\<forall>th \<in> set (threads K). if P (fst th) then after s th else sync \<and> before s th)"

definition right :: "'a list \<Rightarrow> 'a device \<Rightarrow> bool" where
  "right ys s \<longleftrightarrow> \<not> failed s \<and> length (outp s) = m
     \<and> (\<forall>b c v. tiles s b c = Some v \<longrightarrow> v = xs ! want b c)
     \<and> (\<forall>o' < m. outp s ! o' = ys ! o' \<or> outp s ! o' = xs ! src o' \<and> writes K o')"

definition grid_inv :: "'a list \<Rightarrow> 'a device \<Rightarrow> bool" where
  "grid_inv ys s \<longleftrightarrow> right ys s \<and> (\<exists>P. phases P s)"

lemma grid_inv_start: "length ys = m \<Longrightarrow> grid_inv ys (launched K ys)"
proof -
  assume l: "length ys = m"
  have "right ys (launched K ys)" by (simp add: right_def launched_def l)
  moreover have "phases (\<lambda>_. \<not> sync) (launched K ys)"
    unfolding phases_def
  proof
    fix th assume t: "th \<in> set (threads K)"
    show "if \<not> sync then after (launched K ys) th else sync \<and> before (launched K ys) th"
      using code_eq [OF t] no_sync [OF _ t] by (auto simp: after_def before_def launched_def)
  qed
  ultimately show ?thesis unfolding grid_inv_def by blast
qed

text \<open>What other threads do keeps what a thread has reached.\<close>

definition grows :: "'a device \<Rightarrow> 'a device \<Rightarrow> bool" where
  "grows s s' \<longleftrightarrow> (\<forall>b c. tiles s b c \<noteq> None \<longrightarrow> tiles s' b c \<noteq> None)
     \<and> (\<forall>o'. outp s ! o' = xs ! src o' \<longrightarrow> outp s' ! o' = xs ! src o')"

lemma before_grows: "before s th \<Longrightarrow> grows s s' \<Longrightarrow> pending s' th = pending s th \<Longrightarrow> before s' th"
  unfolding before_def grows_def by (metis (no_types, lifting))

lemma after_grows: "after s th \<Longrightarrow> grows s s' \<Longrightarrow> pending s' th = pending s th \<Longrightarrow> after s' th"
  unfolding after_def grows_def by (metis (no_types, lifting))

text \<open>A statement that is next in a right state does not fail, and what it leaves is right.\<close>

lemma load_step:
  assumes "right ys s" "th \<in> set (threads K)" "Load c i \<in> set (ld th)"
  shows "\<exists>s'. execute K xs (fst th) (Load c i) s = Inr s' \<and> right ys s' \<and> grows s s'
           \<and> tiles s' (fst th) c \<noteq> None"
proof -
  have c: "in_tile K c" "i = want (fst th) c" "i < length xs"
    using loads_right [OF assms(2,3)] by auto
  let ?s = "s\<lparr>tiles := (tiles s)(fst th := (tiles s (fst th))(c \<mapsto> xs ! i))\<rparr>"
  have "execute K xs (fst th) (Load c i) s = Inr ?s" using c by simp
  moreover have "right ys ?s"
    using assms(1) c by (auto simp: right_def simp del: split_paired_All split: if_splits)
  ultimately show ?thesis by (auto simp: grows_def)
qed

lemma write_right:
  assumes "right ys s" "o' < m" "writes K o'"
  shows "right ys (s\<lparr>outp := (outp s)[o' := xs ! src o']\<rparr>)"
    and "grows s (s\<lparr>outp := (outp s)[o' := xs ! src o']\<rparr>)"
  using assms by (auto simp: right_def grows_def nth_list_update)

lemma store_step:
  assumes "right ys s" "th \<in> set (threads K)" "ins \<in> set (st th)" "phases P s" "P (fst th)"
  shows "\<exists>s'. execute K xs (fst th) ins s = Inr s' \<and> right ys s' \<and> grows s s'
           \<and> (\<forall>o'. target ins = Some o' \<longrightarrow> outp s' ! o' = xs ! src o')"
proof -
  have code: "ins \<in> set (code K th)" using code_eq [OF assms(2)] assms(3) by simp
  have len: "length (outp s) = m" using assms(1) by (simp add: right_def)
  consider (mv) o' i where "ins = Move o' i" "i = src o'" "i < length xs" "o' < m"
    | (sto) o' c th' where "ins = Store o' c" "o' < m" "in_tile K c" "want (fst th) c = src o'"
        "th' \<in> set (threads K)" "fst th' = fst th" "Load c (src o') \<in> set (ld th')"
    using stores_right [OF assms(2,3)] by blast
  then show ?thesis
  proof cases
    case mv
    have "writes K o'" by (rule writesI [OF assms(2) code]) (simp add: mv(1))
    then show ?thesis using write_right [OF assms(1) mv(4)] mv len by simp
  next
    case sto
    have "writes K o'" by (rule writesI [OF assms(2) code]) (simp add: sto(1))
    note w = write_right [OF assms(1) sto(2) this]
    have "after s th'" using assms(4,5) sto(5,6) by (simp add: phases_def split: if_splits)
    then have "tiles s (fst th) c \<noteq> None" using sto(6,7) unfolding after_def by metis
    then obtain v where "tiles s (fst th) c = Some v" by auto
    moreover from this have "v = xs ! src o'"
      using assms(1) sto(4) unfolding right_def by metis
    ultimately show ?thesis using w sto len by simp
  qed
qed

text \<open>A step keeps the invariant, whichever thread takes it.\<close>

lemma phases_other:
  assumes "phases P s" "grows s s'" "\<And>t. t \<noteq> th \<Longrightarrow> pending s' t = pending s t"
    and "th \<in> set (threads K) \<Longrightarrow> if P (fst th) then after s' th else sync \<and> before s' th"
  shows "phases P s'"
  unfolding phases_def
proof
  fix t assume "t \<in> set (threads K)"
  then show "if P (fst t) then after s' t else sync \<and> before s' t"
    using assms before_grows [of s t s'] after_grows [of s t s'] unfolding phases_def
    by (cases "t = th") (auto split: if_splits)
qed

lemma after_advance:
  assumes "after s th" "pending s th = ins # ps" "grows s s'" "pending s' th = ps"
    and "\<And>o'. target ins = Some o' \<Longrightarrow> outp s' ! o' = xs ! src o'"
  shows "after s' th"
proof -
  obtain pre where p: "st th = pre @ ins # ps"
    "\<And>ins o'. ins \<in> set pre \<Longrightarrow> target ins = Some o' \<Longrightarrow> outp s ! o' = xs ! src o'"
    "\<And>c i. Load c i \<in> set (ld th) \<Longrightarrow> tiles s (fst th) c \<noteq> None"
    using assms(1,2) unfolding after_def by metis
  have "st th = (pre @ [ins]) @ pending s' th" using p(1) assms(4) by simp
  moreover have "\<And>ins' o'. ins' \<in> set (pre @ [ins]) \<Longrightarrow> target ins' = Some o' \<Longrightarrow>
      outp s' ! o' = xs ! src o'"
    using p(2) assms(3,5) unfolding grows_def by auto
  moreover have "\<And>c i. Load c i \<in> set (ld th) \<Longrightarrow> tiles s' (fst th) c \<noteq> None"
    using p(3) assms(3) unfolding grows_def by blast
  ultimately show ?thesis unfolding after_def by blast
qed

lemma before_advance:
  assumes "before s th" "pending s th = Load c i # ps" "grows s s'" "pending s' th = ps"
    and "tiles s' (fst th) c \<noteq> None"
  shows "before s' th"
proof -
  obtain pre rest where p: "ld th = pre @ rest" "Load c i # ps = rest @ Barrier # st th"
    "\<And>c i. Load c i \<in> set pre \<Longrightarrow> tiles s (fst th) c \<noteq> None"
    using assms(1,2) unfolding before_def by metis
  obtain rest' where r: "rest = Load c i # rest'" "ps = rest' @ Barrier # st th"
    using p(2) by (cases rest) auto
  have "ld th = (pre @ [Load c i]) @ rest'" using p(1) r(1) by simp
  moreover have "\<And>c' i'. Load c' i' \<in> set (pre @ [Load c i]) \<Longrightarrow> tiles s' (fst th) c' \<noteq> None"
  proof -
    fix c' i' assume "Load c' i' \<in> set (pre @ [Load c i])"
    then consider "Load c' i' \<in> set pre" | "c' = c" by auto
    then show "tiles s' (fst th) c' \<noteq> None"
    proof cases
      case 1
      then show ?thesis using p(3) assms(3) unfolding grows_def by blast
    next
      case 2
      then show ?thesis using assms(5) by simp
    qed
  qed
  ultimately show ?thesis using r(2) assms(4) unfolding before_def by blast
qed

lemma head_before:
  assumes "th \<in> set (threads K)" "before s th" "pending s th = ins # ps" "ins \<noteq> Barrier"
  obtains c i where "ins = Load c i" "Load c i \<in> set (ld th)"
proof -
  obtain pre rest where p: "ld th = pre @ rest" "ins # ps = rest @ Barrier # st th"
    using assms(2,3) unfolding before_def by metis
  then have "ins \<in> set (ld th)" using assms(4) by (cases rest) auto
  then show ?thesis using loads_right [OF assms(1)] that by blast
qed

lemma head_after:
  assumes "after s th" "pending s th = ins # ps"
  shows "ins \<in> set (st th)"
  using assms unfolding after_def by auto

lemma thread_ok:
  assumes "grid_inv ys s" "th \<in> set (threads K)" "pending s th = ins # ps" "ins \<noteq> Barrier"
  shows "\<exists>s'. execute K xs (fst th) ins s = Inr s'
           \<and> grid_inv ys (s'\<lparr>pending := (pending s)(th := ps)\<rparr>)"
proof -
  obtain P where P: "right ys s" "phases P s" using assms(1) by (auto simp: grid_inv_def)
  show ?thesis
  proof (cases "P (fst th)")
    case True
    then have a: "after s th" using P(2) assms(2) by (simp add: phases_def split: if_splits)
    obtain s' where s': "execute K xs (fst th) ins s = Inr s'" "right ys s'" "grows s s'"
      "\<forall>o'. target ins = Some o' \<longrightarrow> outp s' ! o' = xs ! src o'"
      using store_step [OF P(1) assms(2) head_after [OF a assms(3)] P(2) True] by blast
    let ?s = "s'\<lparr>pending := (pending s)(th := ps)\<rparr>"
    have g: "grows s ?s" "right ys ?s" using s'(2,3) by (simp_all add: grows_def right_def)
    have "phases P ?s"
      by (rule phases_other [OF P(2) g(1), of th])
        (use s'(4) True after_advance [OF a assms(3) g(1)] in auto)
    then show ?thesis using s'(1) g(2) by (auto simp: grid_inv_def)
  next
    case False
    then have b: "sync" "before s th" using P(2) assms(2) by (simp_all add: phases_def split: if_splits)
    obtain c i where ci: "ins = Load c i" "Load c i \<in> set (ld th)"
      using head_before [OF assms(2) b(2) assms(3,4)] .
    obtain s' where s': "execute K xs (fst th) ins s = Inr s'" "right ys s'" "grows s s'"
      "tiles s' (fst th) c \<noteq> None"
      using load_step [OF P(1) assms(2) ci(2)] ci(1) by blast
    let ?s = "s'\<lparr>pending := (pending s)(th := ps)\<rparr>"
    have g: "grows s ?s" "right ys ?s" using s'(2,3) by (simp_all add: grows_def right_def)
    have "before ?s th"
      by (rule before_advance [OF b(2), of c i ps]) (use assms(3) ci(1) g(1) s'(4) in auto)
    then have "phases P ?s"
      using b(1) False by (intro phases_other [OF P(2) g(1), of th]) auto
    then show ?thesis using s'(1) g(2) by (auto simp: grid_inv_def)
  qed
qed

text \<open>A barrier opens only when the whole block has loaded its tile.\<close>

lemma no_barrier_stores: "th \<in> set (threads K) \<Longrightarrow> Barrier \<notin> set (st th)"
  using stores_right [of th Barrier] by auto

lemma no_barrier_loads: "th \<in> set (threads K) \<Longrightarrow> Barrier \<notin> set (ld th)"
  using loads_right [of th Barrier] by auto

lemma before_barrier:
  assumes "th \<in> set (threads K)" "before s th" "pending s th = Barrier # ps"
  shows "ps = st th" "\<And>c i. Load c i \<in> set (ld th) \<Longrightarrow> tiles s (fst th) c \<noteq> None"
proof -
  obtain pre rest where p: "ld th = pre @ rest" "Barrier # ps = rest @ Barrier # st th"
    "\<And>c i. Load c i \<in> set pre \<Longrightarrow> tiles s (fst th) c \<noteq> None"
    using assms(2,3) unfolding before_def by metis
  have "rest = []" using p(1,2) no_barrier_loads [OF assms(1)] by (cases rest) auto
  then show "ps = st th" "\<And>c i. Load c i \<in> set (ld th) \<Longrightarrow> tiles s (fst th) c \<noteq> None"
    using p by auto
qed

lemma after_no_barrier: "th \<in> set (threads K) \<Longrightarrow> after s th \<Longrightarrow> pending s th \<noteq> Barrier # ps"
  using no_barrier_stores [of th] unfolding after_def by auto

lemma barrier_ok:
  assumes "grid_inv ys s" "at_barrier K s b"
  shows "grid_inv ys (s\<lparr>pending := (\<lambda>th. if fst th = b then tl (pending s th) else pending s th)\<rparr>)"
    (is "grid_inv ys ?s")
proof -
  obtain P where P: "right ys s" "phases P s" using assms(1) by (auto simp: grid_inv_def)
  have g: "grows s ?s" by (simp add: grows_def)
  have "phases (P(b := True)) ?s"
    unfolding phases_def
  proof
    fix th assume t: "th \<in> set (threads K)"
    have ph: "if P (fst th) then after s th else sync \<and> before s th"
      using P(2) t by (simp add: phases_def)
    show "if (P(b := True)) (fst th) then after ?s th else sync \<and> before ?s th"
    proof (cases "fst th = b")
      case True
      then obtain ps where ps: "pending s th = Barrier # ps" using at_barrierD assms(2) t by blast
      then have b: "before s th" using ph after_no_barrier [OF t] by (auto split: if_splits)
      have "after ?s th"
        using before_barrier [OF t b ps] True ps unfolding after_def by auto
      then show ?thesis using True by simp
    next
      case False
      then show ?thesis using ph before_grows [OF _ g] after_grows [OF _ g]
        by (auto split: if_splits)
    qed
  qed
  moreover have "right ys ?s" using P(1) by (simp add: right_def)
  ultimately show ?thesis by (auto simp: grid_inv_def)
qed

text \<open>No thread of a block ends while another one waits at the barrier.\<close>

lemma no_divergence:
  assumes "grid_inv ys s" "th \<in> set (threads K)" "pending s th = Barrier # ps"
    and "th' \<in> set (threads K)" "fst th' = fst th"
  shows "pending s th' \<noteq> []"
proof -
  obtain P where P: "phases P s" using assms(1) by (auto simp: grid_inv_def)
  then have "\<not> P (fst th)"
    using assms(2,3) after_no_barrier [OF assms(2)] unfolding phases_def by metis
  then have "before s th'" using P assms(4,5) by (simp add: phases_def)
  then show ?thesis unfolding before_def by auto
qed

lemma grid_inv_step:
  assumes "grid_inv ys s" "grid_step K xs s s'"
  shows "grid_inv ys s' \<and> remaining K s' < remaining K s"
  using assms(2)
proof cases
  case (thread_step th ins ps s1)
  then show ?thesis
    using thread_ok [OF assms(1) thread_step(3,4,5)] remaining_thread [OF thread_step(3,4)] by auto
next
  case (thread_fails th ins ps e)
  then show ?thesis using thread_ok [OF assms(1) thread_fails(3,4,5)] by auto
next
  case (barrier_opens b)
  have "(b, 0, 0) \<in> set (threads K)"
    using barrier_opens(3) block_pos by (simp add: set_threads set_pairs)
  then show ?thesis
    using barrier_ok [OF assms(1) barrier_opens(4)] barrier_opens(1,4)
      remaining_barrier [of "(b, 0, 0)" K s] by simp
next
  case (barrier_diverges th ps th')
  then show ?thesis
    using no_divergence [OF assms(1)] by (metis list.distinct(1))
qed

lemma grid_inv_enabled:
  assumes "grid_inv ys s" "\<not> finished K s"
  shows "\<exists>s'. grid_step K xs s s'"
proof -
  obtain P where P: "right ys s" "phases P s" using assms(1) by (auto simp: grid_inv_def)
  have nf: "\<not> failed s" using P(1) by (simp add: right_def)
  have can: "\<exists>s'. grid_step K xs s s'"
    if th: "th \<in> set (threads K)" "pending s th = ins # ps" "ins \<noteq> Barrier" for th ins ps
    using thread_ok [OF assms(1) th] grid_step.thread_step [OF nf th] by blast
  obtain th where t: "th \<in> set (threads K)" "pending s th \<noteq> []"
    using assms(2) by (auto simp: finished_iff)
  show ?thesis
  proof (cases "\<exists>ps. pending s th = Barrier # ps")
    case False
    then show ?thesis using can [OF t(1)] t(2) by (metis neq_Nil_conv)
  next
    case True
    then have "\<not> P (fst th)"
      using P(2) t(1) after_no_barrier [OF t(1)] unfolding phases_def by metis
    then have ne: "pending s u \<noteq> []" if "u \<in> set (threads K)" "fst u = fst th" for u
      using P(2) that unfolding phases_def before_def by (metis Nil_is_append_conv list.discI)
    show ?thesis
    proof (cases "\<forall>u \<in> set (threads K). fst u = fst th \<longrightarrow> (\<exists>ps. pending s u = Barrier # ps)")
      case True
      have "fst th \<in> set (blocks K)" using t(1) by (simp add: set_threads)
      then show ?thesis
        using grid_step.barrier_opens [OF nf, of "fst th" K] at_barrierI [of K "fst th" s] True by blast
    next
      case False
      then show ?thesis using can ne by (metis neq_Nil_conv)
    qed
  qed
qed

lemma written_stores:
  assumes "writes K o'"
  obtains th ins where "th \<in> set (threads K)" "ins \<in> set (st th)" "target ins = Some o'"
proof -
  obtain th ins where a: "th \<in> set (threads K)" "ins \<in> set (code K th)" "target ins = Some o'"
    using assms unfolding writes_def list_ex_iff by blast
  have "ins \<notin> set (ld th)" using loads_right [OF a(1)] a(3) by fastforce
  then have "ins \<in> set (st th)" using a code_eq [OF a(1)] by (auto split: if_splits)
  then show thesis using that a by blast
qed

lemma grid_inv_final:
  assumes "grid_inv ys s" "finished K s" "length ys = m"
  shows "outp s = map (\<lambda>o'. if writes K o' then xs ! src o' else ys ! o') [0..<m]"
proof (rule nth_equalityI)
  obtain P where P: "right ys s" "phases P s" using assms(1) by (auto simp: grid_inv_def)
  show l: "length (outp s) = length (map (\<lambda>o'. if writes K o' then xs ! src o' else ys ! o') [0..<m])"
    using P(1) by (simp add: right_def)
  fix o' assume "o' < length (outp s)"
  then have m: "o' < m" using l by simp
  show "outp s ! o' = map (\<lambda>o'. if writes K o' then xs ! src o' else ys ! o') [0..<m] ! o'"
  proof (cases "writes K o'")
    case True
    then obtain th ins where w: "th \<in> set (threads K)" "ins \<in> set (st th)" "target ins = Some o'"
      by (rule written_stores)
    have e: "pending s th = []" using assms(2) w(1) by (simp add: finished_iff)
    then have "after s th"
      using P(2) w(1) unfolding phases_def before_def by (metis Nil_is_append_conv list.discI)
    then have "outp s ! o' = xs ! src o'" using w(2,3) e unfolding after_def by (metis append_Nil2)
    then show ?thesis using True m by simp
  next
    case False
    then show ?thesis using P(1) m by (auto simp: right_def)
  qed
qed

text \<open>All runs.\<close>

lemma reaches_inv: "reaches K xs ys s \<Longrightarrow> length ys = m \<Longrightarrow> grid_inv ys s"
proof -
  assume "length ys = m"
  then have inv: "invariant_of (\<lambda>s. s = launched K ys) (grid_step K xs) (grid_inv ys)"
    by unfold_locales (use grid_inv_start grid_inv_step in blast)+
  assume "reaches K xs ys s"
  then show ?thesis using invariant_of.reachable [OF inv] by (simp add: reaches_def)
qed

lemma every_run:
  assumes "reaches K xs ys s" "length ys = m"
  shows "\<not> failed s"
    and "\<not> finished K s \<Longrightarrow> \<exists>s'. grid_step K xs s s'"
    and "grid_step K xs s s' \<Longrightarrow> remaining K s' < remaining K s"
    and "finished K s \<Longrightarrow>
      outp s = map (\<lambda>o'. if writes K o' then xs ! src o' else ys ! o') [0..<m]"
proof -
  have i: "grid_inv ys s" by (rule reaches_inv [OF assms])
  show "\<not> failed s" using i by (simp add: grid_inv_def right_def)
  show "\<not> finished K s \<Longrightarrow> \<exists>s'. grid_step K xs s s'" by (rule grid_inv_enabled [OF i])
  show "grid_step K xs s s' \<Longrightarrow> remaining K s' < remaining K s" using grid_inv_step [OF i] by blast
  show "finished K s \<Longrightarrow> outp s = map (\<lambda>o'. if writes K o' then xs ! src o' else ys ! o') [0..<m]"
    by (rule grid_inv_final [OF i _ assms(2)])
qed

lemma run_ends:
  "reaches K xs ys s \<Longrightarrow> length ys = m \<Longrightarrow> \<exists>s'. reaches K xs ys s' \<and> finished K s'"
proof (induction "remaining K s" arbitrary: s rule: less_induct)
  case less
  show ?case
  proof (cases "finished K s")
    case False
    then obtain s' where "grid_step K xs s s'" using every_run(2) [OF less.prems] by blast
    moreover from this have "reaches K xs ys s'"
      using less.prems(1) unfolding reaches_def by (rule reach_step [rotated])
    ultimately show ?thesis using less.hyps less.prems every_run(3) by blast
  qed (use less.prems in blast)
qed

end

text \<open>Kernels without a tile need no barrier.\<close>

lemma move_kernel:
  assumes "0 < fst (blockDim K)" "0 < snd (blockDim K)"
    and "\<And>th ins. th \<in> set (threads K) \<Longrightarrow> ins \<in> set (code K th) \<Longrightarrow>
      \<exists>o' i. ins = Move o' i \<and> i = src o' \<and> i < length xs \<and> o' < m"
  shows "copying_kernel K xs m False (\<lambda>_. []) (code K) (\<lambda>_ _. 0) src"
  by unfold_locales (use assms in auto)

text \<open>A thread that reads outside the input never ends.\<close>

lemma bad_move_unfinished:
  assumes "reaches K xs ys s" "th \<in> set (threads K)" "Move o' i \<in> set (code K th)" "length xs \<le> i"
  shows "\<not> finished K s"
proof -
  let ?inv = "\<lambda>s. Move o' i \<in> set (pending s th)"
  have inv: "invariant_of (\<lambda>s. s = launched K ys) (grid_step K xs) ?inv"
  proof
    fix s assume "s = launched K ys"
    then show "?inv s" using assms(3) by (simp add: launched_def)
  next
    fix s s' assume "?inv s" "grid_step K xs s s'"
    from this(2,1) show "?inv s'"
    proof (induction rule: grid_step.induct [consumes 1, case_names thread fail barrier diverge])
      case (thread s u ins ps s1)
      have "ins \<noteq> Move o' i" using thread(5) assms(4) by auto
      then show ?case using thread by auto
    next
      case (barrier s b)
      have "hd (pending s th) \<noteq> Move o' i" if "fst th = b"
        using at_barrierD [of K s th] barrier that assms(2) by auto
      then show ?case using barrier by (cases "pending s th") auto
    qed auto
  qed
  have "?inv s" using invariant_of.reachable [OF inv] assms(1) by (simp add: reaches_def)
  then have "pending s th \<noteq> []" by auto
  then show ?thesis using assms(2) unfolding finished_iff by blast
qed

end
