(* ===== verification/Transpose_Tiles.thy ===== *)
theory Transpose_Tiles
  imports Device_Grid
begin

text \<open>
  The matrix transposition of \<^verbatim>\<open>CodeSamples/chapter05/transposeRectangle.cu\<close> in the CUDA
  samples: the host, ten kernels, and the main program that compares them. The first kernels
  move elements directly; the others pass a tile of shared memory. Offsets are unsigned
  and wrap; the ones that are used do not, as long as the matrix has less than \<open>2 ^ 31\<close> elements.

  Three kernels call \<open>__syncthreads\<close> inside the boundary test. They transpose a matrix whose sides
  are multiples of the block's; on every other one their behaviour is undefined.
\<close>

section \<open>The host\<close>

definition BDIMX :: nat where "BDIMX = 16"
definition BDIMY :: nat where "BDIMY = BDIMX"
definition IPAD :: nat where "IPAD = 2"

text \<open>The macro \<open>INDEX\<close>, on unsigned and on signed operands.\<close>

definition INDEX :: "nat \<Rightarrow> nat \<Rightarrow> nat \<Rightarrow> nat" where
  "INDEX row col inner = u32 (row * inner + col)"

definition host_INDEX :: "nat \<Rightarrow> nat \<Rightarrow> nat \<Rightarrow> int result" where
  "host_INDEX row col inner = bindr (cint (int row * int inner)) (\<lambda>p. cint (p + int col))"

definition host_cell :: "nat \<Rightarrow> nat \<Rightarrow> 'a list \<Rightarrow> nat \<times> nat \<Rightarrow> 'a list \<Rightarrow> 'a list result" where
  "host_cell nrows ncols xs p ys = (case p of (iy, ix) \<Rightarrow>
     bindr (host_INDEX iy ix ncols) (\<lambda>i. bindr (vget xs i) (\<lambda>v.
     bindr (host_INDEX ix iy nrows) (\<lambda>k. vset ys k v))))"

definition transposeHost :: "'a list \<Rightarrow> 'a list \<Rightarrow> nat \<Rightarrow> nat \<Rightarrow> 'a list result" where
  "transposeHost out xs nrows ncols =
     iterr (host_cell nrows ncols xs) (List.product [0..<nrows] [0..<ncols]) out"

text \<open>\<open>differ\<close> is the comparison with \<open>epsilon\<close>. The loops stop at the first difference.\<close>

definition checkResult :: "('a \<Rightarrow> 'a \<Rightarrow> bool) \<Rightarrow> 'a list \<Rightarrow> 'a list \<Rightarrow> nat \<Rightarrow> nat \<Rightarrow> bool result" where
  "checkResult differ hostRef gpuRef rows cols =
     bindr (mapr (\<lambda>(i, j). bindr (host_INDEX i j cols) (\<lambda>k.
         bindr (vget hostRef k) (\<lambda>a. bindr (vget gpuRef k) (\<lambda>b. Inr (\<not> differ a b)))))
       (List.product [0..<rows] [0..<cols])) (\<lambda>ms. Inr (list_all (\<lambda>m. m) ms))"

section \<open>Kernels without a tile\<close>

fun copyGmem :: "nat \<Rightarrow> nat \<Rightarrow> nat \<times> nat \<Rightarrow> thread \<Rightarrow> instr list" where
  "copyGmem nrows ncols (bdx, bdy) ((bx, by'), (tx, ty)) =
     (let row = u32 (by' * bdy + ty); col = u32 (bx * bdx + tx) in
      if row < nrows \<and> col < ncols then [Move (INDEX col row nrows) (INDEX row col ncols)] else [])"

fun naiveGmem :: "nat \<Rightarrow> nat \<Rightarrow> nat \<times> nat \<Rightarrow> thread \<Rightarrow> instr list" where
  "naiveGmem nrows ncols (bdx, bdy) ((bx, by'), (tx, ty)) =
     (let row = u32 (by' * bdy + ty); col = u32 (bx * bdx + tx) in
      if row < nrows \<and> col < ncols then [Move (INDEX col row nrows) (INDEX row col ncols)] else [])"

fun naiveGmemUnroll :: "nat \<Rightarrow> nat \<Rightarrow> nat \<times> nat \<Rightarrow> thread \<Rightarrow> instr list" where
  "naiveGmemUnroll nrows ncols (bdx, bdy) ((bx, by'), (tx, ty)) =
     (let row = u32 (by' * bdy + ty); col = u32 (2 * bx * bdx + tx); col' = u32 (col + bdx) in
      if row < nrows
      then (if col < ncols then [Move (INDEX col row nrows) (INDEX row col ncols)] else [])
         @ (if col' < ncols then [Move (INDEX col' row nrows) (INDEX row col' ncols)] else [])
      else [])"

section \<open>Kernels with a tile\<close>

text \<open>The cells of a two-dimensional tile are \<open>(y, x)\<close>, those of a one-dimensional one \<open>(0, i)\<close>.\<close>

fun transposeSmem :: "nat \<Rightarrow> nat \<Rightarrow> nat \<times> nat \<Rightarrow> thread \<Rightarrow> instr list" where
  "transposeSmem nrows ncols (bdx, bdy) ((bx, by'), (tx, ty)) =
     (let row = u32 (bdy * by' + ty); col = u32 (bdx * bx + tx); offset = INDEX row col ncols;
          bidx = u32 (ty * bdx + tx); irow = bidx div bdy; icol = bidx mod bdy;
          col' = u32 (by' * bdy + icol); row' = u32 (bx * bdx + irow);
          transposed_offset = INDEX row' col' nrows in
      (if row < nrows \<and> col < ncols then [Load (ty, tx) offset] else [])
      @ [Barrier]
      @ (if row' < ncols \<and> col' < nrows then [Store transposed_offset (icol, irow)] else []))"

fun transposeSmemUnroll :: "nat \<Rightarrow> nat \<Rightarrow> nat \<times> nat \<Rightarrow> thread \<Rightarrow> instr list" where
  "transposeSmemUnroll nrows ncols (bdx, bdy) ((bx, by'), (tx, ty)) =
     (let row = u32 (by' * bdy + ty); col = u32 (2 * bx * bdx + tx);
          row2 = row; col2 = u32 (col + bdx);
          offset = INDEX row col ncols; offset2 = INDEX row2 col2 ncols;
          bidx = u32 (ty * bdx + tx); irow = bidx div bdy; icol = bidx mod bdy;
          transposed_offset = INDEX col row nrows; transposed_offset2 = INDEX col2 row2 nrows in
      (if row < nrows \<and> col < ncols then [Load (ty, tx) offset] else [])
      @ (if row2 < nrows \<and> col2 < ncols then [Load (ty, u32 (bdx + tx)) offset2] else [])
      @ [Barrier]
      @ (if row < nrows \<and> col < ncols then [Store transposed_offset (irow, icol)] else [])
      @ (if row2 < nrows \<and> col2 < ncols
         then [Store transposed_offset2 (irow, u32 (bdx + icol))] else []))"

fun transposeSmemUnrollPad :: "nat \<Rightarrow> nat \<Rightarrow> nat \<times> nat \<Rightarrow> thread \<Rightarrow> instr list" where
  "transposeSmemUnrollPad nrows ncols (bdx, bdy) ((bx, by'), (tx, ty)) =
     (let row = u32 (by' * bdy + ty); col = u32 (2 * bx * bdx + tx);
          row2 = row; col2 = u32 (col + bdx);
          offset = INDEX row col ncols; offset2 = INDEX row2 col2 ncols;
          bidx = u32 (ty * bdx + tx); irow = bidx div bdy; icol = bidx mod bdy;
          transposed_offset = INDEX col row nrows; transposed_offset2 = INDEX col2 row2 nrows in
      (if row < nrows \<and> col < ncols then [Load (ty, tx) offset] else [])
      @ (if row2 < nrows \<and> col2 < ncols then [Load (ty, u32 (bdx + tx)) offset2] else [])
      @ [Barrier]
      @ (if row < nrows \<and> col < ncols then [Store transposed_offset (irow, icol)] else [])
      @ (if row2 < nrows \<and> col2 < ncols
         then [Store transposed_offset2 (irow, u32 (bdx + icol))] else []))"

fun transposeSmemUnrollPadDyn :: "nat \<Rightarrow> nat \<Rightarrow> nat \<times> nat \<Rightarrow> thread \<Rightarrow> instr list" where
  "transposeSmemUnrollPadDyn nrows ncols (bdx, bdy) ((bx, by'), (tx, ty)) =
     (let row = u32 (by' * bdy + ty); col = u32 (2 * bx * bdx + tx);
          row2 = row; col2 = u32 (col + bdx);
          offset = INDEX row col ncols; offset2 = INDEX row2 col2 ncols;
          bidx = u32 (ty * bdx + tx); irow = bidx div bdy; icol = bidx mod bdy;
          transposed_offset = INDEX col row nrows; transposed_offset2 = INDEX col2 row2 nrows;
          pitch = BDIMX * 2 + IPAD in
      (if row < nrows \<and> col < ncols then [Load (0, INDEX ty tx pitch) offset] else [])
      @ (if row2 < nrows \<and> col2 < ncols then [Load (0, INDEX ty (bdx + tx) pitch) offset2] else [])
      @ [Barrier]
      @ (if row < nrows \<and> col < ncols then [Store transposed_offset (0, INDEX irow icol pitch)] else [])
      @ (if row2 < nrows \<and> col2 < ncols
         then [Store transposed_offset2 (0, INDEX irow (bdx + icol) pitch)] else []))"

fun transposeSmemPad :: "nat \<Rightarrow> nat \<Rightarrow> nat \<times> nat \<Rightarrow> thread \<Rightarrow> instr list" where
  "transposeSmemPad nrows ncols (bdx, bdy) ((bx, by'), (tx, ty)) =
     (let row = u32 (bdy * by' + ty); col = u32 (bdx * bx + tx); offset = INDEX row col ncols;
          bidx = u32 (ty * bdx + tx); irow = bidx div bdy; icol = bidx mod bdy;
          transposed_offset = INDEX col row nrows in
      if row < nrows \<and> col < ncols
      then [Load (ty, tx) offset, Barrier, Store transposed_offset (irow, icol)]
      else [])"

fun transposeSmemDyn :: "nat \<Rightarrow> nat \<Rightarrow> nat \<times> nat \<Rightarrow> thread \<Rightarrow> instr list" where
  "transposeSmemDyn nrows ncols (bdx, bdy) ((bx, by'), (tx, ty)) =
     (let row = u32 (bdy * by' + ty); col = u32 (bdx * bx + tx); offset = INDEX row col ncols;
          row_idx = u32 (ty * bdx + tx); irow = row_idx div bdy; icol = row_idx mod bdy;
          col_idx = u32 (irow * bdx + icol);
          transposed_offset = INDEX col row nrows in
      if row < nrows \<and> col < ncols
      then [Load (0, row_idx) offset, Barrier, Store transposed_offset (0, col_idx)]
      else [])"

fun transposeSmemPadDyn :: "nat \<Rightarrow> nat \<Rightarrow> nat \<times> nat \<Rightarrow> thread \<Rightarrow> instr list" where
  "transposeSmemPadDyn nrows ncols (bdx, bdy) ((bx, by'), (tx, ty)) =
     (let row = u32 (bdy * by' + ty); col = u32 (bdx * bx + tx); offset = INDEX row col ncols;
          idx = u32 (ty * bdx + tx); row_idx = u32 (ty * (bdx + IPAD) + tx);
          irow = idx div bdy; icol = idx mod bdy; col_idx = u32 (irow * (bdx + IPAD) + icol);
          transposed_offset = INDEX col row nrows in
      if row < nrows \<and> col < ncols
      then [Load (0, row_idx) offset, Barrier, Store transposed_offset (0, col_idx)]
      else [])"

section \<open>The main program\<close>

definition tile_block :: "nat \<times> nat" where
  "tile_block = (BDIMX, BDIMY)"

definition grid :: "nat \<Rightarrow> nat \<Rightarrow> nat \<times> nat" where
  "grid nrows ncols =
     (u32 (ncols + BDIMX - 1) div BDIMX, u32 (nrows + BDIMY - 1) div BDIMY)"

definition grid2 :: "nat \<Rightarrow> nat \<Rightarrow> nat \<times> nat" where
  "grid2 nrows ncols = (u32 (fst (grid nrows ncols) + 2 - 1) div 2, snd (grid nrows ncols))"

definition launch :: "nat \<times> nat \<Rightarrow> nat \<times> nat \<Rightarrow> (nat \<times> nat \<Rightarrow> thread \<Rightarrow> instr list) \<Rightarrow> kernel" where
  "launch g t c = \<lparr>gridDim = g, blockDim = tile_block, tileDim = t, code = c tile_block\<rparr>"

text \<open>The kernel whose result is not checked, and those whose result is, in their order.\<close>

definition first_launch :: "nat \<Rightarrow> nat \<Rightarrow> kernel" where
  "first_launch nrows ncols = launch (grid nrows ncols) (0, 0) (copyGmem nrows ncols)"

definition open_launches :: "nat \<Rightarrow> nat \<Rightarrow> kernel list" where
  "open_launches nrows ncols =
     [launch (grid nrows ncols) (0, 0) (naiveGmem nrows ncols),
      launch (grid2 nrows ncols) (0, 0) (naiveGmemUnroll nrows ncols),
      launch (grid nrows ncols) (BDIMY, BDIMX) (transposeSmem nrows ncols)]"

definition guarded_launches :: "nat \<Rightarrow> nat \<Rightarrow> kernel list" where
  "guarded_launches nrows ncols =
     [launch (grid nrows ncols) (BDIMY, BDIMX + IPAD) (transposeSmemPad nrows ncols),
      launch (grid nrows ncols) (1, BDIMX * BDIMY) (transposeSmemDyn nrows ncols),
      launch (grid nrows ncols) (1, (BDIMX + IPAD) * BDIMY) (transposeSmemPadDyn nrows ncols)]"

definition unrolled_launches :: "nat \<Rightarrow> nat \<Rightarrow> kernel list" where
  "unrolled_launches nrows ncols =
     [launch (grid2 nrows ncols) (BDIMY, BDIMX * 2) (transposeSmemUnroll nrows ncols),
      launch (grid2 nrows ncols) (BDIMY, BDIMX * 2 + IPAD) (transposeSmemUnrollPad nrows ncols),
      launch (grid2 nrows ncols) (1, (BDIMX * 2 + IPAD) * BDIMY) (transposeSmemUnrollPadDyn nrows ncols)]"

definition checked_launches :: "nat \<Rightarrow> nat \<Rightarrow> kernel list" where
  "checked_launches nrows ncols =
     open_launches nrows ncols @ guarded_launches nrows ncols @ unrolled_launches nrows ncols"

text \<open>
  A test ends with the verdict of \<open>checkResult\<close> when no run of its kernel has undefined behaviour and
  one is complete. \<open>zero\<close> is what \<open>cudaMemset\<close> leaves. The grids are within the limits of the device.
\<close>

definition runs_defined :: "kernel \<Rightarrow> 'a list \<Rightarrow> 'a list \<Rightarrow> bool" where
  "runs_defined K xs ys \<longleftrightarrow> (\<forall>s. reaches K xs ys s \<longrightarrow> \<not> failed s)"

definition test_ends :: "('a \<Rightarrow> 'a \<Rightarrow> bool) \<Rightarrow> 'a \<Rightarrow> nat \<Rightarrow> nat \<Rightarrow> 'a list \<Rightarrow> 'a list \<Rightarrow> kernel \<Rightarrow> bool \<Rightarrow> bool" where
  "test_ends differ zero nrows ncols host xs K v \<longleftrightarrow>
     runs_defined K xs (replicate (length xs) zero)
     \<and> (\<exists>s. reaches K xs (replicate (length xs) zero) s \<and> finished K s
        \<and> checkResult differ host (outp s) ncols nrows = Inr v)"

definition transpose_main :: "('a \<Rightarrow> 'a \<Rightarrow> bool) \<Rightarrow> 'a \<Rightarrow> nat \<Rightarrow> nat \<Rightarrow> 'a list \<Rightarrow> bool list \<Rightarrow> bool" where
  "transpose_main differ zero nrows ncols h_A verdicts \<longleftrightarrow>
     (\<exists>hostRef s. transposeHost (replicate (length h_A) zero) h_A nrows ncols = Inr hostRef
        \<and> runs_defined (first_launch nrows ncols) h_A (replicate (length h_A) zero)
        \<and> reaches (first_launch nrows ncols) h_A (replicate (length h_A) zero) s
        \<and> finished (first_launch nrows ncols) s
        \<and> list_all2 (test_ends differ zero nrows ncols hostRef h_A) (checked_launches nrows ncols) verdicts)"

end
