(* ===== verification/Transpose_Correct.thy ===== *)
theory Transpose_Correct
  imports Transpose_Tiles
begin

text \<open>
  The kernels of \<open>Transpose_Tiles\<close> transpose, in every interleaving. A kernel moves the element
  in row \<open>r\<close> and column \<open>k\<close> of the matrix to row \<open>k\<close> and column \<open>r\<close>; \<open>source\<close> says this for
  offsets. Each kernel is shown to be a \<open>copying_kernel\<close> for \<open>source\<close> that writes every element.
\<close>

section \<open>Offsets\<close>

definition rect_ok :: "nat \<Rightarrow> nat \<Rightarrow> 'a list \<Rightarrow> bool" where
  "rect_ok nrows ncols xs \<longleftrightarrow> 0 < nrows \<and> 0 < ncols \<and> int (nrows * ncols) \<le> int_max
     \<and> length xs = nrows * ncols"

definition source :: "nat \<Rightarrow> nat \<Rightarrow> nat \<Rightarrow> nat" where
  "source nrows ncols k = (k mod nrows) * ncols + k div nrows"

definition transposed :: "nat \<Rightarrow> nat \<Rightarrow> 'a list \<Rightarrow> 'a list" where
  "transposed nrows ncols xs = map (\<lambda>k. xs ! source nrows ncols k) [0..<nrows * ncols]"

lemma offset_less: "r < nrows \<Longrightarrow> k < ncols \<Longrightarrow> r * ncols + k < nrows * (ncols :: nat)"
proof -
  assume "r < nrows" "k < ncols"
  then have "r * ncols + k < Suc r * ncols" by simp
  also have "\<dots> \<le> nrows * ncols" using \<open>r < nrows\<close> by (intro mult_le_mono1) simp
  finally show ?thesis .
qed

lemma rect_bounds:
  assumes "rect_ok nrows ncols xs"
  shows "0 < nrows" "0 < ncols" "nrows < 2 ^ 31" "ncols < 2 ^ 31" "nrows * ncols < 2 ^ 31"
    "length xs = nrows * ncols"
proof -
  have n: "0 < nrows" "0 < ncols" "int (nrows * ncols) \<le> 2 ^ 31 - 1" "length xs = nrows * ncols"
    using assms by (simp_all add: rect_ok_def int_max_def)
  have "int (nrows * ncols) < int (2 ^ 31)" using n(3) by simp
  then have m: "nrows * ncols < 2 ^ 31" by (simp only: of_nat_less_iff)
  have "nrows \<le> nrows * ncols" "ncols \<le> nrows * ncols" using n(1,2) by simp_all
  then have "nrows < 2 ^ 31" "ncols < 2 ^ 31" using m by linarith+
  then show "0 < nrows" "0 < ncols" "nrows < 2 ^ 31" "ncols < 2 ^ 31" "nrows * ncols < 2 ^ 31"
    "length xs = nrows * ncols"
    using n m by blast+
qed

lemma INDEX_ok:
  assumes "rect_ok nrows ncols xs" "r < nrows" "k < ncols"
  shows "INDEX r k ncols = r * ncols + k" "INDEX k r nrows = k * nrows + r"
proof -
  have "r * ncols + k < nrows * ncols" "k * nrows + r < ncols * nrows"
    using offset_less assms by blast+
  then show "INDEX r k ncols = r * ncols + k" "INDEX k r nrows = k * nrows + r"
    using rect_bounds(5) [OF assms(1)] by (simp_all add: INDEX_def u32_small mult.commute)
qed

lemma source_offset:
  "r < nrows \<Longrightarrow> source nrows ncols (k * nrows + r) = r * ncols + k"
  by (simp add: source_def)

lemma offset_split:
  assumes "0 < nrows" "p < nrows * (ncols :: nat)"
  obtains r k where "r < nrows" "k < ncols" "p = k * nrows + r"
  using assms by (intro that [of "p mod nrows" "p div nrows"])
    (auto simp: less_mult_imp_div_less mult.commute)

section \<open>From the code of a kernel to its contract\<close>

text \<open>The claim about one launch.\<close>

definition transposes :: "nat \<Rightarrow> nat \<Rightarrow> 'a list \<Rightarrow> kernel \<Rightarrow> bool" where
  "transposes nrows ncols xs K \<longleftrightarrow> (\<forall>ys s. length ys = length xs \<longrightarrow> reaches K xs ys s \<longrightarrow>
     \<not> failed s
     \<and> (finished K s \<longrightarrow> outp s = transposed nrows ncols xs)
     \<and> (\<not> finished K s \<longrightarrow> (\<exists>s'. grid_step K xs s s'))
     \<and> (\<forall>s'. grid_step K xs s s' \<longrightarrow> remaining K s' < remaining K s)
     \<and> (\<exists>s'. reaches K xs ys s' \<and> finished K s'))"

lemma transposesI:
  assumes "copying_kernel K xs (nrows * ncols) sync ld st want (source nrows ncols)"
    and "length xs = nrows * ncols" and "\<And>p. p < nrows * ncols \<Longrightarrow> writes K p"
  shows "transposes nrows ncols xs K"
  unfolding transposes_def
proof (intro allI impI)
  fix ys :: "'a list" and s
  assume "length ys = length xs" "reaches K xs ys s"
  then have l: "length ys = nrows * ncols" and r: "reaches K xs ys s" using assms(2) by simp_all
  note run = copying_kernel.every_run [OF assms(1) r l]
  have "map (\<lambda>p. if writes K p then xs ! source nrows ncols p else ys ! p) [0..<nrows * ncols]
    = transposed nrows ncols xs"
    using assms(3) by (simp add: transposed_def)
  then show "\<not> failed s
     \<and> (finished K s \<longrightarrow> outp s = transposed nrows ncols xs)
     \<and> (\<not> finished K s \<longrightarrow> (\<exists>s'. grid_step K xs s s'))
     \<and> (\<forall>s'. grid_step K xs s s' \<longrightarrow> remaining K s' < remaining K s)
     \<and> (\<exists>s'. reaches K xs ys s' \<and> finished K s')"
    using run copying_kernel.run_ends [OF assms(1) r l] by auto
qed

text \<open>A thread that moves the elements at the places \<open>L\<close>, without a tile.\<close>

definition moves :: "nat \<Rightarrow> nat \<Rightarrow> (nat \<times> nat) list \<Rightarrow> instr list" where
  "moves nrows ncols L = map (\<lambda>(r, k). Move (k * nrows + r) (r * ncols + k)) L"

lemma moving_kernel:
  assumes "rect_ok nrows ncols xs" "0 < fst (blockDim K)" "0 < snd (blockDim K)"
    and code: "\<And>th. th \<in> set (threads K) \<Longrightarrow> code K th = moves nrows ncols (L th)"
    and places: "\<And>th r k. th \<in> set (threads K) \<Longrightarrow> (r, k) \<in> set (L th) \<Longrightarrow> r < nrows \<and> k < ncols"
  shows "copying_kernel K xs (nrows * ncols) False (\<lambda>_. []) (\<lambda>th. moves nrows ncols (L th))
           (\<lambda>_ _. 0) (source nrows ncols)"
proof
  fix th ins
  assume "th \<in> set (threads K)" "ins \<in> set (moves nrows ncols (L th))"
  then obtain r k where rk: "ins = Move (k * nrows + r) (r * ncols + k)" "r < nrows" "k < ncols"
    using places by (fastforce simp: moves_def)
  have "k * nrows + r < nrows * ncols" using offset_less [OF rk(3,2)] by (simp add: mult.commute)
  then show "(\<exists>o' i. ins = Move o' i \<and> i = source nrows ncols o' \<and> i < length xs \<and> o' < nrows * ncols)
    \<or> (\<exists>o' c. ins = Store o' c \<and> o' < nrows * ncols \<and> in_tile K c \<and> (0::nat) = source nrows ncols o'
        \<and> (\<exists>th' \<in> set (threads K). fst th' = fst th \<and> Load c (source nrows ncols o') \<in> set []))"
    using rk offset_less [OF rk(2,3)] rect_bounds(6) [OF assms(1)] by (simp add: source_offset)
qed (use assms code in auto)

text \<open>A thread that takes the elements at its places through cells of the tile.\<close>

definition own_loads :: "nat \<Rightarrow> (cell \<times> nat \<times> nat) list \<Rightarrow> instr list" where
  "own_loads ncols L = map (\<lambda>(c, r, k). Load c (r * ncols + k)) L"

definition own_stores :: "nat \<Rightarrow> (cell \<times> nat \<times> nat) list \<Rightarrow> instr list" where
  "own_stores nrows L = map (\<lambda>(c, r, k). Store (k * nrows + r) c) L"

lemma tiling_kernel:
  assumes "rect_ok nrows ncols xs" "0 < fst (blockDim K)" "0 < snd (blockDim K)"
    and code: "\<And>th. th \<in> set (threads K) \<Longrightarrow>
      code K th = own_loads ncols (L th) @ [Barrier] @ own_stores nrows (S th)"
    and loads: "\<And>th c r k. th \<in> set (threads K) \<Longrightarrow> (c, r, k) \<in> set (L th) \<Longrightarrow>
      r < nrows \<and> k < ncols \<and> in_tile K c \<and> want (fst th) c = r * ncols + k"
    and stores: "\<And>th c r k. th \<in> set (threads K) \<Longrightarrow> (c, r, k) \<in> set (S th) \<Longrightarrow>
      \<exists>th' \<in> set (threads K). fst th' = fst th \<and> (c, r, k) \<in> set (L th')"
  shows "copying_kernel K xs (nrows * ncols) True (\<lambda>th. own_loads ncols (L th))
           (\<lambda>th. own_stores nrows (S th)) want (source nrows ncols)"
proof
  fix th ins
  assume t: "th \<in> set (threads K)" and "ins \<in> set (own_loads ncols (L th))"
  then obtain c r k where "ins = Load c (r * ncols + k)" "(c, r, k) \<in> set (L th)"
    by (auto simp: own_loads_def)
  then show "\<exists>c i. ins = Load c i \<and> in_tile K c \<and> i = want (fst th) c \<and> i < length xs"
    using loads [OF t] offset_less rect_bounds(6) [OF assms(1)] by auto
next
  fix th ins
  assume t: "th \<in> set (threads K)" and "ins \<in> set (own_stores nrows (S th))"
  then obtain c r k where s: "ins = Store (k * nrows + r) c" "(c, r, k) \<in> set (S th)"
    by (auto simp: own_stores_def)
  obtain th' where th': "th' \<in> set (threads K)" "fst th' = fst th" "(c, r, k) \<in> set (L th')"
    using stores [OF t s(2)] by blast
  note l = loads [OF th'(1,3)]
  have o': "k * nrows + r < nrows * ncols" "source nrows ncols (k * nrows + r) = r * ncols + k"
    using l offset_less [of k ncols r nrows] by (simp_all add: mult.commute source_offset)
  have "Load c (r * ncols + k) \<in> set (own_loads ncols (L th'))"
    using th'(3) by (force simp: own_loads_def)
  then show "(\<exists>o' i. ins = Move o' i \<and> i = source nrows ncols o' \<and> i < length xs \<and> o' < nrows * ncols)
    \<or> (\<exists>o' c. ins = Store o' c \<and> o' < nrows * ncols \<and> in_tile K c \<and> want (fst th) c = source nrows ncols o'
        \<and> (\<exists>th' \<in> set (threads K). fst th' = fst th
            \<and> Load c (source nrows ncols o') \<in> set (own_loads ncols (L th'))))"
    using s(1) o' l th'(1,2) by auto
qed (use assms code in auto)

lemma moves_write:
  assumes "th \<in> set (threads K)" "code K th = moves nrows ncols L" "(r, k) \<in> set L"
  shows "writes K (k * nrows + r)"
  by (rule writesI [OF assms(1), of "Move (k * nrows + r) (r * ncols + k)"])
    (use assms(2,3) in \<open>force simp: moves_def\<close>)+

lemma stores_write:
  assumes "th \<in> set (threads K)" "code K th = ls @ [Barrier] @ own_stores nrows S" "(c, r, k) \<in> set S"
  shows "writes K (k * nrows + r)"
  by (rule writesI [OF assms(1), of "Store (k * nrows + r) c"])
    (use assms(2,3) in \<open>force simp: own_stores_def\<close>)+

section \<open>Coordinates\<close>

lemma block_simps [simp]: "tile_block = (16, 16)" "BDIMX = 16" "BDIMY = 16" "IPAD = 2"
  by (simp_all add: tile_block_def BDIMX_def BDIMY_def IPAD_def)

lemma launch_simps [simp]:
  "gridDim (launch g t c) = g" "blockDim (launch g t c) = (16, 16)" "tileDim (launch g t c) = t"
  "code (launch g t c) = c (16, 16)"
  by (simp_all add: launch_def)

lemma in_tile_launch [simp]: "in_tile (launch g t c) p \<longleftrightarrow> fst p < fst t \<and> snd p < snd t"
  by (simp add: in_tile_def)

lemma thread_of_launch:
  "((bx, b), (tx, ty)) \<in> set (threads (launch g t c)) \<longleftrightarrow>
   bx < fst g \<and> b < snd g \<and> tx < 16 \<and> ty < 16"
  by (simp add: set_threads set_blocks set_pairs)

lemma grid_eq:
  assumes "rect_ok nrows ncols xs"
  shows "grid nrows ncols = ((ncols + 15) div 16, (nrows + 15) div 16)"
    and "grid2 nrows ncols = (((ncols + 15) div 16 + 1) div 2, (nrows + 15) div 16)"
proof -
  note b = rect_bounds(3,4) [OF assms]
  show g: "grid nrows ncols = ((ncols + 15) div 16, (nrows + 15) div 16)"
    using b by (simp add: grid_def u32_small add.commute)
  have "(ncols + 15) div 16 \<le> ncols + 15" by simp
  moreover have "ncols < 2147483648" using b(2) by simp
  ultimately have "(ncols + 15) div 16 + 1 < 4294967296" by linarith
  then show "grid2 nrows ncols = (((ncols + 15) div 16 + 1) div 2, (nrows + 15) div 16)"
    by (simp add: grid2_def g u32_small)
qed

lemma tile_start:
  assumes "b < (n + 15) div 16"
  shows "b * 16 + 16 \<le> n + (15 :: nat)"
proof -
  have "(b + 1) * 16 \<le> (n + 15) div 16 * 16" using assms by (intro mult_le_mono1) simp
  also have "\<dots> \<le> n + 15" by (rule div_times_less_eq_dividend)
  finally show ?thesis by simp
qed

lemma wide_start:
  assumes "b < ((n + 15) div 16 + 1) div 2"
  shows "2 * b * 16 + 16 \<le> n + (15 :: nat)"
proof -
  have "(b + 1) * 2 \<le> ((n + 15) div 16 + 1) div 2 * 2" using assms by (intro mult_le_mono1) simp
  also have "\<dots> \<le> (n + 15) div 16 + 1" by (rule div_times_less_eq_dividend)
  finally have "2 * b < (n + 15) div 16" by simp
  then show ?thesis by (rule tile_start)
qed

text \<open>The tile of a place, and the thread of it.\<close>

lemma half_less: "m < g \<Longrightarrow> m div 2 < (g + 1) div (2 :: nat)"
  by presburger

lemma place_thread:
  assumes "p < (n :: nat)"
  shows "p div 16 < (n + 15) div 16" "p div 32 < ((n + 15) div 16 + 1) div 2"
proof -
  have "(p + 16) div 16 \<le> (n + 15) div 16" using assms by (intro div_le_mono) simp
  then show a: "p div 16 < (n + 15) div 16" by simp
  have "p div 32 = p div 16 div 2" by (simp add: div_mult2_eq [symmetric])
  then show "p div 32 < ((n + 15) div 16 + 1) div 2" using half_less [OF a] by simp
qed

lemma u32_near: "x \<le> n + 47 \<Longrightarrow> n < 2 ^ 31 \<Longrightarrow> u32 x = x"
  by (rule u32_small) simp

text \<open>What the kernels compute of the coordinates of a thread in the grid.\<close>

lemma grid_coords:
  assumes "rect_ok nrows ncols xs" "bx < (ncols + 15) div 16" "b < (nrows + 15) div 16"
    and "tx < 16" "ty < 16"
  shows "u32 (b * 16 + ty) = b * 16 + ty" "u32 (bx * 16 + tx) = bx * 16 + tx"
    "u32 (16 * b + ty) = b * 16 + ty" "u32 (16 * bx + tx) = bx * 16 + tx"
    "u32 (b * 16 + tx) = b * 16 + tx" "u32 (bx * 16 + ty) = bx * 16 + ty"
proof -
  have "b * 16 + 16 \<le> nrows + 15" "bx * 16 + 16 \<le> ncols + 15"
    using tile_start assms(2,3) by blast+
  then have "b * 16 + ty \<le> nrows + 47" "bx * 16 + tx \<le> ncols + 47"
    "b * 16 + tx \<le> nrows + 47" "bx * 16 + ty \<le> ncols + 47"
    using assms(4,5) by linarith+
  note u = this [THEN u32_near]
  show "u32 (b * 16 + ty) = b * 16 + ty" "u32 (bx * 16 + tx) = bx * 16 + tx"
    "u32 (16 * b + ty) = b * 16 + ty" "u32 (16 * bx + tx) = bx * 16 + tx"
    "u32 (b * 16 + tx) = b * 16 + tx" "u32 (bx * 16 + ty) = bx * 16 + ty"
    using u rect_bounds(3,4) [OF assms(1)] by (simp_all add: mult.commute)
qed

lemma grid2_coords:
  assumes "rect_ok nrows ncols xs" "bx < ((ncols + 15) div 16 + 1) div 2" "b < (nrows + 15) div 16"
    and "tx < 16" "ty < 16"
  shows "u32 (b * 16 + ty) = b * 16 + ty" "u32 (32 * bx + tx) = 32 * bx + tx"
    "u32 (32 * bx + tx + 16) = 32 * bx + tx + 16"
proof -
  have "b * 16 + 16 \<le> nrows + 15" "32 * bx + 16 \<le> ncols + 15"
    using tile_start [OF assms(3)] wide_start [OF assms(2)] by simp_all
  then have "b * 16 + ty \<le> nrows + 47" "32 * bx + tx \<le> ncols + 47"
    "32 * bx + tx + 16 \<le> ncols + 47"
    using assms(4,5) by linarith+
  note u = this [THEN u32_near]
  show "u32 (b * 16 + ty) = b * 16 + ty" "u32 (32 * bx + tx) = 32 * bx + tx"
    "u32 (32 * bx + tx + 16) = 32 * bx + tx + 16"
    using u rect_bounds(3,4) [OF assms(1)] by simp_all
qed

lemma thread_index:
  assumes "tx < 16" "ty < 16"
  shows "u32 (ty * 16 + tx) = ty * 16 + tx" "(ty * 16 + tx) div 16 = ty" "(ty * 16 + tx) mod 16 = tx"
    "u32 (16 + tx) = 16 + tx"
  using assms by (simp_all add: u32_small)

section \<open>The kernels without a tile\<close>

definition in_matrix :: "nat \<Rightarrow> nat \<Rightarrow> (nat \<times> nat) list \<Rightarrow> (nat \<times> nat) list" where
  "in_matrix nrows ncols L = filter (\<lambda>(r, k). r < nrows \<and> k < ncols) L"

fun thread_place :: "thread \<Rightarrow> (nat \<times> nat) list" where
  "thread_place ((bx, b), (tx, ty)) = [(b * 16 + ty, bx * 16 + tx)]"

fun place2 :: "thread \<Rightarrow> (nat \<times> nat) list" where
  "place2 ((bx, b), (tx, ty)) = [(b * 16 + ty, 32 * bx + tx), (b * 16 + ty, 32 * bx + tx + 16)]"

lemma naive_code:
  assumes "rect_ok nrows ncols xs" "th \<in> set (threads (launch (grid nrows ncols) t c))"
  shows "naiveGmem nrows ncols (16, 16) th = moves nrows ncols (in_matrix nrows ncols (thread_place th))"
    and "copyGmem nrows ncols (16, 16) th = moves nrows ncols (in_matrix nrows ncols (thread_place th))"
proof -
  obtain bx b tx ty where th: "th = ((bx, b), (tx, ty))" by (metis surj_pair)
  have g: "bx < (ncols + 15) div 16" "b < (nrows + 15) div 16" "tx < 16" "ty < 16"
    using assms(2) by (simp_all add: th thread_of_launch grid_eq [OF assms(1)])
  show "naiveGmem nrows ncols (16, 16) th = moves nrows ncols (in_matrix nrows ncols (thread_place th))"
    and "copyGmem nrows ncols (16, 16) th = moves nrows ncols (in_matrix nrows ncols (thread_place th))"
    using INDEX_ok [OF assms(1)]
    by (simp_all add: th grid_coords [OF assms(1) g] in_matrix_def moves_def Let_def)
qed

lemma unroll_code:
  assumes "rect_ok nrows ncols xs" "th \<in> set (threads (launch (grid2 nrows ncols) t c))"
  shows "naiveGmemUnroll nrows ncols (16, 16) th = moves nrows ncols (in_matrix nrows ncols (place2 th))"
proof -
  obtain bx b tx ty where th: "th = ((bx, b), (tx, ty))" by (metis surj_pair)
  have g: "bx < ((ncols + 15) div 16 + 1) div 2" "b < (nrows + 15) div 16" "tx < 16" "ty < 16"
    using assms(2) by (simp_all add: th thread_of_launch grid_eq [OF assms(1)])
  show ?thesis
    using INDEX_ok [OF assms(1)]
    by (simp add: th grid2_coords [OF assms(1) g] in_matrix_def moves_def Let_def)
qed

text \<open>Every place belongs to a thread.\<close>

lemma place_covers:
  assumes "rect_ok nrows ncols xs" "r < nrows" "k < ncols"
  shows "\<exists>th \<in> set (threads (launch (grid nrows ncols) t c)). (r, k) \<in> set (thread_place th)"
  by (rule bexI [of _ "((k div 16, r div 16), (k mod 16, r mod 16))"])
    (simp_all add: thread_of_launch grid_eq [OF assms(1)] place_thread assms)

lemma half_mod: "q < 32 \<Longrightarrow> q = q mod 16 \<or> q = q mod 16 + (16 :: nat)"
  by presburger

lemma wide_split: "k = 32 * (k div 32) + k mod 16 \<or> k = 32 * (k div 32) + k mod 16 + (16 :: nat)"
proof -
  have "k mod 32 mod 16 = k mod 16" by (rule mod_mod_cancel) simp
  then have "k mod 32 = k mod 16 \<or> k mod 32 = k mod 16 + 16" using half_mod [of "k mod 32"] by simp
  moreover have "k = 32 * (k div 32) + k mod 32" by (rule mult_div_mod_eq [symmetric])
  ultimately show ?thesis by linarith
qed

lemma place2_covers:
  assumes "rect_ok nrows ncols xs" "r < nrows" "k < ncols"
  shows "\<exists>th \<in> set (threads (launch (grid2 nrows ncols) t c)). (r, k) \<in> set (place2 th)"
proof (rule bexI)
  show "(r, k) \<in> set (place2 ((k div 32, r div 16), (k mod 16, r mod 16)))"
    using wide_split [of k] by auto
  show "((k div 32, r div 16), (k mod 16, r mod 16)) \<in> set (threads (launch (grid2 nrows ncols) t c))"
    by (simp add: thread_of_launch grid_eq [OF assms(1)] place_thread [OF assms(3)] place_thread [OF assms(2)]
      del: One_nat_def)
qed

lemma moving_launch:
  fixes xs :: "'a list"
  assumes "rect_ok nrows ncols xs"
    and "\<And>th. th \<in> set (threads (launch g t c)) \<Longrightarrow>
      c (16, 16) th = moves nrows ncols (in_matrix nrows ncols (P th))"
    and "\<And>r k. r < nrows \<Longrightarrow> k < ncols \<Longrightarrow> \<exists>th \<in> set (threads (launch g t c)). (r, k) \<in> set (P th)"
  shows "transposes nrows ncols xs (launch g t c)"
proof (rule transposesI)
  show "copying_kernel (launch g t c) xs (nrows * ncols) False (\<lambda>_. [])
      (\<lambda>th. moves nrows ncols (in_matrix nrows ncols (P th))) (\<lambda>_ _. 0) (source nrows ncols)"
    by (rule moving_kernel [OF assms(1)]) (auto simp: assms(2) in_matrix_def)
  fix p assume "p < nrows * ncols"
  then obtain r k where p: "r < nrows" "k < ncols" "p = k * nrows + r"
    using offset_split rect_bounds(1) [OF assms(1)] by blast
  obtain th where th: "th \<in> set (threads (launch g t c))" "(r, k) \<in> set (P th)"
    using assms(3) [OF p(1,2)] by blast
  show "writes (launch g t c) p"
    unfolding p(3)
    by (rule moves_write [OF th(1), where ncols = ncols and L = "in_matrix nrows ncols (P th)"])
      (use assms(2) [OF th(1)] th(2) p in \<open>auto simp: in_matrix_def\<close>)
qed (rule rect_bounds(6) [OF assms(1)])

lemma copyGmem_transposes:
  assumes "rect_ok nrows ncols xs"
  shows "transposes nrows ncols xs (first_launch nrows ncols)"
  unfolding first_launch_def
  by (rule moving_launch [where P = thread_place and c = "copyGmem nrows ncols",
      OF assms naive_code(2) [OF assms] place_covers [OF assms]])

lemma naiveGmem_transposes:
  assumes "rect_ok nrows ncols xs"
  shows "transposes nrows ncols xs (launch (grid nrows ncols) t (naiveGmem nrows ncols))"
  by (rule moving_launch [where P = thread_place and c = "naiveGmem nrows ncols",
      OF assms naive_code(1) [OF assms] place_covers [OF assms]])

lemma naiveGmemUnroll_transposes:
  assumes "rect_ok nrows ncols xs"
  shows "transposes nrows ncols xs (launch (grid2 nrows ncols) t (naiveGmemUnroll nrows ncols))"
  by (rule moving_launch [where P = place2 and c = "naiveGmemUnroll nrows ncols",
      OF assms unroll_code [OF assms] place2_covers [OF assms]])

section \<open>The kernels with a tile\<close>

definition in_rect :: "nat \<Rightarrow> nat \<Rightarrow> (cell \<times> nat \<times> nat) list \<Rightarrow> (cell \<times> nat \<times> nat) list" where
  "in_rect nrows ncols L = filter (\<lambda>(c, r, k). r < nrows \<and> k < ncols) L"

lemma tiling_copies:
  fixes xs :: "'a list"
  assumes "rect_ok nrows ncols xs"
    and code: "\<And>th. th \<in> set (threads (launch g t c)) \<Longrightarrow>
      c (16, 16) th = own_loads ncols (in_rect nrows ncols (L th)) @ [Barrier]
        @ own_stores nrows (in_rect nrows ncols (S th))"
    and cells: "\<And>th p r k. th \<in> set (threads (launch g t c)) \<Longrightarrow> (p, r, k) \<in> set (L th) \<Longrightarrow>
      fst p < fst t \<and> snd p < snd t \<and> want (fst th) p = r * ncols + k"
    and stores: "\<And>th p r k. th \<in> set (threads (launch g t c)) \<Longrightarrow> (p, r, k) \<in> set (S th) \<Longrightarrow>
      \<exists>th' \<in> set (threads (launch g t c)). fst th' = fst th \<and> (p, r, k) \<in> set (L th')"
  shows "copying_kernel (launch g t c) xs (nrows * ncols) True
      (\<lambda>th. own_loads ncols (in_rect nrows ncols (L th)))
      (\<lambda>th. own_stores nrows (in_rect nrows ncols (S th))) want (source nrows ncols)"
proof (rule tiling_kernel [OF assms(1)])
  fix th p r k
  assume t: "th \<in> set (threads (launch g t c))" and "(p, r, k) \<in> set (in_rect nrows ncols (S th))"
  then have s: "(p, r, k) \<in> set (S th)" "r < nrows" "k < ncols" by (auto simp: in_rect_def)
  show "\<exists>th' \<in> set (threads (launch g t c)). fst th' = fst th
      \<and> (p, r, k) \<in> set (in_rect nrows ncols (L th'))"
    using stores [OF t s(1)] s(2,3) by (auto simp: in_rect_def)
next
  fix th p r k
  assume t: "th \<in> set (threads (launch g t c))" and "(p, r, k) \<in> set (in_rect nrows ncols (L th))"
  then show "r < nrows \<and> k < ncols \<and> in_tile (launch g t c) p \<and> want (fst th) p = r * ncols + k"
    using cells [OF t, of p r k] by (auto simp: in_rect_def)
qed (simp_all add: code)

lemma tiling_launch:
  fixes xs :: "'a list"
  assumes "rect_ok nrows ncols xs"
    and code: "\<And>th. th \<in> set (threads (launch g t c)) \<Longrightarrow>
      c (16, 16) th = own_loads ncols (in_rect nrows ncols (L th)) @ [Barrier]
        @ own_stores nrows (in_rect nrows ncols (S th))"
    and cells: "\<And>th p r k. th \<in> set (threads (launch g t c)) \<Longrightarrow> (p, r, k) \<in> set (L th) \<Longrightarrow>
      fst p < fst t \<and> snd p < snd t \<and> want (fst th) p = r * ncols + k"
    and stores: "\<And>th p r k. th \<in> set (threads (launch g t c)) \<Longrightarrow> (p, r, k) \<in> set (S th) \<Longrightarrow>
      \<exists>th' \<in> set (threads (launch g t c)). fst th' = fst th \<and> (p, r, k) \<in> set (L th')"
    and covers: "\<And>r k. r < nrows \<Longrightarrow> k < ncols \<Longrightarrow>
      \<exists>th \<in> set (threads (launch g t c)). \<exists>p. (p, r, k) \<in> set (S th)"
  shows "transposes nrows ncols xs (launch g t c)"
proof (rule transposesI [OF tiling_copies [where c = c and L = L and S = S and want = want, OF assms(1-4)]])
  fix q assume "q < nrows * ncols"
  then obtain r k where q: "r < nrows" "k < ncols" "q = k * nrows + r"
    using offset_split rect_bounds(1) [OF assms(1)] by blast
  obtain th p where th: "th \<in> set (threads (launch g t c))" "(p, r, k) \<in> set (S th)"
    using covers [OF q(1,2)] by blast
  show "writes (launch g t c) q"
    unfolding q(3)
    by (rule stores_write [OF th(1), where S = "in_rect nrows ncols (S th)" and c = p])
      (use code [OF th(1)] th(2) q in \<open>auto simp: in_rect_def\<close>)
qed (use rect_bounds(6) [OF assms(1)] in auto)

text \<open>
  The cell of the thread in row \<open>y\<close> and column \<open>x\<close> of the block, in a tile with two dimensions
  and in one with one.
\<close>

definition linear :: "nat \<Rightarrow> nat \<Rightarrow> nat \<Rightarrow> cell" where
  "linear pitch y x = (0, y * pitch + x)"

fun tile_places :: "(nat \<Rightarrow> nat \<Rightarrow> cell) \<Rightarrow> thread \<Rightarrow> (cell \<times> nat \<times> nat) list" where
  "tile_places cf ((bx, b), (tx, ty)) = [(cf ty tx, b * 16 + ty, bx * 16 + tx)]"

fun crossed_places :: "thread \<Rightarrow> (cell \<times> nat \<times> nat) list" where
  "crossed_places ((bx, b), (tx, ty)) = [((tx, ty), b * 16 + tx, bx * 16 + ty)]"

fun wide_places :: "(nat \<Rightarrow> nat \<Rightarrow> cell) \<Rightarrow> thread \<Rightarrow> (cell \<times> nat \<times> nat) list" where
  "wide_places cf ((bx, b), (tx, ty)) =
     [(cf ty tx, b * 16 + ty, 32 * bx + tx), (cf ty (16 + tx), b * 16 + ty, 32 * bx + tx + 16)]"

fun want2d :: "nat \<Rightarrow> nat \<Rightarrow> block_index \<Rightarrow> cell \<Rightarrow> nat" where
  "want2d ncols w (bx, b) (y, x) = (b * 16 + y) * ncols + (w * bx + x)"

fun want1d :: "nat \<Rightarrow> nat \<Rightarrow> nat \<Rightarrow> block_index \<Rightarrow> cell \<Rightarrow> nat" where
  "want1d pitch ncols w (bx, b) (z, i) = (b * 16 + i div pitch) * ncols + (w * bx + i mod pitch)"

lemma linear_less: "y < 16 \<Longrightarrow> x < pitch \<Longrightarrow> y * pitch + x < pitch * (16 :: nat)"
  using offset_less [of y 16 x pitch] by (simp add: mult.commute)

lemma linear_split: "x < (pitch :: nat) \<Longrightarrow> (y * pitch + x) div pitch = y \<and> (y * pitch + x) mod pitch = x"
  by auto

lemma smem_code:
  assumes "rect_ok nrows ncols xs" "th \<in> set (threads (launch (grid nrows ncols) t c))"
  shows "transposeSmem nrows ncols (16, 16) th =
    own_loads ncols (in_rect nrows ncols (tile_places Pair th)) @ [Barrier]
      @ own_stores nrows (in_rect nrows ncols (crossed_places th))"
proof -
  obtain bx b tx ty where th: "th = ((bx, b), (tx, ty))" by (metis surj_pair)
  have g: "bx < (ncols + 15) div 16" "b < (nrows + 15) div 16" "tx < 16" "ty < 16"
    using assms(2) by (simp_all add: th thread_of_launch grid_eq [OF assms(1)])
  show ?thesis
    using INDEX_ok [OF assms(1)] g(3,4)
    by (simp add: th thread_index [OF g(3,4)] grid_coords [OF assms(1) g] in_rect_def own_loads_def
      own_stores_def Let_def)
qed

lemma smem_cells:
  assumes "th \<in> set (threads (launch g (BDIMY, BDIMX) c))" "(p, r, k) \<in> set (tile_places Pair th)"
  shows "fst p < fst (BDIMY, BDIMX) \<and> snd p < snd (BDIMY, BDIMX) \<and> want2d ncols 16 (fst th) p = r * ncols + k"
proof -
  obtain bx b tx ty where th: "th = ((bx, b), (tx, ty))" by (metis surj_pair)
  show ?thesis using assms by (auto simp: th thread_of_launch)
qed

text \<open>A thread stores what the thread with the swapped index has loaded.\<close>

lemma smem_stores:
  assumes "th \<in> set (threads (launch g t c))" "(p, r, k) \<in> set (crossed_places th)"
  shows "\<exists>th' \<in> set (threads (launch g t c)). fst th' = fst th \<and> (p, r, k) \<in> set (tile_places Pair th')"
proof -
  obtain bx b tx ty where th: "th = ((bx, b), (tx, ty))" by (metis surj_pair)
  show ?thesis
    by (rule bexI [of _ "((bx, b), (ty, tx))"]) (use assms in \<open>auto simp: th thread_of_launch\<close>)
qed

lemma transposeSmem_transposes:
  assumes "rect_ok nrows ncols xs"
  shows "transposes nrows ncols xs (launch (grid nrows ncols) (BDIMY, BDIMX) (transposeSmem nrows ncols))"
proof (rule tiling_launch [where c = "transposeSmem nrows ncols" and L = "tile_places Pair"
      and S = crossed_places and want = "want2d ncols 16", OF assms smem_code [OF assms] smem_cells smem_stores])
  fix r k assume "r < nrows" "k < ncols"
  then show "\<exists>th \<in> set (threads (launch (grid nrows ncols) (BDIMY, BDIMX) (transposeSmem nrows ncols))).
      \<exists>p. (p, r, k) \<in> set (crossed_places th)"
    by (intro bexI [of _ "((k div 16, r div 16), (r mod 16, k mod 16))"])
      (simp_all add: thread_of_launch grid_eq [OF assms] place_thread)
qed

text \<open>The kernels whose threads store the cells that they have loaded.\<close>

lemma own_launch:
  fixes xs :: "'a list"
  assumes "rect_ok nrows ncols xs"
    and code: "\<And>th. th \<in> set (threads (launch g t c)) \<Longrightarrow>
      c (16, 16) th = own_loads ncols (in_rect nrows ncols (L th)) @ [Barrier]
        @ own_stores nrows (in_rect nrows ncols (L th))"
    and cells: "\<And>bx b tx ty p r k. bx < fst g \<Longrightarrow> b < snd g \<Longrightarrow> tx < 16 \<Longrightarrow> ty < 16 \<Longrightarrow>
      (p, r, k) \<in> set (L ((bx, b), (tx, ty))) \<Longrightarrow>
      fst p < fst t \<and> snd p < snd t \<and> want (bx, b) p = r * ncols + k"
    and covers: "\<And>r k. r < nrows \<Longrightarrow> k < ncols \<Longrightarrow>
      \<exists>th \<in> set (threads (launch g t c)). \<exists>p. (p, r, k) \<in> set (L th)"
  shows "transposes nrows ncols xs (launch g t c)"
proof (rule tiling_launch [where c = c and L = L and S = L and want = want, OF assms(1) code])
  fix th p r k
  assume t: "th \<in> set (threads (launch g t c))" and p: "(p, r, k) \<in> set (L th)"
  obtain bx b tx ty where th: "th = ((bx, b), (tx, ty))" by (metis surj_pair)
  show "fst p < fst t \<and> snd p < snd t \<and> want (fst th) p = r * ncols + k"
    using cells [of bx b tx ty p r k] t p by (simp add: th thread_of_launch)
next
  fix th p r k
  assume "th \<in> set (threads (launch g t c))" "(p, r, k) \<in> set (L th)"
  then show "\<exists>th' \<in> set (threads (launch g t c)). fst th' = fst th \<and> (p, r, k) \<in> set (L th')" by blast
qed (use covers in auto)

lemma wide_covers:
  assumes "rect_ok nrows ncols xs" "r < nrows" "k < ncols"
  shows "\<exists>th \<in> set (threads (launch (grid2 nrows ncols) t c)). \<exists>p. (p, r, k) \<in> set (wide_places cf th)"
proof (rule bexI)
  show "\<exists>p. (p, r, k) \<in> set (wide_places cf ((k div 32, r div 16), (k mod 16, r mod 16)))"
    using wide_split [of k] by (auto simp del: split_paired_Ex)
  show "((k div 32, r div 16), (k mod 16, r mod 16)) \<in> set (threads (launch (grid2 nrows ncols) t c))"
    by (simp add: thread_of_launch grid_eq [OF assms(1)] place_thread [OF assms(3)] place_thread [OF assms(2)]
      del: One_nat_def)
qed

lemma tile_covers:
  assumes "rect_ok nrows ncols xs" "r < nrows" "k < ncols"
  shows "\<exists>th \<in> set (threads (launch (grid nrows ncols) t c)). \<exists>p. (p, r, k) \<in> set (tile_places cf th)"
  by (rule bexI [of _ "((k div 16, r div 16), (k mod 16, r mod 16))"])
    (simp_all add: thread_of_launch grid_eq [OF assms(1)] place_thread assms)

lemma wide_code:
  assumes "rect_ok nrows ncols xs" "th \<in> set (threads (launch (grid2 nrows ncols) t c))"
  shows "transposeSmemUnroll nrows ncols (16, 16) th =
      own_loads ncols (in_rect nrows ncols (wide_places Pair th)) @ [Barrier]
        @ own_stores nrows (in_rect nrows ncols (wide_places Pair th))"
    and "transposeSmemUnrollPad nrows ncols (16, 16) th =
      own_loads ncols (in_rect nrows ncols (wide_places Pair th)) @ [Barrier]
        @ own_stores nrows (in_rect nrows ncols (wide_places Pair th))"
    and "transposeSmemUnrollPadDyn nrows ncols (16, 16) th =
      own_loads ncols (in_rect nrows ncols (wide_places (linear 34) th)) @ [Barrier]
        @ own_stores nrows (in_rect nrows ncols (wide_places (linear 34) th))"
proof -
  obtain bx b tx ty where th: "th = ((bx, b), (tx, ty))" by (metis surj_pair)
  have g: "bx < ((ncols + 15) div 16 + 1) div 2" "b < (nrows + 15) div 16" "tx < 16" "ty < 16"
    using assms(2) by (simp_all add: th thread_of_launch grid_eq [OF assms(1)])
  have i: "INDEX ty tx 34 = ty * 34 + tx" "INDEX ty (16 + tx) 34 = ty * 34 + (16 + tx)"
    using g(3,4) by (simp_all add: INDEX_def u32_small)
  note rules = th thread_index [OF g(3,4)] grid2_coords [OF assms(1) g] in_rect_def own_loads_def
    own_stores_def Let_def linear_def i
  show "transposeSmemUnroll nrows ncols (16, 16) th =
      own_loads ncols (in_rect nrows ncols (wide_places Pair th)) @ [Barrier]
        @ own_stores nrows (in_rect nrows ncols (wide_places Pair th))"
    and "transposeSmemUnrollPad nrows ncols (16, 16) th =
      own_loads ncols (in_rect nrows ncols (wide_places Pair th)) @ [Barrier]
        @ own_stores nrows (in_rect nrows ncols (wide_places Pair th))"
    and "transposeSmemUnrollPadDyn nrows ncols (16, 16) th =
      own_loads ncols (in_rect nrows ncols (wide_places (linear 34) th)) @ [Barrier]
        @ own_stores nrows (in_rect nrows ncols (wide_places (linear 34) th))"
    using INDEX_ok [OF assms(1)] g(3,4) by (simp_all add: rules)
qed

lemma wide_transposes:
  assumes "rect_ok nrows ncols xs" "K \<in> set (unrolled_launches nrows ncols)"
  shows "transposes nrows ncols xs K"
proof -
  have "transposes nrows ncols xs
      (launch (grid2 nrows ncols) (BDIMY, BDIMX * 2) (transposeSmemUnroll nrows ncols))"
    by (rule own_launch [where c = "transposeSmemUnroll nrows ncols" and L = "wide_places Pair" and want = "want2d ncols 32",
        OF assms(1) wide_code(1) [OF assms(1)] _ wide_covers [OF assms(1)]])
      (auto)
  moreover have "transposes nrows ncols xs
      (launch (grid2 nrows ncols) (BDIMY, BDIMX * 2 + IPAD) (transposeSmemUnrollPad nrows ncols))"
    by (rule own_launch [where c = "transposeSmemUnrollPad nrows ncols" and L = "wide_places Pair" and want = "want2d ncols 32",
        OF assms(1) wide_code(2) [OF assms(1)] _ wide_covers [OF assms(1)]])
      (auto)
  moreover have "transposes nrows ncols xs
      (launch (grid2 nrows ncols) (1, (BDIMX * 2 + IPAD) * BDIMY) (transposeSmemUnrollPadDyn nrows ncols))"
    by (rule own_launch [where c = "transposeSmemUnrollPadDyn nrows ncols" and L = "wide_places (linear 34)" and want = "want1d 34 ncols 32",
        OF assms(1) wide_code(3) [OF assms(1)] _ wide_covers [OF assms(1)]])
      (auto simp: linear_def)
  ultimately show ?thesis using assms(2) by (auto simp: unrolled_launches_def)
qed

end
