(* ===== verification/Transpose_Main.thy ===== *)
theory Transpose_Main
  imports Transpose_Correct
begin

text \<open>
  The three kernels of \<^verbatim>\<open>transposeRectangle.cu\<close> with a barrier inside the boundary test, the host,
  and the main program: its behaviour is defined exactly when the sides of the matrix are multiples of
  16, and then every test finds the result of the host.
\<close>

section \<open>The kernels with a guarded barrier\<close>

lemma inside_multiple:
  assumes "16 dvd n" "b < (n + 15) div 16" "t < 16"
  shows "b * 16 + t < (n :: nat)"
proof -
  obtain m where n: "n = 16 * m" using assms(1) by blast
  have "(n + 15) div 16 = m" by (simp add: n)
  then have "(b + 1) * 16 \<le> m * 16" using assms(2) by (intro mult_le_mono1) simp
  then show ?thesis using assms(3) by (simp add: n)
qed

lemma guarded_code:
  assumes "rect_ok nrows ncols xs" "th \<in> set (threads (launch (grid nrows ncols) t c))"
    and "16 dvd nrows" "16 dvd ncols"
  shows "transposeSmemPad nrows ncols (16, 16) th =
      own_loads ncols (in_rect nrows ncols (tile_places Pair th)) @ [Barrier]
        @ own_stores nrows (in_rect nrows ncols (tile_places Pair th))"
    and "transposeSmemDyn nrows ncols (16, 16) th =
      own_loads ncols (in_rect nrows ncols (tile_places (linear 16) th)) @ [Barrier]
        @ own_stores nrows (in_rect nrows ncols (tile_places (linear 16) th))"
    and "transposeSmemPadDyn nrows ncols (16, 16) th =
      own_loads ncols (in_rect nrows ncols (tile_places (linear 18) th)) @ [Barrier]
        @ own_stores nrows (in_rect nrows ncols (tile_places (linear 18) th))"
proof -
  obtain bx b tx ty where th: "th = ((bx, b), (tx, ty))" by (metis surj_pair)
  have g: "bx < (ncols + 15) div 16" "b < (nrows + 15) div 16" "tx < 16" "ty < 16"
    using assms(2) by (simp_all add: th thread_of_launch grid_eq [OF assms(1)])
  have inside: "b * 16 + ty < nrows" "bx * 16 + tx < ncols"
    using inside_multiple assms(3,4) g by blast+
  have i: "u32 (ty * 18 + tx) = ty * 18 + tx" using g(3,4) by (simp add: u32_small)
  note rules = th thread_index [OF g(3,4)] grid_coords [OF assms(1) g] in_rect_def own_loads_def
    own_stores_def Let_def linear_def i inside INDEX_ok [OF assms(1) inside]
  show "transposeSmemPad nrows ncols (16, 16) th =
      own_loads ncols (in_rect nrows ncols (tile_places Pair th)) @ [Barrier]
        @ own_stores nrows (in_rect nrows ncols (tile_places Pair th))"
    and "transposeSmemDyn nrows ncols (16, 16) th =
      own_loads ncols (in_rect nrows ncols (tile_places (linear 16) th)) @ [Barrier]
        @ own_stores nrows (in_rect nrows ncols (tile_places (linear 16) th))"
    and "transposeSmemPadDyn nrows ncols (16, 16) th =
      own_loads ncols (in_rect nrows ncols (tile_places (linear 18) th)) @ [Barrier]
        @ own_stores nrows (in_rect nrows ncols (tile_places (linear 18) th))"
    using g(3,4) by (simp_all add: rules)
qed

lemma guarded_transposes:
  assumes "rect_ok nrows ncols xs" "K \<in> set (guarded_launches nrows ncols)"
    and d: "16 dvd nrows" "16 dvd ncols"
  shows "transposes nrows ncols xs K"
proof -
  have "transposes nrows ncols xs
      (launch (grid nrows ncols) (BDIMY, BDIMX + IPAD) (transposeSmemPad nrows ncols))"
    by (rule own_launch [where c = "transposeSmemPad nrows ncols" and L = "tile_places Pair"
        and want = "want2d ncols 16", OF assms(1) guarded_code(1) [OF assms(1) _ d] _ tile_covers [OF assms(1)]])
      auto
  moreover have "transposes nrows ncols xs
      (launch (grid nrows ncols) (1, BDIMX * BDIMY) (transposeSmemDyn nrows ncols))"
    by (rule own_launch [where c = "transposeSmemDyn nrows ncols" and L = "tile_places (linear 16)"
        and want = "want1d 16 ncols 16", OF assms(1) guarded_code(2) [OF assms(1) _ d] _ tile_covers [OF assms(1)]])
      (auto simp: linear_def)
  moreover have "transposes nrows ncols xs
      (launch (grid nrows ncols) (1, (BDIMX + IPAD) * BDIMY) (transposeSmemPadDyn nrows ncols))"
    by (rule own_launch [where c = "transposeSmemPadDyn nrows ncols" and L = "tile_places (linear 18)"
        and want = "want1d 18 ncols 16", OF assms(1) guarded_code(3) [OF assms(1) _ d] _ tile_covers [OF assms(1)]])
      (auto simp: linear_def)
  ultimately show ?thesis using assms(2) by (auto simp: guarded_launches_def)
qed

text \<open>
  In the last block of a matrix that is no multiple of the block, the first thread comes to the
  barrier and the last one ends without it.
\<close>

lemma last_block:
  assumes "0 < (n :: nat)"
  shows "(n - 1) div 16 < (n + 15) div 16" "(n - 1) div 16 * 16 < n"
    and "\<not> 16 dvd n \<Longrightarrow> n \<le> (n - 1) div 16 * 16 + 15"
proof -
  show "(n - 1) div 16 < (n + 15) div 16" using place_thread(1) [of "n - 1" n] assms by simp
  have "(n - 1) div 16 * 16 \<le> n - 1" by (rule div_times_less_eq_dividend)
  then show "(n - 1) div 16 * 16 < n" using assms by simp
  define q r where "q = (n - 1) div 16" "r = (n - 1) mod 16"
  then have n: "n = q * 16 + r + 1" "r < 16"
    using assms by (simp_all add: div_mult_mod_eq)
  assume "\<not> 16 dvd n"
  moreover have "16 dvd n" if "r = 15" using n(1) that by (intro dvdI [of _ _ "q + 1"]) simp
  ultimately have "r \<noteq> 15" by blast
  then show "n \<le> (n - 1) div 16 * 16 + 15" using n unfolding q_r_def(1) [symmetric] by simp
qed

lemma guarded_waits:
  assumes "rect_ok nrows ncols xs" "K \<in> set (guarded_launches nrows ncols)"
    and "th = ((bx, b), (tx, ty))" "th \<in> set (threads K)"
    and "b * 16 + ty < nrows \<and> bx * 16 + tx < ncols"
  obtains c i ps where "code K th = Load c i # Barrier # ps"
proof -
  have g: "bx < (ncols + 15) div 16" "b < (nrows + 15) div 16" "tx < 16" "ty < 16"
    using assms(2,4) by (auto simp: assms(3) guarded_launches_def thread_of_launch grid_eq [OF assms(1)])
  have "\<exists>c i ps. code K th = Load c i # Barrier # ps"
    using assms(2,5) g
    by (auto simp: assms(3) guarded_launches_def grid_coords [OF assms(1) g] Let_def)
  then show thesis using that by blast
qed

lemma guarded_skips:
  assumes "rect_ok nrows ncols xs" "K \<in> set (guarded_launches nrows ncols)"
    and "th = ((bx, b), (tx, ty))" "th \<in> set (threads K)"
    and "\<not> (b * 16 + ty < nrows \<and> bx * 16 + tx < ncols)"
  shows "code K th = []"
proof -
  have g: "bx < (ncols + 15) div 16" "b < (nrows + 15) div 16" "tx < 16" "ty < 16"
    using assms(2,4) by (auto simp: assms(3) guarded_launches_def thread_of_launch grid_eq [OF assms(1)])
  show ?thesis
    using assms(2,5) g
    by (auto simp: assms(3) guarded_launches_def grid_coords [OF assms(1) g] Let_def)
qed

lemma guarded_diverges:
  assumes "rect_ok nrows ncols xs" "K \<in> set (guarded_launches nrows ncols)"
    and "\<not> (16 dvd nrows \<and> 16 dvd ncols)"
  shows "\<exists>s. reaches K xs ys s \<and> failed s"
proof -
  note pos = rect_bounds(1,2) [OF assms(1)]
  define bx b where "bx = (ncols - 1) div 16" and "b = (nrows - 1) div 16"
  have T: "((bx, b), (tx, ty)) \<in> set (threads K)" if "tx < 16" "ty < 16" for tx ty
    using assms(2) that last_block(1) [OF pos(1)] last_block(1) [OF pos(2)]
    by (auto simp: guarded_launches_def thread_of_launch grid_eq [OF assms(1)] bx_def b_def)
  have first: "b * 16 + 0 < nrows \<and> bx * 16 + 0 < ncols"
    using last_block(2) [OF pos(1)] last_block(2) [OF pos(2)] by (simp add: bx_def b_def)
  have final: "\<not> (b * 16 + 15 < nrows \<and> bx * 16 + 15 < ncols)"
    using last_block(3) [OF pos(1)] last_block(3) [OF pos(2)] assms(3)
    unfolding bx_def b_def by (meson not_le)
  obtain c i ps where w: "code K ((bx, b), (0, 0)) = Load c i # Barrier # ps"
    using guarded_waits [OF assms(1,2) refl T [of 0 0] first] by simp metis
  show ?thesis
    by (rule barrier_diverges_run [OF T [of 0 0] T [of 15 15] _ w _ guarded_skips [OF assms(1,2) refl T [of 15 15] final]]) simp_all
qed

section \<open>The host\<close>

lemma host_INDEX_ok:
  assumes "rect_ok nrows ncols xs" "r < nrows" "k < ncols"
  shows "host_INDEX r k ncols = Inr (int (r * ncols + k))"
    and "host_INDEX k r nrows = Inr (int (k * nrows + r))"
proof -
  have n: "int (nrows * ncols) \<le> int_max" using assms(1) by (simp add: rect_ok_def)
  have l: "r * ncols + k < nrows * ncols" "k * nrows + r < nrows * ncols"
    using offset_less [OF assms(2,3)] offset_less [OF assms(3,2)] by (simp_all add: mult.commute)
  have le: "int (r * ncols + k) \<le> int_max" "int (k * nrows + r) \<le> int_max"
    "int (r * ncols) \<le> int_max" "int (k * nrows) \<le> int_max"
    using n l by linarith+
  show "host_INDEX r k ncols = Inr (int (r * ncols + k))"
    and "host_INDEX k r nrows = Inr (int (k * nrows + r))"
    unfolding host_INDEX_def
    by (simp_all only: cint_mult_nat [OF le(3)] cint_mult_nat [OF le(4)] bindr_simps
        cint_add_nat [OF le(1)] cint_add_nat [OF le(2)])
qed

lemma host_cell_ok:
  assumes "rect_ok nrows ncols xs" "r < nrows" "k < ncols" "length ys = nrows * ncols"
  shows "host_cell nrows ncols xs (r, k) ys = Inr (ys[k * nrows + r := xs ! (r * ncols + k)])"
proof -
  have l: "r * ncols + k < length xs" "k * nrows + r < length ys"
    using offset_less [OF assms(2,3)] offset_less [OF assms(3,2)] assms(4) rect_bounds(6) [OF assms(1)]
    by (simp_all add: mult.commute)
  show ?thesis
    unfolding host_cell_def prod.case host_INDEX_ok [OF assms(1-3)] bindr_simps
      vget_int [OF l(1)] vset_int [OF l(2)] ..
qed

text \<open>The loop writes the right element at every place, and every place in the end.\<close>

lemma host_loop:
  assumes "rect_ok nrows ncols xs" "\<forall>(r, k) \<in> set L. r < nrows \<and> k < ncols"
    and "length ys = nrows * ncols"
  shows "\<exists>out. iterr (host_cell nrows ncols xs) L ys = Inr out \<and> length out = nrows * ncols
     \<and> (\<forall>p < nrows * ncols. ys ! p = xs ! source nrows ncols p \<or> (\<exists>(r, k) \<in> set L. p = k * nrows + r)
          \<longrightarrow> out ! p = xs ! source nrows ncols p)"
  using assms(2,3)
proof (induction L arbitrary: ys)
  case (Cons c L)
  obtain r k where c: "c = (r, k)" "r < nrows" "k < ncols" using Cons.prems(1) by auto
  let ?ys = "ys[k * nrows + r := xs ! (r * ncols + k)]"
  obtain out where out: "iterr (host_cell nrows ncols xs) L ?ys = Inr out" "length out = nrows * ncols"
    "\<And>p. p < nrows * ncols \<Longrightarrow> ?ys ! p = xs ! source nrows ncols p
        \<or> (\<exists>(r, k) \<in> set L. p = k * nrows + r) \<Longrightarrow> out ! p = xs ! source nrows ncols p"
  proof -
    have "\<forall>(r, k) \<in> set L. r < nrows \<and> k < ncols" "length ?ys = nrows * ncols"
      using Cons.prems by simp_all
    from Cons.IH [OF this] show thesis using that by blast
  qed
  have "iterr (host_cell nrows ncols xs) (c # L) ys = Inr out"
    using host_cell_ok [OF assms(1) c(2,3) Cons.prems(2)] out(1) by (simp add: c(1))
  moreover have "out ! p = xs ! source nrows ncols p"
    if p: "p < nrows * ncols" "ys ! p = xs ! source nrows ncols p \<or> (\<exists>(r, k) \<in> set (c # L). p = k * nrows + r)" for p
  proof (rule out(3) [OF p(1)])
    show "?ys ! p = xs ! source nrows ncols p \<or> (\<exists>(r, k) \<in> set L. p = k * nrows + r)"
    proof (cases "p = k * nrows + r")
      case True
      then have "?ys ! p = xs ! source nrows ncols p"
        using p(1) Cons.prems(2) source_offset [OF c(2), of ncols k] by simp
      then show ?thesis ..
    next
      case False
      then show ?thesis using p(2) by (auto simp: c(1))
    qed
  qed
  ultimately show ?case using out(2) by blast
qed simp

lemma transposeHost_ok:
  assumes "rect_ok nrows ncols xs" "length ys = nrows * ncols"
  shows "transposeHost ys xs nrows ncols = Inr (transposed nrows ncols xs)"
proof -
  have "\<forall>(r, k) \<in> set (List.product [0..<nrows] [0..<ncols]). r < nrows \<and> k < ncols" by auto
  from host_loop [OF assms(1) this assms(2)] obtain out where
    out: "transposeHost ys xs nrows ncols = Inr out" "length out = nrows * ncols"
    and eq: "\<And>p. p < nrows * ncols \<Longrightarrow> \<exists>(r, k) \<in> set (List.product [0..<nrows] [0..<ncols]). p = k * nrows + r
      \<Longrightarrow> out ! p = xs ! source nrows ncols p"
    by (auto simp: transposeHost_def)
  have "out = transposed nrows ncols xs"
  proof (rule nth_equalityI)
    fix p assume "p < length out"
    then have p: "p < nrows * ncols" using out(2) by simp
    obtain r k where "r < nrows" "k < ncols" "p = k * nrows + r"
      using offset_split [OF rect_bounds(1) [OF assms(1)] p] .
    then have "(r, k) \<in> set (List.product [0..<nrows] [0..<ncols])" "p = k * nrows + r" by simp_all
    then have "out ! p = xs ! source nrows ncols p" using eq [OF p] by blast
    then show "out ! p = transposed nrows ncols xs ! p" using p by (simp add: transposed_def)
  qed (simp add: out(2) transposed_def)
  then show ?thesis using out(1) by simp
qed

lemma checkResult_same:
  assumes "rect_ok nrows ncols xs" "\<And>x. \<not> differ x x" "length ys = nrows * ncols"
  shows "checkResult differ ys ys ncols nrows = Inr True"
proof -
  have "mapr (\<lambda>(i, j). bindr (host_INDEX i j nrows) (\<lambda>k.
         bindr (vget ys k) (\<lambda>a. bindr (vget ys k) (\<lambda>b. Inr (\<not> differ a b)))))
       (List.product [0..<ncols] [0..<nrows])
     = Inr (map (\<lambda>_. True) (List.product [0..<ncols] [0..<nrows]))"
  proof (rule mapr_ok)
    fix ij assume "ij \<in> set (List.product [0..<ncols] [0..<nrows])"
    then obtain i j where ij: "ij = (i, j)" "i < ncols" "j < nrows" by auto
    have l: "i * nrows + j < length ys"
      using offset_less [OF ij(2,3)] assms(3) by (simp add: mult.commute)
    show "(case ij of (i, j) \<Rightarrow> bindr (host_INDEX i j nrows) (\<lambda>k.
         bindr (vget ys k) (\<lambda>a. bindr (vget ys k) (\<lambda>b. Inr (\<not> differ a b))))) = Inr True"
      unfolding ij(1) prod.case host_INDEX_ok(2) [OF assms(1) ij(3,2)] bindr_simps vget_int [OF l]
      using assms(2) by simp
  qed
  then show ?thesis by (simp add: checkResult_def list_all_iff)
qed

section \<open>The program\<close>

lemma open_transposes:
  assumes "rect_ok nrows ncols xs" "K \<in> set (open_launches nrows ncols)"
  shows "transposes nrows ncols xs K"
  using assms(2) naiveGmem_transposes [OF assms(1)] naiveGmemUnroll_transposes [OF assms(1)]
    transposeSmem_transposes [OF assms(1)]
  by (auto simp: open_launches_def)

lemma test_ends_iff:
  assumes "rect_ok nrows ncols xs" "\<And>x. \<not> differ x x" "transposes nrows ncols xs K"
  shows "test_ends differ zero nrows ncols (transposed nrows ncols xs) xs K v \<longleftrightarrow> v"
proof -
  let ?ys = "replicate (length xs) zero"
  have c: "checkResult differ (transposed nrows ncols xs) (transposed nrows ncols xs) ncols nrows = Inr True"
    by (rule checkResult_same [OF assms(1,2)]) (simp add: transposed_def)
  have "reaches K xs ?ys (launched K ?ys)" unfolding reaches_def by (rule reach_init) simp
  then obtain s where "reaches K xs ?ys s" "finished K s"
    using assms(3) unfolding transposes_def by (metis length_replicate)
  moreover have "runs_defined K xs ?ys"
    using assms(3) unfolding runs_defined_def transposes_def by (metis length_replicate)
  ultimately show ?thesis
    using assms(3) c unfolding test_ends_def transposes_def by (metis Inr_inject length_replicate)
qed

lemma transpose_main_tests:
  assumes "0 < nrows" "0 < ncols" "int (nrows * ncols) \<le> int_max" "length h_A = nrows * ncols"
  shows "transpose_main differ zero nrows ncols h_A verdicts \<longleftrightarrow>
    list_all2 (test_ends differ zero nrows ncols (transposed nrows ncols h_A) h_A) (checked_launches nrows ncols) verdicts"
proof -
  have r: "rect_ok nrows ncols h_A" using assms by (simp add: rect_ok_def)
  let ?ys = "replicate (length h_A) zero" and ?K = "first_launch nrows ncols"
  have h: "transposeHost ?ys h_A nrows ncols = Inr (transposed nrows ncols h_A)"
    by (rule transposeHost_ok [OF r]) (simp add: assms(4))
  have "reaches ?K h_A ?ys (launched ?K ?ys)"
    unfolding reaches_def by (rule reach_init) simp
  then have "\<exists>s. reaches ?K h_A ?ys s \<and> finished ?K s" "runs_defined ?K h_A ?ys"
    using copyGmem_transposes [OF r] unfolding transposes_def runs_defined_def by (metis length_replicate)+
  then show ?thesis unfolding transpose_main_def h by auto
qed

lemma list_all2_True:
  assumes "\<And>x v. x \<in> set xs \<Longrightarrow> P x v \<longleftrightarrow> v"
  shows "list_all2 P xs vs \<longleftrightarrow> vs = replicate (length xs) True"
  using assms by (induction xs arbitrary: vs) (auto simp: list_all2_Cons1)

text \<open>
  C14. Every kernel of the program transposes the matrix of the host, whatever the order in which
  its threads run: no access fails, no run gets stuck or goes on for ever, and at its end the output
  is that of \<open>transposeHost\<close>. The kernels with a barrier inside the boundary test need sides that
  are multiples of 16; the others need nothing but less than \<open>2 ^ 31\<close> elements.
\<close>
theorem rectangle_kernels_transpose:
  assumes "0 < nrows" "0 < ncols" "int (nrows * ncols) \<le> int_max" "length xs = nrows * ncols"
    and "K \<in> set (first_launch nrows ncols # checked_launches nrows ncols)"
    and "K \<in> set (guarded_launches nrows ncols) \<Longrightarrow> 16 dvd nrows \<and> 16 dvd ncols"
    and "length ys = length xs" "reaches K xs ys s"
  shows "\<not> failed s
    \<and> (if finished K s then transposeHost ys xs nrows ncols = Inr (outp s)
       else \<exists>s'. grid_step K xs s s' \<and> remaining K s' < remaining K s)"
proof -
  have r: "rect_ok nrows ncols xs" using assms(1-4) by (simp add: rect_ok_def)
  have "transposes nrows ncols xs K"
    using assms(5,6) copyGmem_transposes [OF r] open_transposes [OF r] wide_transposes [OF r]
      guarded_transposes [OF r]
    by (auto simp: checked_launches_def)
  then have t: "\<not> failed s" "finished K s \<Longrightarrow> outp s = transposed nrows ncols xs"
    "\<not> finished K s \<Longrightarrow> \<exists>s'. grid_step K xs s s'"
    "\<And>s'. grid_step K xs s s' \<Longrightarrow> remaining K s' < remaining K s"
    using assms(7,8) unfolding transposes_def by blast+
  have "transposeHost ys xs nrows ncols = Inr (transposed nrows ncols xs)"
    by (rule transposeHost_ok [OF r]) (simp add: assms(4,7))
  then show ?thesis using t by auto
qed

theorem rectangle_kernels_transpose_witness:
  "\<not> failed (launched (first_launch 3 5) (replicate 15 (0::int)))"
proof -
  have "reaches (first_launch 3 5) [1..15] (replicate 15 (0::int))
      (launched (first_launch 3 5) (replicate 15 0))"
    unfolding reaches_def by (rule reach_init) simp
  then show ?thesis
    using rectangle_kernels_transpose [of 3 5 "[1..15]" "first_launch 3 5" "replicate 15 0"
        "launched (first_launch 3 5) (replicate 15 0)"]
    by (simp add: int_max_def first_launch_def guarded_launches_def launch_def)
qed

text \<open>
  C8. The behaviour of the program is defined exactly when the sides of the matrix are multiples of 16; then
  all nine tests agree with the host. On every other matrix each of the three kernels with a barrier inside the
  boundary test has a run in which a thread waits at the barrier and another one of its block has ended without
  it, which is undefined.
\<close>
theorem transpose_main_defined:
  assumes "0 < nrows" "0 < ncols" "int (nrows * ncols) \<le> int_max" "length h_A = nrows * ncols"
    and "\<And>x. \<not> differ x x"
  shows "(transpose_main differ zero nrows ncols h_A verdicts \<longleftrightarrow>
      16 dvd nrows \<and> 16 dvd ncols \<and> verdicts = replicate 9 True)
    \<and> (\<not> (16 dvd nrows \<and> 16 dvd ncols) \<longrightarrow> (\<forall>K \<in> set (guarded_launches nrows ncols).
        \<exists>s. reaches K h_A (replicate (length h_A) zero) s \<and> failed s))"
proof (cases "16 dvd nrows \<and> 16 dvd ncols")
  case True
  have r: "rect_ok nrows ncols h_A" using assms(1-4) by (simp add: rect_ok_def)
  have "\<And>K. K \<in> set (checked_launches nrows ncols) \<Longrightarrow> transposes nrows ncols h_A K"
    using open_transposes [OF r] wide_transposes [OF r] guarded_transposes [OF r] True
    by (auto simp: checked_launches_def)
  then have "list_all2 (test_ends differ zero nrows ncols (transposed nrows ncols h_A) h_A) (checked_launches nrows ncols) verdicts \<longleftrightarrow>
      verdicts = replicate (length (checked_launches nrows ncols)) True"
    by (intro list_all2_True test_ends_iff [OF r assms(5)])
  moreover have "length (checked_launches nrows ncols) = 9"
    by (simp add: checked_launches_def open_launches_def guarded_launches_def unrolled_launches_def)
  ultimately show ?thesis using transpose_main_tests [OF assms(1-4)] True by (simp only:) blast
next
  case False
  have r: "rect_ok nrows ncols h_A" using assms(1-4) by (simp add: rect_ok_def)
  note diverges = guarded_diverges [OF r _ False]
  have "\<not> test_ends differ zero nrows ncols host h_A K v" if "K \<in> set (guarded_launches nrows ncols)" for host K v
    using diverges [OF that] unfolding test_ends_def runs_defined_def by blast
  moreover have "guarded_launches nrows ncols \<noteq> []" by (simp add: guarded_launches_def)
  ultimately have "\<not> list_all2 (test_ends differ zero nrows ncols (transposed nrows ncols h_A) h_A) (checked_launches nrows ncols) verdicts"
    unfolding checked_launches_def list_all2_append1
    by (cases "guarded_launches nrows ncols") (auto simp: list_all2_Cons1)
  then show ?thesis using transpose_main_tests [OF assms(1-4)] False diverges by blast
qed

theorem transpose_main_defined_witness:
  "transpose_main (\<lambda>a b. a \<noteq> b) (0::int) 16 16 (replicate 256 3) (replicate 9 True)
   \<and> \<not> transpose_main (\<lambda>a b. a \<noteq> b) (0::int) 17 1 (replicate 17 3) (replicate 9 True)"
  using transpose_main_defined [of 16 16 "replicate 256 (3::int)" "\<lambda>a b. a \<noteq> b" 0 "replicate 9 True"]
    transpose_main_defined [of 17 1 "replicate 17 (3::int)" "\<lambda>a b. a \<noteq> b" 0 "replicate 9 True"]
  by (simp add: int_max_def)

section \<open>The kernels at the size of the program\<close>

text \<open>The default size of \<open>main\<close> is \<open>1 << 12\<close> by \<open>1 << 12\<close>.\<close>

definition default_matrix :: "(nat \<Rightarrow> 'a) \<Rightarrow> 'a list" where
  "default_matrix f = map f [0..<4096 * 4096]"

lemma default_matrix_ok: "rect_ok 4096 4096 (default_matrix f)"
  unfolding rect_ok_def default_matrix_def length_map length_upt by (simp add: int_max_def)

interpretation smem: copying_kernel
  "launch (grid 4096 4096) (BDIMY, BDIMX) (transposeSmem 4096 4096)" "default_matrix f" "4096 * 4096" True
  "\<lambda>th. own_loads 4096 (in_rect 4096 4096 (tile_places Pair th))"
  "\<lambda>th. own_stores 4096 (in_rect 4096 4096 (crossed_places th))"
  "want2d 4096 16" "source 4096 4096"
  for f
  by (rule tiling_copies [where c = "transposeSmem 4096 4096" and L = "tile_places Pair"
      and S = crossed_places and want = "want2d 4096 16", OF default_matrix_ok smem_code [OF default_matrix_ok] smem_cells smem_stores])

end
