(* ===== verification/Transpose_Naive.thy ===== *)
theory Transpose_Naive
  imports Transpose_Main
begin

text \<open>
  The access patterns of \<^verbatim>\<open>Solutions/chapter04/transpose.cu\<close> in the CUDA samples: transpositions
  by rows, by columns, with several elements for each thread and with diagonal blocks. The threads
  of these kernels only move elements from the input to the output. The main program runs them
  one after the other on the same output, which is not cleared in between.
\<close>

section \<open>The kernels\<close>

text \<open>The arguments are the sides, \<open>gridDim\<close>, \<open>blockDim\<close> and the coordinates of a thread.\<close>

type_synonym kernel_code = "nat \<Rightarrow> nat \<Rightarrow> nat \<times> nat \<Rightarrow> nat \<times> nat \<Rightarrow> thread \<Rightarrow> instr list"

fun warmup :: kernel_code where
  "warmup nx ny (gdx, gdy) (bdx, bdy) ((bx, b), (tx, ty)) =
     (let ix = u32 (bdx * bx + tx); iy = u32 (bdy * b + ty) in
      if ix < nx \<and> iy < ny then [Move (u32 (iy * nx + ix)) (u32 (iy * nx + ix))] else [])"

fun copyRow :: kernel_code where
  "copyRow nx ny (gdx, gdy) (bdx, bdy) ((bx, b), (tx, ty)) =
     (let ix = u32 (bdx * bx + tx); iy = u32 (bdy * b + ty) in
      if ix < nx \<and> iy < ny then [Move (u32 (iy * nx + ix)) (u32 (iy * nx + ix))] else [])"

fun copyCol :: kernel_code where
  "copyCol nx ny (gdx, gdy) (bdx, bdy) ((bx, b), (tx, ty)) =
     (let ix = u32 (bdx * bx + tx); iy = u32 (bdy * b + ty) in
      if ix < nx \<and> iy < ny then [Move (u32 (ix * ny + iy)) (u32 (ix * ny + iy))] else [])"

fun transposeNaiveRow :: kernel_code where
  "transposeNaiveRow nx ny (gdx, gdy) (bdx, bdy) ((bx, b), (tx, ty)) =
     (let ix = u32 (bdx * bx + tx); iy = u32 (bdy * b + ty) in
      if ix < nx \<and> iy < ny then [Move (u32 (ix * ny + iy)) (u32 (iy * nx + ix))] else [])"

fun transposeNaiveCol :: kernel_code where
  "transposeNaiveCol nx ny (gdx, gdy) (bdx, bdy) ((bx, b), (tx, ty)) =
     (let ix = u32 (bdx * bx + tx); iy = u32 (bdy * b + ty) in
      if ix < nx \<and> iy < ny then [Move (u32 (iy * nx + ix)) (u32 (ix * ny + iy))] else [])"

fun transposeUnroll4Row :: kernel_code where
  "transposeUnroll4Row nx ny (gdx, gdy) (bdx, bdy) ((bx, b), (tx, ty)) =
     (let ix = u32 (bdx * bx * 4 + tx); iy = u32 (bdy * b + ty);
          ti = u32 (iy * nx + ix); to = u32 (ix * ny + iy) in
      if u32 (ix + 3 * bdx) < nx \<and> iy < ny
      then [Move to ti,
            Move (u32 (to + ny * bdx)) (u32 (ti + bdx)),
            Move (u32 (to + ny * 2 * bdx)) (u32 (ti + 2 * bdx)),
            Move (u32 (to + ny * 3 * bdx)) (u32 (ti + 3 * bdx))]
      else [])"

text \<open>A thread of this kernel moves a row, with signed indices. The output is stepped by \<open>nx\<close>.\<close>

fun transposeRow :: kernel_code where
  "transposeRow nx ny (gdx, gdy) (bdx, bdy) ((bx, b), (tx, ty)) =
     (let ix = u32 (bdx * bx + tx); iy = u32 (bdy * b + ty); row = u32 (iy * gdx * bdx + ix) in
      if row < ny then map (\<lambda>c. Move (row + c * nx) (row * nx + c)) [0..<nx] else [])"

fun transposeUnroll8Row :: kernel_code where
  "transposeUnroll8Row nx ny (gdx, gdy) (bdx, bdy) ((bx, b), (tx, ty)) =
     (let ix = u32 (bdx * bx * 8 + tx); iy = u32 (bdy * b + ty);
          ti = u32 (iy * nx + ix); to = u32 (ix * ny + iy) in
      if u32 (ix + 7 * bdx) < nx \<and> iy < ny
      then [Move to ti,
            Move (u32 (to + ny * bdx)) (u32 (ti + bdx)),
            Move (u32 (to + ny * 2 * bdx)) (u32 (ti + 2 * bdx)),
            Move (u32 (to + ny * 3 * bdx)) (u32 (ti + 3 * bdx)),
            Move (u32 (to + ny * 4 * bdx)) (u32 (ti + 4 * bdx)),
            Move (u32 (to + ny * 5 * bdx)) (u32 (ti + 5 * bdx)),
            Move (u32 (to + ny * 6 * bdx)) (u32 (ti + 6 * bdx)),
            Move (u32 (to + ny * 7 * bdx)) (u32 (ti + 7 * bdx))]
      else [])"

fun transposeUnroll4Col :: kernel_code where
  "transposeUnroll4Col nx ny (gdx, gdy) (bdx, bdy) ((bx, b), (tx, ty)) =
     (let ix = u32 (bdx * bx * 4 + tx); iy = u32 (bdy * b + ty);
          ti = u32 (iy * nx + ix); to = u32 (ix * ny + iy) in
      if u32 (ix + 3 * bdx) < nx \<and> iy < ny
      then [Move ti to,
            Move (u32 (ti + bdx)) (u32 (to + bdx * ny)),
            Move (u32 (ti + 2 * bdx)) (u32 (to + 2 * bdx * ny)),
            Move (u32 (ti + 3 * bdx)) (u32 (to + 3 * bdx * ny))]
      else [])"

fun transposeDiagonalRow :: kernel_code where
  "transposeDiagonalRow nx ny (gdx, gdy) (bdx, bdy) ((bx, b), (tx, ty)) =
     (let blk_y = bx; blk_x = u32 (bx + b) mod gdx;
          ix = u32 (bdx * blk_x + tx); iy = u32 (bdy * blk_y + ty) in
      if ix < nx \<and> iy < ny then [Move (u32 (ix * ny + iy)) (u32 (iy * nx + ix))] else [])"

fun transposeDiagonalCol :: kernel_code where
  "transposeDiagonalCol nx ny (gdx, gdy) (bdx, bdy) ((bx, b), (tx, ty)) =
     (let blk_y = bx; blk_x = u32 (bx + b) mod gdx;
          ix = u32 (bdx * blk_x + tx); iy = u32 (bdy * blk_y + ty) in
      if ix < nx \<and> iy < ny then [Move (u32 (iy * nx + ix)) (u32 (ix * ny + iy))] else [])"

fun transposeDiagonalColUnroll4 :: kernel_code where
  "transposeDiagonalColUnroll4 nx ny (gdx, gdy) (bdx, bdy) ((bx, b), (tx, ty)) =
     (let blk_y = bx; blk_x = u32 (bx + b) mod gdx; ix_stride = u32 (bdx * blk_x);
          ix = u32 (ix_stride * 4 + tx); iy = u32 (bdy * blk_y + ty) in
      if ix < nx \<and> iy < ny
      then [Move (u32 (iy * nx + ix)) (u32 (ix * ny + iy)),
            Move (u32 (iy * nx + ix + bdx)) (u32 (u32 (ix + bdx) * ny + iy)),
            Move (u32 (iy * nx + ix + 2 * bdx)) (u32 (u32 (ix + 2 * bdx) * ny + iy)),
            Move (u32 (iy * nx + ix + 3 * bdx)) (u32 (u32 (ix + 3 * bdx) * ny + iy))]
      else [])"

section \<open>The main program\<close>

text \<open>The loops of \<open>transposeHost\<close>, and the comparison, which stops at the first difference.\<close>

definition host_move :: "nat \<Rightarrow> nat \<Rightarrow> 'a list \<Rightarrow> nat \<times> nat \<Rightarrow> 'a list \<Rightarrow> 'a list result" where
  "host_move nx ny xs p ys = (case p of (iy, ix) \<Rightarrow>
     bindr (bindr (cint (int iy * int nx)) (\<lambda>i. cint (i + int ix))) (\<lambda>i. bindr (vget xs i) (\<lambda>v.
     bindr (bindr (cint (int ix * int ny)) (\<lambda>k. cint (k + int iy))) (\<lambda>k. vset ys k v))))"

definition host_transpose :: "'a list \<Rightarrow> 'a list \<Rightarrow> nat \<Rightarrow> nat \<Rightarrow> 'a list result" where
  "host_transpose out xs nx ny = iterr (host_move nx ny xs) (List.product [0..<ny] [0..<nx]) out"

fun compare_from :: "('a \<Rightarrow> 'a \<Rightarrow> bool) \<Rightarrow> 'a list \<Rightarrow> 'a list \<Rightarrow> nat list \<Rightarrow> bool result" where
  "compare_from differ host gpu [] = Inr True"
| "compare_from differ host gpu (i # is) =
     bindr (vget host (int i)) (\<lambda>a. bindr (vget gpu (int i)) (\<lambda>b.
       if differ a b then Inr False else compare_from differ host gpu is))"

text \<open>The grids are computed with unsigned arithmetic, where adding \<open>2 ^ 32 - 1\<close> subtracts 1.\<close>

definition grid_of :: "nat \<Rightarrow> nat \<Rightarrow> nat \<Rightarrow> nat \<times> nat \<Rightarrow> nat \<times> nat" where
  "grid_of part nx ny bd =
     (u32 (nx + fst bd + (2 ^ 32 - 1)) div u32 (fst bd * part),
      u32 (ny + snd bd + (2 ^ 32 - 1)) div u32 (snd bd * part))"

definition kernel_of :: "nat \<Rightarrow> nat \<Rightarrow> nat \<Rightarrow> nat \<times> nat \<Rightarrow> kernel_code \<Rightarrow> kernel" where
  "kernel_of part nx ny bd c =
     \<lparr>gridDim = grid_of part nx ny bd, blockDim = bd, tileDim = (0, 0),
      code = c nx ny (grid_of part nx ny bd) bd\<rparr>"

definition naive_launches :: "nat \<Rightarrow> nat \<Rightarrow> nat \<times> nat \<Rightarrow> kernel list" where
  "naive_launches nx ny bd =
     [kernel_of 1 nx ny bd transposeNaiveRow, kernel_of 1 nx ny bd transposeNaiveCol,
      kernel_of 4 nx ny bd transposeUnroll4Row, kernel_of 1 nx ny bd transposeRow,
      kernel_of 8 nx ny bd transposeUnroll8Row, kernel_of 4 nx ny bd transposeUnroll4Col,
      kernel_of 1 nx ny bd transposeDiagonalRow, kernel_of 1 nx ny bd transposeDiagonalCol,
      kernel_of 4 nx ny bd transposeDiagonalColUnroll4]"

text \<open>
  A launch whose dimensions are zero or above the limits of the device fails, and \<open>CHECK\<close> of
  \<open>cudaGetLastError\<close> ends the program. \<open>(mx, my, mt)\<close> are the greatest sides of a grid and the
  greatest number of threads in a block.
\<close>

fun launchable :: "nat \<times> nat \<times> nat \<Rightarrow> kernel \<Rightarrow> bool" where
  "launchable (mx, my, mt) K \<longleftrightarrow>
     0 < fst (gridDim K) \<and> fst (gridDim K) \<le> mx \<and> 0 < snd (gridDim K) \<and> snd (gridDim K) \<le> my
     \<and> 0 < fst (blockDim K) \<and> 0 < snd (blockDim K) \<and> fst (blockDim K) * snd (blockDim K) \<le> mt"

definition kernel_run :: "nat \<times> nat \<times> nat \<Rightarrow> kernel \<Rightarrow> 'a list \<Rightarrow> 'a list \<Rightarrow> 'a list \<Rightarrow> bool" where
  "kernel_run limits K xs ys zs \<longleftrightarrow>
     launchable limits K \<and> (\<exists>s. reaches K xs ys s \<and> finished K s \<and> outp s = zs)"

fun naive_tests :: "nat \<times> nat \<times> nat \<Rightarrow> ('a \<Rightarrow> 'a \<Rightarrow> bool) \<Rightarrow> 'a list \<Rightarrow> 'a list \<Rightarrow> kernel list \<Rightarrow>
    'a list \<Rightarrow> bool list \<Rightarrow> bool" where
  "naive_tests limits differ hostRef d_A [] d_C verdicts \<longleftrightarrow> verdicts = []"
| "naive_tests limits differ hostRef d_A (K # Ks) d_C verdicts \<longleftrightarrow>
     (\<exists>gpuRef v vs. kernel_run limits K d_A d_C gpuRef
        \<and> compare_from differ hostRef gpuRef [0..<length d_A] = Inr v
        \<and> verdicts = v # vs \<and> naive_tests limits differ hostRef d_A Ks gpuRef vs)"

text \<open>\<open>hostRef\<close> and \<open>d_C\<close> are what the allocations return.\<close>

definition naive_main :: "nat \<times> nat \<times> nat \<Rightarrow> ('a \<Rightarrow> 'a \<Rightarrow> bool) \<Rightarrow> 'a list \<Rightarrow> 'a list \<Rightarrow> nat \<Rightarrow> nat \<Rightarrow>
    nat \<times> nat \<Rightarrow> 'a list \<Rightarrow> bool list \<Rightarrow> bool" where
  "naive_main limits differ hostRef d_C nx ny bd h_A verdicts \<longleftrightarrow>
     (\<exists>host warm. host_transpose hostRef h_A nx ny = Inr host
        \<and> kernel_run limits (kernel_of 1 nx ny bd warmup) h_A d_C warm
        \<and> naive_tests limits differ host h_A (naive_launches nx ny bd) warm verdicts)"

end
