(* ===== verification/Transpose_Square.thy ===== *)
theory Transpose_Square
  imports Transpose_Naive
begin

text \<open>
  The program of \<^verbatim>\<open>Solutions/chapter04/transpose.cu\<close> on square matrices: which sizes it
  completes on, and what its kernels write. The kernels that read by columns agree with the host on
  square matrices only; the unrolled kernels run on a grid that is too small and leave most
  of the matrix alone, which the tests cannot see.
\<close>

section \<open>Sizes\<close>

text \<open>Every grid of the program has a block, and the matrix has less than \<open>2 ^ 31\<close> elements.\<close>

definition square_ok :: "nat \<Rightarrow> nat \<times> nat \<Rightarrow> bool" where
  "square_ok n bd \<longleftrightarrow> 0 < fst bd \<and> 0 < snd bd \<and> 7 * fst bd < n \<and> 7 * snd bd < n
     \<and> int (n * n) \<le> int_max"

lemma square_bounds:
  assumes "square_ok n bd"
  shows "0 < fst bd" "0 < snd bd" "7 * fst bd < n" "7 * snd bd < n" "n < 65536" "n * n < 2 ^ 31"
proof -
  have "rect_ok n n (replicate (n * n) ())" using assms by (simp add: square_ok_def rect_ok_def)
  from rect_bounds(5) [OF this] show m: "n * n < 2 ^ 31" .
  show "n < 65536"
  proof (rule ccontr)
    assume "\<not> n < 65536"
    then have "65536 * 65536 \<le> n * n" by (intro mult_le_mono) simp_all
    then show False using m by simp
  qed
  show "0 < fst bd" "0 < snd bd" "7 * fst bd < n" "7 * snd bd < n"
    using assms by (simp_all add: square_ok_def)
qed

lemma square_rect: "square_ok n bd \<Longrightarrow> length xs = n * n \<Longrightarrow> rect_ok n n xs"
  by (simp add: square_ok_def rect_ok_def)

lemma square_index:
  assumes "square_ok n bd" "r < n" "k < n"
  shows "u32 (r * n + k) = r * n + k"
proof (rule u32_small)
  have "r * n + k < n * n" by (rule offset_less [OF assms(2,3)])
  also have "\<dots> < 2 ^ 31" by (rule square_bounds(6) [OF assms(1)])
  finally show "r * n + k < 2 ^ 32" by simp
qed

lemma minus_one: "0 < x \<Longrightarrow> x < 2 ^ 32 \<Longrightarrow> u32 (x + (2 ^ 32 - 1)) = x - 1"
proof -
  assume "0 < x" "x < 2 ^ 32"
  then have "x + (2 ^ 32 - 1) = (x - 1) + 2 ^ 32" by simp
  then show ?thesis unfolding u32_def using \<open>x < 2 ^ 32\<close> by (simp only: mod_add_self2) simp
qed

lemma grid_of_eq:
  assumes "square_ok n bd" "0 < part" "part \<le> 8"
  shows "grid_of part n n bd = ((n + fst bd - 1) div (fst bd * part), (n + snd bd - 1) div (snd bd * part))"
proof -
  note b = square_bounds [OF assms(1)]
  note n = b(5)
  have "fst bd * part \<le> fst bd * 8" "snd bd * part \<le> snd bd * 8" using assms(3) by simp_all
  then have "fst bd * part < 4294967296" "snd bd * part < 4294967296" "n + fst bd < 4294967296"
    "n + snd bd < 4294967296"
    using b(3,4) n by linarith+
  then show ?thesis using b(1,2) by (simp add: grid_of_def u32_small minus_one [simplified])
qed

lemma part_bound:
  assumes "b < (n + w - 1) div (w * (part :: nat))"
  shows "w * part * b + w * part < n + w" "0 < w"
proof -
  have "(b + 1) * (w * part) \<le> (n + w - 1) div (w * part) * (w * part)"
    using assms by (intro mult_le_mono1) simp
  also have "\<dots> \<le> n + w - 1" by (rule div_times_less_eq_dividend)
  finally have le: "w * part * b + w * part \<le> n + w - 1" by (simp add: algebra_simps)
  show w: "0 < w" using assms by (cases w) auto
  show "w * part * b + w * part < n + w" using le w by linarith
qed

section \<open>What the statements move\<close>

definition square_moves :: "nat \<Rightarrow> instr list \<Rightarrow> bool" where
  "square_moves n is \<longleftrightarrow> list_all (\<lambda>ins. \<exists>r k. r < n \<and> k < n \<and> ins = Move (k * n + r) (r * n + k)) is"

lemma square_moves_simps [simp]:
  "square_moves n []"
  "square_moves n (ins # is) \<longleftrightarrow>
     (\<exists>r k. r < n \<and> k < n \<and> ins = Move (k * n + r) (r * n + k)) \<and> square_moves n is"
  by (simp_all add: square_moves_def)

lemma square_move: "r < n \<Longrightarrow> k < n \<Longrightarrow> \<exists>r' k'. r' < n \<and> k' < n \<and> Move (k * n + r) (r * n + k) = Move (k' * n + r') (r' * n + k')"
  by blast

lemma naive_moves:
  assumes "square_ok n bd"
  shows "square_moves n (transposeNaiveRow n n g bd th)" "square_moves n (transposeNaiveCol n n g bd th)"
    "square_moves n (transposeDiagonalRow n n g bd th)" "square_moves n (transposeDiagonalCol n n g bd th)"
proof -
  obtain bx b tx ty where th: "th = ((bx, b), (tx, ty))" by (metis surj_pair)
  obtain gdx gdy where g: "g = (gdx, gdy)" by fastforce
  obtain bdx bdy where bd: "bd = (bdx, bdy)" by fastforce
  show "square_moves n (transposeNaiveRow n n g bd th)" "square_moves n (transposeNaiveCol n n g bd th)"
    "square_moves n (transposeDiagonalRow n n g bd th)" "square_moves n (transposeDiagonalCol n n g bd th)"
    unfolding th g bd using square_index [OF assms]
    by (auto simp: Let_def)
qed

lemma row_moves:
  assumes "square_ok n bd"
  shows "square_moves n (transposeRow n n g bd th)"
proof -
  obtain bx b tx ty where th: "th = ((bx, b), (tx, ty))" by (metis surj_pair)
  obtain gdx gdy where g: "g = (gdx, gdy)" by fastforce
  obtain bdx bdy where bd: "bd = (bdx, bdy)" by fastforce
  show ?thesis
    unfolding th g bd by (auto simp: Let_def square_moves_def list_all_iff add.commute)
qed

text \<open>Stepping by \<open>d\<close> columns of the input, which are \<open>d\<close> rows of the output.\<close>

lemma stepped:
  assumes "square_ok n bd" "ix + d < n" "iy < n"
  shows "u32 (ix * n + iy + n * d) = (ix + d) * n + iy" "u32 (ix * n + iy + d * n) = (ix + d) * n + iy"
    "u32 (iy * n + ix + d) = iy * n + (ix + d)"
proof -
  have e: "ix * n + iy + n * d = (ix + d) * n + iy" "ix * n + iy + d * n = (ix + d) * n + iy"
    "iy * n + ix + d = iy * n + (ix + d)"
    by (simp_all add: algebra_simps)
  show "u32 (ix * n + iy + n * d) = (ix + d) * n + iy"
    "u32 (ix * n + iy + d * n) = (ix + d) * n + iy" "u32 (iy * n + ix + d) = iy * n + (ix + d)"
    unfolding e by (rule square_index [OF assms(1)], use assms in simp_all)+
qed

lemma wide_index:
  assumes "square_ok n bd" "bx < (n + fst bd - 1) div (fst bd * part)" "tx < fst bd" "part \<le> 8" "j \<le> 7"
  shows "u32 (fst bd * bx * part + tx) = fst bd * bx * part + tx"
    and "u32 (fst bd * bx * part + tx + j * fst bd) = fst bd * bx * part + tx + j * fst bd"
proof -
  note b = square_bounds [OF assms(1)]
  note n = b(5)
  have "fst bd * part * bx < n + fst bd" using part_bound(1) [OF assms(2)] by linarith
  then have p: "fst bd * bx * part < n + fst bd" by (simp add: ac_simps)
  moreover have "j * fst bd \<le> 7 * fst bd" using assms(5) by simp
  ultimately have "fst bd * bx * part + tx + j * fst bd < 4294967296" using assms(3) b(3) n by linarith
  then show "u32 (fst bd * bx * part + tx) = fst bd * bx * part + tx"
    and "u32 (fst bd * bx * part + tx + j * fst bd) = fst bd * bx * part + tx + j * fst bd"
    by (simp_all add: u32_small)
qed

text \<open>The threads of the unrolled kernels move \<open>part\<close> elements, \<open>blockDim.x\<close> columns apart.\<close>

definition row_steps :: "nat \<Rightarrow> nat \<Rightarrow> nat \<Rightarrow> nat \<Rightarrow> nat list \<Rightarrow> instr list" where
  "row_steps n ix iy w js = map (\<lambda>j. Move ((ix + j * w) * n + iy) (iy * n + (ix + j * w))) js"

definition col_steps :: "nat \<Rightarrow> nat \<Rightarrow> nat \<Rightarrow> nat \<Rightarrow> nat list \<Rightarrow> instr list" where
  "col_steps n ix iy w js = map (\<lambda>j. Move (iy * n + (ix + j * w)) ((ix + j * w) * n + iy)) js"

lemma steps_square:
  assumes "iy < n" "\<And>j. j \<in> set js \<Longrightarrow> ix + j * w < n"
  shows "square_moves n (row_steps n ix iy w js)" "square_moves n (col_steps n ix iy w js)"
  using assms by (auto simp: square_moves_def row_steps_def col_steps_def list_all_iff)

lemma steps_within:
  assumes "iy < n" "ix + m * w < n" "list_all (\<lambda>j. j \<le> m) js"
  shows "square_moves n (row_steps n ix iy w js)" "square_moves n (col_steps n ix iy w js)"
proof -
  have "ix + j * w < n" if "j \<in> set js" for j
  proof -
    have "j \<le> m" using assms(3) that by (simp add: list_all_iff)
    then have "j * w \<le> m * w" by (rule mult_le_mono1)
    then show ?thesis using assms(2) by linarith
  qed
  then show "square_moves n (row_steps n ix iy w js)" "square_moves n (col_steps n ix iy w js)"
    using steps_square [OF assms(1)] by blast+
qed

lemma steps_index:
  assumes "square_ok n bd" "ix + j * w < n" "iy < n" "i * w \<le> j * w"
  shows "u32 (ix * n + iy + n * (i * w)) = (ix + i * w) * n + iy"
    "u32 (ix * n + iy + (i * w) * n) = (ix + i * w) * n + iy"
    "u32 (iy * n + ix + i * w) = iy * n + (ix + i * w)"
    "u32 (u32 (ix + i * w) * n + iy) = (ix + i * w) * n + iy"
proof -
  have l: "ix + i * w < n" using assms(2,4) by linarith
  show "u32 (ix * n + iy + n * (i * w)) = (ix + i * w) * n + iy"
    "u32 (ix * n + iy + (i * w) * n) = (ix + i * w) * n + iy"
    "u32 (iy * n + ix + i * w) = iy * n + (ix + i * w)"
    by (rule stepped [OF assms(1) l assms(3)])+
  have "u32 (ix + i * w) = ix + i * w" using l square_bounds(5) [OF assms(1)] by (intro u32_small) simp
  then show "u32 (u32 (ix + i * w) * n + iy) = (ix + i * w) * n + iy"
    using square_index [OF assms(1) l assms(3)] by simp
qed

lemma unroll4_code:
  assumes "square_ok n (bdx, bdy)" "bx < (n + bdx - 1) div (bdx * 4)" "tx < bdx"
    and "ix = bdx * bx * 4 + tx" "iy = u32 (bdy * b + ty)"
  shows "transposeUnroll4Row n n g (bdx, bdy) ((bx, b), (tx, ty)) =
      (if ix + 3 * bdx < n \<and> iy < n then row_steps n ix iy bdx [0, 1, 2, 3] else [])"
    and "transposeUnroll4Col n n g (bdx, bdy) ((bx, b), (tx, ty)) =
      (if ix + 3 * bdx < n \<and> iy < n then col_steps n ix iy bdx [0, 1, 2, 3] else [])"
proof -
  obtain gdx gdy where g: "g = (gdx, gdy)" by fastforce
  have ix: "u32 ix = ix" "u32 (ix + 3 * bdx) = ix + 3 * bdx"
    using wide_index [OF assms(1), of bx 4 tx 3] assms(2-4) by simp_all
  have "u32 (ix * n + iy) = ix * n + iy" "u32 (iy * n + ix) = iy * n + ix"
    if "ix + 3 * bdx < n" "iy < n"
    using square_index [OF assms(1)] that by simp_all
  moreover note s = steps_index [OF assms(1), of ix 3 bdx iy]
  ultimately show "transposeUnroll4Row n n g (bdx, bdy) ((bx, b), (tx, ty)) =
      (if ix + 3 * bdx < n \<and> iy < n then row_steps n ix iy bdx [0, 1, 2, 3] else [])"
    and "transposeUnroll4Col n n g (bdx, bdy) ((bx, b), (tx, ty)) =
      (if ix + 3 * bdx < n \<and> iy < n then col_steps n ix iy bdx [0, 1, 2, 3] else [])"
    using ix s(1,2,3) [of 1] s(1,2,3) [of 2] s(1,2,3) [of 3]
    unfolding g transposeUnroll4Row.simps transposeUnroll4Col.simps Let_def assms(4,5) [symmetric]
    by (simp_all add: row_steps_def col_steps_def mult.assoc)
qed

lemma unroll8_code:
  assumes "square_ok n (bdx, bdy)" "bx < (n + bdx - 1) div (bdx * 8)" "tx < bdx"
    and "ix = bdx * bx * 8 + tx" "iy = u32 (bdy * b + ty)"
  shows "transposeUnroll8Row n n g (bdx, bdy) ((bx, b), (tx, ty)) =
      (if ix + 7 * bdx < n \<and> iy < n then row_steps n ix iy bdx [0, 1, 2, 3, 4, 5, 6, 7] else [])"
proof -
  obtain gdx gdy where g: "g = (gdx, gdy)" by fastforce
  have ix: "u32 ix = ix" "u32 (ix + 7 * bdx) = ix + 7 * bdx"
    using wide_index [OF assms(1), of bx 8 tx 7] assms(2-4) by simp_all
  have "u32 (ix * n + iy) = ix * n + iy" "u32 (iy * n + ix) = iy * n + ix"
    if "ix + 7 * bdx < n" "iy < n"
    using square_index [OF assms(1)] that by simp_all
  moreover note s = steps_index(1,3) [OF assms(1), of ix 7 bdx iy]
  ultimately show ?thesis
    using ix s [of 1] s [of 2] s [of 3] s [of 4] s [of 5] s [of 6] s [of 7]
    unfolding g transposeUnroll8Row.simps Let_def assms(4,5) [symmetric]
    by (simp add: row_steps_def mult.assoc)
qed

text \<open>
  The last kernel has no test of the elements after the first. They are in the matrix when the grid
  is not rounded up.
\<close>

lemma diagonal4_code:
  assumes "square_ok n (bdx, bdy)" "0 < gdx" "gdx = (n + bdx - 1) div (bdx * 4)" "tx < bdx"
    and "n mod (4 * bdx) \<le> 3 * bdx"
    and "ix = bdx * (u32 (bx + b) mod gdx) * 4 + tx" "iy = u32 (bdy * bx + ty)"
  shows "transposeDiagonalColUnroll4 n n (gdx, gdy) (bdx, bdy) ((bx, b), (tx, ty)) =
      (if iy < n then col_steps n ix iy bdx [0, 1, 2, 3] else [])" and "ix + 3 * bdx < n"
proof -
  note bnd = square_bounds [OF assms(1), unfolded fst_conv snd_conv]
  define k where "k = u32 (bx + b) mod gdx"
  have k: "k < gdx" using assms(2) by (simp add: k_def)
  define q where "q = n div (4 * bdx)"
  have n: "n = 4 * bdx * q + n mod (4 * bdx)" by (simp add: q_def)
  have "n + bdx - 1 < (q + 1) * (bdx * 4)" using n assms(5) bnd(1) by (simp add: algebra_simps)
  then have "gdx \<le> q" unfolding assms(3) using bnd(1) by (simp add: div_less_iff_less_mult less_Suc_eq_le [symmetric])
  then have "4 * bdx * (k + 1) \<le> 4 * bdx * q" using k by (intro mult_le_mono2) simp
  then have le: "bdx * k * 4 + 4 * bdx \<le> n" using n by (simp add: algebra_simps)
  then show r: "ix + 3 * bdx < n" using assms(4,6) by (simp add: k_def)
  have "bdx * k < 4294967296" "ix < 4294967296" using le r bnd(5) by linarith+
  then have u: "u32 (bdx * k) = bdx * k" "u32 ix = ix" by (simp_all add: u32_small)
  have i: "u32 (ix * n + iy) = ix * n + iy" "u32 (iy * n + ix) = iy * n + ix" if "iy < n"
    using square_index [OF assms(1)] that r by simp_all
  note s = steps_index(3,4) [OF assms(1) r]
  show "transposeDiagonalColUnroll4 n n (gdx, gdy) (bdx, bdy) ((bx, b), (tx, ty)) =
      (if iy < n then col_steps n ix iy bdx [0, 1, 2, 3] else [])"
    using u i s [of iy 1] s [of iy 2] s [of iy 3] r
    unfolding transposeDiagonalColUnroll4.simps Let_def k_def [symmetric] u(1)
      assms(6,7) [symmetric, folded k_def]
    by (simp add: col_steps_def)
qed

end
