(* ===== verification/Transpose_Naive_Main.thy ===== *)
theory Transpose_Naive_Main
  imports Transpose_Square
begin

text \<open>
  The runs of \<^verbatim>\<open>Solutions/chapter04/transpose.cu\<close>: the launches of the program on a square matrix,
  what the output holds after each of them, on which sizes the program completes, and how little
  the unrolled kernels do.
\<close>

section \<open>The launches\<close>

lemma kernel_of_simps [simp]:
  "gridDim (kernel_of part nx ny bd c) = grid_of part nx ny bd"
  "blockDim (kernel_of part nx ny bd c) = bd"
  "code (kernel_of part nx ny bd c) = c nx ny (grid_of part nx ny bd) bd"
  by (simp_all add: kernel_of_def)

lemma thread_of_kernel:
  assumes "square_ok n bd" "0 < part" "part \<le> 8"
  shows "((bx, b), (tx, ty)) \<in> set (threads (kernel_of part n n bd c)) \<longleftrightarrow>
    bx < (n + fst bd - 1) div (fst bd * part) \<and> b < (n + snd bd - 1) div (snd bd * part)
    \<and> tx < fst bd \<and> ty < snd bd"
  by (simp add: set_threads set_blocks set_pairs grid_of_eq [OF assms])

lemma ceiling_le:
  assumes "0 < w" "0 < part" "0 < n"
  shows "(n + w - 1) div (w * part) \<le> (n :: nat)"
proof -
  have "n + w - 1 \<le> n * w"
  proof (cases n)
    case (Suc m)
    have "m * 1 \<le> m * w" using assms(1) by (intro mult_le_mono2) simp
    then show ?thesis using assms(1) by (simp add: Suc)
  qed (use assms in simp)
  also have "\<dots> \<le> n * w * part" using assms(2) by simp
  finally have "(n + w - 1) div (w * part) \<le> n * (w * part) div (w * part)"
    by (intro div_le_mono) (simp add: mult.assoc)
  then show ?thesis using assms by simp
qed

lemma ceiling_pos:
  assumes "0 < w" "0 < part" "part \<le> 8" "7 * w < n"
  shows "0 < (n + w - 1) div (w * (part :: nat))"
proof -
  have "w * part \<le> w * 8" using assms(3) by simp
  then have "w * part \<le> n + w - 1" using assms(1,4) by linarith
  then show ?thesis using assms(1,2) by (simp add: div_greater_zero_iff)
qed

lemma launchable_square:
  assumes "square_ok n bd" "0 < part" "part \<le> 8" "n \<le> mx" "n \<le> my" "fst bd * snd bd \<le> mt"
  shows "launchable (mx, my, mt) (kernel_of part n n bd c)"
  using square_bounds [OF assms(1)] ceiling_le [of "fst bd" part n] ceiling_le [of "snd bd" part n]
    ceiling_pos [of "fst bd" part n] ceiling_pos [of "snd bd" part n] assms(2-6)
  by (simp add: grid_of_eq [OF assms(1-3)])

lemma moves_copying:
  assumes "square_ok n bd" "length xs = n * n"
    and "\<And>th. th \<in> set (threads (kernel_of part n n bd c)) \<Longrightarrow>
      square_moves n (code (kernel_of part n n bd c) th)"
  shows "copying_kernel (kernel_of part n n bd c) xs (n * n) False (\<lambda>_. [])
    (code (kernel_of part n n bd c)) (\<lambda>_ _. 0) (source n n)"
proof (rule move_kernel)
  fix th ins
  assume "th \<in> set (threads (kernel_of part n n bd c))" "ins \<in> set (code (kernel_of part n n bd c) th)"
  then obtain r k where "r < n" "k < n" "ins = Move (k * n + r) (r * n + k)"
    using assms(3) unfolding square_moves_def list_all_iff by blast
  then show "\<exists>o' i. ins = Move o' i \<and> i = source n n o' \<and> i < length xs \<and> o' < n * n"
    using offset_less [of r n k n] offset_less [of k n r n] assms(2) by (simp add: source_offset)
qed (use square_bounds(1,2) [OF assms(1)] in simp_all)

lemma warmup_copying:
  assumes "square_ok n bd" "length xs = n * n"
  shows "copying_kernel (kernel_of 1 n n bd warmup) xs (n * n) False (\<lambda>_. [])
    (code (kernel_of 1 n n bd warmup)) (\<lambda>_ _. 0) id"
proof (rule move_kernel)
  fix th ins
  assume ins: "ins \<in> set (code (kernel_of 1 n n bd warmup) th)"
  obtain bx b tx ty where th: "th = ((bx, b), (tx, ty))" by (metis surj_pair)
  obtain gdx gdy where g: "grid_of 1 n n bd = (gdx, gdy)" by fastforce
  obtain bdx bdy where bd: "bd = (bdx, bdy)" by fastforce
  have "ins \<in> set (warmup n n (gdx, gdy) (bdx, bdy) ((bx, b), (tx, ty)))"
    using ins g by (simp add: th bd)
  then obtain ix iy where "ix < n" "iy < n" "ins = Move (u32 (iy * n + ix)) (u32 (iy * n + ix))"
    by (auto simp: Let_def split: if_splits)
  then show "\<exists>o' i. ins = Move o' i \<and> i = id o' \<and> i < length xs \<and> o' < n * n"
    using square_index [OF assms(1), of iy ix] offset_less [of iy n ix n] assms(2) by simp
qed (use square_bounds(1,2) [OF assms(1)] in simp_all)

lemma unrolled_square:
  assumes "square_ok n bd" "th \<in> set (threads (kernel_of 4 n n bd c))"
  shows "square_moves n (transposeUnroll4Row n n g bd th)" "square_moves n (transposeUnroll4Col n n g bd th)"
proof -
  obtain bx b tx ty where th: "th = ((bx, b), (tx, ty))" by (metis surj_pair)
  obtain bdx bdy where bd: "bd = (bdx, bdy)" by fastforce
  have t: "bx < (n + bdx - 1) div (bdx * 4)" "tx < bdx"
    using assms(2) thread_of_kernel [OF assms(1), of 4 bx b tx ty c] by (simp_all add: th bd)
  note s = steps_within [of "u32 (bdy * b + ty)" n "bdx * bx * 4 + tx" 3 bdx "[0, 1, 2, 3]"]
  show "square_moves n (transposeUnroll4Row n n g bd th)" "square_moves n (transposeUnroll4Col n n g bd th)"
    using unroll4_code [OF assms(1) [unfolded bd] t refl refl, of g b ty] s by (auto simp: th bd)
qed

lemma unrolled8_square:
  assumes "square_ok n bd" "th \<in> set (threads (kernel_of 8 n n bd c))"
  shows "square_moves n (transposeUnroll8Row n n g bd th)"
proof -
  obtain bx b tx ty where th: "th = ((bx, b), (tx, ty))" by (metis surj_pair)
  obtain bdx bdy where bd: "bd = (bdx, bdy)" by fastforce
  have t: "bx < (n + bdx - 1) div (bdx * 8)" "tx < bdx"
    using assms(2) thread_of_kernel [OF assms(1), of 8 bx b tx ty c] by (simp_all add: th bd)
  note s = steps_within [of "u32 (bdy * b + ty)" n "bdx * bx * 8 + tx" 7 bdx "[0, 1, 2, 3, 4, 5, 6, 7]"]
  show ?thesis
    using unroll8_code [OF assms(1) [unfolded bd] t refl refl, of g b ty] s by (auto simp: th bd)
qed

lemma diagonal4_square:
  assumes "square_ok n bd" "th \<in> set (threads (kernel_of 4 n n bd transposeDiagonalColUnroll4))"
    and "n mod (4 * fst bd) \<le> 3 * fst bd"
  shows "square_moves n (code (kernel_of 4 n n bd transposeDiagonalColUnroll4) th)"
proof -
  obtain bx b tx ty where th: "th = ((bx, b), (tx, ty))" by (metis surj_pair)
  obtain bdx bdy where bd: "bd = (bdx, bdy)" by fastforce
  have t: "bx < (n + bdx - 1) div (bdx * 4)" "tx < bdx"
    using assms(2) thread_of_kernel [OF assms(1), of 4 bx b tx ty transposeDiagonalColUnroll4]
    by (simp_all add: th bd)
  define gdx where "gdx = (n + bdx - 1) div (bdx * 4)"
  define ix where "ix = bdx * (u32 (bx + b) mod gdx) * 4 + tx"
  have gdx: "0 < gdx" using t(1) by (simp add: gdx_def)
  have m: "n mod (4 * bdx) \<le> 3 * bdx" using assms(3) by (simp add: bd)
  obtain gdy where g: "grid_of 4 n n bd = (gdx, gdy)"
    using grid_of_eq [OF assms(1), of 4] by (simp add: bd gdx_def)
  note d = diagonal4_code [OF assms(1) [unfolded bd] gdx gdx_def t(2) m ix_def refl]
  show ?thesis
    using d(1) [of gdy ty] d(2) steps_within(2) [of "u32 (bdy * bx + ty)" n ix 3 bdx "[0, 1, 2, 3]"] g
    by (auto simp: th bd)
qed

lemma launches_copying:
  assumes "square_ok n bd" "length xs = n * n" "n mod (4 * fst bd) \<le> 3 * fst bd"
    and "K \<in> set (naive_launches n n bd)"
  shows "copying_kernel K xs (n * n) False (\<lambda>_. []) (code K) (\<lambda>_ _. 0) (source n n)"
proof -
  have copying: "copying_kernel (kernel_of part n n bd c) xs (n * n) False (\<lambda>_. [])
      (code (kernel_of part n n bd c)) (\<lambda>_ _. 0) (source n n)"
    if "\<And>th. th \<in> set (threads (kernel_of part n n bd c)) \<Longrightarrow> square_moves n (c n n (grid_of part n n bd) bd th)"
    for part c
    using moves_copying [OF assms(1,2)] that by simp
  note n = naive_moves [OF assms(1)] and u = unrolled_square [OF assms(1)]
  note ok = copying [of 1 transposeNaiveRow, OF n(1)] copying [of 1 transposeNaiveCol, OF n(2)]
    copying [of 4 transposeUnroll4Row, OF u(1)] copying [of 1 transposeRow, OF row_moves [OF assms(1)]]
    copying [of 8 transposeUnroll8Row, OF unrolled8_square [OF assms(1)]]
    copying [of 4 transposeUnroll4Col, OF u(2)] copying [of 1 transposeDiagonalRow, OF n(3)]
    copying [of 1 transposeDiagonalCol, OF n(4)]
    copying [of 4 transposeDiagonalColUnroll4,
      OF diagonal4_square [OF assms(1) _ assms(3), unfolded kernel_of_simps]]
  show ?thesis
    using assms(4) unfolding naive_launches_def list.set
    by (elim insertE emptyE) (simp_all only: ok)
qed

section \<open>Runs\<close>

lemma kernel_run_iff:
  assumes "copying_kernel K xs m sync ld st want src" "length ys = m"
  shows "kernel_run limits K xs ys zs \<longleftrightarrow>
    launchable limits K \<and> zs = map (\<lambda>p. if writes K p then xs ! src p else ys ! p) [0..<m]"
proof -
  have "reaches K xs ys (launched K ys)" unfolding reaches_def by (rule reach_init) simp
  then obtain s where s: "reaches K xs ys s" "finished K s"
    using copying_kernel.run_ends [OF assms(1) _ assms(2)] by blast
  have out: "outp s = map (\<lambda>p. if writes K p then xs ! src p else ys ! p) [0..<m]"
    if "reaches K xs ys s" "finished K s" for s
    using copying_kernel.every_run(4) [OF assms(1) that(1) assms(2) that(2)] .
  show ?thesis unfolding kernel_run_def using s out by blast
qed

lemma host_move_eq: "host_move nx ny xs = host_cell ny nx xs"
  by (intro ext) (simp add: host_move_def host_cell_def host_INDEX_def)

lemma host_transpose_ok:
  assumes "square_ok n bd" "length xs = n * n" "length ys = n * n"
  shows "host_transpose ys xs n n = Inr (transposed n n xs)"
  using transposeHost_ok [OF square_rect [OF assms(1,2)] assms(3)]
  by (simp add: host_transpose_def transposeHost_def host_move_eq)

lemma compare_same:
  "(\<And>x. \<not> differ x x) \<Longrightarrow> (\<And>i. i \<in> set is \<Longrightarrow> i < length ys) \<Longrightarrow> compare_from differ ys ys is = Inr True"
  by (induction "is") simp_all

text \<open>Once the output is right, no kernel changes it.\<close>

lemma tests_stay:
  assumes "\<And>x. \<not> differ x x" "length xs = n * n"
    and "\<And>K. K \<in> set Ks \<Longrightarrow>
      launchable limits K \<and> copying_kernel K xs (n * n) False (\<lambda>_. []) (code K) (\<lambda>_ _. 0) (source n n)"
  shows "naive_tests limits differ (transposed n n xs) xs Ks (transposed n n xs) vs \<longleftrightarrow>
    vs = replicate (length Ks) True"
  using assms(3)
proof (induction Ks arbitrary: vs)
  case (Cons K Ks)
  have len: "length (transposed n n xs) = n * n" by (simp add: transposed_def)
  have "map (\<lambda>p. if writes K p then xs ! source n n p else transposed n n xs ! p) [0..<n * n]
      = transposed n n xs"
    by (simp add: transposed_def)
  then have run: "kernel_run limits K xs (transposed n n xs) zs \<longleftrightarrow> zs = transposed n n xs" for zs
    using kernel_run_iff [of K xs "n * n" False "\<lambda>_. []" "code K" "\<lambda>_ _. 0" "source n n"
        "transposed n n xs" limits zs] Cons.prems len by simp
  have cmp: "compare_from differ (transposed n n xs) (transposed n n xs) [0..<length xs] = Inr True"
    by (rule compare_same [OF assms(1)]) (simp add: len assms(2))
  show ?case using Cons.IH Cons.prems run cmp by (auto simp: Cons_replicate_eq)
qed simp

text \<open>The first kernel after the warm-up writes the whole output.\<close>

lemma div_grid: "k < n \<Longrightarrow> 0 < w \<Longrightarrow> k div w < (n + w - 1) div (w :: nat)"
proof -
  assume "k < n" "0 < w"
  then have "(k + w) div w \<le> (n + w - 1) div w" by (intro div_le_mono) linarith
  moreover have "(k + w) div w = k div w + 1" by (rule div_add_self2) (use \<open>0 < w\<close> in simp)
  ultimately show ?thesis by linarith
qed

lemma naive_row_writes:
  assumes "square_ok n bd" "p < n * n"
  shows "writes (kernel_of 1 n n bd transposeNaiveRow) p"
proof -
  note b = square_bounds [OF assms(1)]
  obtain r k where p: "r < n" "k < n" "p = k * n + r"
    using offset_split [of n p n] b(3) assms(2) by auto
  obtain bdx bdy where bd: "bd = (bdx, bdy)" by fastforce
  obtain gdx gdy where g: "grid_of 1 n n bd = (gdx, gdy)" by fastforce
  let ?th = "((k div bdx, r div bdy), (k mod bdx, r mod bdy))"
  have "u32 (bdx * (k div bdx) + k mod bdx) = k" "u32 (bdy * (r div bdy) + r mod bdy) = r"
    using p(1,2) b(5) by (simp_all add: u32_small)
  moreover have "u32 (k * n + r) = k * n + r" "u32 (r * n + k) = r * n + k"
    using square_index [OF assms(1)] p(1,2) by blast+
  ultimately have "transposeNaiveRow n n (gdx, gdy) (bdx, bdy) ?th = [Move p (r * n + k)]"
    using p by (simp add: Let_def)
  then have c: "Move p (r * n + k) \<in> set (code (kernel_of 1 n n bd transposeNaiveRow) ?th)"
    using g by (simp add: bd)
  have "?th \<in> set (threads (kernel_of 1 n n bd transposeNaiveRow))"
    using thread_of_kernel [OF assms(1), of 1 "k div bdx" "r div bdy" "k mod bdx" "r mod bdy"]
      div_grid [OF p(2)] div_grid [OF p(1)] b(1,2) by (simp add: bd)
  then show ?thesis using writesI [OF _ c] by simp
qed

text \<open>
  On other sizes the last kernel reads outside the matrix: the last thread of the last block in
  the first row that moves something.
\<close>

lemma diagonal4_overruns:
  assumes "square_ok n (w, w)" "3 * w < n mod (4 * w)" "length xs = n * n"
  shows "\<not> kernel_run limits (kernel_of 4 n n (w, w) transposeDiagonalColUnroll4) xs ys zs"
proof -
  let ?K = "kernel_of 4 n n (w, w) transposeDiagonalColUnroll4"
  note b = square_bounds [OF assms(1), unfolded fst_conv snd_conv]
  define q where "q = n div (4 * w)"
  have n: "n = 4 * w * q + n mod (4 * w)" "n mod (4 * w) < 4 * w" using b(1) by (simp_all add: q_def)
  have "(n + w - 1) div (w * 4) = q + 1"
  proof (rule div_nat_eqI)
    show "w * 4 * (q + 1) \<le> n + w - 1" using n(1) assms(2) b(1) by (simp add: algebra_simps)
    show "n + w - 1 < w * 4 * Suc (q + 1)" using n by (simp add: algebra_simps)
  qed
  then have g: "grid_of 4 n n (w, w) = (q + 1, q + 1)" using grid_of_eq [OF assms(1), of 4] by simp
  let ?th = "((q, 0), (w - 1, 0))"
  define ix where "ix = w * q * 4 + (w - 1)"
  have e: "ix + 1 = 4 * w * q + w" using b(1) by (simp add: ix_def algebra_simps)
  have "w * q \<le> 4 * w * q" by simp
  then have ix: "ix < n" "n \<le> ix + 3 * w" "w * q < n"
    using n e assms(2) b(1) by linarith+
  have lt: "q < 4294967296" "w * q < 4294967296" "ix < 4294967296" "ix + 3 * w < 4294967296"
  proof -
    have "1 * q \<le> w * q" using b(1) by (intro mult_le_mono1) simp
    then show "q < 4294967296" "w * q < 4294967296" "ix < 4294967296" "ix + 3 * w < 4294967296"
      using ix b(3,5) by linarith+
  qed
  have small: "(ix + 3 * w) * n + w * q < 4294967296"
  proof -
    have "ix + 3 * w + 1 \<le> 2 * n" using ix(1) b(3) by linarith
    then have "(ix + 3 * w + 1) * n \<le> 2 * n * n" by (rule mult_le_mono1)
    moreover have "2 * n * n < 4294967296" using b(6) by simp
    ultimately have "(ix + 3 * w) * n + n < 4294967296" by (simp add: algebra_simps)
    then show ?thesis using ix(3) by linarith
  qed
  have "\<exists>p. Move p ((ix + 3 * w) * n + w * q) \<in> set (code ?K ?th)"
  proof -
    have u: "u32 (q + 0) mod (q + 1) = q" "u32 (w * q) = w * q" "u32 ix = ix" "u32 (w * q + 0) = w * q"
      "u32 (u32 (ix + 3 * w) * n + w * q) = (ix + 3 * w) * n + w * q"
      using lt small by (simp_all add: u32_small)
    show ?thesis
      unfolding kernel_of_simps g transposeDiagonalColUnroll4.simps Let_def u(1,2,4) ix_def [symmetric] u(3,5)
      using ix(1,3) by simp blast
  qed
  then obtain p where p: "Move p ((ix + 3 * w) * n + w * q) \<in> set (code ?K ?th)" by blast
  have "?th \<in> set (threads ?K)" by (simp add: set_threads set_blocks set_pairs g b(1))
  moreover have "length xs \<le> (ix + 3 * w) * n + w * q"
    using mult_le_mono1 [OF ix(2), of n] assms(3) by linarith
  ultimately show ?thesis using bad_move_unfinished [of ?K xs ys _ ?th, OF _ _ p] by (auto simp: kernel_run_def)
qed

section \<open>The program\<close>

text \<open>
  C19. On a square matrix of more than seven square blocks in a row, so that no grid is empty, the
  program completes exactly when the last block columns of four are not cut off inside the first three;
  then all nine tests agree with the host. On the other sizes the last kernel reads outside the matrix.
\<close>
theorem naive_main_square:
  assumes "0 < w" "7 * w < n" "int (n * n) \<le> int_max" "n \<le> mx" "n \<le> my" "w * w \<le> mt"
    and "length h_A = n * n" "length hostRef = n * n" "length d_C = n * n"
    and "\<And>x. \<not> differ x x"
  shows "naive_main (mx, my, mt) differ hostRef d_C n n (w, w) h_A verdicts \<longleftrightarrow>
    n mod (4 * w) \<le> 3 * w \<and> verdicts = replicate 9 True"
proof -
  have sq: "square_ok n (w, w)" using assms(1-3) by (simp add: square_ok_def)
  let ?T = "transposed n n h_A"
  have host: "host_transpose hostRef h_A n n = Inr ?T" by (rule host_transpose_ok [OF sq assms(7,8)])
  have launch: "launchable (mx, my, mt) (kernel_of part n n (w, w) c)" if "0 < part" "part \<le> 8" for part c
    by (rule launchable_square [OF sq that assms(4,5)]) (use assms(6) in simp)
  have ok: "launchable (mx, my, mt) K" if "K \<in> set (naive_launches n n (w, w))" for K
    using that launch by (auto simp: naive_launches_def simp del: launchable.simps)
  show ?thesis
  proof (cases "n mod (4 * w) \<le> 3 * w")
    case True
    note copying = launches_copying [OF sq assms(7), unfolded fst_conv, OF True]
    obtain Ks where Ks: "naive_launches n n (w, w) = kernel_of 1 n n (w, w) transposeNaiveRow # Ks"
      "length Ks = 8"
      by (simp add: naive_launches_def)
    let ?K = "kernel_of 1 n n (w, w) transposeNaiveRow"
    define warm where "warm = map (\<lambda>p. if writes (kernel_of 1 n n (w, w) warmup) p
        then h_A ! id p else d_C ! p) [0..<n * n]"
    have w: "kernel_run (mx, my, mt) (kernel_of 1 n n (w, w) warmup) h_A d_C zs \<longleftrightarrow> zs = warm" for zs
      using kernel_run_iff [OF warmup_copying [OF sq assms(7)] assms(9)] launch [of 1 warmup]
      by (simp add: warm_def del: launchable.simps)
    have lw: "length warm = n * n" by (simp add: warm_def)
    have "map (\<lambda>p. if writes ?K p then h_A ! source n n p else warm ! p) [0..<n * n] = ?T"
      using naive_row_writes [OF sq] by (simp add: transposed_def)
    then have first: "kernel_run (mx, my, mt) ?K h_A warm zs \<longleftrightarrow> zs = ?T" for zs
      using kernel_run_iff [OF copying [of ?K] lw, of "(mx, my, mt)" zs] ok [of ?K]
      by (simp add: Ks(1) del: launchable.simps)
    have cmp: "compare_from differ ?T ?T [0..<length h_A] = Inr True"
      by (rule compare_same [OF assms(10)]) (simp add: transposed_def assms(7))
    have rest: "naive_tests (mx, my, mt) differ ?T h_A Ks ?T vs \<longleftrightarrow> vs = replicate (length Ks) True" for vs
      by (rule tests_stay [OF assms(10,7)]) (use ok copying Ks(1) in \<open>auto simp del: launchable.simps\<close>)
    have "naive_main (mx, my, mt) differ hostRef d_C n n (w, w) h_A verdicts \<longleftrightarrow>
        naive_tests (mx, my, mt) differ ?T h_A (?K # Ks) warm verdicts"
      unfolding naive_main_def host w Ks(1) by auto
    also have "\<dots> \<longleftrightarrow> verdicts = True # replicate 8 True"
      unfolding naive_tests.simps first using cmp rest Ks(2) by auto
    finally show ?thesis using True by (simp add: numeral_eq_Suc)
  next
    case False
    have "\<not> naive_tests (mx, my, mt) differ host h_A (Ks @ [kernel_of 4 n n (w, w) transposeDiagonalColUnroll4]) ys vs"
      for host Ks ys vs
      by (induction Ks arbitrary: ys vs)
        (use False diagonal4_overruns [OF sq _ assms(7)] in \<open>simp_all add: not_le\<close>)
    moreover have "naive_launches n n (w, w)
        = butlast (naive_launches n n (w, w)) @ [kernel_of 4 n n (w, w) transposeDiagonalColUnroll4]"
      by (simp add: naive_launches_def)
    ultimately have "\<not> naive_main (mx, my, mt) differ hostRef d_C n n (w, w) h_A verdicts"
      unfolding naive_main_def by metis
    then show ?thesis using False by blast
  qed
qed

theorem naive_main_square_witness:
  "naive_main (65535, 65535, 1024) (\<lambda>a b. a \<noteq> b) (replicate 64 (0::int)) (replicate 64 7) 8 8 (1, 1)
     (replicate 64 5) (replicate 9 True)"
  using naive_main_square [of 1 8 65535 65535 1024 "replicate 64 (5::int)" "replicate 64 0" "replicate 64 7"
      "\<lambda>a b. a \<noteq> b" "replicate 9 True"]
  by (simp add: int_max_def)

section \<open>How much the unrolled kernel writes\<close>

lemma exact_grid:
  assumes "0 < w" "0 < part" "n = w * part * a"
  shows "(n + w - 1) div (w * part) = (a :: nat)"
proof (rule div_nat_eqI)
  show "w * part * a \<le> n + w - 1" using assms by simp
  have "w * 1 \<le> w * part" using assms(2) by (intro mult_le_mono2) simp
  then have "n + w - 1 < w * part * a + w * part" using assms(1,3) by linarith
  then show "n + w - 1 < w * part * Suc a" by (simp add: algebra_simps)
qed

lemma row_steps_target:
  "ins \<in> set (row_steps n ix iy w js) \<Longrightarrow> target ins = Some p \<Longrightarrow> \<exists>j. p = (ix + j * w) * n + iy"
  unfolding row_steps_def set_map by auto

lemma unroll4_writes:
  assumes sq: "square_ok n (bdx, bdy)" and n: "n = bdx * 4 * a" "n = bdy * 4 * b'" and p: "p < n * n"
  shows "writes (kernel_of 4 n n (bdx, bdy) transposeUnroll4Row) p \<longleftrightarrow> p mod n < bdy * b'"
    (is "writes ?K p \<longleftrightarrow> _")
proof -
  note bnd = square_bounds [OF sq, unfolded fst_conv snd_conv]
  have grid: "(n + bdx - 1) div (bdx * 4) = a" "(n + bdy - 1) div (bdy * 4) = b'"
    by (rule exact_grid; use bnd(1,2) n in simp)+
  have T: "((bx, b), (tx, ty)) \<in> set (threads ?K) \<longleftrightarrow> bx < a \<and> b < b' \<and> tx < bdx \<and> ty < bdy"
    for bx b tx ty
    using thread_of_kernel [OF sq, of 4 bx b tx ty transposeUnroll4Row, unfolded fst_conv snd_conv grid]
    by simp
  have iy: "u32 (bdy * b + ty) = bdy * b + ty" "bdy * b + ty < bdy * b'" if "b < b'" "ty < bdy" for b ty
  proof -
    have "bdy * (b + 1) \<le> bdy * b'" using that(1) by (intro mult_le_mono2) simp
    then show l: "bdy * b + ty < bdy * b'" using that(2) by simp
    have "bdy * b' \<le> n" unfolding n(2) by simp
    then show "u32 (bdy * b + ty) = bdy * b + ty" using l bnd(5) by (simp add: u32_small)
  qed
  have code: "code ?K ((bx, b), (tx, ty)) =
      (if bdx * bx * 4 + tx + 3 * bdx < n \<and> bdy * b + ty < n
       then row_steps n (bdx * bx * 4 + tx) (bdy * b + ty) bdx [0, 1, 2, 3] else [])"
    if "bx < a" "b < b'" "tx < bdx" "ty < bdy" for bx b tx ty
    using unroll4_code(1) [OF sq _ that(3) refl refl, of bx "grid_of 4 n n (bdx, bdy)" b ty] that grid iy(1) [OF that(2,4)]
    by simp
  show ?thesis
  proof
    assume "writes ?K p"
    then obtain bx b tx ty ins where t: "bx < a" "b < b'" "tx < bdx" "ty < bdy"
      and ins: "ins \<in> set (code ?K ((bx, b), (tx, ty)))" "target ins = Some p"
      unfolding writes_def list_ex_iff by (metis T surj_pair)
    have "ins \<in> set (row_steps n (bdx * bx * 4 + tx) (bdy * b + ty) bdx [0, 1, 2, 3])"
      and l: "bdy * b + ty < n"
      using ins(1) code [OF t] by (auto split: if_splits)
    then obtain j where "p = (bdx * bx * 4 + tx + j * bdx) * n + (bdy * b + ty)"
      using row_steps_target [OF _ ins(2)] by blast
    then show "p mod n < bdy * b'" using l iy(2) [OF t(2,4)] by simp
  next
    assume r: "p mod n < bdy * b'"
    define k where "k = p div n"
    have k: "k < n" using p by (simp add: k_def less_mult_imp_div_less)
    have pk: "p = k * n + p mod n" by (simp add: k_def)
    let ?q = "k mod (bdx * 4)"
    have q: "?q < bdx * 4" using bnd(1) by simp
    have b: "k div (bdx * 4) < a" "p mod n div bdy < b'"
      using k r n(1) by (simp_all add: less_mult_imp_div_less mult.commute)
    have m: "?q mod bdx < bdx" "p mod n mod bdy < bdy" using bnd(1,2) by simp_all
    let ?ix = "bdx * (k div (bdx * 4)) * 4 + ?q mod bdx"
    have kk: "?ix + ?q div bdx * bdx = k"
    proof -
      have "bdx * (k div (bdx * 4)) * 4 + ?q = k"
        using mult_div_mod_eq [of "bdx * 4" k] by (simp add: ac_simps)
      then show ?thesis using div_mult_mod_eq [of ?q bdx] by linarith
    qed
    have j: "?q div bdx < 4" using q by (simp add: less_mult_imp_div_less mult.commute)
    have "bdx * 4 * (k div (bdx * 4) + 1) \<le> bdx * 4 * a" using b(1) by (intro mult_le_mono2) simp
    then have g: "?ix + 3 * bdx < n" using m(1) n(1) by (simp add: algebra_simps)
    have iyv: "bdy * (p mod n div bdy) + p mod n mod bdy = p mod n" by simp
    have "Move p (p mod n * n + k) \<in> set (row_steps n ?ix (p mod n) bdx [0, 1, 2, 3])"
    proof -
      have "?q div bdx \<in> set [0, 1, 2, 3]" using j by auto
      moreover have "Move p (p mod n * n + k) =
          (\<lambda>j. Move ((?ix + j * bdx) * n + p mod n) (p mod n * n + (?ix + j * bdx))) (?q div bdx)"
        unfolding kk using pk by simp
      ultimately show ?thesis unfolding row_steps_def set_map by (rule rev_image_eqI)
    qed
    then have c: "Move p (p mod n * n + k)
        \<in> set (code ?K ((k div (bdx * 4), p mod n div bdy), (?q mod bdx, p mod n mod bdy)))"
      using code [OF b m] g p unfolding iyv by simp
    have "((k div (bdx * 4), p mod n div bdy), (?q mod bdx, p mod n mod bdy)) \<in> set (threads ?K)"
      using T b m by simp
    then show "writes ?K p" using c by (rule writesI) simp
  qed
qed

text \<open>
  C31. The kernel with four elements for each thread runs on a grid that is divided by four in
  both directions, although a thread steps in one only: of a square matrix that the
  blocks divide it transposes a quarter of the rows, and leaves whatever is in the rest.
\<close>
theorem unroll4_row_quarter:
  assumes "0 < bdx" "0 < bdy" "7 * bdx < n" "7 * bdy < n" "int (n * n) \<le> int_max"
    and "4 * bdx dvd n" "4 * bdy dvd n" "length xs = n * n" "length ys = n * n"
  shows "kernel_run limits (kernel_of 4 n n (bdx, bdy) transposeUnroll4Row) xs ys zs \<longleftrightarrow>
    launchable limits (kernel_of 4 n n (bdx, bdy) transposeUnroll4Row)
    \<and> zs = map (\<lambda>p. if 4 * (p mod n) < n then xs ! (p mod n * n + p div n) else ys ! p) [0..<n * n]"
proof -
  have sq: "square_ok n (bdx, bdy)" using assms(1-5) by (simp add: square_ok_def)
  obtain a where a: "n = 4 * bdx * a" using assms(6) by (rule dvdE)
  obtain b where b: "n = 4 * bdy * b" using assms(7) by (rule dvdE)
  have n: "n = bdx * 4 * a" "n = bdy * 4 * b" using a b by (simp_all add: mult.commute)
  have w: "map (\<lambda>p. if writes (kernel_of 4 n n (bdx, bdy) transposeUnroll4Row) p
      then xs ! source n n p else ys ! p) [0..<n * n]
    = map (\<lambda>p. if 4 * (p mod n) < n then xs ! (p mod n * n + p div n) else ys ! p) [0..<n * n]"
  proof (rule map_cong [OF refl])
    fix p assume "p \<in> set [0..<n * n]"
    moreover have "p mod n < bdy * b \<longleftrightarrow> 4 * (p mod n) < n" using n(2) by linarith
    ultimately show "(if writes (kernel_of 4 n n (bdx, bdy) transposeUnroll4Row) p
        then xs ! source n n p else ys ! p)
      = (if 4 * (p mod n) < n then xs ! (p mod n * n + p div n) else ys ! p)"
      using unroll4_writes [OF sq n, of p] by (simp add: source_def)
  qed
  have "copying_kernel (kernel_of 4 n n (bdx, bdy) transposeUnroll4Row) xs (n * n) False (\<lambda>_. [])
      (code (kernel_of 4 n n (bdx, bdy) transposeUnroll4Row)) (\<lambda>_ _. 0) (source n n)"
    by (rule moves_copying [OF sq assms(8)]) (simp add: unrolled_square(1) [OF sq])
  from kernel_run_iff [OF this assms(9), unfolded w] show ?thesis .
qed

theorem unroll4_row_quarter_witness:
  "kernel_run (65535, 65535, 1024) (kernel_of 4 8 8 (1, 1) transposeUnroll4Row)
     (map int [0..<64]) (replicate 64 (-1))
     (map (\<lambda>p. if 4 * (p mod 8) < 8 then map int [0..<64] ! (p mod 8 * 8 + p div 8)
        else replicate 64 (-1) ! p) [0..<8 * 8])"
  using unroll4_row_quarter [of 1 1 8 "map int [0..<64]" "replicate 64 (-1)" "(65535, 65535, 1024)"]
  by (simp add: int_max_def grid_of_def u32_def del: upt_Suc map_map)

section \<open>The kernels at the size of the program\<close>

text \<open>The default of \<open>main\<close>: \<open>1 << 11\<close> by \<open>1 << 11\<close> with blocks of 16 by 16.\<close>

lemma default_square: "square_ok 2048 (16, 16)"
  by (simp add: square_ok_def int_max_def)

definition default_square_matrix :: "(nat \<Rightarrow> 'a) \<Rightarrow> 'a list" where
  "default_square_matrix f = map f [0..<2048 * 2048]"

interpretation naive_row: copying_kernel
  "kernel_of 1 2048 2048 (16, 16) transposeNaiveRow" "default_square_matrix f" "2048 * 2048" False
  "\<lambda>_. []" "code (kernel_of 1 2048 2048 (16, 16) transposeNaiveRow)" "\<lambda>_ _. 0" "source 2048 2048"
  for f
  by (rule moves_copying [OF default_square])
    (simp_all only: default_square_matrix_def length_map length_upt kernel_of_simps naive_moves [OF default_square])

end
