(* ===== verification/Hash_Sums.thy ===== *)
theory Hash_Sums
  imports Prelude "HOL-Library.Multiset"
begin

text \<open>
  The programs of \<^verbatim>\<open>edu/courses/stanford1/cc/w6.cc\<close>: two ways to count sums of two numbers, and
  the sum of the medians of the prefixes of a stream. The order in which a hash set is walked is
  the parameter \<open>order\<close>, and the algorithm \<open>nth_element\<close> of the standard library is
  \<open>nth_el\<close>, of which only what the standard says is used.
\<close>

section \<open>Two numbers with a given sum\<close>

text \<open>\<open>find_if\<close> over the suffix that starts at the element itself.\<close>

fun find_partner :: "int \<Rightarrow> int \<Rightarrow> int list \<Rightarrow> bool result" where
  "find_partner target a [] = Inr False"
| "find_partner target a (x # xs) =
     bindr (cint (x + a)) (\<lambda>s. if s = target then Inr True else find_partner target a xs)"

fun two_sum_loop :: "int \<Rightarrow> int \<Rightarrow> int list \<Rightarrow> int result" where
  "two_sum_loop target count_unique [] = Inr count_unique"
| "two_sum_loop target count_unique (x # xs) =
     bindr (find_partner target x (x # xs)) (\<lambda>found.
       if found then bindr (cint (count_unique + 1)) (\<lambda>c. two_sum_loop target c xs)
       else two_sum_loop target count_unique xs)"

definition two_sum_naive :: "int list \<Rightarrow> int \<Rightarrow> int result" where
  "two_sum_naive xs target = two_sum_loop target 0 xs"

text \<open>The table of \<open>q1\<close> holds the values up to \<open>high\<close>, each once.\<close>

definition low :: int where "low = 2500"
definition high :: int where "high = 4000"

fun fill_table :: "int list \<Rightarrow> int list \<Rightarrow> int list" where
  "fill_table htbl [] = htbl"
| "fill_table htbl (v # vs) =
     fill_table (if v \<notin> set htbl then if v < high + 1 then v # htbl else htbl else htbl) vs"

fun has_pair :: "int list \<Rightarrow> int \<Rightarrow> int list \<Rightarrow> bool result" where
  "has_pair htbl t [] = Inr False"
| "has_pair htbl t (x # xs) =
     bindr (cint (t - x)) (\<lambda>y. if y \<in> set htbl \<and> x \<noteq> y then Inr True else has_pair htbl t xs)"

fun count_targets :: "(int list \<Rightarrow> int list) \<Rightarrow> int list \<Rightarrow> int \<Rightarrow> int list \<Rightarrow> int result" where
  "count_targets order htbl count_unique [] = Inr count_unique"
| "count_targets order htbl count_unique (t # ts) =
     bindr (has_pair htbl t (order htbl)) (\<lambda>found.
       count_targets order htbl (if found then count_unique + 1 else count_unique) ts)"

definition q1 :: "(int list \<Rightarrow> int list) \<Rightarrow> int list \<Rightarrow> int result" where
  "q1 order xs =
     (let htbl = fill_table [] xs in
      bindr (check (length htbl < length xs) Assert_Failed) (\<lambda>_.
      bindr (check (htbl \<noteq> []) Assert_Failed) (\<lambda>_.
      count_targets order htbl 0 [low..high])))"

section \<open>Medians\<close>

text \<open>The type \<open>long\<close> has 64 bits.\<close>

definition clong :: "int \<Rightarrow> int result" where
  "clong x = (if - (2 ^ 63) \<le> x \<and> x < 2 ^ 63 then Inr x else Inl Int_Overflow)"

definition middle :: "int \<Rightarrow> int" where
  "middle sz = (if sz mod 2 = 1 then (sz + 1) div 2 - 1 else sz div 2 - 1)"

fun median_loop :: "(int list \<Rightarrow> nat \<Rightarrow> int list) \<Rightarrow> int list \<Rightarrow> int \<Rightarrow> int list \<Rightarrow> int result" where
  "median_loop nth_el cursor mean [] = Inr mean"
| "median_loop nth_el cursor mean (x # xs) =
     (let cursor = cursor @ [x]; sz = to_int (int (length cursor)); n = middle sz in
      bindr (check (n \<noteq> int (length cursor)) Assert_Failed) (\<lambda>_.
      let cursor = nth_el cursor (nat n) in
      bindr (vget cursor n) (\<lambda>v. bindr (clong (mean + v)) (\<lambda>mean.
        median_loop nth_el cursor mean xs))))"

definition q2_nth :: "(int list \<Rightarrow> nat \<Rightarrow> int list) \<Rightarrow> int list \<Rightarrow> int result" where
  "q2_nth nth_el xs = median_loop nth_el [] 0 xs"

section \<open>What they compute\<close>

lemma find_partner_eq:
  "(\<And>x. x \<in> set xs \<Longrightarrow> in_int (x + a)) \<Longrightarrow> find_partner target a xs = Inr (\<exists>x \<in> set xs. x + a = target)"
  by (induction xs) auto

lemma two_sum_loop_eq:
  assumes "\<And>x y. x \<in> set xs \<Longrightarrow> y \<in> set xs \<Longrightarrow> in_int (x + y)" "0 \<le> c" "c + int (length xs) \<le> int_max"
  shows "two_sum_loop target c xs =
    Inr (c + int (card {i. i < length xs \<and> (\<exists>j < length xs. i \<le> j \<and> xs ! j + xs ! i = target)}))"
  using assms
proof (induction xs arbitrary: c)
  case (Cons x xs)
  let ?found = "\<exists>y \<in> set (x # xs). y + x = target"
  let ?S = "\<lambda>xs. {i. i < length xs \<and> (\<exists>j < length xs. i \<le> j \<and> xs ! j + xs ! i = target)}"
  have f: "find_partner target x (x # xs) = Inr ?found"
    by (rule find_partner_eq) (use Cons.prems(1) in auto)
  have S: "?S (x # xs) = (if ?found then {0} else {}) \<union> Suc ` ?S xs"
  proof (rule set_eqI)
    fix i show "i \<in> ?S (x # xs) \<longleftrightarrow> i \<in> (if ?found then {0} else {}) \<union> Suc ` ?S xs"
    proof (cases i)
      case 0
      have "(\<exists>j < length (x # xs). (x # xs) ! j + x = target) \<longleftrightarrow> ?found"
        unfolding in_set_conv_nth Bex_def by blast
      then show ?thesis using 0 by auto
    next
      case (Suc k)
      have "(\<exists>j < Suc (length xs). Suc k \<le> j \<and> (x # xs) ! j + xs ! k = target)
        \<longleftrightarrow> (\<exists>j < length xs. k \<le> j \<and> xs ! j + xs ! k = target)"
      proof
        assume "\<exists>j < Suc (length xs). Suc k \<le> j \<and> (x # xs) ! j + xs ! k = target"
        then obtain j where j: "j < Suc (length xs)" "Suc k \<le> j" "(x # xs) ! j + xs ! k = target" by blast
        then obtain j' where "j = Suc j'" by (cases j) auto
        then show "\<exists>j < length xs. k \<le> j \<and> xs ! j + xs ! k = target" using j by auto
      next
        assume "\<exists>j < length xs. k \<le> j \<and> xs ! j + xs ! k = target"
        then obtain j where "j < length xs" "k \<le> j" "xs ! j + xs ! k = target" by blast
        then show "\<exists>j < Suc (length xs). Suc k \<le> j \<and> (x # xs) ! j + xs ! k = target"
          by (intro exI [of _ "Suc j"]) simp
      qed
      then show ?thesis using Suc by (auto simp: image_iff)
    qed
  qed
  have "finite (Suc ` ?S xs)" "0 \<notin> Suc ` ?S xs" by simp_all
  then have card: "card (?S (x # xs)) = (if ?found then 1 else 0) + card (?S xs)"
    unfolding S by (simp add: card_image)
  have "two_sum_loop target c' xs = Inr (c' + int (card (?S xs)))" if "0 \<le> c'" "c' \<le> c + 1" for c'
    by (rule Cons.IH) (use Cons.prems that in auto)
  moreover have "in_int (c + 1)" using Cons.prems(2,3) by (simp add: in_int_iff int_max_def)
  ultimately show ?case unfolding two_sum_loop.simps f card bindr_simps using Cons.prems(2) by simp
qed simp

text \<open>
  \<open>_2sum_naive\<close> counts the positions whose number has a partner at the same position or
  after it, so that half of the target counts as a pair with itself.
\<close>
theorem two_sum_counts:
  assumes "\<And>x y. x \<in> set xs \<Longrightarrow> y \<in> set xs \<Longrightarrow> in_int (x + y)" "int (length xs) \<le> int_max"
  shows "two_sum_naive xs target =
    Inr (int (card {i. i < length xs \<and> (\<exists>j < length xs. i \<le> j \<and> xs ! j + xs ! i = target)}))"
  unfolding two_sum_naive_def using two_sum_loop_eq [OF assms(1), where c = 0] assms(2) by simp

theorem two_sum_counts_witness: "\<exists>c. two_sum_naive [2, 3, 1] 4 = Inr (int c)"
  by (intro exI, rule two_sum_counts) (auto simp: in_int_iff int_max_def)

lemma fill_table_props:
  assumes "distinct htbl"
  shows "distinct (fill_table htbl xs)" "set (fill_table htbl xs) = set htbl \<union> {x \<in> set xs. x \<le> high}"
  using assms by (induction htbl xs rule: fill_table.induct) auto

lemma has_pair_eq:
  "(\<And>x. x \<in> set xs \<Longrightarrow> in_int (t - x)) \<Longrightarrow>
   has_pair htbl t xs = Inr (\<exists>x \<in> set xs. t - x \<in> set htbl \<and> x \<noteq> t - x)"
  by (induction xs) auto

lemma count_targets_eq:
  assumes "\<And>t x. t \<in> set ts \<Longrightarrow> x \<in> set (order htbl) \<Longrightarrow> in_int (t - x)" "distinct ts"
  shows "count_targets order htbl c ts =
    Inr (c + int (card {t \<in> set ts. \<exists>x \<in> set (order htbl). t - x \<in> set htbl \<and> x \<noteq> t - x}))"
  using assms
proof (induction ts arbitrary: c)
  case (Cons t ts)
  let ?P = "\<lambda>t. \<exists>x \<in> set (order htbl). t - x \<in> set htbl \<and> x \<noteq> t - x"
  have p: "has_pair htbl t (order htbl) = Inr (?P t)" by (rule has_pair_eq) (use Cons.prems(1) in simp)
  have rest: "count_targets order htbl c' ts = Inr (c' + int (card {u \<in> set ts. ?P u}))" for c'
    by (rule Cons.IH) (use Cons.prems in auto)
  show ?case
  proof (cases "?P t")
    case True
    then have "{u \<in> set (t # ts). ?P u} = insert t {u \<in> set ts. ?P u}" by auto
    moreover have "t \<notin> {u \<in> set ts. ?P u}" using Cons.prems(2) by simp
    ultimately have "card {u \<in> set (t # ts). ?P u} = Suc (card {u \<in> set ts. ?P u})" by simp
    then show ?thesis unfolding count_targets.simps p bindr_simps using True rest [of "c + 1"]
      by (simp only: if_True of_nat_Suc) (simp only: ac_simps)
  next
    case False
    then have "{u \<in> set (t # ts). ?P u} = {u \<in> set ts. ?P u}" by auto
    then show ?thesis unfolding count_targets.simps p bindr_simps using False rest [of c]
      by (simp only: if_False)
  qed
qed simp

lemma q1_cases:
  "q1 order xs = (if length (fill_table [] xs) < length xs \<and> fill_table [] xs \<noteq> []
     then count_targets order (fill_table [] xs) 0 [low..high] else Inl Assert_Failed)"
  unfolding q1_def Let_def check_def bindr_def by simp

lemma conj_bound: "(c \<Longrightarrow> A = B) \<Longrightarrow> ((b \<and> c) \<and> A) = (b \<and> c \<and> B)"
  by blast

lemma pair_iff:
  "(\<exists>x \<in> A. t - x \<in> A \<and> x \<noteq> t - x) \<longleftrightarrow> (\<exists>x \<in> A. \<exists>y \<in> A. x \<noteq> y \<and> x + y = (t :: int))"
  by (metis add_diff_cancel_left' diff_add_cancel add.commute)

text \<open>
  \<open>q1\<close> counts the sums between 2500 and 4000 of two different numbers, whatever the
  order of its table, when no number is negative and the file is not free of both
  duplicates and numbers above 4000; otherwise an assertion fails.
\<close>
theorem q1_counts_sums:
  assumes "\<And>l. distinct l \<Longrightarrow> set (order l) = set l" "\<And>x. x \<in> set xs \<Longrightarrow> 0 \<le> x \<and> in_int x"
  shows "q1 order xs =
    (if card {x \<in> set xs. x \<le> 4000} < length xs \<and> (\<exists>x \<in> set xs. x \<le> 4000)
     then Inr (int (card {t. 2500 \<le> t \<and> t \<le> 4000 \<and> (\<exists>x \<in> set xs. \<exists>y \<in> set xs. x \<noteq> y \<and> x + y = t)}))
     else Inl Assert_Failed)"
proof -
  let ?h = "fill_table [] xs"
  have d: "distinct ?h" and s: "set ?h = {x \<in> set xs. x \<le> 4000}"
    using fill_table_props [of "[]" xs] by (simp_all add: high_def)
  have len: "length ?h = card {x \<in> set xs. x \<le> 4000}" using distinct_card [OF d] s by simp
  have ne: "?h \<noteq> [] \<longleftrightarrow> (\<exists>x \<in> set xs. x \<le> 4000)" using s by (metis (lifting) empty_iff mem_Collect_eq list.set(1) neq_Nil_conv list.set_intros(1))
  have o: "set (order ?h) = set ?h" by (rule assms(1) [OF d])
  have c: "count_targets order ?h 0 [low..high] =
      Inr (0 + int (card {t \<in> set [low..high]. \<exists>x \<in> set (order ?h). t - x \<in> set ?h \<and> x \<noteq> t - x}))"
  proof (rule count_targets_eq)
    fix t x assume "t \<in> set [low..high]" "x \<in> set (order ?h)"
    then have "2500 \<le> t" "t \<le> 4000" "x \<in> {x \<in> set xs. x \<le> 4000}"
      unfolding set_upto o s low_def high_def by simp_all
    then show "in_int (t - x)" using assms(2) [of x] by (simp add: in_int_iff)
  qed (rule distinct_upto)
  have eq: "(\<exists>x \<in> set ?h. \<exists>y \<in> set ?h. x \<noteq> y \<and> x + y = t) \<longleftrightarrow> (\<exists>x \<in> set xs. \<exists>y \<in> set xs. x \<noteq> y \<and> x + y = t)"
    if "t \<le> 4000" for t
  proof
    assume "\<exists>x \<in> set xs. \<exists>y \<in> set xs. x \<noteq> y \<and> x + y = t"
    then obtain x y where xy: "x \<in> set xs" "y \<in> set xs" "x \<noteq> y" "x + y = t" by blast
    then have "x \<le> 4000" "y \<le> 4000" using assms(2) [OF xy(1)] assms(2) [OF xy(2)] that by linarith+
    then show "\<exists>x \<in> set ?h. \<exists>y \<in> set ?h. x \<noteq> y \<and> x + y = t" using xy unfolding s by blast
  qed (unfold s, blast)
  have set_eq: "{t \<in> set [low..high]. \<exists>x \<in> set (order ?h). t - x \<in> set ?h \<and> x \<noteq> t - x}
    = {t. 2500 \<le> t \<and> t \<le> 4000 \<and> (\<exists>x \<in> set xs. \<exists>y \<in> set xs. x \<noteq> y \<and> x + y = t)}"
    unfolding o pair_iff set_upto atLeastAtMost_iff low_def high_def
    by (intro Collect_cong conj_bound eq)
  have "q1 order xs = (if length ?h < length xs \<and> ?h \<noteq> [] then count_targets order ?h 0 [low..high]
      else Inl Assert_Failed)"
    by (rule q1_cases)
  then show ?thesis unfolding len ne c set_eq add_0_left .
qed

theorem q1_counts_sums_witness:
  "q1 (\<lambda>l. l) [1000, 2000, 1000] = Inr (int (card {t. 2500 \<le> t \<and> t \<le> (4000 :: int)
     \<and> (\<exists>x \<in> set [1000, 2000, 1000]. \<exists>y \<in> set [1000, 2000, 1000]. x \<noteq> y \<and> x + y = t)}))"
proof -
  have "{x \<in> set [1000, 2000, 1000 :: int]. x \<le> 4000} = {1000, 2000}" by auto
  then have "card {x \<in> set [1000, 2000, 1000 :: int]. x \<le> 4000} = 2" by simp
  then show ?thesis
    by (subst q1_counts_sums) (auto simp: in_int_iff)
qed

section \<open>The medians\<close>

definition nth_element_contract :: "(int list \<Rightarrow> nat \<Rightarrow> int list) \<Rightarrow> bool" where
  "nth_element_contract nth_el \<longleftrightarrow> (\<forall>xs n. n < length xs \<longrightarrow>
     mset (nth_el xs n) = mset xs \<and> nth_el xs n ! n = sort xs ! n)"

lemma middle_eq: "0 < k \<Longrightarrow> middle (int k) = int ((k - 1) div 2)"
  unfolding middle_def by (cases k) (auto simp: of_nat_diff zdiv_int)

lemma sum_abs_bound: "(\<And>x. x \<in> set xs \<Longrightarrow> in_int x) \<Longrightarrow> x \<in> set xs \<Longrightarrow> \<bar>x\<bar> \<le> 2 ^ 31"
  by (fastforce simp: in_int_iff)

lemma median_loop_eq:
  assumes "nth_element_contract nth_el" "\<And>x. x \<in> set (ys @ xs) \<Longrightarrow> in_int x"
    and "int (length (ys @ xs)) \<le> int_max" "mset cursor = mset ys" "\<bar>mean\<bar> \<le> int (length ys) * 2 ^ 31"
  shows "median_loop nth_el cursor mean xs =
    Inr (mean + (\<Sum>k \<leftarrow> [1..<Suc (length xs)]. sort (ys @ take k xs) ! ((length ys + k - 1) div 2)))"
  using assms(2-5)
proof (induction xs arbitrary: ys cursor mean)
  case (Cons x xs)
  let ?c = "cursor @ [x]" and ?ys = "ys @ [x]"
  have len: "length cursor = length ys" using Cons.prems(3) by (metis size_mset)
  have int: "in_int (int (Suc (length ys)))" using Cons.prems(2) by (simp add: in_int_iff int_max_def)
  let ?n = "length ys div 2"
  have n: "?n < length ?c" using len by simp
  have mid: "middle (int (Suc (length ys))) = int ?n" using middle_eq [of "Suc (length ys)"] by simp
  have nth: "mset (nth_el ?c ?n) = mset ?ys" "nth_el ?c ?n ! ?n = sort ?ys ! ?n"
  proof -
    have "mset ?c = mset ?ys" using Cons.prems(3) by simp
    moreover from this have "sort ?c = sort ?ys" by (metis mset_sort properties_for_sort sorted_sort)
    ultimately show "mset (nth_el ?c ?n) = mset ?ys" "nth_el ?c ?n ! ?n = sort ?ys ! ?n"
      using assms(1) n unfolding nth_element_contract_def by metis+
  qed
  have ln: "length (nth_el ?c ?n) = Suc (length ys)" using nth(1) by (metis length_append_singleton size_mset)
  define v where "v = sort ?ys ! ?n"
  have "v \<in> set ?ys" unfolding v_def by (metis nth_mem set_sort length_sort length_append_singleton n len)
  then have v: "\<bar>v\<bar> \<le> 2 ^ 31" using Cons.prems(1) by (intro sum_abs_bound [of ?ys]) auto
  have bound: "\<bar>mean + v\<bar> \<le> int (length ?ys) * 2 ^ 31" using Cons.prems(4) v by (simp add: algebra_simps)
  moreover have "int (length ?ys) * 2 ^ 31 < 2 ^ 63"
    using Cons.prems(2) by (simp add: int_max_def)
  ultimately have cl: "clong (mean + v) = Inr (mean + v)" unfolding clong_def by (simp add: abs_le_iff)
  have "median_loop nth_el cursor mean (x # xs) = median_loop nth_el (nth_el ?c ?n) (mean + v) xs"
    using len int mid n nth(2) ln cl by (simp add: Let_def v_def)
  also have "\<dots> = Inr (mean + v + (\<Sum>k \<leftarrow> [1..<Suc (length xs)]. sort (?ys @ take k xs) ! ((length ?ys + k - 1) div 2)))"
    by (rule Cons.IH) (use Cons.prems nth(1) bound in auto)
  finally have step: "median_loop nth_el cursor mean (x # xs) = Inr (mean + (v +
      (\<Sum>k \<leftarrow> [1..<Suc (length xs)]. sort (?ys @ take k xs) ! ((length ?ys + k - 1) div 2))))"
    by (simp only: add.assoc)
  have "v + (\<Sum>k \<leftarrow> [1..<Suc (length xs)]. sort (?ys @ take k xs) ! ((length ?ys + k - 1) div 2))
    = (\<Sum>k \<leftarrow> [1..<Suc (length (x # xs))]. sort (ys @ take k (x # xs)) ! ((length ys + k - 1) div 2))"
  proof -
    have "[1..<Suc (length (x # xs))] = 1 # map Suc [1..<Suc (length xs)]"
      by (simp add: upt_conv_Cons map_Suc_upt del: upt_Suc)
    then show ?thesis by (simp add: v_def comp_def del: upt_Suc)
  qed
  then show ?case unfolding step by (simp only:)
qed simp

text \<open>
  \<open>q2_nth\<close> returns the sum of the medians of the prefixes of the stream, the lower median for
  prefixes of even length, with any \<open>nth_element\<close> that does what the standard says.
\<close>
theorem q2_sums_medians:
  assumes "nth_element_contract nth_el" "\<And>x. x \<in> set xs \<Longrightarrow> in_int x" "int (length xs) \<le> int_max"
  shows "q2_nth nth_el xs = Inr (\<Sum>k \<leftarrow> [1..<Suc (length xs)]. sort (take k xs) ! ((k - 1) div 2))"
  using median_loop_eq [OF assms(1), of "[]" xs "[]" 0] assms(2,3)
  by (simp add: q2_nth_def del: upt_Suc)

theorem q2_sums_medians_witness: "q2_nth (\<lambda>xs n. sort xs) [5, 1, 4] = Inr 10"
proof -
  have "nth_element_contract (\<lambda>xs n. sort xs)" by (simp add: nth_element_contract_def)
  then have "q2_nth (\<lambda>xs n. sort xs) [5, 1, 4]
      = Inr (\<Sum>k \<leftarrow> [1..<Suc (length [5, 1, 4 :: int])]. sort (take k [5, 1, 4]) ! ((k - 1) div 2))"
    by (rule q2_sums_medians) (auto simp: in_int_iff int_max_def)
  then show ?thesis by (simp add: upt_rec numeral_nat)
qed

end
