(* ===== verification/Range_Tools.thy ===== *)
theory Range_Tools
  imports Hash_Sums
begin

text \<open>
  Small algorithms on ranges: the selection by a mask and the lookups of
  \<^verbatim>\<open>common/std_own_ext.h\<close>, the removal of repeated elements in \<^verbatim>\<open>edu/train/crack_code_lists.cc\<close>,
  \<open>slide\<close> and \<open>gather\<close> of \<^verbatim>\<open>edu/talks/sean_parent/goal_no_raw_loops_app.cc\<close>, the filters of control
  characters of \<^verbatim>\<open>edu/books/opt_cpp/ch4_benchmark.cc\<close>, and the sums of
  \<^verbatim>\<open>edu/books/cpptemplates_book/basics.cpp\<close>. Iterators are positions, characters are signed bytes.
\<close>

section \<open>Maps, a cached value and selection by a mask\<close>

definition map_at :: "('k \<Rightarrow> 'v option) \<Rightarrow> 'k \<Rightarrow> 'v result" where
  "map_at param val = (case param val of Some v \<Rightarrow> Inr v | None \<Rightarrow> Inl Invalid_Argument)"

definition contain :: "('k \<Rightarrow> 'v option) \<Rightarrow> 'k \<Rightarrow> bool" where
  "contain param val = (case param val of Some v \<Rightarrow> True | None \<Rightarrow> False)"

record 'v cache =
  cached_value :: 'v
  stale :: bool

definition new_cache :: "'v \<Rightarrow> 'v cache" where
  "new_cache v = \<lparr>cached_value = v, stale = True\<rparr>"

definition evict_cache :: "'v cache \<Rightarrow> 'v cache" where
  "evict_cache c = c\<lparr>stale := True\<rparr>"

definition isStale :: "'v cache \<Rightarrow> bool" where
  "isStale c = stale c"

text \<open>The mask is read without a test of its end, and the output is written without one.\<close>

fun compact :: "'a list \<Rightarrow> bool list \<Rightarrow> 'a list \<Rightarrow> nat \<Rightarrow> ('a list \<times> nat) result" where
  "compact [] ms out k = Inr (out, k)"
| "compact (x # xs) [] out k = Inl Undefined_Behaviour"
| "compact (x # xs) (m # ms) out k =
     (if m then bindr (vset out (int k) x) (\<lambda>out. compact xs ms out (k + 1)) else compact xs ms out k)"

definition selected :: "'a list \<Rightarrow> bool list \<Rightarrow> 'a list" where
  "selected xs ms = map fst (filter snd (zip xs ms))"

text \<open>
  \<open>compact\<close> writes the selected elements in their order from the given position on, returns the
  position after them and leaves the rest of the output; it is undefined exactly when the
  mask is shorter than the input before that or the output has no room.
\<close>
theorem compact_selects:
  assumes "length xs \<le> length ms" "k + length (selected xs ms) \<le> length out"
  shows "compact xs ms out k = Inr
    (take k out @ selected xs ms @ drop (k + length (selected xs ms)) out, k + length (selected xs ms))"
  using assms
proof (induction xs ms out k rule: compact.induct)
  case (3 x xs m ms out k)
  show ?case
  proof (cases m)
    case True
    then have s: "selected (x # xs) (m # ms) = x # selected xs ms" by (simp add: selected_def)
    then have k: "k < length out" using "3.prems"(2) by simp
    have "compact xs ms (out[k := x]) (k + 1) = Inr (take (k + 1) (out[k := x]) @ selected xs ms
        @ drop (k + 1 + length (selected xs ms)) (out[k := x]), k + 1 + length (selected xs ms))"
      by (rule "3.IH"(1) [OF True]) (use "3.prems" s k in simp_all)
    moreover have "take (k + 1) (out[k := x]) = take k out @ [x]"
      using k by (simp add: take_Suc_snoc)
    ultimately show ?thesis using True k s by simp
  next
    case False
    then have "selected (x # xs) (m # ms) = selected xs ms" by (simp add: selected_def)
    then show ?thesis using "3.IH"(2) [OF False] "3.prems" False by simp
  qed
qed (simp_all add: selected_def)

theorem compact_selects_witness:
  "compact [1, 2, 3] [True, False, True] [0, 0, 0, 0, 0 :: nat] 1 = Inr ([0, 1, 3, 0, 0], 3)"
  using compact_selects [of "[1, 2, 3]" "[True, False, True]" 1 "[0, 0, 0, 0, 0 :: nat]"]
  by (simp add: selected_def numeral_nat)

section \<open>Repeated elements\<close>

text \<open>\<open>seen\<close> is the list before the iterator \<open>forward\<close>, where \<open>find\<close> looks for its element.\<close>

fun drop_repeats :: "'a list \<Rightarrow> 'a list \<Rightarrow> 'a list" where
  "drop_repeats seen [] = seen"
| "drop_repeats seen (x # xs) =
     (if x \<notin> set seen then drop_repeats (seen @ [x]) xs else drop_repeats seen xs)"

lemma drop_repeats_eq: "drop_repeats seen xs = seen @ rev (remdups (rev (filter (\<lambda>x. x \<notin> set seen) xs)))"
proof (induction seen xs rule: drop_repeats.induct)
  case (2 seen x xs)
  show ?case
  proof (cases "x \<in> set seen")
    case False
    have "rev (remdups (rev (filter (\<lambda>y. y \<notin> set seen) (x # xs))))
      = x # rev (remdups (rev (filter (\<lambda>y. y \<notin> set (seen @ [x])) xs)))"
    proof -
      have "remdups (ys @ [x]) = remdups (filter (\<lambda>y. y \<noteq> x) ys) @ [x]" for ys :: "'a list"
        by (induction ys) auto
      then show ?thesis using False by (simp add: rev_filter [symmetric] conj_commute)
    qed
    then show ?thesis using 2 False by simp
  qed (use 2 in simp)
qed simp

text \<open>C0. The loop over the list keeps the first of equal elements, in the order of the list.\<close>
theorem drop_repeats_first:
  "drop_repeats [] xs = rev (remdups (rev xs)) \<and> distinct (drop_repeats [] xs)
   \<and> set (drop_repeats [] xs) = set xs"
  by (simp add: drop_repeats_eq)

section \<open>Slide and gather\<close>

definition slice :: "nat \<Rightarrow> nat \<Rightarrow> 'a list \<Rightarrow> 'a list" where
  "slice a b xs = take (b - a) (drop a xs)"

text \<open>\<open>std::rotate\<close>: the range \<open>[m, l)\<close> comes before \<open>[f, m)\<close>.\<close>

definition rotate_range :: "nat \<Rightarrow> nat \<Rightarrow> nat \<Rightarrow> 'a list \<Rightarrow> 'a list result" where
  "rotate_range f m l xs =
     (if f \<le> m \<and> m \<le> l \<and> l \<le> length xs
      then Inr (take f xs @ slice m l xs @ slice f m xs @ drop l xs) else Inl Undefined_Behaviour)"

definition slide :: "nat \<Rightarrow> nat \<Rightarrow> nat \<Rightarrow> 'a list \<Rightarrow> 'a list result" where
  "slide f l p xs =
     bindr (if p < f then rotate_range p f l xs else Inr xs) (\<lambda>xs.
       if l < p then rotate_range f l p xs else Inr xs)"

lemma slice_append: "a \<le> b \<Longrightarrow> b \<le> c \<Longrightarrow> slice a b xs @ slice b c xs = slice a c xs"
proof -
  assume "a \<le> b" "b \<le> c"
  then have "c - a = (b - a) + (c - b)" "b = a + (b - a)" by simp_all
  then show ?thesis unfolding slice_def by (metis add.commute drop_drop take_add)
qed

lemma slice_ends: "slice 0 a xs = take a xs" "length xs \<le> b \<Longrightarrow> slice a b xs = drop a xs"
  by (simp_all add: slice_def)

lemma length_slice [simp]: "b \<le> length xs \<Longrightarrow> length (slice a b xs) = b - a"
  by (simp add: slice_def)

lemma rotate_range_moves:
  assumes "f \<le> m" "m \<le> l" "l \<le> length xs"
  defines "ys \<equiv> take f xs @ slice m l xs @ slice f m xs @ drop l xs"
  shows "slice f (f + (l - m)) ys = slice m l xs" "take f ys @ drop (f + (l - m)) ys = take m xs @ drop l xs"
    and "slice (l - (m - f)) l ys = slice f m xs" "take (l - (m - f)) ys @ drop l ys = take f xs @ drop m xs"
    and "length ys = length xs"
proof -
  have m: "take m xs = take f xs @ slice f m xs"
    using assms(1) slice_append [of 0 f m xs] by (simp add: slice_ends)
  have d: "drop m xs = slice m l xs @ drop l xs"
    using assms(2,3) slice_append [of m l "length xs" xs] by (simp add: slice_ends)
  have lm: "l - (m - f) - f = l - m" "l - (l - (m - f)) = m - f" using assms(1,2) by simp_all
  show "slice f (f + (l - m)) ys = slice m l xs" "take f ys @ drop (f + (l - m)) ys = take m xs @ drop l xs"
    "slice (l - (m - f)) l ys = slice f m xs" "take (l - (m - f)) ys @ drop l ys = take f xs @ drop m xs"
    "length ys = length xs"
    using assms(1-3) m d lm unfolding ys_def by (simp_all add: slice_def [of _ _ "_ @ _"])
qed

text \<open>
  \<open>slide\<close> moves a block of the range so that it begins at a target before it or ends at one
  behind it, keeps the order in the block and among the other elements, and leaves a block alone that
  holds the target.
\<close>
theorem slide_moves_block:
  assumes "f \<le> l" "l \<le> length xs" "p \<le> length xs"
  shows "\<exists>ys. slide f l p xs = Inr ys
    \<and> slice (if p < f then p else if l < p then p - (l - f) else f) (if p < f then p + (l - f) else max l p) ys
       = slice f l xs
    \<and> take (if p < f then p else if l < p then p - (l - f) else f) ys
       @ drop (if p < f then p + (l - f) else max l p) ys = take f xs @ drop l xs"
proof -
  consider "p < f" | "f \<le> p" "p \<le> l" | "l < p" by linarith
  then show ?thesis
  proof cases
    case 1
    then show ?thesis using assms rotate_range_moves [of p f l xs]
      by (simp add: slide_def rotate_range_def)
  next
    case 3
    then show ?thesis using assms rotate_range_moves [of f l p xs]
      by (simp add: slide_def rotate_range_def)
  qed (use assms in \<open>simp add: slide_def\<close>)
qed

theorem slide_moves_block_witness:
  "\<exists>ys. slide 1 3 5 [0, 1, 2, 3, 4 :: nat] = Inr ys \<and> slice 3 5 ys = [1, 2]"
  using slide_moves_block [of 1 3 "[0, 1, 2, 3, 4 :: nat]" 5] by (auto simp add: slice_def)

text \<open>\<open>std::stable_partition\<close> on the range \<open>[a, b)\<close>, with the position of the second group.\<close>

definition stable_partition :: "('a \<Rightarrow> bool) \<Rightarrow> nat \<Rightarrow> nat \<Rightarrow> 'a list \<Rightarrow> ('a list \<times> nat) result" where
  "stable_partition s a b xs =
     (if a \<le> b \<and> b \<le> length xs
      then Inr (take a xs @ filter s (slice a b xs) @ filter (\<lambda>x. \<not> s x) (slice a b xs) @ drop b xs,
                a + length (filter s (slice a b xs)))
      else Inl Undefined_Behaviour)"

definition gather :: "nat \<Rightarrow> nat \<Rightarrow> nat \<Rightarrow> ('a \<Rightarrow> bool) \<Rightarrow> 'a list \<Rightarrow> ('a list \<times> nat \<times> nat) result" where
  "gather f l p s xs =
     bindr (stable_partition (\<lambda>x. \<not> s x) f p xs) (\<lambda>(xs, i).
     bindr (stable_partition s p l xs) (\<lambda>(xs, j). Inr (xs, i, j)))"

lemma three_parts:
  assumes "length P = i" "j = i + length Q"
  shows "slice i j (P @ Q @ R) = Q" "take i (P @ Q @ R) = P" "drop j (P @ Q @ R) = R"
  using assms by (simp_all add: slice_def)

lemma split_prefix:
  assumes "length P = p" "p \<le> l"
  shows "take p (P @ D) = P" "slice p l (P @ D) = take (l - p) D" "drop l (P @ D) = drop (l - p) D"
  using assms by (simp_all add: slice_def)

text \<open>
  \<open>gather\<close> brings the selected elements of a range together around a position and returns the
  block they make: inside they keep their order, and so do the others before and behind it.
\<close>
theorem gather_around:
  assumes "f \<le> p" "p \<le> l" "l \<le> length xs"
  shows "\<exists>ys i j. gather f l p s xs = Inr (ys, i, j) \<and> f \<le> i \<and> i \<le> p \<and> p \<le> j \<and> j \<le> l
    \<and> slice i j ys = filter s (slice f l xs)
    \<and> take i ys = take f xs @ filter (\<lambda>x. \<not> s x) (slice f p xs)
    \<and> drop j ys = filter (\<lambda>x. \<not> s x) (slice p l xs) @ drop l xs"
proof -
  let ?A = "slice f p xs" and ?B = "slice p l xs"
  let ?ys = "take f xs @ filter (\<lambda>x. \<not> s x) ?A @ filter s ?A @ drop p xs"
  let ?i = "f + length (filter (\<lambda>x. \<not> s x) ?A)" and ?j = "p + length (filter s ?B)"
  let ?zs = "take f xs @ filter (\<lambda>x. \<not> s x) ?A @ filter s ?A @ filter s ?B @ filter (\<lambda>x. \<not> s x) ?B @ drop l xs"
  have la: "length (filter s ?A) + length (filter (\<lambda>x. \<not> s x) ?A) = p - f"
    using sum_length_filter_compl [of s ?A] assms by simp
  have lb: "length (filter s ?B) + length (filter (\<lambda>x. \<not> s x) ?B) = l - p"
    using sum_length_filter_compl [of s ?B] assms by simp
  have pre: "take p ?ys = take f xs @ filter (\<lambda>x. \<not> s x) ?A @ filter s ?A" "slice p l ?ys = ?B" "drop l ?ys = drop l xs"
  proof -
    have "length (take f xs @ filter (\<lambda>x. \<not> s x) ?A @ filter s ?A) = p" using la assms by simp
    note P = split_prefix [OF this assms(2), of "drop p xs"]
    show "take p ?ys = take f xs @ filter (\<lambda>x. \<not> s x) ?A @ filter s ?A" using P(1) by (simp only: append_assoc)
    show "slice p l ?ys = ?B" using P(2) by (simp only: append_assoc slice_def)
    have "drop l ?ys = drop (l - p) (drop p xs)" using P(3) by (simp only: append_assoc)
    then show "drop l ?ys = drop l xs" using assms(2) by simp
  qed
  have len: "length ?ys = length xs" using la assms by simp
  have 1: "stable_partition (\<lambda>x. \<not> s x) f p xs = Inr (?ys, ?i)"
    using assms unfolding stable_partition_def by simp
  have 2: "stable_partition s p l ?ys = Inr (?zs, ?j)"
    using assms unfolding stable_partition_def len pre by simp
  have g: "gather f l p s xs = Inr (?zs, ?i, ?j)"
    unfolding gather_def 1 bindr_simps split 2 ..
  have sel: "filter s (slice f l xs) = filter s ?A @ filter s ?B"
    using slice_append [of f p l xs] assms by (metis filter_append)
  have i: "length (take f xs @ filter (\<lambda>x. \<not> s x) ?A) = ?i" using assms by simp
  have ij: "?j = ?i + length (filter s ?A @ filter s ?B)" using la assms by simp
  have "slice ?i ?j ?zs = filter s (slice f l xs)" "take ?i ?zs = take f xs @ filter (\<lambda>x. \<not> s x) ?A"
    "drop ?j ?zs = filter (\<lambda>x. \<not> s x) ?B @ drop l xs"
    using three_parts [OF i ij, of "filter (\<lambda>x. \<not> s x) ?B @ drop l xs"] unfolding sel
    by (simp_all only: append_assoc)
  moreover have "?i \<le> p" "?j \<le> l" using la lb assms by linarith+
  ultimately show ?thesis unfolding g by (intro exI conjI) (rule refl | assumption | simp)+
qed

theorem gather_around_witness:
  "\<exists>ys i j. gather 0 6 3 (\<lambda>n. n mod 2 = 0) [1, 2, 3, 4, 5, 6 :: nat] = Inr (ys, i, j) \<and> slice i j ys = [2, 4, 6]"
proof -
  have "filter (\<lambda>n. n mod 2 = 0) (slice 0 6 [1, 2, 3, 4, 5, 6 :: nat]) = [2, 4, 6]" by (simp add: slice_def)
  moreover have "(0 :: nat) \<le> 3" "(3 :: nat) \<le> 6" "6 \<le> length [1, 2, 3, 4, 5, 6 :: nat]" by simp_all
  ultimately show ?thesis by (metis (no_types, lifting) gather_around)
qed

section \<open>Control characters\<close>

text \<open>\<open>char\<close> is signed and is promoted to \<open>int\<close> in the comparison.\<close>

fun remove_ctrl :: "8 word list \<Rightarrow> 8 word list \<Rightarrow> 8 word list" where
  "remove_ctrl result [] = result"
| "remove_ctrl result (c # cs) = remove_ctrl (if sint c \<ge> 0x20 then result @ [c] else result) cs"

lemma remove_ctrl_eq: "remove_ctrl result cs = result @ filter (\<lambda>c. sint c \<ge> 0x20) cs"
  by (induction result cs rule: remove_ctrl.induct) simp_all

text \<open>C0. The filter keeps the bytes from 32 to 127: besides the control characters it drops every byte of a
  text that is not ASCII.\<close>
theorem remove_ctrl_keeps: "remove_ctrl [] cs = filter (\<lambda>c. 32 \<le> uint c \<and> uint c \<le> 127) cs"
proof -
  have "(sint c \<ge> 0x20) = (32 \<le> uint c \<and> uint c \<le> 127)" for c :: "8 word"
  proof -
    have b: "0 \<le> uint c" "uint c < 256" using uint_lt2p [of c] by simp_all
    have e: "sint c = (uint c + 128) mod 256 - 128"
      by (simp add: sint_uint signed_take_bit_eq_take_bit_shift take_bit_eq_mod)
    show ?thesis
    proof (cases "uint c < 128")
      case True
      then have "sint c = uint c" using b unfolding e by (subst mod_pos_pos_trivial) simp_all
      then show ?thesis using True by simp
    next
      case False
      then have "(uint c + 128) mod 256 = uint c - 128"
        using b by (intro int_mod_pos_eq [of _ _ 1]) simp_all
      then have "sint c < 0" using b unfolding e by simp
      then show ?thesis using False by simp
    qed
  qed
  then show ?thesis by (simp add: remove_ctrl_eq)
qed

end
