(* ===== verification/Shared_Reduce.thy ===== *)
theory Shared_Reduce
  imports Reduce_Main
begin

text \<open>
  The reductions in shared memory of \<^verbatim>\<open>chapter05/reduceInteger.cu\<close>, from the CUDA samples and from
  the solutions of the book. The phases of a kernel work on global memory as before, or on the shared
  memory of the block, which starts with an arbitrary content \<open>fresh\<close> and is gone at the end.
\<close>

unbundle bit_operations_syntax

section \<open>Statements of a thread\<close>

text \<open>
  \<open>if (idx >= n) return\<close>: the thread takes no part in any later phase. A barrier that some threads of a
  block never reach is undefined; the theorems are about blocks in which all threads are live.
\<close>

definition live :: "nat \<Rightarrow> nat \<Rightarrow> nat \<Rightarrow> nat \<Rightarrow> bool" where
  "live b blockDim n tid \<longleftrightarrow> \<not> u32 (b * blockDim + tid) \<ge> n"

definition if_live :: "nat \<Rightarrow> nat \<Rightarrow> nat \<Rightarrow> (nat \<Rightarrow> mem \<Rightarrow> mem result) \<Rightarrow> nat \<Rightarrow> mem \<Rightarrow> mem result" where
  "if_live b blockDim n f tid xs = (if live b blockDim n tid then f tid xs else Inr xs)"

text \<open>\<open>smem[tid] = idata[tid]\<close>.\<close>

definition load_thread :: "nat \<Rightarrow> mem \<Rightarrow> nat \<Rightarrow> mem \<Rightarrow> mem result" where
  "load_thread base idata tid smem = bindr (vget idata (int (base + tid))) (\<lambda>v. vset smem (int tid) v)"

text \<open>A turn of the loop over neighbored pairs.\<close>

definition even_thread :: "nat \<Rightarrow> nat \<Rightarrow> nat \<Rightarrow> mem \<Rightarrow> mem result" where
  "even_thread base stride tid xs =
     (if tid mod (2 * stride) = 0 then accumulate (base + tid) (base + tid + stride) xs else Inr xs)"

text \<open>The sum of up to four elements a block apart, those behind the end left out.\<close>

definition column_sum :: "nat \<Rightarrow> nat \<Rightarrow> nat \<Rightarrow> mem \<Rightarrow> nat \<Rightarrow> 32 word result" where
  "column_sum b blockDim n idata tid =
     (let idx = u32 (b * blockDim * 4 + tid) in
      bindr (mapr (\<lambda>j. if u32 (idx + j * blockDim) < n then vget idata (int (u32 (idx + j * blockDim))) else Inr 0) [0..<4])
        (\<lambda>as. Inr (sum_list as)))"

definition column_thread :: "nat \<Rightarrow> nat \<Rightarrow> nat \<Rightarrow> nat \<Rightarrow> mem \<Rightarrow> mem result" where
  "column_thread b blockDim n tid idata =
     (let idx = u32 (b * blockDim * 4 + tid) in
      if idx < n then bindr (column_sum b blockDim n idata tid) (\<lambda>s. vset idata (int idx) s) else Inr idata)"

definition load_column :: "nat \<Rightarrow> nat \<Rightarrow> nat \<Rightarrow> mem \<Rightarrow> nat \<Rightarrow> mem \<Rightarrow> mem result" where
  "load_column b blockDim n idata tid smem =
     bindr (if u32 (b * blockDim * 4 + tid) < n then column_sum b blockDim n idata tid else Inr 0)
       (\<lambda>tmpSum. vset smem (int tid) tmpSum)"

text \<open>The lanes of the first warp that have not returned: all read, then all write.\<close>

definition lanes_step :: "nat list \<Rightarrow> nat \<Rightarrow> nat \<Rightarrow> phase" where
  "lanes_step lanes base off ord vmem =
     bindr (mapr (\<lambda>tid. bindr (vget vmem (int (base + tid))) (\<lambda>a.
       bindr (vget vmem (int (base + tid + off))) (\<lambda>b. Inr (base + tid, a + b)))) lanes) (\<lambda>ws.
       iterr (\<lambda>(i, s) vmem. vset vmem (int i) s) ws vmem)"

definition live_warp :: "nat \<Rightarrow> nat \<Rightarrow> nat \<Rightarrow> nat \<Rightarrow> phase list" where
  "live_warp b blockDim n base =
     map (lanes_step (filter (live b blockDim n) [0..<min 32 blockDim]) base) [32, 16, 8, 4, 2, 1]"

section \<open>Kernels in global memory\<close>

definition reduceNeighboredGmem :: "nat \<Rightarrow> nat \<Rightarrow> nat \<Rightarrow> phase list" where
  "reduceNeighboredGmem b blockDim n =
     map (\<lambda>stride. run_threads (if_live b blockDim n (even_thread (b * blockDim) stride))) (doubling 1 blockDim)"

definition reduceGmem :: "nat \<Rightarrow> nat \<Rightarrow> nat \<Rightarrow> phase list" where
  "reduceGmem b blockDim n =
     map (\<lambda>s. run_threads (if_live b blockDim n (guarded_thread blockDim (b * blockDim) s))) [512, 256, 128, 64]
     @ live_warp b blockDim n (b * blockDim)"

definition reduceGmemUnroll :: "nat \<Rightarrow> nat \<Rightarrow> nat \<Rightarrow> phase list" where
  "reduceGmemUnroll b blockDim n =
     run_threads (column_thread b blockDim n)
     # map (\<lambda>s. run_threads (guarded_thread blockDim (b * blockDim * 4) s)) [512, 256, 128, 64]
     @ last_warp (b * blockDim * 4) blockDim"

section \<open>Kernels in shared memory\<close>

type_synonym shared_kernel = "nat \<Rightarrow> nat \<Rightarrow> nat \<Rightarrow> mem \<Rightarrow> phase list"

definition reduceNeighboredSmem :: shared_kernel where
  "reduceNeighboredSmem b blockDim n idata =
     run_threads (if_live b blockDim n (load_thread (b * blockDim) idata))
     # map (\<lambda>stride. run_threads (if_live b blockDim n (even_thread 0 stride))) (doubling 1 blockDim)"

definition reduceSmem :: shared_kernel where
  "reduceSmem b blockDim n idata =
     run_threads (if_live b blockDim n (load_thread (b * blockDim) idata))
     # map (\<lambda>s. run_threads (if_live b blockDim n (guarded_thread blockDim 0 s))) [512, 256, 128, 64]
     @ live_warp b blockDim n 0"

definition reduceSmemDyn :: shared_kernel where
  "reduceSmemDyn b blockDim n idata =
     run_threads (load_thread (b * blockDim) idata)
     # map (\<lambda>s. run_threads (guarded_thread blockDim 0 s)) [512, 256, 128, 64] @ last_warp 0 blockDim"

definition reduceSmemUnroll :: shared_kernel where
  "reduceSmemUnroll b blockDim n idata =
     run_threads (load_column b blockDim n idata)
     # map (\<lambda>s. run_threads (guarded_thread blockDim 0 s)) [512, 256, 128, 64] @ last_warp 0 blockDim"

definition reduceSmemUnrollDyn :: shared_kernel where
  "reduceSmemUnrollDyn b blockDim n idata =
     run_threads (load_column b blockDim n idata)
     # map (\<lambda>s. run_threads (guarded_thread blockDim 0 s)) [512, 256, 128, 64] @ last_warp 0 blockDim"

section \<open>The kernels of the solutions that differ\<close>

text \<open>A thread adds four elements or none; each kernel has its own test.\<close>

definition four_sum :: "nat \<Rightarrow> nat \<Rightarrow> mem \<Rightarrow> nat \<Rightarrow> 32 word result" where
  "four_sum b blockDim idata tid =
     (let idx = u32 (b * blockDim * 4 + tid) in
      bindr (mapr (\<lambda>j. vget idata (int (u32 (idx + j * blockDim)))) [0..<4]) (\<lambda>as. Inr (sum_list as)))"

definition load_four :: "(nat \<Rightarrow> bool) \<Rightarrow> nat \<Rightarrow> nat \<Rightarrow> mem \<Rightarrow> nat \<Rightarrow> mem \<Rightarrow> mem result" where
  "load_four whole b blockDim idata tid smem =
     bindr (if whole (u32 (b * blockDim * 4 + tid)) then four_sum b blockDim idata tid else Inr 0)
       (\<lambda>tmpSum. vset smem (int tid) tmpSum)"

definition solGmemUnroll :: "nat \<Rightarrow> nat \<Rightarrow> nat \<Rightarrow> phase list" where
  "solGmemUnroll b blockDim n =
     run_threads (unroll_thread 4 b blockDim n)
     # map (\<lambda>s. run_threads (guarded_thread blockDim (b * blockDim * 4) s)) [512, 256, 128, 64]
     @ last_warp (b * blockDim * 4) blockDim"

definition solSmemUnroll :: shared_kernel where
  "solSmemUnroll b blockDim n idata =
     run_threads (load_four (\<lambda>idx. u32 (idx + 4 * blockDim) \<le> n) b blockDim idata)
     # map (\<lambda>s. run_threads (guarded_thread blockDim 0 s)) [512, 256, 128, 64] @ last_warp 0 blockDim"

definition solSmemUnrollDyn :: shared_kernel where
  "solSmemUnrollDyn b blockDim n idata =
     run_threads (load_four (\<lambda>idx. u32 (idx + 3 * blockDim) < n) b blockDim idata)
     # map (\<lambda>s. run_threads (guarded_thread blockDim 0 s)) [512, 256, 128, 64] @ last_warp 0 blockDim"

section \<open>Blocks, launches and tests\<close>

text \<open>What a block makes of the input and the partial sums.\<close>

type_synonym block_step = "schedule \<Rightarrow> nat \<Rightarrow> nat \<Rightarrow> nat \<Rightarrow> mem \<times> mem \<Rightarrow> (mem \<times> mem) result"

definition shared_block :: "shared_kernel \<Rightarrow> bool \<Rightarrow> nat \<Rightarrow> (nat \<Rightarrow> nat \<Rightarrow> 32 word) \<Rightarrow> block_step" where
  "shared_block phases early words fresh ord blockDim n b mems =
     (let (idata, odata) = mems in
      bindr (run_phases (ord b) 0 (phases b blockDim n idata) (map (fresh b) [0..<words])) (\<lambda>smem.
      if early \<and> \<not> live b blockDim n 0 then Inr (idata, odata)
      else bindr (vget smem 0) (\<lambda>r. bindr (vset odata (int b) r) (\<lambda>odata. Inr (idata, odata)))))"

text \<open>A launch on no block or on too large blocks is an error and runs nothing.\<close>

definition launches :: "nat \<Rightarrow> nat \<Rightarrow> nat \<Rightarrow> bool" where
  "launches maxThreads grid blockDim \<longleftrightarrow> 0 < grid \<and> 0 < blockDim \<and> blockDim \<le> maxThreads"

text \<open>The data is copied again, the kernel runs on its blocks in some order, the partial sums are added.\<close>

definition shared_test :: "block_step \<Rightarrow> schedule \<Rightarrow> nat list \<Rightarrow> nat \<Rightarrow> nat \<Rightarrow> mem \<Rightarrow> mem \<Rightarrow> (32 word \<times> mem) result" where
  "shared_test step ord blocks grid blockDim h_idata d_odata =
     bindr (iterr (step ord blockDim (length h_idata)) blocks (h_idata, d_odata)) (\<lambda>(idata, odata).
     bindr (mapr (\<lambda>i. vget odata (int i)) [0..<grid]) (\<lambda>parts. Inr (sum_list parts, odata)))"

text \<open>
  The tests one after the other. Where the program checks its launches, a launch that fails ends it;
  otherwise the sums of the test before are read again. The value is the sums printed, and whether
  the program came to its end.
\<close>

fun shared_tests :: "bool \<Rightarrow> nat \<Rightarrow> (nat \<Rightarrow> schedule) \<Rightarrow> (nat \<Rightarrow> nat \<Rightarrow> nat list) \<Rightarrow> nat
    \<Rightarrow> (block_step \<times> nat) list \<Rightarrow> mem \<Rightarrow> mem \<Rightarrow> (32 word list \<times> bool) result" where
  "shared_tests checked maxThreads ords blocks blockDim [] h_idata d_odata = Inr ([], True)"
| "shared_tests checked maxThreads ords blocks blockDim ((step, grid) # ts) h_idata d_odata =
     (if checked \<and> \<not> launches maxThreads grid blockDim then Inr ([], False)
      else bindr (shared_test step (ords (length ts))
                   (if launches maxThreads grid blockDim then blocks (length ts) grid else []) grid blockDim h_idata d_odata)
        (\<lambda>(s, odata). bindr (shared_tests checked maxThreads ords blocks blockDim ts h_idata odata)
          (\<lambda>(sums, ends). Inr (s # sums, ends))))"

definition gmem_block :: "(nat \<Rightarrow> nat \<Rightarrow> nat \<Rightarrow> phase list) \<Rightarrow> nat \<Rightarrow> bool \<Rightarrow> block_step" where
  "gmem_block phases e early = run_block \<lparr>body = phases, elements = e, returns_early = early\<rparr>"

section \<open>The main programs\<close>

text \<open>
  Each takes the limit of the device, the schedules, the contents of fresh memory and the data; the
  value is the sum of the host, the sums printed, and the test of the last sum when the program came to it.
\<close>

definition sample_tests :: "(nat \<Rightarrow> nat \<Rightarrow> nat \<Rightarrow> 32 word) \<Rightarrow> nat \<Rightarrow> nat \<Rightarrow> (block_step \<times> nat) list" where
  "sample_tests fresh blocksize grid =
     [(gmem_block reduceNeighboredGmem 1 True, grid),
      (shared_block reduceNeighboredSmem True 128 (fresh 1), grid),
      (gmem_block reduceGmem 1 True, grid),
      (shared_block reduceSmem True 128 (fresh 3), grid),
      (shared_block reduceSmemDyn False blocksize (fresh 4), grid),
      (gmem_block reduceGmemUnroll 4 False, grid div 4),
      (shared_block reduceSmemUnroll False 128 (fresh 6), grid div 4),
      (shared_block reduceSmemUnrollDyn False 128 (fresh 7), grid div 4)]"

definition sample_main :: "nat \<Rightarrow> (nat \<Rightarrow> schedule) \<Rightarrow> (nat \<Rightarrow> nat \<Rightarrow> nat list) \<Rightarrow> (nat \<Rightarrow> nat \<Rightarrow> nat \<Rightarrow> 32 word)
    \<Rightarrow> mem \<Rightarrow> mem \<Rightarrow> (32 word \<times> 32 word list \<times> bool option) result" where
  "sample_main maxThreads ords blocks fresh h_idata d_odata =
     (let len = length h_idata; blocksize = 128; grid = (len + blocksize - 1) div blocksize in
      bindr (recursiveReduce h_idata len) (\<lambda>cpu_sum.
      bindr (shared_tests False maxThreads ords blocks blocksize (sample_tests fresh blocksize grid) h_idata d_odata)
        (\<lambda>(sums, ends). Inr (cpu_sum, sums, if ends then Some (last sums = cpu_sum) else None))))"

definition solution_tests :: "(nat \<Rightarrow> nat \<Rightarrow> nat \<Rightarrow> 32 word) \<Rightarrow> nat \<Rightarrow> nat \<Rightarrow> (block_step \<times> nat) list" where
  "solution_tests fresh blocksize grid =
     [(gmem_block reduceNeighboredGmem 1 True, grid),
      (shared_block reduceNeighboredSmem True 1024 (fresh 1), grid),
      (gmem_block reduceGmem 1 True, grid),
      (shared_block reduceSmem True 1024 (fresh 3), grid),
      (shared_block reduceSmemDyn False blocksize (fresh 4), grid),
      (gmem_block solGmemUnroll 4 False, grid div 4),
      (shared_block solSmemUnroll False 1024 (fresh 6), grid div 4),
      (shared_block solSmemUnrollDyn False 1024 (fresh 7), grid div 4)]"

text \<open>The arguments default to 1024 and 10; the data is what \<open>rand\<close> gave for \<open>2 ^ power\<close> elements.\<close>

definition solution_main :: "nat option \<Rightarrow> nat option \<Rightarrow> nat \<Rightarrow> (nat \<Rightarrow> schedule) \<Rightarrow> (nat \<Rightarrow> nat \<Rightarrow> nat list)
    \<Rightarrow> (nat \<Rightarrow> nat \<Rightarrow> nat \<Rightarrow> 32 word) \<Rightarrow> (nat \<Rightarrow> 32 word) \<Rightarrow> mem \<Rightarrow> (32 word \<times> 32 word list \<times> bool option) result" where
  "solution_main arg1 arg2 maxThreads ords blocks fresh rands d_odata =
     (let blocksize = case arg1 of Some a \<Rightarrow> a | None \<Rightarrow> 1024; power = case arg2 of Some a \<Rightarrow> a | None \<Rightarrow> 10 in
      bindr (check (power < 31) Undefined_Behaviour) (\<lambda>_.
      bindr (check (blocksize \<noteq> 0) Undefined_Behaviour) (\<lambda>_.
      let len = 2 ^ power; grid = (len + blocksize - 1) div blocksize;
          h_idata = map (\<lambda>i. rands i AND 0xFF) [0..<len] in
      bindr (recursiveReduce h_idata len) (\<lambda>cpu_sum.
      bindr (shared_tests True maxThreads ords blocks blocksize (solution_tests fresh blocksize grid) h_idata d_odata)
        (\<lambda>(sums, ends). Inr (cpu_sum, sums, if ends then Some (last sums = cpu_sum) else None))))))"

end
