(* ===== verification/Shared_Reduce_Correct.thy ===== *)
theory Shared_Reduce_Correct
  imports Shared_Reduce
begin

text \<open>
  What the kernels of \<^verbatim>\<open>chapter05/reduceInteger.cu\<close> leave in the first cell, in every order of the
  threads of each phase: where all threads of a block are live the early return changes nothing, the
  loads fill the shared memory, and the phases after them are those of the kernels before.
\<close>

section \<open>Live threads\<close>

lemma live_all: "b * blockDim + blockDim \<le> n \<Longrightarrow> n < 2 ^ 32 \<Longrightarrow> t < blockDim \<Longrightarrow> live b blockDim n t"
  by (simp add: live_def u32_def)

lemma run_threads_cong:
  "(\<And>t xs. t \<in> set ts \<Longrightarrow> f t xs = g t xs) \<Longrightarrow> run_threads f ts xs = run_threads g ts xs"
  by (induction ts arbitrary: xs) (auto simp: bindr_def split: sum.splits)

lemma orders_mem: "orders blockDim ts \<Longrightarrow> t \<in> set ts \<Longrightarrow> t < blockDim"
  by (simp add: orders_def)

lemma if_live_threads:
  assumes "b * blockDim + blockDim \<le> n" "n < 2 ^ 32" "orders blockDim ts"
  shows "run_threads (if_live b blockDim n f) ts xs = run_threads f ts xs"
  by (rule run_threads_cong) (simp add: if_live_def live_all [OF assms(1,2)] orders_mem [OF assms(3)])

lemma run_phases_cong:
  "list_all2 (\<lambda>p q. \<forall>ts xs. orders blockDim ts \<longrightarrow> p ts xs = q ts xs) ps qs \<Longrightarrow> (\<And>j. orders blockDim (ord j)) \<Longrightarrow>
   run_phases ord j ps xs = run_phases ord j qs xs"
  by (induction ps qs arbitrary: j xs rule: list_all2_induct) (auto simp: bindr_def split: sum.splits)

lemma if_live_phases:
  assumes "b * blockDim + blockDim \<le> n" "n < 2 ^ 32" "\<And>j. orders blockDim (ord j)"
  shows "run_phases ord j (map (\<lambda>s. run_threads (if_live b blockDim n (g s))) ss @ qs) xs
    = run_phases ord j (map (\<lambda>s. run_threads (g s)) ss @ qs) xs"
proof (rule run_phases_cong [OF _ assms(3)])
  show "list_all2 (\<lambda>p q. \<forall>ts xs. orders blockDim ts \<longrightarrow> p ts xs = q ts xs)
      (map (\<lambda>s. run_threads (if_live b blockDim n (g s))) ss @ qs) (map (\<lambda>s. run_threads (g s)) ss @ qs)"
    by (intro list_all2_appendI list_all2_all_nthI) (simp_all add: if_live_threads [OF assms(1,2)])
qed

section \<open>The lanes of a warp\<close>

lemma iterr_writes:
  "base + m \<le> length xs \<Longrightarrow>
   \<exists>ys. iterr (\<lambda>(i, s) vmem. vset vmem (int i) s) (map (\<lambda>t. (base + t, g t)) [0..<m]) xs = Inr ys
     \<and> length ys = length xs \<and> (\<forall>t < m. ys ! (base + t) = g t) \<and> (\<forall>i. i < base \<or> base + m \<le> i \<longrightarrow> ys ! i = xs ! i)"
proof (induction m)
  case (Suc m)
  then obtain ys where ys: "iterr (\<lambda>(i, s) vmem. vset vmem (int i) s) (map (\<lambda>t. (base + t, g t)) [0..<m]) xs = Inr ys"
    "length ys = length xs" "\<forall>t < m. ys ! (base + t) = g t" "\<forall>i. i < base \<or> base + m \<le> i \<longrightarrow> ys ! i = xs ! i" by auto
  have "vset ys (int (base + m)) (g m) = Inr (ys[base + m := g m])"
    using Suc.prems ys(2) by (intro vset_int) simp
  then have "iterr (\<lambda>(i, s) vmem. vset vmem (int i) s) (map (\<lambda>t. (base + t, g t)) [0..<Suc m]) xs = Inr (ys[base + m := g m])"
    using ys(1) by (simp add: iterr_append)
  moreover have "ys[base + m := g m] ! (base + t) = g t" if "t < Suc m" for t
    using that ys(2,3) Suc.prems by (cases "t = m") auto
  moreover have "ys[base + m := g m] ! i = xs ! i" if "i < base \<or> base + Suc m \<le> i" for i
    using that ys(4) by auto
  ultimately show ?case using ys(2) by (intro exI [of _ "ys[base + m := g m]"] conjI allI impI) simp_all
qed simp

lemma lanes_halves:
  assumes "s \<le> 32" "64 \<le> blockDim"
  shows "halves base blockDim s (lanes_step [0..<32] base s)"
  unfolding halves_def
proof (intro allI impI)
  fix ts and xs :: mem assume len: "base + blockDim \<le> length xs"
  let ?g = "\<lambda>t. xs ! (base + t) + xs ! (base + t + s)"
  have r: "mapr (\<lambda>tid. bindr (vget xs (int (base + tid))) (\<lambda>a. bindr (vget xs (int (base + tid + s))) (\<lambda>b. Inr (base + tid, a + b)))) [0..<32]
      = Inr (map (\<lambda>t. (base + t, ?g t)) [0..<32])"
  proof (rule mapr_ok)
    fix t assume "t \<in> set [0..<32 :: nat]"
    then have "t < 32" by simp
    then have "vget xs (int (base + t)) = Inr (xs ! (base + t))" "vget xs (int (base + t + s)) = Inr (xs ! (base + t + s))"
      using assms len by (intro vget_int; linarith)+
    then show "bindr (vget xs (int (base + t))) (\<lambda>a. bindr (vget xs (int (base + t + s))) (\<lambda>b. Inr (base + t, a + b)))
        = Inr (base + t, ?g t)" by (simp only: bindr_simps)
  qed
  have "base + 32 \<le> length xs" using assms(2) len by simp
  from iterr_writes [OF this, of ?g]
  obtain ys where ys: "lanes_step [0..<32] base s ts xs = Inr ys" "length ys = length xs"
      "\<forall>t < 32. ys ! (base + t) = ?g t" "\<forall>i. i < base \<or> base + 32 \<le> i \<longrightarrow> ys ! i = xs ! i"
    unfolding lanes_step_def r bindr_simps by blast
  moreover have "ys ! (base + i) = xs ! (base + i) + xs ! (base + s + i)" if "i < s" for i
  proof -
    have "i < 32" "base + s + i = base + i + s" using that assms(1) by simp_all
    then show ?thesis using ys(3) by (simp only:)
  qed
  moreover have "ys ! i = xs ! i" if "i < base \<or> base + blockDim \<le> i" for i
    using ys(4) that assms(2) by auto
  ultimately show "\<exists>ys. lanes_step [0..<32] base s ts xs = Inr ys \<and> length ys = length xs
      \<and> (\<forall>i < s. ys ! (base + i) = xs ! (base + i) + xs ! (base + s + i))
      \<and> (\<forall>i. i < base \<or> base + blockDim \<le> i \<longrightarrow> ys ! i = xs ! i)" by blast
qed

lemma live_warp_halving:
  assumes "64 \<le> blockDim" "b * blockDim + blockDim \<le> n" "n < 2 ^ 32"
  shows "halving_phases base blockDim 6 (live_warp b blockDim n base)"
proof -
  have "filter (live b blockDim n) [0..<min 32 blockDim] = [0..<32]"
    using assms(1) by (simp add: filter_id_conv live_all [OF assms(2,3)])
  then have w: "live_warp b blockDim n base = map (lanes_step [0..<32] base) [32, 16, 8, 4, 2, 1]"
    by (simp only: live_warp_def)
  have "halves base blockDim (2 ^ k) (lanes_step [0..<32] base (2 ^ k))" if "k \<le> 5" for k
    using lanes_halves [of "2 ^ k" blockDim base] power_increasing [of k 5 "2 :: nat"] that assms(1) by simp
  from this [of 5] this [of 4] this [of 3] this [of 2] this [of 1] this [of 0]
  have "halving_phases base blockDim (Suc (Suc (Suc (Suc (Suc (Suc 0)))))) (map (lanes_step [0..<32] base) [32, 16, 8, 4, 2, 1])"
    unfolding list.map
    by (intro halving_some halving_none) (simp_all add: numeral_eq_Suc del: upt_Suc)
  then show ?thesis unfolding w by (simp add: numeral_eq_Suc del: upt_Suc)
qed

section \<open>Kernels in global memory\<close>

lemma reduceNeighboredGmem_eq: "reduceNeighboredGmem = reduceNeighbored"
proof (intro ext)
  fix b blockDim n
  have "if_live b blockDim n (even_thread (b * blockDim) s) = neighbored_thread b blockDim n s" for s
    by (intro ext) (simp add: if_live_def live_def even_thread_def neighbored_thread_def Let_def)
  then show "reduceNeighboredGmem b blockDim n = reduceNeighbored b blockDim n"
    by (simp add: reduceNeighboredGmem_def reduceNeighbored_def)
qed

lemma power_64: "6 \<le> k \<Longrightarrow> 64 \<le> (2 :: nat) ^ k"
  using power_increasing [of 6 k "2 :: nat"] by simp

lemma reduceGmem_sums:
  assumes k: "6 \<le> k" "k \<le> 10"
  shows "sums_block reduceGmem 1 (2 ^ k)"
  unfolding sums_block_def
proof (intro allI impI)
  fix b xs and ord :: "nat \<Rightarrow> nat list"
  assume n: "length xs < 2 ^ 32" "b * 2 ^ k * 1 + 1 * 2 ^ k \<le> length (xs :: mem)" and o: "\<forall>j. orders (2 ^ k) (ord j)"
  let ?ps = "map (\<lambda>s. run_threads (guarded_thread (2 ^ k) (b * 2 ^ k) s)) [512, 256, 128, 64] @ live_warp b (2 ^ k) (length xs) (b * 2 ^ k)"
  have fits: "b * 2 ^ k + 2 ^ k \<le> length xs" using n(2) by simp
  have "halving_phases (b * 2 ^ k) (2 ^ k) k ?ps"
    by (rule complete_halving [OF k live_warp_halving [OF power_64 [OF k(1)] fits n(1)]])
  from halving_sum [OF this, of ord xs 0]
  show "\<exists>ys. run_phases ord 0 (reduceGmem b (2 ^ k) (length xs)) xs = Inr ys \<and> length ys = length xs
      \<and> ys ! (b * 2 ^ k * 1) = block_sum (b * 2 ^ k * 1) (1 * 2 ^ k) xs
      \<and> (\<forall>i. i < b * 2 ^ k * 1 \<or> b * 2 ^ k * 1 + 1 * 2 ^ k \<le> i \<longrightarrow> ys ! i = xs ! i)"
    using fits o unfolding reduceGmem_def by (simp only: if_live_phases [OF fits n(1)] mult_1 mult_1_right)
qed

lemma solGmemUnroll_sums: "6 \<le> k \<Longrightarrow> k \<le> 10 \<Longrightarrow> sums_block solGmemUnroll 4 (2 ^ k)"
  by (rule complete_sums) (simp_all add: solGmemUnroll_def)

lemma bindr_assoc: "bindr (bindr x f) g = bindr x (\<lambda>y. bindr (f y) g)"
  by (cases x) simp_all

text \<open>The elements of a thread of the unrolled kernels.\<close>

lemma column_inside:
  assumes "b * blockDim * 4 + 4 * blockDim \<le> n" "n < 2 ^ 32" "t < blockDim" "j < 4"
  shows "b * blockDim * 4 + t + j * blockDim < n" "u32 (b * blockDim * 4 + t) = b * blockDim * 4 + t"
    and "u32 (b * blockDim * 4 + t + j * blockDim) = b * blockDim * 4 + t + j * blockDim"
proof -
  have "(j + 1) * blockDim \<le> 4 * blockDim" using assms(4) by (intro mult_le_mono1) simp
  then have "j * blockDim + blockDim \<le> 4 * blockDim" by (simp only: add_mult_distrib mult_1)
  then show l: "b * blockDim * 4 + t + j * blockDim < n" using assms(1,3) by linarith
  show "u32 (b * blockDim * 4 + t + j * blockDim) = b * blockDim * 4 + t + j * blockDim"
    by (rule u32_small) (use l assms(2) in linarith)
  show "u32 (b * blockDim * 4 + t) = b * blockDim * 4 + t"
    by (rule u32_small) (use l assms(2) in linarith)
qed

lemma column_thread_whole:
  assumes "b * blockDim * 4 + 4 * blockDim \<le> n" "n < 2 ^ 32" "t < blockDim"
  shows "column_thread b blockDim n t xs = unroll_thread 4 b blockDim n t xs"
proof -
  note c = column_inside [OF assms]
  let ?i = "b * blockDim * 4 + t"
  have idx: "u32 ?i = ?i" "?i < n" using c [of 0] by simp_all
  have last_cell: "u32 (?i + (4 - 1) * blockDim) < n" using c [of 3] by simp
  have "mapr (\<lambda>j. if u32 (?i + j * blockDim) < n then vget xs (int (u32 (?i + j * blockDim))) else Inr 0) [0..<4]
      = mapr (\<lambda>j. vget xs (int (u32 (?i + j * blockDim)))) [0..<4]"
    by (rule mapr_cong) (simp_all add: c)
  then show ?thesis
    unfolding column_thread_def column_sum_def unroll_thread_def Let_def idx(1) using idx(2) last_cell
    by (simp only: if_True bindr_assoc bindr_simps)
qed

lemma reduceGmemUnroll_sums:
  assumes k: "6 \<le> k" "k \<le> 10"
  shows "sums_block reduceGmemUnroll 4 (2 ^ k)"
  unfolding sums_block_def
proof (intro allI impI)
  fix b xs and ord :: "nat \<Rightarrow> nat list"
  assume n: "length xs < 2 ^ 32" "b * 2 ^ k * 4 + 4 * 2 ^ k \<le> length (xs :: mem)" and o: "\<forall>j. orders (2 ^ k) (ord j)"
  have "run_threads (column_thread b (2 ^ k) (length xs)) (ord 0) xs = run_threads (unroll_thread 4 b (2 ^ k) (length xs)) (ord 0) xs"
    by (rule run_threads_cong, rule column_thread_whole [OF n(2,1)]) (use orders_mem o in blast)
  then have "run_phases ord 0 (reduceGmemUnroll b (2 ^ k) (length xs)) xs = run_phases ord 0 (solGmemUnroll b (2 ^ k) (length xs)) xs"
    unfolding reduceGmemUnroll_def solGmemUnroll_def run_phases.simps by (simp only:)
  then show "\<exists>ys. run_phases ord 0 (reduceGmemUnroll b (2 ^ k) (length xs)) xs = Inr ys \<and> length ys = length xs
      \<and> ys ! (b * 2 ^ k * 4) = block_sum (b * 2 ^ k * 4) (4 * 2 ^ k) xs
      \<and> (\<forall>i. i < b * 2 ^ k * 4 \<or> b * 2 ^ k * 4 + 4 * 2 ^ k \<le> i \<longrightarrow> ys ! i = xs ! i)"
    using solGmemUnroll_sums [OF k] n o unfolding sums_block_def by presburger
qed

section \<open>Kernels in shared memory\<close>

text \<open>The first cell after the phases of a block, for a shared memory of any content.\<close>

definition shared_sums :: "shared_kernel \<Rightarrow> nat \<Rightarrow> nat \<Rightarrow> (nat \<Rightarrow> mem \<Rightarrow> 32 word) \<Rightarrow> bool" where
  "shared_sums phases e blockDim v \<longleftrightarrow> (\<forall>b xs ord smem. length xs < 2 ^ 31 \<longrightarrow> b * blockDim * e + e * blockDim \<le> length xs \<longrightarrow>
     (\<forall>j. orders blockDim (ord j)) \<longrightarrow> blockDim \<le> length smem \<longrightarrow>
     (\<exists>zs. run_phases ord 0 (phases b blockDim (length xs) xs) smem = Inr zs \<and> zs \<noteq> [] \<and> zs ! 0 = v b xs))"

lemma load_all:
  assumes o: "orders blockDim ts" and len: "blockDim \<le> length smem"
    and f: "\<And>t ys. t < blockDim \<Longrightarrow> f t ys = vset ys (int t) (v t)"
  shows "\<exists>zs. run_threads f ts smem = Inr zs \<and> length zs = length smem \<and> (\<forall>t < blockDim. zs ! t = v t)"
proof -
  have T: "set ts = {..<blockDim}" "distinct ts" using o by (simp_all add: orders_def)
  have step: "f t ys = Inr (if True then ys[t := v t] else ys)"
    if "t \<in> {..<blockDim}" "length ys = length smem" for t ys
    using f [of t ys] vset_int [of t ys] that len by simp
  have "\<exists>zs. run_threads f ts smem = Inr zs \<and> length zs = length smem \<and> (\<forall>t \<in> set ts. True \<longrightarrow> zs ! t = v t)
      \<and> (\<forall>i. (\<forall>t \<in> set ts. True \<longrightarrow> i \<noteq> t) \<longrightarrow> zs ! i = smem ! i)"
    by (rule run_updates [where T = "{..<blockDim}" and w = "\<lambda>t. t", OF step]) (use T len in simp_all)
  then show ?thesis unfolding T(1) by auto
qed

lemma shared_phases:
  assumes o: "\<And>j. orders blockDim (ord j)" and len: "blockDim \<le> length smem" "0 < blockDim"
    and f: "\<And>t ys. t < blockDim \<Longrightarrow> f t ys = vset ys (int t) (v t)"
    and rest: "\<And>ys. blockDim \<le> length ys \<Longrightarrow>
      \<exists>zs. run_phases ord 1 ps ys = Inr zs \<and> length zs = length ys \<and> zs ! 0 = block_sum 0 blockDim ys"
  shows "\<exists>zs. run_phases ord 0 (run_threads f # ps) smem = Inr zs \<and> zs \<noteq> [] \<and> zs ! 0 = (\<Sum>t < blockDim. v t)"
proof -
  obtain ys where ys: "run_threads f (ord 0) smem = Inr ys" "length ys = length smem" "\<forall>t < blockDim. ys ! t = v t"
    using load_all [of blockDim "ord 0" smem f v, OF o len(1) f] by blast
  obtain zs where zs: "run_phases ord 1 ps ys = Inr zs" "length zs = length ys" "zs ! 0 = block_sum 0 blockDim ys"
    using rest [of ys] ys(2) len(1) by auto
  have "zs \<noteq> []" using zs(2) ys(2) len by auto
  moreover have "block_sum 0 blockDim ys = (\<Sum>t < blockDim. v t)"
    unfolding block_sum_def using ys(3) by (intro sum.cong) simp_all
  ultimately show ?thesis using ys(1) zs by simp
qed

lemma halving_rest:
  assumes "halving_phases 0 blockDim k ps" "blockDim = 2 ^ k" "\<And>j. orders blockDim (ord j)" "blockDim \<le> length ys"
  shows "\<exists>zs. run_phases ord j ps ys = Inr zs \<and> length zs = length ys \<and> zs ! 0 = block_sum 0 blockDim ys"
  using halving_sum [OF assms(1), where ord = ord and xs = ys and j = j] assms(2-4) by auto

lemma load_thread_value:
  "b * blockDim + blockDim \<le> length xs \<Longrightarrow> t < blockDim \<Longrightarrow>
   load_thread (b * blockDim) xs t ys = vset ys (int t) (xs ! (b * blockDim + t))"
proof -
  assume "b * blockDim + blockDim \<le> length xs" "t < blockDim"
  then have "vget xs (int (b * blockDim + t)) = Inr (xs ! (b * blockDim + t))" by (intro vget_int) simp
  then show ?thesis unfolding load_thread_def by (simp only: bindr_simps)
qed

lemma if_live_load:
  assumes "b * blockDim + blockDim \<le> length xs" "length xs < 2 ^ 32" "t < blockDim"
  shows "if_live b blockDim (length xs) (load_thread (b * blockDim) xs) t ys = vset ys (int t) (xs ! (b * blockDim + t))"
  unfolding if_live_def using live_all [OF assms] load_thread_value [OF assms(1,3)] by simp

lemma guarded_rest:
  assumes "6 \<le> k" "k \<le> 10" "\<And>j. orders (2 ^ k) (ord j)" "2 ^ k \<le> length ys"
  shows "\<exists>zs. run_phases ord j (map (\<lambda>s. run_threads (guarded_thread (2 ^ k) 0 s)) [512, 256, 128, 64] @ last_warp 0 (2 ^ k)) ys = Inr zs
    \<and> length zs = length ys \<and> zs ! 0 = block_sum 0 (2 ^ k) ys"
  by (rule halving_rest [OF complete_rest [OF assms(1,2)] refl assms(3,4)])

lemma reduceSmem_sums:
  assumes k: "6 \<le> k" "k \<le> 10"
  shows "shared_sums reduceSmem 1 (2 ^ k) (\<lambda>b. block_sum (b * 2 ^ k * 1) (1 * 2 ^ k))"
  unfolding shared_sums_def
proof (intro allI impI)
  fix b xs smem and ord :: "nat \<Rightarrow> nat list"
  assume n: "length xs < 2 ^ 31" "b * 2 ^ k * 1 + 1 * 2 ^ k \<le> length (xs :: mem)" and o: "\<forall>j. orders (2 ^ k) (ord j)"
    and len: "2 ^ k \<le> length (smem :: mem)"
  have o': "orders (2 ^ k) (ord j)" for j using o by blast
  have small_n: "length xs < 2 ^ 32" using n(1) by simp
  have fits: "b * 2 ^ k + 2 ^ k \<le> length xs" using n(2) by simp
  have v: "(\<Sum>t < 2 ^ k. xs ! (b * 2 ^ k + t)) = block_sum (b * 2 ^ k * 1) (1 * 2 ^ k) xs" by (simp add: block_sum_def)
  let ?gs = "map (\<lambda>s. run_threads (guarded_thread (2 ^ k) 0 s)) [512, 256, 128, 64]"
  have "halving_phases 0 (2 ^ k) k (?gs @ live_warp b (2 ^ k) (length xs) 0)"
    by (rule complete_halving [OF k live_warp_halving [OF power_64 [OF k(1)] fits small_n]])
  note h = halving_rest [OF this refl, where ord = ord, OF o', where j = 1]
  show "\<exists>zs. run_phases ord 0 (reduceSmem b (2 ^ k) (length xs) xs) smem = Inr zs \<and> zs \<noteq> []
      \<and> zs ! 0 = block_sum (b * 2 ^ k * 1) (1 * 2 ^ k) xs"
    unfolding reduceSmem_def v [symmetric]
    by (rule shared_phases [where ord = ord, OF o' len]) (simp_all only: if_live_load [OF fits small_n] if_live_phases [OF fits small_n o'] h zero_less_power zero_less_numeral)
qed

lemma reduceSmemDyn_sums:
  assumes k: "6 \<le> k" "k \<le> 10"
  shows "shared_sums reduceSmemDyn 1 (2 ^ k) (\<lambda>b. block_sum (b * 2 ^ k * 1) (1 * 2 ^ k))"
  unfolding shared_sums_def
proof (intro allI impI)
  fix b xs smem and ord :: "nat \<Rightarrow> nat list"
  assume n: "length xs < 2 ^ 31" "b * 2 ^ k * 1 + 1 * 2 ^ k \<le> length (xs :: mem)" and o: "\<forall>j. orders (2 ^ k) (ord j)"
    and len: "2 ^ k \<le> length (smem :: mem)"
  have o': "orders (2 ^ k) (ord j)" for j using o by blast
  have small_n: "length xs < 2 ^ 32" using n(1) by simp
  have fits: "b * 2 ^ k + 2 ^ k \<le> length xs" using n(2) by simp
  have v: "(\<Sum>t < 2 ^ k. xs ! (b * 2 ^ k + t)) = block_sum (b * 2 ^ k * 1) (1 * 2 ^ k) xs" by (simp add: block_sum_def)
  show "\<exists>zs. run_phases ord 0 (reduceSmemDyn b (2 ^ k) (length xs) xs) smem = Inr zs \<and> zs \<noteq> []
      \<and> zs ! 0 = block_sum (b * 2 ^ k * 1) (1 * 2 ^ k) xs"
    unfolding reduceSmemDyn_def v [symmetric]
    by (rule shared_phases [where ord = ord, OF o' len]) (simp_all only: load_thread_value [OF fits] guarded_rest [OF k, where ord = ord, OF o'] zero_less_power zero_less_numeral)
qed

lemma even_pairs: "0 < s \<Longrightarrow> (2 * s) dvd blockDim \<Longrightarrow> blockDim < 2 ^ 32 \<Longrightarrow> sums_pairs 0 blockDim s (run_threads (even_thread 0 s))"
proof -
  assume a: "0 < s" "(2 * s) dvd blockDim" "blockDim < 2 ^ 32"
  have "run_threads (even_thread 0 s) ts xs = run_threads (neighbored_thread 0 blockDim blockDim s) ts xs" if "orders blockDim ts" for ts xs
    proof (rule run_threads_cong)
    fix t xs assume "t \<in> set ts"
    then have "t < blockDim" by (rule orders_mem [OF that])
    moreover from this have "u32 t = t" by (intro u32_small) (use a(3) in linarith)
    ultimately show "even_thread 0 s t xs = neighbored_thread 0 blockDim blockDim s t xs"
      by (simp add: even_thread_def neighbored_thread_def)
  qed
  moreover have "sums_pairs (0 * blockDim) blockDim s (run_threads (neighbored_thread 0 blockDim blockDim s))"
    by (rule neighbored_pairs) (use a in simp_all)
  ultimately show ?thesis unfolding sums_pairs_def by simp
qed

lemma reduceNeighboredSmem_sums:
  assumes k: "k \<le> 10"
  shows "shared_sums reduceNeighboredSmem 1 (2 ^ k) (\<lambda>b. block_sum (b * 2 ^ k * 1) (1 * 2 ^ k))"
  unfolding shared_sums_def
proof (intro allI impI)
  fix b xs smem and ord :: "nat \<Rightarrow> nat list"
  assume n: "length xs < 2 ^ 31" "b * 2 ^ k * 1 + 1 * 2 ^ k \<le> length (xs :: mem)" and o: "\<forall>j. orders (2 ^ k) (ord j)"
    and len: "2 ^ k \<le> length (smem :: mem)"
  have o': "orders (2 ^ k) (ord j)" for j using o by blast
  have small_n: "length xs < 2 ^ 32" using n(1) by simp
  have fits: "b * 2 ^ k + 2 ^ k \<le> length xs" using n(2) by simp
  have v: "(\<Sum>t < 2 ^ k. xs ! (b * 2 ^ k + t)) = block_sum (b * 2 ^ k * 1) (1 * 2 ^ k) xs" by (simp add: block_sum_def)
  have small: "(2 :: nat) ^ k < 2 ^ 32" using k power_strict_increasing [of k 32 "2 :: nat"] by simp
  have loop: "\<exists>zs. run_phases ord 1 (map (\<lambda>s. run_threads (if_live b (2 ^ k) (length xs) (even_thread 0 s))) (doubling 1 (2 ^ k))) ys = Inr zs
      \<and> length zs = length ys \<and> zs ! 0 = block_sum 0 (2 ^ k) ys" if "2 ^ k \<le> length ys" for ys
  proof -
    have p: "sums_pairs 0 (2 ^ k) (2 ^ j) (run_threads (even_thread 0 (2 ^ j)))" if "j < k" for j
      by (rule even_pairs) (use stride_divides [OF that] small in simp_all)
    have "\<exists>zs. run_phases ord 1 (map (\<lambda>s. run_threads (even_thread 0 s)) (doubling (2 ^ 0) (2 ^ k))) ys = Inr zs \<and> length zs = length ys
        \<and> zs ! 0 = (\<Sum>i < 2 ^ (k - 0). ys ! (0 + i * 2 ^ 0)) \<and> (\<forall>i. i < 0 \<or> 0 + 2 ^ k \<le> i \<longrightarrow> zs ! i = ys ! i)"
      by (rule doubling_sum [OF p o']) (use len that in simp_all)
    then show ?thesis
      using if_live_phases [OF fits small_n o', where qs = "[]" and g = "even_thread 0" and xs = ys and j = 1]
      by (auto simp: block_sum_def)
  qed
  show "\<exists>zs. run_phases ord 0 (reduceNeighboredSmem b (2 ^ k) (length xs) xs) smem = Inr zs \<and> zs \<noteq> []
      \<and> zs ! 0 = block_sum (b * 2 ^ k * 1) (1 * 2 ^ k) xs"
    unfolding reduceNeighboredSmem_def v [symmetric]
    by (rule shared_phases [where ord = ord, OF o' len]) (simp_all only: if_live_load [OF fits small_n] loop zero_less_power zero_less_numeral)
qed

text \<open>The unrolled loads.\<close>

lemma sum_upt_4: "sum_list (map f [0..<4]) = (\<Sum>j < 4. f j)" for f :: "nat \<Rightarrow> 32 word"
  by (rule sum_list_upt)

lemma four_sum_value:
  assumes "b * blockDim * 4 + 4 * blockDim \<le> length xs" "length xs < 2 ^ 32" "t < blockDim"
  shows "four_sum b blockDim xs t = Inr (\<Sum>j < 4. xs ! (b * blockDim * 4 + t + j * blockDim))"
    and "column_sum b blockDim (length xs) xs t = Inr (\<Sum>j < 4. xs ! (b * blockDim * 4 + t + j * blockDim))"
proof -
  note c = column_inside [OF assms]
  let ?i = "b * blockDim * 4 + t"
  have i: "u32 ?i = ?i" using c(2) [of 0] by simp
  have g: "vget xs (int (u32 (?i + j * blockDim))) = Inr (xs ! (?i + j * blockDim))" if "j < 4" for j
    unfolding c(3) [OF that] by (rule vget_int [OF c(1) [OF that]])
  have "mapr (\<lambda>j. vget xs (int (u32 (?i + j * blockDim)))) [0..<4] = Inr (map (\<lambda>j. xs ! (?i + j * blockDim)) [0..<4])"
    by (rule mapr_ok, rule g) simp
  then show "four_sum b blockDim xs t = Inr (\<Sum>j < 4. xs ! (?i + j * blockDim))"
    unfolding four_sum_def Let_def i by (simp only: bindr_simps sum_upt_4)
  have "mapr (\<lambda>j. if u32 (?i + j * blockDim) < length xs then vget xs (int (u32 (?i + j * blockDim))) else Inr 0) [0..<4]
      = Inr (map (\<lambda>j. xs ! (?i + j * blockDim)) [0..<4])"
    by (rule mapr_ok) (use g c in auto)
  then show "column_sum b blockDim (length xs) xs t = Inr (\<Sum>j < 4. xs ! (?i + j * blockDim))"
    unfolding column_sum_def Let_def i by (simp only: bindr_simps sum_upt_4)
qed

lemma unrolled_load_sums:
  assumes k: "6 \<le> k" "k \<le> 10"
    and ph: "\<And>b n xs. phases b (2 ^ k) n xs = run_threads (load b n xs)
      # map (\<lambda>s. run_threads (guarded_thread (2 ^ k) 0 s)) [512, 256, 128, 64] @ last_warp 0 (2 ^ k)"
    and load: "\<And>b xs t ys. b * 2 ^ k * 4 + 4 * 2 ^ k \<le> length xs \<Longrightarrow> length xs < 2 ^ 31 \<Longrightarrow> t < 2 ^ k \<Longrightarrow>
      load b (length xs) xs t ys = vset ys (int t) (v b xs t)"
  shows "shared_sums phases 4 (2 ^ k) (\<lambda>b xs. \<Sum>t < 2 ^ k. v b xs t)"
  unfolding shared_sums_def
proof (intro allI impI)
  fix b xs smem and ord :: "nat \<Rightarrow> nat list"
  assume n: "length xs < 2 ^ 31" "b * 2 ^ k * 4 + 4 * 2 ^ k \<le> length (xs :: mem)" and o: "\<forall>j. orders (2 ^ k) (ord j)"
    and len: "2 ^ k \<le> length (smem :: mem)"
  have o': "orders (2 ^ k) (ord j)" for j using o by blast
  have small_n: "length xs < 2 ^ 32" using n(1) by simp
  show "\<exists>zs. run_phases ord 0 (phases b (2 ^ k) (length xs) xs) smem = Inr zs \<and> zs \<noteq> [] \<and> zs ! 0 = (\<Sum>t < 2 ^ k. v b xs t)"
    unfolding ph
    by (rule shared_phases [where ord = ord, OF o' len]) (simp_all only: load [OF n(2,1)] guarded_rest [OF k, where ord = ord, OF o'] zero_less_power zero_less_numeral)
qed

lemma columns_sum:
  "(\<Sum>t < blockDim. \<Sum>j < 4. xs ! (b * blockDim * 4 + t + j * blockDim)) = block_sum (b * blockDim * 4) (4 * blockDim) xs"
  by (rule block_sum_columns)

lemma unrolled_shared_sums:
  assumes k: "6 \<le> k" "k \<le> 10"
  shows "shared_sums reduceSmemUnroll 4 (2 ^ k) (\<lambda>b. block_sum (b * 2 ^ k * 4) (4 * 2 ^ k))"
    "shared_sums reduceSmemUnrollDyn 4 (2 ^ k) (\<lambda>b. block_sum (b * 2 ^ k * 4) (4 * 2 ^ k))"
    "shared_sums solSmemUnrollDyn 4 (2 ^ k) (\<lambda>b. block_sum (b * 2 ^ k * 4) (4 * 2 ^ k))"
proof -
  let ?v = "\<lambda>b (xs :: mem) t. \<Sum>j < 4. xs ! (b * 2 ^ k * 4 + t + j * 2 ^ k)"
  have c: "load_column b (2 ^ k) (length xs) xs t ys = vset ys (int t) (?v b xs t)"
    if w: "b * 2 ^ k * 4 + 4 * 2 ^ k \<le> length xs" "length xs < 2 ^ 31" "t < 2 ^ k" for b xs t ys
  proof -
    have that: "b * 2 ^ k * 4 + 4 * 2 ^ k \<le> length xs" "length xs < 2 ^ 32" "t < 2 ^ k" using w by simp_all
    have "u32 (b * 2 ^ k * 4 + t) < length xs" using column_inside [OF that, of 0] by simp
    then show ?thesis unfolding load_column_def four_sum_value(2) [OF that] by (simp only: if_True bindr_simps)
  qed
  have f: "load_four (\<lambda>idx. u32 (idx + 3 * 2 ^ k) < length xs) b (2 ^ k) xs t ys = vset ys (int t) (?v b xs t)"
    if w: "b * 2 ^ k * 4 + 4 * 2 ^ k \<le> length xs" "length xs < 2 ^ 31" "t < 2 ^ k" for b xs t ys
  proof -
    have that: "b * 2 ^ k * 4 + 4 * 2 ^ k \<le> length xs" "length xs < 2 ^ 32" "t < 2 ^ k" using w by simp_all
    have "u32 (u32 (b * 2 ^ k * 4 + t) + 3 * 2 ^ k) < length xs" using column_inside [OF that, of 3] by simp
    then show ?thesis unfolding load_four_def four_sum_value(1) [OF that] by (simp only: if_True bindr_simps)
  qed
  show "shared_sums reduceSmemUnroll 4 (2 ^ k) (\<lambda>b. block_sum (b * 2 ^ k * 4) (4 * 2 ^ k))"
    unfolding columns_sum [symmetric]
    by (rule unrolled_load_sums [OF k, where load = "\<lambda>b n xs. load_column b (2 ^ k) n xs"]) (simp_all only: reduceSmemUnroll_def c)
  show "shared_sums reduceSmemUnrollDyn 4 (2 ^ k) (\<lambda>b. block_sum (b * 2 ^ k * 4) (4 * 2 ^ k))"
    unfolding columns_sum [symmetric]
    by (rule unrolled_load_sums [OF k, where load = "\<lambda>b n xs. load_column b (2 ^ k) n xs"]) (simp_all only: reduceSmemUnrollDyn_def c)
  show "shared_sums solSmemUnrollDyn 4 (2 ^ k) (\<lambda>b. block_sum (b * 2 ^ k * 4) (4 * 2 ^ k))"
    unfolding columns_sum [symmetric]
    by (rule unrolled_load_sums [OF k, where load = "\<lambda>b n xs. load_four (\<lambda>idx. u32 (idx + 3 * 2 ^ k) < n) b (2 ^ k) xs"])
      (simp_all only: solSmemUnrollDyn_def f)
qed

text \<open>
  The test of the other kernel of the solutions asks for a whole block behind the element of the
  thread: in the last block of the data only the first thread passes it.
\<close>

definition sol_block :: "nat \<Rightarrow> nat \<Rightarrow> mem \<Rightarrow> 32 word" where
  "sol_block blockDim b xs = (\<Sum>t < blockDim. if b * blockDim * 4 + t + 4 * blockDim \<le> length xs
     then (\<Sum>j < 4. xs ! (b * blockDim * 4 + t + j * blockDim)) else 0)"

lemma solSmemUnroll_sums:
  assumes k: "6 \<le> k" "k \<le> 10"
  shows "shared_sums solSmemUnroll 4 (2 ^ k) (sol_block (2 ^ k))"
proof -
  have f: "load_four (\<lambda>idx. u32 (idx + 4 * 2 ^ k) \<le> length xs) b (2 ^ k) xs t ys = vset ys (int t)
      (if b * 2 ^ k * 4 + t + 4 * 2 ^ k \<le> length xs then (\<Sum>j < 4. xs ! (b * 2 ^ k * 4 + t + j * 2 ^ k)) else 0)"
    if w: "b * 2 ^ k * 4 + 4 * 2 ^ k \<le> length xs" "length xs < 2 ^ 31" "t < 2 ^ k" for b xs t ys
  proof -
    have n: "b * 2 ^ k * 4 + 4 * 2 ^ k \<le> length xs" "length xs < 2 ^ 32" "t < 2 ^ k" using w by simp_all
    have i: "u32 (b * 2 ^ k * 4 + t) = b * 2 ^ k * 4 + t" using column_inside [OF n, of 0] by simp
    have "(2 :: nat) ^ 32 = 2 ^ 31 + 2 ^ 31" by simp
    then have "u32 (b * 2 ^ k * 4 + t + 4 * 2 ^ k) = b * 2 ^ k * 4 + t + 4 * 2 ^ k"
      by (intro u32_small) (use w in linarith)
    then show ?thesis unfolding load_four_def i four_sum_value(1) [OF n] by (cases "b * 2 ^ k * 4 + t + 4 * 2 ^ k \<le> length xs") (simp_all only: if_True if_False bindr_simps simp_thms)
  qed
  show ?thesis unfolding sol_block_def
    by (rule unrolled_load_sums [OF k, where load = "\<lambda>b n xs. load_four (\<lambda>idx. u32 (idx + 4 * 2 ^ k) \<le> n) b (2 ^ k) xs"])
      (simp_all only: solSmemUnroll_def f)
qed

end
