(* ===== verification/Shared_Reduce_Main.thy ===== *)
theory Shared_Reduce_Main
  imports Shared_Reduce_Correct
begin

text \<open>
  The tests and the two main programs of \<^verbatim>\<open>chapter05/reduceInteger.cu\<close>. The locale \<open>block_values\<close> is the
  contract of a block: it writes a value of its part of the data to its partial sum and leaves the other
  parts. What a test prints is proved once in it, and every kernel interprets it, the wrong one
  with the value that it computes.
\<close>

section \<open>The contract of a block\<close>

locale block_values =
  fixes step :: block_step and e lo hi :: nat and v :: "nat \<Rightarrow> nat \<Rightarrow> mem \<Rightarrow> 32 word"
  assumes elements_pos: "0 < e"
    and step_value: "lo \<le> k \<Longrightarrow> k \<le> hi \<Longrightarrow> length xs < 2 ^ 31 \<Longrightarrow> b * 2 ^ k * e + e * 2 ^ k \<le> length xs \<Longrightarrow> b < length od \<Longrightarrow>
      (\<And>j. orders (2 ^ k) (ord b j)) \<Longrightarrow>
      \<exists>ys. step ord (2 ^ k) (length xs) b (xs, od) = Inr (ys, od[b := v (2 ^ k) b xs]) \<and> length ys = length xs
        \<and> (\<forall>i. i < b * 2 ^ k * e \<or> b * 2 ^ k * e + e * 2 ^ k \<le> i \<longrightarrow> ys ! i = xs ! i)"
    and value_local: "length ys = length xs \<Longrightarrow> (\<And>i. i < e * d \<Longrightarrow> ys ! (b * d * e + i) = xs ! (b * d * e + i)) \<Longrightarrow>
      v d b ys = v d b xs"
begin

lemma other_block:
  assumes "\<forall>i. i < b * d * e \<or> b * d * e + e * d \<le> i \<longrightarrow> ys ! i = xs ! i" "b' \<noteq> b" "length ys = length xs"
  shows "v d b' ys = v d b' xs"
proof (rule value_local [OF assms(3)])
  fix i assume i: "i < e * d"
  have "b' * (e * d) + i < b * (e * d) \<or> b * (e * d) + e * d \<le> b' * (e * d) + i"
  proof (cases "b' < b")
    case True
    then have "(b' + 1) * (e * d) \<le> b * (e * d)" by (intro mult_le_mono1) simp
    then have "b' * (e * d) + e * d \<le> b * (e * d)" by (simp only: add_mult_distrib mult_1)
    then show ?thesis using i by linarith
  next
    case False
    then have "(b + 1) * (e * d) \<le> b' * (e * d)" using assms(2) by (intro mult_le_mono1) simp
    then have "b * (e * d) + e * d \<le> b' * (e * d)" by (simp only: add_mult_distrib mult_1)
    then show ?thesis by linarith
  qed
  then have "b' * d * e + i < b * d * e \<or> b * d * e + e * d \<le> b' * d * e + i" by (simp only: ac_simps)
  then show "ys ! (b' * d * e + i) = xs ! (b' * d * e + i)" using assms(1) by blast
qed

lemma steps_value:
  assumes k: "lo \<le> k" "k \<le> hi" and o: "\<And>b j. orders (2 ^ k) (ord b j)" and n: "n < 2 ^ 31"
  shows "distinct bs \<Longrightarrow> (\<And>b. b \<in> set bs \<Longrightarrow> b < length od \<and> b * 2 ^ k * e + e * 2 ^ k \<le> n) \<Longrightarrow> length xs = n \<Longrightarrow>
    \<exists>ys od'. iterr (step ord (2 ^ k) n) bs (xs, od) = Inr (ys, od') \<and> length od' = length od
      \<and> (\<forall>b \<in> set bs. od' ! b = v (2 ^ k) b xs) \<and> (\<forall>b. b \<notin> set bs \<longrightarrow> od' ! b = od ! b)"
proof (induction bs arbitrary: xs od)
  case (Cons b bs)
  have b: "b < length od" "b * 2 ^ k * e + e * 2 ^ k \<le> n" using Cons.prems(2) by simp_all
  let ?od = "od[b := v (2 ^ k) b xs]"
  obtain ys where ys: "step ord (2 ^ k) n b (xs, od) = Inr (ys, ?od)" "length ys = n"
      "\<forall>i. i < b * 2 ^ k * e \<or> b * 2 ^ k * e + e * 2 ^ k \<le> i \<longrightarrow> ys ! i = xs ! i"
    using step_value [OF k, of xs b od ord] n b o Cons.prems(3) by auto
  obtain zs od' where zs: "iterr (step ord (2 ^ k) n) bs (ys, ?od) = Inr (zs, od')" "length od' = length ?od"
      "\<forall>c \<in> set bs. od' ! c = v (2 ^ k) c ys" "\<forall>c. c \<notin> set bs \<longrightarrow> od' ! c = ?od ! c"
    using Cons.IH [of ?od ys] Cons.prems(1,2) ys(2) by auto
  have "od' ! c = v (2 ^ k) c xs" if "c \<in> set (b # bs)" for c
  proof (cases "c = b")
    case True
    then show ?thesis using zs(4) Cons.prems(1) b(1) by simp
  next
    case False
    then show ?thesis using zs(3) that other_block [OF ys(3) False] ys(2) Cons.prems(3) by simp
  qed
  then show ?case using ys(1) zs by auto
qed simp

lemma test_sum:
  assumes k: "lo \<le> k" "k \<le> hi" and o: "\<And>b j. orders (2 ^ k) (ord b j)" and n: "length xs < 2 ^ 31"
    and G: "G * (e * 2 ^ k) \<le> length xs" "G \<le> length od" and bs: "orders G blocks"
  shows "\<exists>od'. shared_test step ord blocks G (2 ^ k) xs od = Inr (\<Sum>b < G. v (2 ^ k) b xs, od') \<and> length od' = length od"
proof -
  have b: "distinct blocks" "set blocks = {..<G}" using bs by (simp_all add: orders_def)
  have inside: "b < length od \<and> b * 2 ^ k * e + e * 2 ^ k \<le> length xs" if "b \<in> set blocks" for b
  proof -
    have "b < G" using that b(2) by simp
    then have "(b + 1) * (e * 2 ^ k) \<le> G * (e * 2 ^ k)" by (intro mult_le_mono1) simp
    then have "b * (e * 2 ^ k) + e * 2 ^ k \<le> length xs" using G(1) by (simp only: add_mult_distrib mult_1)
    then show ?thesis using G(2) \<open>b < G\<close> by (simp add: ac_simps)
  qed
  obtain ys od' where g: "iterr (step ord (2 ^ k) (length xs)) blocks (xs, od) = Inr (ys, od')" "length od' = length od"
      "\<forall>b \<in> set blocks. od' ! b = v (2 ^ k) b xs"
    using steps_value [where ord = ord and od = od, OF k o n b(1) inside] by blast
  have "mapr (\<lambda>i. vget od' (int i)) [0..<G] = Inr (map ((!) od') [0..<G])"
    by (rule mapr_ok) (use g(2) G(2) in simp)
  moreover have "sum_list (map ((!) od') [0..<G]) = (\<Sum>b < G. v (2 ^ k) b xs)"
    unfolding sum_list_upt using g(3) b(2) by (intro sum.cong) simp_all
  ultimately show ?thesis using g(1,2) by (simp add: shared_test_def)
qed

end

section \<open>The kernels keep it\<close>

definition part_sum :: "nat \<Rightarrow> nat \<Rightarrow> nat \<Rightarrow> mem \<Rightarrow> 32 word" where
  "part_sum e blockDim b xs = block_sum (b * blockDim * e) (e * blockDim) xs"

lemma part_sum_local:
  "(\<And>i. i < e * d \<Longrightarrow> ys ! (b * d * e + i) = xs ! (b * d * e + i)) \<Longrightarrow> part_sum e d b ys = part_sum e d b xs"
  by (simp add: part_sum_def block_sum_def)

lemma sol_block_local:
  assumes "length ys = length xs" "\<And>i. i < 4 * d \<Longrightarrow> ys ! (b * d * 4 + i) = xs ! (b * d * 4 + i)"
  shows "sol_block d b ys = sol_block d b xs"
proof -
  have "ys ! (b * d * 4 + t + j * d) = xs ! (b * d * 4 + t + j * d)" if "t < d" "j < 4" for t j
  proof -
    have "(j + 1) * d \<le> 4 * d" using that(2) by (intro mult_le_mono1) simp
    then have "j * d + d \<le> 4 * d" by (simp only: add_mult_distrib mult_1)
    then have "t + j * d < 4 * d" using that(1) by linarith
    then show ?thesis using assms(2) by (simp only: add.assoc)
  qed
  then show ?thesis unfolding sol_block_def assms(1) by (intro sum.cong if_cong refl) simp_all
qed

lemma early_live:
  assumes "b * 2 ^ k * e + e * 2 ^ k \<le> n" "n < 2 ^ 32" "0 < e"
  shows "live b (2 ^ k) n 0"
proof (rule live_all [OF _ assms(2)])
  have "b * 2 ^ k \<le> b * 2 ^ k * e" "2 ^ k \<le> e * 2 ^ k" using assms(3) by simp_all
  then show "b * 2 ^ k + 2 ^ k \<le> n" using assms(1) by linarith
qed simp

lemma gmem_step:
  assumes s: "sums_block phases e (2 ^ k)" and e: "0 < e" and n: "length xs < 2 ^ 31" "b * 2 ^ k * e + e * 2 ^ k \<le> length xs" "b < length od"
    and o: "\<And>j. orders (2 ^ k) (ord b j)"
  shows "\<exists>ys. gmem_block phases e early ord (2 ^ k) (length xs) b (xs, od) = Inr (ys, od[b := part_sum e (2 ^ k) b xs]) \<and> length ys = length xs
    \<and> (\<forall>i. i < b * 2 ^ k * e \<or> b * 2 ^ k * e + e * 2 ^ k \<le> i \<longrightarrow> ys ! i = xs ! i)"
proof -
  have n32: "length xs < 2 ^ 32" using n(1) by simp
  obtain ys where ys: "run_phases (ord b) 0 (phases b (2 ^ k) (length xs)) xs = Inr ys" "length ys = length xs"
      "ys ! (b * 2 ^ k * e) = part_sum e (2 ^ k) b xs" "\<forall>i. i < b * 2 ^ k * e \<or> b * 2 ^ k * e + e * 2 ^ k \<le> i \<longrightarrow> ys ! i = xs ! i"
    using s n32 n(2) o unfolding sums_block_def part_sum_def by blast
  have "0 < e * 2 ^ k" using e by simp
  then have l: "b * 2 ^ k * e < length xs" using n(2) by linarith
  then have "u32 (b * 2 ^ k * e) = b * 2 ^ k * e" by (intro u32_small) (use n32 in linarith)
  then have "\<not> length xs \<le> u32 (b * 2 ^ k * e)" using l by simp
  moreover have "vget ys (int (b * 2 ^ k * e)) = Inr (ys ! (b * 2 ^ k * e))" by (rule vget_int) (use l ys(2) in simp)
  moreover have "vset od (int b) z = Inr (od[b := z])" for z using n(3) by (rule vset_int)
  ultimately have "gmem_block phases e early ord (2 ^ k) (length xs) b (xs, od) = Inr (ys, od[b := part_sum e (2 ^ k) b xs])"
    using ys(1,3) by (simp add: gmem_block_def run_block_def Let_def del: of_nat_mult)
  then show ?thesis using ys(2,4) by blast
qed

lemma shared_step:
  assumes s: "shared_sums phases e (2 ^ k) (v (2 ^ k))" and e: "0 < e" and w: "2 ^ k \<le> words"
    and n: "length xs < 2 ^ 31" "b * 2 ^ k * e + e * 2 ^ k \<le> length xs" "b < length od" and o: "\<And>j. orders (2 ^ k) (ord b j)"
  shows "shared_block phases early words fresh ord (2 ^ k) (length xs) b (xs, od) = Inr (xs, od[b := v (2 ^ k) b xs])"
proof -
  have "2 ^ k \<le> length (map (fresh b) [0..<words])" using w by simp
  then obtain zs where zs: "run_phases (ord b) 0 (phases b (2 ^ k) (length xs) xs) (map (fresh b) [0..<words]) = Inr zs" "zs \<noteq> []"
      "zs ! 0 = v (2 ^ k) b xs"
    using s n(1,2) o unfolding shared_sums_def by meson
  have "vget zs (int 0) = Inr (zs ! 0)" using zs(2) by (intro vget_int) simp
  moreover have "vset od (int b) z = Inr (od[b := z])" for z using n(3) by (rule vset_int)
  moreover have "live b (2 ^ k) (length xs) 0" by (rule early_live [OF n(2) _ e]) (use n(1) in simp)
  ultimately show ?thesis using zs(1,3) by (simp add: shared_block_def)
qed

lemma shared_values:
  assumes "\<And>k. 6 \<le> k \<Longrightarrow> k \<le> hi \<Longrightarrow> shared_sums phases e (2 ^ k) (v (2 ^ k))" "0 < e" "\<And>k. k \<le> hi \<Longrightarrow> 2 ^ k \<le> words"
    "\<And>xs ys d b. length ys = length xs \<Longrightarrow> (\<And>i. i < e * d \<Longrightarrow> ys ! (b * d * e + i) = xs ! (b * d * e + i)) \<Longrightarrow> v d b ys = v d b xs"
  shows "block_values (shared_block phases early words fresh) e 6 hi v"
proof
  fix k b and xs od :: mem and ord :: schedule
  assume a: "6 \<le> k" "k \<le> hi" "length xs < 2 ^ 31" "b * 2 ^ k * e + e * 2 ^ k \<le> length xs" "b < length od" "\<And>j. orders (2 ^ k) (ord b j)"
  show "\<exists>ys. shared_block phases early words fresh ord (2 ^ k) (length xs) b (xs, od) = Inr (ys, od[b := v (2 ^ k) b xs])
      \<and> length ys = length xs \<and> (\<forall>i. i < b * 2 ^ k * e \<or> b * 2 ^ k * e + e * 2 ^ k \<le> i \<longrightarrow> ys ! i = xs ! i)"
    using shared_step [of phases e k v words xs b od ord, OF assms(1) [OF a(1,2)] assms(2) assms(3) [OF a(2)] a(3-6)] by blast
next
  fix xs ys :: mem and d b
  assume "length ys = length xs" "\<And>i. i < e * d \<Longrightarrow> ys ! (b * d * e + i) = xs ! (b * d * e + i)"
  then show "v d b ys = v d b xs" by (rule assms(4))
qed (rule assms(2))

lemma gmem_values:
  assumes "\<And>k. 6 \<le> k \<Longrightarrow> k \<le> 10 \<Longrightarrow> sums_block phases e (2 ^ k)" "0 < e"
  shows "block_values (gmem_block phases e early) e 6 10 (part_sum e)"
proof
  fix k b and xs od :: mem and ord :: schedule
  assume a: "6 \<le> k" "k \<le> 10" "length xs < 2 ^ 31" "b * 2 ^ k * e + e * 2 ^ k \<le> length xs" "b < length od" "\<And>j. orders (2 ^ k) (ord b j)"
  show "\<exists>ys. gmem_block phases e early ord (2 ^ k) (length xs) b (xs, od) = Inr (ys, od[b := part_sum e (2 ^ k) b xs])
      \<and> length ys = length xs \<and> (\<forall>i. i < b * 2 ^ k * e \<or> b * 2 ^ k * e + e * 2 ^ k \<le> i \<longrightarrow> ys ! i = xs ! i)"
    by (rule gmem_step [where ord = ord, OF assms(1) [OF a(1,2)] assms(2) a(3-6)])
next
  fix xs ys :: mem and d b
  assume "\<And>i. i < e * d \<Longrightarrow> ys ! (b * d * e + i) = xs ! (b * d * e + i)"
  then show "part_sum e d b ys = part_sum e d b xs" by (rule part_sum_local)
qed (rule assms(2))

interpretation neighbored_gmem: block_values "gmem_block reduceNeighboredGmem 1 True" 1 6 10 "part_sum 1"
  by (rule gmem_values) (simp_all add: reduceNeighboredGmem_eq neighbored_sums del: One_nat_def)

interpretation gmem: block_values "gmem_block reduceGmem 1 True" 1 6 10 "part_sum 1"
  by (rule gmem_values) (simp_all add: reduceGmem_sums del: One_nat_def)

interpretation gmem_unroll: block_values "gmem_block reduceGmemUnroll 4 False" 4 6 10 "part_sum 4"
  by (rule gmem_values) (simp_all add: reduceGmemUnroll_sums)

interpretation sol_gmem_unroll: block_values "gmem_block solGmemUnroll 4 False" 4 6 10 "part_sum 4"
  by (rule gmem_values) (simp_all add: solGmemUnroll_sums)

lemma part_sum_values:
  assumes "\<And>k. 6 \<le> k \<Longrightarrow> k \<le> hi \<Longrightarrow> shared_sums phases e (2 ^ k) (\<lambda>b. block_sum (b * 2 ^ k * e) (e * 2 ^ k))" "0 < e" "2 ^ hi \<le> words"
  shows "block_values (shared_block phases early words fresh) e 6 hi (part_sum e)"
proof (rule shared_values)
  show "shared_sums phases e (2 ^ k) (part_sum e (2 ^ k))" if "6 \<le> k" "k \<le> hi" for k
    using assms(1) [OF that] unfolding part_sum_def .
  show "2 ^ k \<le> words" if "k \<le> hi" for k
    by (rule order_trans [OF power_increasing [OF that] assms(3)]) simp
qed (rule assms(2), rule part_sum_local)

interpretation neighbored_smem: block_values "shared_block reduceNeighboredSmem True 128 fresh" 1 6 7 "part_sum 1" for fresh
  by (rule part_sum_values, rule reduceNeighboredSmem_sums) simp_all

interpretation smem: block_values "shared_block reduceSmem True 128 fresh" 1 6 7 "part_sum 1" for fresh
  by (rule part_sum_values, rule reduceSmem_sums) simp_all

interpretation smem_unroll: block_values "shared_block reduceSmemUnroll False 128 fresh" 4 6 7 "part_sum 4" for fresh
  by (rule part_sum_values, rule unrolled_shared_sums(1)) simp_all

interpretation smem_unroll_dyn: block_values "shared_block reduceSmemUnrollDyn False 128 fresh" 4 6 7 "part_sum 4" for fresh
  by (rule part_sum_values, rule unrolled_shared_sums(2)) simp_all

interpretation sol_neighbored_smem: block_values "shared_block reduceNeighboredSmem True 1024 fresh" 1 6 10 "part_sum 1" for fresh
  by (rule part_sum_values, rule reduceNeighboredSmem_sums) simp_all

interpretation sol_smem: block_values "shared_block reduceSmem True 1024 fresh" 1 6 10 "part_sum 1" for fresh
  by (rule part_sum_values, rule reduceSmem_sums) simp_all

interpretation sol_smem_unroll: block_values "shared_block solSmemUnroll False 1024 fresh" 4 6 10 sol_block for fresh
proof (rule shared_values)
  show "2 ^ k \<le> (1024 :: nat)" if "k \<le> 10" for k
    by (rule order_trans [OF power_increasing [OF that]]) simp_all
  show "sol_block d b ys = sol_block d b xs"
    if "length ys = length xs" "\<And>i. i < 4 * d \<Longrightarrow> ys ! (b * d * 4 + i) = xs ! (b * d * 4 + i)" for xs ys :: mem and d b
    using that by (rule sol_block_local)
qed (simp_all add: solSmemUnroll_sums)

interpretation sol_smem_unroll_dyn: block_values "shared_block solSmemUnrollDyn False 1024 fresh" 4 6 10 "part_sum 4" for fresh
  by (rule part_sum_values, rule unrolled_shared_sums(3)) simp_all

text \<open>The dynamic allocation of one word for each thread fits every size of a block.\<close>

interpretation smem_dyn: block_values "\<lambda>ord d. shared_block reduceSmemDyn False d fresh ord d" 1 6 10 "part_sum 1" for fresh
proof
  fix k b and xs od :: mem and ord :: schedule
  assume a: "6 \<le> k" "k \<le> 10" "length xs < 2 ^ 31" "b * 2 ^ k * 1 + 1 * 2 ^ k \<le> length xs" "b < length od" "\<And>j. orders (2 ^ k) (ord b j)"
  have "shared_sums reduceSmemDyn 1 (2 ^ k) (part_sum 1 (2 ^ k))"
    using reduceSmemDyn_sums [OF a(1,2)] unfolding part_sum_def .
  from shared_step [where v = "part_sum 1" and ord = ord, OF this zero_less_one order_refl a(3-6)]
  show "\<exists>ys. shared_block reduceSmemDyn False (2 ^ k) fresh ord (2 ^ k) (length xs) b (xs, od) = Inr (ys, od[b := part_sum 1 (2 ^ k) b xs])
      \<and> length ys = length xs \<and> (\<forall>i. i < b * 2 ^ k * 1 \<or> b * 2 ^ k * 1 + 1 * 2 ^ k \<le> i \<longrightarrow> ys ! i = xs ! i)"
    by blast
next
  fix xs ys :: mem and d b
  assume "\<And>i. i < 1 * d \<Longrightarrow> ys ! (b * d * 1 + i) = xs ! (b * d * 1 + i)"
  then show "part_sum 1 d b ys = part_sum 1 d b xs" by (rule part_sum_local)
qed simp

section \<open>What the tests print\<close>

text \<open>A test of the list, with the number of its blocks, prints a sum.\<close>

definition prints :: "nat \<Rightarrow> nat \<Rightarrow> mem \<Rightarrow> block_step \<times> nat \<Rightarrow> 32 word \<Rightarrow> bool" where
  "prints grid blockDim data t s \<longleftrightarrow> (\<forall>ord blocks od. (\<forall>b j. orders blockDim (ord b j)) \<longrightarrow> orders (snd t) blocks \<longrightarrow> grid \<le> length od \<longrightarrow>
     (\<exists>od'. shared_test (fst t) ord blocks (snd t) blockDim data od = Inr (s, od') \<and> length od' = length od))"

context block_values
begin

lemma prints_sum:
  assumes "lo \<le> k" "k \<le> hi" "length xs < 2 ^ 31" "G * (e * 2 ^ k) \<le> length xs" "G \<le> grid"
  shows "prints grid (2 ^ k) xs (step, G) (\<Sum>b < G. v (2 ^ k) b xs)"
  unfolding prints_def fst_conv snd_conv
proof (intro allI impI)
  fix ord :: schedule and blocks and od :: mem
  assume "\<forall>b j. orders (2 ^ k) (ord b j)" "orders G blocks" "grid \<le> length od"
  then show "\<exists>od'. shared_test step ord blocks G (2 ^ k) xs od = Inr (\<Sum>b < G. v (2 ^ k) b xs, od') \<and> length od' = length od"
    using test_sum [OF assms(1,2) _ assms(3,4)] assms(5) by (meson order_trans)
qed

end

lemma shared_tests_run:
  assumes o: "\<And>t b j. orders blockDim (ords t b j)" "\<And>t g. orders g (blocks t g)"
    and rest: "\<And>od. grid \<le> length od \<Longrightarrow> shared_tests checked maxThreads ords blocks blockDim rest data od = Inr (rs, fin)"
  shows "list_all2 (prints grid blockDim data) ts ss \<Longrightarrow> (\<And>t. t \<in> set ts \<Longrightarrow> launches maxThreads (snd t) blockDim) \<Longrightarrow> grid \<le> length od \<Longrightarrow>
    shared_tests checked maxThreads ords blocks blockDim (ts @ rest) data od = Inr (ss @ rs, fin)"
proof (induction ts ss arbitrary: od rule: list_all2_induct)
  case (Cons t ts s ss)
  obtain step g where t: "t = (step, g)" by fastforce
  have l: "launches maxThreads g blockDim" using Cons.prems(1) [of t] t by simp
  obtain od' where od': "shared_test step (ords (length (ts @ rest))) (blocks (length (ts @ rest)) g) g blockDim data od = Inr (s, od')"
      "length od' = length od"
    using Cons.hyps(1) o Cons.prems(2) unfolding prints_def t fst_conv snd_conv by blast
  have "shared_tests checked maxThreads ords blocks blockDim (ts @ rest) data od' = Inr (ss @ rs, fin)"
    using Cons.IH [of od'] Cons.prems od'(2) by simp
  then show ?case using od'(1) l by (simp add: t)
qed (use rest in simp)

lemma part_sums_together: "(\<Sum>b < G. part_sum e d b xs) = block_sum 0 (G * (e * d)) xs"
  using neighbored.blocks_together [of "e * d" xs G] by (simp only: part_sum_def ac_simps)

lemma all_parts: "G * (e * d) = length xs \<Longrightarrow> (\<Sum>b < G. part_sum e d b xs) = sum_list xs"
  unfolding part_sums_together by (simp add: block_sum_all)

lemma sol_blocks:
  assumes "(G + 1) * (4 * d) = length xs" "0 < d"
  shows "(\<Sum>b < G + 1. sol_block d b xs) = sum_list (take (G * (4 * d)) xs) + (\<Sum>j < 4. xs ! (G * (4 * d) + j * d))"
proof -
  have inner: "sol_block d b xs = part_sum 4 d b xs" if "b < G" for b
  proof -
    have "(b + 2) * (4 * d) \<le> length xs" unfolding assms(1) [symmetric] using that by (intro mult_le_mono1) simp
    then have "b * d * 4 + t + 4 * d \<le> length xs" if "t < d" for t using that by (simp add: algebra_simps)
    then show ?thesis unfolding part_sum_def columns_sum [symmetric] sol_block_def by (intro sum.cong refl) simp
  qed
  have "G * d * 4 + t + 4 * d \<le> length xs \<longleftrightarrow> t = 0" for t using assms(1) by (simp add: algebra_simps)
  then have "sol_block d G xs = (\<Sum>t < d. if t = 0 then (\<Sum>j < 4. xs ! (G * d * 4 + t + j * d)) else 0)"
    unfolding sol_block_def by (intro sum.cong refl) simp
  also have "\<dots> = (\<Sum>j < 4. xs ! (G * (4 * d) + j * d))" using assms(2) by (simp add: sum.delta ac_simps)
  finally have outer: "sol_block d G xs = (\<Sum>j < 4. xs ! (G * (4 * d) + j * d))" .
  have "G * (4 * d) \<le> length xs" using assms(1) by simp
  then have "block_sum 0 (G * (4 * d)) xs = block_sum 0 (length (take (G * (4 * d)) xs)) (take (G * (4 * d)) xs)"
    by (simp add: block_sum_def)
  then have "block_sum 0 (G * (4 * d)) xs = sum_list (take (G * (4 * d)) xs)" unfolding block_sum_all .
  then show ?thesis using inner outer by (simp add: part_sums_together)
qed

section \<open>The main programs\<close>

lemma prints_step_cong:
  "(\<And>ord. step ord d = step' ord d) \<Longrightarrow> prints grid d data (step, G) s \<longleftrightarrow> prints grid d data (step', G) s"
  by (simp add: prints_def shared_test_def)

text \<open>The five tests with one element for each thread, with the allocation of the static memory as a parameter.\<close>

lemma five_tests:
  assumes k: "6 \<le> k" "k \<le> 10" and K: "k \<le> K" "K \<le> 30" and len: "length data = 2 ^ K"
    and nb: "\<And>f. block_values (shared_block reduceNeighboredSmem True words f) 1 6 hi (part_sum 1)"
    and sm: "\<And>f. block_values (shared_block reduceSmem True words f) 1 6 hi (part_sum 1)" and hi: "k \<le> hi"
  shows "list_all2 (prints (2 ^ (K - k)) (2 ^ k) data)
     [(gmem_block reduceNeighboredGmem 1 True, 2 ^ (K - k)),
      (shared_block reduceNeighboredSmem True words (fresh 1), 2 ^ (K - k)),
      (gmem_block reduceGmem 1 True, 2 ^ (K - k)),
      (shared_block reduceSmem True words (fresh 3), 2 ^ (K - k)),
      (shared_block reduceSmemDyn False (2 ^ k) (fresh 4), 2 ^ (K - k))] (replicate 5 (sum_list data))"
proof -
  have n: "length data < 2 ^ 31" using len K(2) power_strict_increasing [of K 31 "2 :: nat"] by simp
  have G: "2 ^ (K - k) * (1 * 2 ^ k) = length data" using K(1) len by (simp flip: power_add)
  note whole = all_parts [OF G] and fits = eq_imp_le [OF G]
  have 1: "prints (2 ^ (K - k)) (2 ^ k) data (gmem_block reduceNeighboredGmem 1 True, 2 ^ (K - k)) (sum_list data)"
    using neighbored_gmem.prints_sum [OF k n fits order_refl] unfolding whole .
  have 2: "prints (2 ^ (K - k)) (2 ^ k) data (shared_block reduceNeighboredSmem True words f, 2 ^ (K - k)) (sum_list data)" for f
    using block_values.prints_sum [OF nb k(1) hi n fits order_refl] unfolding whole .
  have 3: "prints (2 ^ (K - k)) (2 ^ k) data (gmem_block reduceGmem 1 True, 2 ^ (K - k)) (sum_list data)"
    using gmem.prints_sum [OF k n fits order_refl] unfolding whole .
  have 4: "prints (2 ^ (K - k)) (2 ^ k) data (shared_block reduceSmem True words f, 2 ^ (K - k)) (sum_list data)" for f
    using block_values.prints_sum [OF sm k(1) hi n fits order_refl] unfolding whole .
  have 5: "prints (2 ^ (K - k)) (2 ^ k) data (shared_block reduceSmemDyn False (2 ^ k) f, 2 ^ (K - k)) (sum_list data)" for f
    using smem_dyn.prints_sum [OF k n fits order_refl, of f] unfolding whole
    by (rule iffD1 [OF prints_step_cong, rotated]) simp
  show ?thesis using 1 2 3 4 5 by (simp add: numeral_eq_Suc)
qed

lemma quarter_blocks: "k + 2 \<le> K \<Longrightarrow> (2 :: nat) ^ (K - k) div 4 * (4 * 2 ^ k) = 2 ^ K" "k + 2 \<le> K \<Longrightarrow> (2 :: nat) ^ (K - k) div 4 = 2 ^ (K - k - 2)"
proof -
  assume K: "k + 2 \<le> K"
  then have "K - k = 2 + (K - k - 2)" by simp
  then have "(2 :: nat) ^ (K - k) = 2 ^ (2 + (K - k - 2))" by (rule arg_cong)
  also have "\<dots> = 4 * 2 ^ (K - k - 2)" by (simp add: power_add)
  finally show q: "(2 :: nat) ^ (K - k) div 4 = 2 ^ (K - k - 2)" by simp
  have "(2 :: nat) ^ (K - k - 2) * (4 * 2 ^ k) = 2 ^ (K - k - 2) * 2 ^ (2 + k)" by (simp add: power_add)
  also have "\<dots> = 2 ^ (K - k - 2 + (2 + k))" by (simp only: power_add)
  also have "K - k - 2 + (2 + k) = K" using K by simp
  finally show "(2 :: nat) ^ (K - k) div 4 * (4 * 2 ^ k) = 2 ^ K" unfolding q .
qed

lemma host_sum_all: "length data = 2 ^ K \<Longrightarrow> recursiveReduce data (2 ^ K) = Inr (sum_list data)"
  using host_sum [of K data] block_sum_all [of data] by simp

lemma replicate_three: "replicate 3 x = [x, x, x]"
  by (simp add: numeral_eq_Suc)

lemma orders_upt: "orders n [0..<n]" and orders_rev: "orders n (rev [0..<n])"
  by (auto simp: orders_def)

text \<open>
  C17. The program of the samples prints the sum of the host eight times and passes its test, for every
  data size that is a power of two of at least four blocks of 128 threads, every content of fresh
  shared memory and every order of the threads of a phase and of the blocks.
\<close>
theorem sample_sums_agree:
  assumes "9 \<le> K" "K \<le> 30" "length data = 2 ^ K" "128 \<le> maxThreads" "2 ^ (K - 7) \<le> length od"
    "\<And>t b j. orders 128 (ords t b j)" "\<And>t g. orders g (blocks t g)"
  shows "sample_main maxThreads ords blocks fresh data od = Inr (sum_list data, replicate 8 (sum_list data), Some True)"
proof -
  let ?G = "2 ^ (K - 7) :: nat"
  have n: "length data < 2 ^ 31" using assms(2,3) power_strict_increasing [of K 31 "2 :: nat"] by simp
  have G4: "?G div 4 * (4 * 2 ^ 7) = length data" "?G div 4 \<le> ?G" using quarter_blocks(1) [of 7 K] assms(1,3) by simp_all
  note whole = all_parts [OF G4(1)] and fits = eq_imp_le [OF G4(1)]
  have five: "list_all2 (prints ?G (2 ^ 7) data)
     [(gmem_block reduceNeighboredGmem 1 True, ?G), (shared_block reduceNeighboredSmem True 128 (fresh 1), ?G),
      (gmem_block reduceGmem 1 True, ?G), (shared_block reduceSmem True 128 (fresh 3), ?G),
      (shared_block reduceSmemDyn False (2 ^ 7) (fresh 4), ?G)] (replicate 5 (sum_list data))"
    by (rule five_tests [where hi = 7, OF _ _ _ assms(2,3) neighbored_smem.block_values_axioms smem.block_values_axioms]) (use assms(1) in simp_all)
  have three: "list_all2 (prints ?G (2 ^ 7) data)
     [(gmem_block reduceGmemUnroll 4 False, ?G div 4), (shared_block reduceSmemUnroll False 128 (fresh 6), ?G div 4),
      (shared_block reduceSmemUnrollDyn False 128 (fresh 7), ?G div 4)] (replicate 3 (sum_list data))"
    using gmem_unroll.prints_sum [of 7, OF _ _ n fits G4(2)] smem_unroll.prints_sum [of 7, OF _ _ n fits G4(2)]
      smem_unroll_dyn.prints_sum [of 7, OF _ _ n fits G4(2)]
    unfolding whole replicate_three by simp
  have tests: "sample_tests fresh (2 ^ 7) ?G = [(gmem_block reduceNeighboredGmem 1 True, ?G), (shared_block reduceNeighboredSmem True 128 (fresh 1), ?G),
      (gmem_block reduceGmem 1 True, ?G), (shared_block reduceSmem True 128 (fresh 3), ?G),
      (shared_block reduceSmemDyn False (2 ^ 7) (fresh 4), ?G)]
     @ [(gmem_block reduceGmemUnroll 4 False, ?G div 4), (shared_block reduceSmemUnroll False 128 (fresh 6), ?G div 4),
      (shared_block reduceSmemUnrollDyn False 128 (fresh 7), ?G div 4)]"
    by (simp add: sample_tests_def)
  have all: "list_all2 (prints ?G (2 ^ 7) data) (sample_tests fresh (2 ^ 7) ?G) (replicate 8 (sum_list data))"
    using list_all2_appendI [OF five three] unfolding tests by (simp add: replicate_add [symmetric])
  have l: "launches maxThreads (snd t) (2 ^ 7)" if "t \<in> set (sample_tests fresh (2 ^ 7) ?G)" for t
    using that quarter_blocks(2) [of 7 K] assms(1,4) by (auto simp: sample_tests_def launches_def)
  have run: "shared_tests False maxThreads ords blocks (2 ^ 7) (sample_tests fresh (2 ^ 7) ?G @ []) data od = Inr (replicate 8 (sum_list data) @ [], True)"
    by (rule shared_tests_run [where grid = ?G, OF _ assms(7) _ all l assms(5)]) (use assms(6) in simp_all)
  have grid: "(2 ^ K + 128 - 1) div 128 = ?G" using grid_size [of 7 K] assms(1) by simp
  have "last (replicate 8 (sum_list data)) = sum_list data" by (simp add: last_replicate)
  then show ?thesis
    using run host_sum_all [OF assms(3)] unfolding sample_main_def Let_def assms(3) grid by simp
qed

theorem sample_sums_agree_witness:
  "sample_main 1024 (\<lambda>t b j. rev [0..<128]) (\<lambda>t g. [0..<g]) (\<lambda>t b i. 7) (replicate (2 ^ 9) 3) (replicate 4 0)
   = Inr (sum_list (replicate (2 ^ 9) 3), replicate 8 (sum_list (replicate (2 ^ 9) 3)), Some True)"
proof (rule sample_sums_agree [of 9])
  show "length (replicate (2 ^ 9) (3 :: 32 word)) = 2 ^ 9" by (rule length_replicate)
  show "(2 :: nat) ^ (9 - 7) \<le> length (replicate 4 (0 :: 32 word))" unfolding length_replicate by simp
  show "orders 128 (rev [0..<128])" by (rule orders_rev)
  show "orders g [0..<g]" for g by (rule orders_upt)
qed simp_all

text \<open>
  C22. The program of the solutions prints the sum of the host seven times, and once, for
  \<open>reduceSmemUnroll\<close>, only part of it: of the last block it adds the four elements of the first thread.
  Its test compares the last sum alone and passes.
\<close>
theorem solution_sums:
  assumes "6 \<le> k" "k \<le> 10" "k + 2 \<le> K" "K \<le> 30" "2 ^ k \<le> maxThreads" "2 ^ (K - k) \<le> length od"
    "\<And>t b j. orders (2 ^ k) (ords t b j)" "\<And>t g. orders g (blocks t g)"
    "data = map (\<lambda>i. rands i AND 0xFF) [0..<2 ^ K]"
  shows "solution_main (Some (2 ^ k)) (Some K) maxThreads ords blocks fresh rands od = Inr (sum_list data,
    replicate 6 (sum_list data)
      @ [sum_list (take (2 ^ K - 2 ^ (k + 2)) data) + (\<Sum>j < 4. data ! (2 ^ K - 2 ^ (k + 2) + j * 2 ^ k)), sum_list data],
    Some True)"
proof -
  let ?G = "2 ^ (K - k) :: nat"
  let ?seventh = "sum_list (take (2 ^ K - 2 ^ (k + 2)) data) + (\<Sum>j < 4. data ! (2 ^ K - 2 ^ (k + 2) + j * 2 ^ k))"
  let ?five = "[(gmem_block reduceNeighboredGmem 1 True, ?G), (shared_block reduceNeighboredSmem True 1024 (fresh 1), ?G),
      (gmem_block reduceGmem 1 True, ?G), (shared_block reduceSmem True 1024 (fresh 3), ?G),
      (shared_block reduceSmemDyn False (2 ^ k) (fresh 4), ?G)]"
  let ?three = "[(gmem_block solGmemUnroll 4 False, ?G div 4), (shared_block solSmemUnroll False 1024 (fresh 6), ?G div 4),
      (shared_block solSmemUnrollDyn False 1024 (fresh 7), ?G div 4)]"
  have len: "length data = 2 ^ K" using assms(9) by simp
  have n: "length data < 2 ^ 31" using assms(4) len power_strict_increasing [of K 31 "2 :: nat"] by simp
  have G4: "?G div 4 * (4 * 2 ^ k) = length data" "?G div 4 \<le> ?G" using quarter_blocks(1) [of k K] assms(3) len by simp_all
  note whole = all_parts [OF G4(1)] and fits = eq_imp_le [OF G4(1)]
  have five: "list_all2 (prints ?G (2 ^ k) data) ?five (replicate 5 (sum_list data))"
    by (rule five_tests [where hi = 10, OF assms(1,2) _ assms(4) len sol_neighbored_smem.block_values_axioms sol_smem.block_values_axioms assms(2)])
      (use assms(3) in simp)
  have seventh: "(\<Sum>b < ?G div 4. sol_block (2 ^ k) b data) = ?seventh"
  proof -
    have g: "?G div 4 = (?G div 4 - 1) + 1" using quarter_blocks(2) [of k K] assms(3) by simp
    have "(?G div 4 - 1) * (4 * 2 ^ k) = 2 ^ K - 2 ^ (k + 2)"
      using quarter_blocks(1) [of k K] assms(3) by (simp add: diff_mult_distrib power_add)
    then show ?thesis using sol_blocks [of "?G div 4 - 1" "2 ^ k" data] G4(1) g by simp
  qed
  have three: "list_all2 (prints ?G (2 ^ k) data) ?three [sum_list data, ?seventh, sum_list data]"
    using sol_gmem_unroll.prints_sum [OF assms(1,2) n fits G4(2)] sol_smem_unroll.prints_sum [OF assms(1,2) n fits G4(2)]
      sol_smem_unroll_dyn.prints_sum [OF assms(1,2) n fits G4(2)]
    unfolding whole seventh by simp
  have tests: "solution_tests fresh (2 ^ k) ?G = ?five @ ?three" by (simp add: solution_tests_def)
  have sums: "replicate 5 (sum_list data) @ [sum_list data, ?seventh, sum_list data] = replicate 6 (sum_list data) @ [?seventh, sum_list data]"
    by (simp add: numeral_eq_Suc)
  have all: "list_all2 (prints ?G (2 ^ k) data) (solution_tests fresh (2 ^ k) ?G) (replicate 6 (sum_list data) @ [?seventh, sum_list data])"
    unfolding tests sums [symmetric] by (rule list_all2_appendI [OF five three])
  have l: "launches maxThreads (snd t) (2 ^ k)" if "t \<in> set (solution_tests fresh (2 ^ k) ?G)" for t
    using that quarter_blocks(2) [of k K] assms(3,5) by (auto simp: solution_tests_def launches_def)
  have run: "shared_tests True maxThreads ords blocks (2 ^ k) (solution_tests fresh (2 ^ k) ?G @ []) data od
      = Inr ((replicate 6 (sum_list data) @ [?seventh, sum_list data]) @ [], True)"
    by (rule shared_tests_run [where grid = ?G, OF assms(7,8) _ all l assms(6)]) simp_all
  have grid: "(2 ^ K + 2 ^ k - 1) div 2 ^ k = ?G" using grid_size [of k K] assms(3) by simp
  have power: "check (K < 31) Undefined_Behaviour = Inr ()" "check ((2 :: nat) ^ k \<noteq> 0) Undefined_Behaviour = Inr ()"
    using assms(4) by (simp_all add: check_def)
  show ?thesis
    using run host_sum_all [OF len]
    unfolding solution_main_def Let_def option.case power bindr_simps grid assms(9) [symmetric] by simp
qed

theorem solution_sums_witness:
  "\<exists>sums. solution_main (Some (2 ^ 6)) (Some 9) 1024 (\<lambda>t b j. [0..<2 ^ 6]) (\<lambda>t g. [0..<g]) (\<lambda>t b i. 7) (\<lambda>i. 1) (replicate 8 0)
     = Inr (sums, replicate 6 sums @ [sum_list (take (2 ^ 9 - 2 ^ (6 + 2)) (map (\<lambda>i. 1 AND 0xFF) [0..<2 ^ 9]))
         + (\<Sum>j < 4. map (\<lambda>i. 1 AND 0xFF) [0..<2 ^ 9] ! (2 ^ 9 - 2 ^ (6 + 2) + j * 2 ^ 6)), sums], Some True)"
proof (intro exI, rule solution_sums [OF _ _ _ _ _ _ _ _ refl])
  show "(2 :: nat) ^ (9 - 6) \<le> length (replicate 8 (0 :: 32 word))" unfolding length_replicate by simp
  show "orders (2 ^ 6) [0..<2 ^ 6]" by (rule orders_upt)
  show "orders g [0..<g]" for g by (rule orders_upt)
qed simp_all

text \<open>
  C27. Without arguments the program of the solutions has one block of 1024 threads: a quarter of the grid is
  empty, the launch of the sixth kernel fails, and the program ends there with an error. So it does for every size
  of one or two blocks.
\<close>
theorem solution_few_blocks:
  assumes "6 \<le> k" "k \<le> 10" "k \<le> K" "K < k + 2" "2 ^ k \<le> maxThreads" "2 ^ (K - k) \<le> length od"
    "\<And>t b j. orders (2 ^ k) (ords t b j)" "\<And>t g. orders g (blocks t g)"
    "data = map (\<lambda>i. rands i AND 0xFF) [0..<2 ^ K]"
    "arg1 = Some (2 ^ k) \<or> arg1 = None \<and> k = 10" "arg2 = Some K \<or> arg2 = None \<and> K = 10"
  shows "solution_main arg1 arg2 maxThreads ords blocks fresh rands od = Inr (sum_list data, replicate 5 (sum_list data), None)"
proof -
  let ?G = "2 ^ (K - k) :: nat"
  let ?five = "[(gmem_block reduceNeighboredGmem 1 True, ?G), (shared_block reduceNeighboredSmem True 1024 (fresh 1), ?G),
      (gmem_block reduceGmem 1 True, ?G), (shared_block reduceSmem True 1024 (fresh 3), ?G),
      (shared_block reduceSmemDyn False (2 ^ k) (fresh 4), ?G)]"
  let ?three = "[(gmem_block solGmemUnroll 4 False, ?G div 4), (shared_block solSmemUnroll False 1024 (fresh 6), ?G div 4),
      (shared_block solSmemUnrollDyn False 1024 (fresh 7), ?G div 4)]"
  have len: "length data = 2 ^ K" using assms(9) by simp
  have "K - k = 0 \<or> K - k = 1" using assms(3,4) by linarith
  then have none: "?G div 4 = 0" by auto
  have five: "list_all2 (prints ?G (2 ^ k) data) ?five (replicate 5 (sum_list data))"
    by (rule five_tests [where hi = 10, OF assms(1-3) _ len sol_neighbored_smem.block_values_axioms sol_smem.block_values_axioms assms(2)])
      (use assms(2,4) in simp)
  have l: "launches maxThreads (snd t) (2 ^ k)" if "t \<in> set ?five" for t
    using that assms(5) by (auto simp: launches_def)
  have stop: "shared_tests True maxThreads ords blocks (2 ^ k) ?three data od = Inr ([], False)" for od
    by (simp add: launches_def none)
  have run: "shared_tests True maxThreads ords blocks (2 ^ k) (?five @ ?three) data od = Inr (replicate 5 (sum_list data) @ [], False)"
    by (rule shared_tests_run [where grid = ?G, OF assms(7,8) stop five l assms(6)])
  have tests: "solution_tests fresh (2 ^ k) ?G = ?five @ ?three" by (simp add: solution_tests_def)
  have grid: "(2 ^ K + 2 ^ k - 1) div 2 ^ k = ?G" using grid_size [OF assms(3)] by simp
  have power: "check (K < 31) Undefined_Behaviour = Inr ()" "check ((2 :: nat) ^ k \<noteq> 0) Undefined_Behaviour = Inr ()"
    using assms(2,4) by (simp_all add: check_def)
  have "(1024 :: nat) = 2 ^ 10" by simp
  then have args: "(case arg1 of Some a \<Rightarrow> a | None \<Rightarrow> 1024) = (2 :: nat) ^ k" "(case arg2 of Some a \<Rightarrow> a | None \<Rightarrow> 10) = K"
    using assms(10,11) by auto
  show ?thesis
    using run host_sum_all [OF len]
    unfolding solution_main_def Let_def args power bindr_simps grid tests assms(9) [symmetric] by simp
qed

theorem solution_few_blocks_witness:
  "\<exists>s. solution_main None None 1024 (\<lambda>t b j. [0..<2 ^ 10]) (\<lambda>t g. rev [0..<g]) (\<lambda>t b i. 7) (\<lambda>i. 1) (replicate 1 0)
     = Inr (s, replicate 5 s, None)"
proof (intro exI, rule solution_few_blocks [of 10 10, OF _ _ _ _ _ _ _ _ refl])
  show "(2 :: nat) ^ (10 - 10) \<le> length (replicate 1 (0 :: 32 word))" unfolding length_replicate by simp
  show "orders (2 ^ 10) [0..<2 ^ 10]" by (rule orders_upt)
  show "orders g (rev [0..<g])" for g by (rule orders_rev)
qed simp_all

end
