(* ===== verification/Reduce_Variants.thy ===== *)
theory Reduce_Variants
  imports Reduce_Main
begin

text \<open>
  The variants of \<^verbatim>\<open>reduceInteger.cu\<close> in the solutions of chapter 3: sixteen elements for each
  thread, eight elements read through a pointer, and the complete unrolling with a barrier
  after each step of the last warp. The kernels that the files share with the original are those of
  \<open>Reduce_Kernels\<close>.
\<close>

section \<open>More elements for each thread\<close>

definition reduceUnrolling16 :: "nat \<Rightarrow> nat \<Rightarrow> nat \<Rightarrow> phase list" where
  "reduceUnrolling16 blockIdx blockDim n =
     run_threads (unroll_thread 16 blockIdx blockDim n)
     # map (\<lambda>stride. run_threads (stride_thread (blockIdx * blockDim * 16) stride)) (halving (blockDim div 2) 0)"

text \<open>\<open>tmp += *ptr; ptr += blockDim.x\<close>, some times.\<close>

fun walk :: "nat \<Rightarrow> nat \<Rightarrow> nat \<Rightarrow> 32 word \<Rightarrow> mem \<Rightarrow> 32 word result" where
  "walk 0 blockDim ptr tmp idata = Inr tmp"
| "walk (Suc i) blockDim ptr tmp idata =
     bindr (vget idata (int ptr)) (\<lambda>v. walk i blockDim (ptr + blockDim) (tmp + v) idata)"

definition walk_thread :: "nat \<Rightarrow> nat \<Rightarrow> nat \<Rightarrow> nat \<Rightarrow> mem \<Rightarrow> mem result" where
  "walk_thread blockIdx blockDim n tid idata =
     (let idx = u32 (blockIdx * blockDim * 8 + tid) in
      if u32 (idx + 7 * blockDim) < n
      then bindr (walk 8 blockDim idx 0 idata) (\<lambda>tmp. vset idata (int idx) tmp)
      else Inr idata)"

definition reduceUnrolling8New :: "nat \<Rightarrow> nat \<Rightarrow> nat \<Rightarrow> phase list" where
  "reduceUnrolling8New blockIdx blockDim n =
     run_threads (walk_thread blockIdx blockDim n)
     # map (\<lambda>stride. run_threads (stride_thread (blockIdx * blockDim * 8) stride)) (halving (blockDim div 2) 0)"

section \<open>Their main programs\<close>

definition tests_16 :: "nat \<Rightarrow> (block_kernel option \<times> nat) list" where
  "tests_16 blocksize =
     [(Some \<lparr>body = reduceNeighbored, elements = 1, returns_early = True\<rparr>, 1),
      (Some \<lparr>body = reduceNeighboredLess, elements = 1, returns_early = True\<rparr>, 1),
      (Some \<lparr>body = reduceInterleaved, elements = 1, returns_early = True\<rparr>, 1),
      (Some \<lparr>body = reduceUnrolling2, elements = 2, returns_early = False\<rparr>, 2),
      (Some \<lparr>body = reduceUnrolling4, elements = 4, returns_early = False\<rparr>, 4),
      (Some \<lparr>body = reduceUnrolling8, elements = 8, returns_early = False\<rparr>, 8),
      (Some \<lparr>body = reduceUnrolling16, elements = 16, returns_early = False\<rparr>, 16),
      (Some \<lparr>body = reduceUnrollWarps8, elements = 8, returns_early = False\<rparr>, 8),
      (Some \<lparr>body = reduceCompleteUnrollWarps8, elements = 8, returns_early = False\<rparr>, 8),
      (complete_unroll_case blocksize, 8)]"

definition tests_8_new :: "nat \<Rightarrow> (block_kernel option \<times> nat) list" where
  "tests_8_new blocksize =
     [(Some \<lparr>body = reduceNeighbored, elements = 1, returns_early = True\<rparr>, 1),
      (Some \<lparr>body = reduceNeighboredLess, elements = 1, returns_early = True\<rparr>, 1),
      (Some \<lparr>body = reduceInterleaved, elements = 1, returns_early = True\<rparr>, 1),
      (Some \<lparr>body = reduceUnrolling2, elements = 2, returns_early = False\<rparr>, 2),
      (Some \<lparr>body = reduceUnrolling4, elements = 4, returns_early = False\<rparr>, 4),
      (Some \<lparr>body = reduceUnrolling8, elements = 8, returns_early = False\<rparr>, 8),
      (Some \<lparr>body = reduceUnrolling8New, elements = 8, returns_early = False\<rparr>, 8),
      (Some \<lparr>body = reduceUnrolling16, elements = 16, returns_early = False\<rparr>, 16),
      (Some \<lparr>body = reduceUnrollWarps8, elements = 8, returns_early = False\<rparr>, 8),
      (Some \<lparr>body = reduceCompleteUnrollWarps8, elements = 8, returns_early = False\<rparr>, 8),
      (complete_unroll_case blocksize, 8)]"

definition variant_main :: "(nat \<Rightarrow> (block_kernel option \<times> nat) list) \<Rightarrow> nat \<Rightarrow> (nat \<Rightarrow> nat \<Rightarrow> schedule) \<Rightarrow> (nat \<Rightarrow> nat \<Rightarrow> nat list)
    \<Rightarrow> mem \<Rightarrow> mem \<Rightarrow> (32 word \<times> 32 word list \<times> bool) result" where
  "variant_main ts blocksize ords blocks h_idata d_odata =
     bindr (check (blocksize \<noteq> 0) Undefined_Behaviour) (\<lambda>_.
     let len = length h_idata; grid = (len + blocksize - 1) div blocksize in
     bindr (recursiveReduce h_idata len) (\<lambda>cpu_sum.
     bindr (run_tests grid blocksize ords blocks (ts blocksize) h_idata d_odata) (\<lambda>sums.
       Inr (cpu_sum, sums, last sums = cpu_sum))))"

definition main_16 :: "nat \<Rightarrow> (nat \<Rightarrow> nat \<Rightarrow> schedule) \<Rightarrow> (nat \<Rightarrow> nat \<Rightarrow> nat list) \<Rightarrow> mem \<Rightarrow> mem \<Rightarrow> (32 word \<times> 32 word list \<times> bool) result" where
  "main_16 = variant_main tests_16"

definition main_8_new :: "nat \<Rightarrow> (nat \<Rightarrow> nat \<Rightarrow> schedule) \<Rightarrow> (nat \<Rightarrow> nat \<Rightarrow> nat list) \<Rightarrow> mem \<Rightarrow> mem \<Rightarrow> (32 word \<times> 32 word list \<times> bool) result" where
  "main_8_new = variant_main tests_8_new"

section \<open>The new kernels sum\<close>

lemma reduceUnrolling16_sums: "1 \<le> k \<Longrightarrow> sums_block reduceUnrolling16 16 (2 ^ k)"
  by (rule strided_sums) (simp_all add: reduceUnrolling16_def)

lemma walk_sum:
  "(\<And>j. j < m \<Longrightarrow> ptr + j * d < length xs) \<Longrightarrow> walk m d ptr tmp xs = Inr (tmp + (\<Sum>j < m. xs ! (ptr + j * d)))"
proof (induction m arbitrary: ptr tmp)
  case (Suc m)
  have "ptr < length xs" using Suc.prems [of 0] by simp
  then have "vget xs (int ptr) = Inr (xs ! ptr)" by (rule vget_int)
  moreover have "walk m d (ptr + d) (tmp + xs ! ptr) xs = Inr (tmp + xs ! ptr + (\<Sum>j < m. xs ! (ptr + d + j * d)))"
  proof (rule Suc.IH)
    fix j assume "j < m"
    then show "ptr + d + j * d < length xs" using Suc.prems [of "Suc j"] by (simp add: add.assoc)
  qed
  moreover have "(\<Sum>j < Suc m. xs ! (ptr + j * d)) = xs ! ptr + (\<Sum>j < m. xs ! (ptr + d + j * d))"
    unfolding sum.lessThan_Suc_shift by (simp add: add.assoc)
  ultimately show ?case by (simp add: add.assoc)
qed simp

lemma walk_thread_whole:
  assumes "b * d * 8 + 8 * d \<le> length xs" "length xs < 2 ^ 32" "t < d"
  shows "walk_thread b d (length xs) t xs = unroll_thread 8 b d (length xs) t xs"
proof -
  let ?i = "b * d * 8 + t"
  have below: "?i + j * d < length xs" if "j < 8" for j
  proof -
    have "(j + 1) * d \<le> 8 * d" using that by (intro mult_le_mono1) simp
    then have "j * d + d \<le> 8 * d" by (simp only: add_mult_distrib mult_1)
    then show ?thesis using assms(1,3) by linarith
  qed
  have u: "u32 (?i + j * d) = ?i + j * d" if "j < 8" for j
    by (rule u32_small) (use below [OF that] assms(2) in linarith)
  have i: "u32 ?i = ?i" using u [of 0] by simp
  have l: "u32 (?i + 7 * d) < length xs" using below [of 7] u [of 7] by simp
  have "mapr (\<lambda>j. vget xs (int (u32 (?i + j * d)))) [0..<8] = Inr (map (\<lambda>j. xs ! (?i + j * d)) [0..<8])"
  proof (rule mapr_ok)
    fix j assume "j \<in> set [0..<8 :: nat]"
    then have "j < 8" by simp
    then show "vget xs (int (u32 (?i + j * d))) = Inr (xs ! (?i + j * d))" unfolding u [OF \<open>j < 8\<close>] by (intro vget_int below)
  qed
  moreover have "walk 8 d ?i 0 xs = Inr (\<Sum>j < 8. xs ! (?i + j * d))" using walk_sum [of 8 ?i d xs 0] below by simp
  moreover have "(8 :: nat) - 1 = 7" by simp
  ultimately show ?thesis unfolding walk_thread_def unroll_thread_def Let_def i
    using l by (simp only: if_True bindr_simps sum_list_upt)
qed

lemma unroll_thread_length: "unroll_thread m b d n t xs = Inr ys \<Longrightarrow> length ys = length xs"
  by (auto simp: unroll_thread_def Let_def bindr_eq_Inr vset_def split: if_splits)

lemma run_threads_same:
  assumes "\<And>t ys. t \<in> set ts \<Longrightarrow> length ys = n \<Longrightarrow> f t ys = g t ys" "\<And>t ys zs. g t ys = Inr zs \<Longrightarrow> length zs = length ys"
  shows "length xs = n \<Longrightarrow> run_threads f ts xs = run_threads g ts xs"
  using assms(1)
proof (induction ts arbitrary: xs)
  case (Cons t ts)
  have "f t xs = g t xs" using Cons.prems by simp
  moreover have "run_threads f ts ys = run_threads g ts ys" if "g t xs = Inr ys" for ys
    by (rule Cons.IH) (use assms(2) [OF that] Cons.prems in auto)
  ultimately show ?case by (auto simp: bindr_def split: sum.splits)
qed simp

lemma reduceUnrolling8New_sums:
  assumes k: "6 \<le> k" "k \<le> 10"
  shows "sums_block reduceUnrolling8New 8 (2 ^ k)"
  unfolding sums_block_def
proof (intro allI impI)
  fix b xs and ord :: "nat \<Rightarrow> nat list"
  assume n: "length xs < 2 ^ 32" "b * 2 ^ k * 8 + 8 * 2 ^ k \<le> length (xs :: mem)" and o: "\<forall>j. orders (2 ^ k) (ord j)"
  have "run_threads (walk_thread b (2 ^ k) (length xs)) (ord 0) xs = run_threads (unroll_thread 8 b (2 ^ k) (length xs)) (ord 0) xs"
  proof (rule run_threads_same [OF _ unroll_thread_length refl])
    fix t ys assume t: "t \<in> set (ord 0)" and ly: "length (ys :: mem) = length xs"
    have "t < 2 ^ k" using t o by (auto simp: orders_def)
    then show "walk_thread b (2 ^ k) (length xs) t ys = unroll_thread 8 b (2 ^ k) (length xs) t ys"
      using walk_thread_whole [of b "2 ^ k" ys t] n ly by simp
  qed
  then have "run_phases ord 0 (reduceUnrolling8New b (2 ^ k) (length xs)) xs = run_phases ord 0 (reduceUnrolling8 b (2 ^ k) (length xs)) xs"
    unfolding reduceUnrolling8New_def reduceUnrolling8_def run_phases.simps by (simp only:)
  then show "\<exists>ys. run_phases ord 0 (reduceUnrolling8New b (2 ^ k) (length xs)) xs = Inr ys \<and> length ys = length xs
      \<and> ys ! (b * 2 ^ k * 8) = block_sum (b * 2 ^ k * 8) (8 * 2 ^ k) xs
      \<and> (\<forall>i. i < b * 2 ^ k * 8 \<or> b * 2 ^ k * 8 + 8 * 2 ^ k \<le> i \<longrightarrow> ys ! i = xs ! i)"
    using unrolled_kernels_sum(3) [OF k] n o unfolding sums_block_def by presburger
qed

interpretation unrolling16: summing_kernel "\<lambda>_. \<lparr>body = reduceUnrolling16, elements = 16, returns_early = False\<rparr>"
  by unfold_locales (simp_all add: reduceUnrolling16_sums)

interpretation unrolling8_new: summing_kernel "\<lambda>_. \<lparr>body = reduceUnrolling8New, elements = 8, returns_early = False\<rparr>"
  by unfold_locales (simp_all add: reduceUnrolling8New_sums)

lemma variant_tests_sum_data:
  assumes k: "6 \<le> k" "k \<le> 10" and K: "k + 4 \<le> K" "K \<le> 30" and len: "length data = 2 ^ K"
  shows "\<forall>t \<in> set (tests_16 (2 ^ k)). sums_data (2 ^ (K - k)) (2 ^ k) data t"
    "\<forall>t \<in> set (tests_8_new (2 ^ k)). sums_data (2 ^ (K - k)) (2 ^ k) data t"
proof -
  have G: "(2 :: nat) ^ (K - k) = 16 * 2 ^ (K - k - 4)"
  proof -
    have "K - k = 4 + (K - k - 4)" using K(1) by simp
    then have "(2 :: nat) ^ (K - k) = 2 ^ (4 + (K - k - 4))" by (rule arg_cong)
    then show ?thesis by (simp add: power_add)
  qed
  have all: "2 ^ (K - k) * (2 :: nat) ^ k = 2 ^ K" using K(1) by (simp flip: power_add)
  have n: "length data < 2 ^ 32" using len K(2) power_increasing [of K 30 "2 :: nat"] by simp
  have sixteen: "2 ^ (K - k) div 16 * (16 * 2 ^ k) = length data" and eight: "2 ^ (K - k) div 8 * (8 * 2 ^ k) = length data"
    using all len unfolding G by simp_all
  have 16: "sums_data (2 ^ (K - k)) (2 ^ k) data (Some \<lparr>body = reduceUnrolling16, elements = 16, returns_early = False\<rparr>, 16)"
    using unrolling16.data_summed [OF k n, of "2 ^ (K - k)" 16] sixteen by (simp add: unrolling16.part_def)
  have 8: "sums_data (2 ^ (K - k)) (2 ^ k) data (Some \<lparr>body = reduceUnrolling8New, elements = 8, returns_early = False\<rparr>, 8)"
    using unrolling8_new.data_summed [OF k n, of "2 ^ (K - k)" 8] eight by (simp add: unrolling8_new.part_def)
  have old: "\<forall>t \<in> set (tests (2 ^ k)). sums_data (2 ^ (K - k)) (2 ^ k) data t"
    by (rule tests_sum_data [OF k _ K(2) len]) (use K(1) in simp)
  show "\<forall>t \<in> set (tests_16 (2 ^ k)). sums_data (2 ^ (K - k)) (2 ^ k) data t"
    "\<forall>t \<in> set (tests_8_new (2 ^ k)). sums_data (2 ^ (K - k)) (2 ^ k) data t"
    using old 8 16 unfolding tests_def tests_16_def tests_8_new_def by (simp_all only: list.set ball_simps simp_thms)
qed

lemma variant_main_sums:
  assumes "k \<le> K" "length data = 2 ^ K" "2 ^ (K - k) \<le> length od"
    "\<And>t g b j. orders (2 ^ k) (ords t g b j)" "\<And>t g. orders g (blocks t g)"
    and ts: "\<forall>t \<in> set (ts (2 ^ k)). sums_data (2 ^ (K - k)) (2 ^ k) data t" "ts (2 ^ k) \<noteq> []"
  shows "variant_main ts (2 ^ k) ords blocks data od = Inr (sum_list data, replicate (length (ts (2 ^ k))) (sum_list data), True)"
proof -
  have "recursiveReduce data (2 ^ K) = Inr (sum_list data)"
    using host_sum [of K data] block_sum_all [of data] assms(2) by simp
  moreover have "run_tests (2 ^ (K - k)) (2 ^ k) ords blocks (ts (2 ^ k)) data od = Inr (replicate (length (ts (2 ^ k))) (sum_list data))"
    by (rule run_tests_value [OF assms(4,5) ts(1) assms(3)])
  moreover have "(2 ^ K + 2 ^ k - 1) div 2 ^ k = (2 :: nat) ^ (K - k)" by (rule grid_size [OF assms(1)])
  moreover have "last (replicate (length (ts (2 ^ k))) (sum_list data)) = sum_list data"
    using ts(2) by (simp add: last_replicate)
  ultimately show ?thesis unfolding variant_main_def Let_def assms(2) by simp
qed

section \<open>A barrier after each step of the last warp\<close>

definition sync_thread :: "nat \<Rightarrow> nat \<Rightarrow> nat \<Rightarrow> mem \<Rightarrow> mem result" where
  "sync_thread base off tid idata =
     (if tid < 32 then accumulate (base + tid) (base + tid + off) idata else Inr idata)"

definition reduceCompleteUnrollWarps8Sync :: "nat \<Rightarrow> nat \<Rightarrow> nat \<Rightarrow> phase list" where
  "reduceCompleteUnrollWarps8Sync blockIdx blockDim n =
     run_threads (unroll_thread 8 blockIdx blockDim n)
     # map (\<lambda>stride. run_threads (guarded_thread blockDim (blockIdx * blockDim * 8) stride)) [512, 256, 128, 64]
     @ map (\<lambda>off. run_threads (sync_thread (blockIdx * blockDim * 8) off)) [32, 16, 8, 4, 2, 1]"

definition reduceCompleteUnrollWarps8SyncVolatile :: "nat \<Rightarrow> nat \<Rightarrow> nat \<Rightarrow> phase list" where
  "reduceCompleteUnrollWarps8SyncVolatile blockIdx blockDim n =
     run_threads (unroll_thread 8 blockIdx blockDim n)
     # map (\<lambda>stride. run_threads (guarded_thread blockDim (blockIdx * blockDim * 8) stride)) [512, 256, 128, 64]
     @ map (\<lambda>off. run_threads (sync_thread (blockIdx * blockDim * 8) off)) [32, 16, 8, 4, 2, 1]"

text \<open>\<open>out[tid] = 0\<close> for the elements of the output.\<close>

definition warmup_thread :: "nat \<Rightarrow> nat \<Rightarrow> nat \<Rightarrow> nat \<Rightarrow> mem \<Rightarrow> mem result" where
  "warmup_thread blockIdx blockDim n tid out =
     (let t = u32 (blockIdx * blockDim + tid) in if t < n then vset out (int t) 0 else Inr out)"

definition sync_tests :: "(block_kernel option \<times> nat) list" where
  "sync_tests =
     [(Some \<lparr>body = reduceCompleteUnrollWarps8, elements = 8, returns_early = False\<rparr>, 8),
      (Some \<lparr>body = reduceCompleteUnrollWarps8Sync, elements = 8, returns_early = False\<rparr>, 8),
      (Some \<lparr>body = reduceCompleteUnrollWarps8SyncVolatile, elements = 8, returns_early = False\<rparr>, 8)]"

definition sync_main :: "nat \<Rightarrow> (nat \<Rightarrow> nat \<Rightarrow> schedule) \<Rightarrow> (nat \<Rightarrow> nat \<Rightarrow> nat list) \<Rightarrow> mem \<Rightarrow> mem \<Rightarrow> (32 word \<times> 32 word list \<times> bool) result" where
  "sync_main blocksize ords blocks h_idata d_odata =
     bindr (check (blocksize \<noteq> 0) Undefined_Behaviour) (\<lambda>_.
     let len = length h_idata; grid = (len + blocksize - 1) div blocksize in
     bindr (recursiveReduce h_idata len) (\<lambda>cpu_sum.
     bindr (iterr (\<lambda>b. run_threads (warmup_thread b blocksize grid) (ords 3 grid b 0)) (blocks 3 grid) d_odata) (\<lambda>d_odata.
     bindr (run_tests grid blocksize ords blocks sync_tests h_idata d_odata) (\<lambda>sums.
       Inr (cpu_sum, sums, last sums = cpu_sum)))))"

text \<open>In the order of the lanes each step is that of the hardware, also where it leaves the memory.\<close>

lemma run_threads_append: "run_threads f (ts @ us) xs = bindr (run_threads f ts xs) (run_threads f us)"
  by (induction ts arbitrary: xs) (auto simp: bindr_def split: sum.splits)

lemma mapr_Inl:
  "(\<And>x. x \<in> set xs \<Longrightarrow> (\<exists>y. f x = Inr y) \<or> f x = Inl err) \<Longrightarrow> \<exists>x \<in> set xs. f x = Inl err \<Longrightarrow> mapr f xs = Inl err"
proof (induction xs)
  case (Cons x xs)
  then show ?case
  proof (cases "f x")
    case (Inr y)
    then have "mapr f xs = Inl err" using Cons by auto
    then show ?thesis using Inr by simp
  next
    case (Inl a)
    then have "a = err" using Cons.prems(1) [of x] by simp
    then show ?thesis using Inl by simp
  qed
qed simp

lemma accumulate_cases:
  "accumulate i j xs = (if i < length xs \<and> j < length xs then Inr (xs[i := xs ! i + xs ! j]) else Inl Undefined_Behaviour)"
proof (cases "i < length xs \<and> j < length xs")
  case False
  then have "vget xs (int i) = Inl Undefined_Behaviour \<or> (\<exists>v. vget xs (int i) = Inr v) \<and> vget xs (int j) = Inl Undefined_Behaviour"
    by (cases "i < length xs") auto
  then show ?thesis using False by (auto simp: accumulate_def)
qed (simp add: accumulate_value)

lemma lanes_in_range:
  assumes "base + 31 + off < length xs" "0 < off"
  shows "m \<le> 32 \<Longrightarrow> run_threads (sync_thread base off) [0..<m] xs
    = Inr (take base xs @ map (\<lambda>t. xs ! (base + t) + xs ! (base + t + off)) [0..<m] @ drop (base + m) xs)"
proof (induction m)
  case (Suc m)
  let ?g = "\<lambda>t. xs ! (base + t) + xs ! (base + t + off)"
  let ?ys = "take base xs @ map ?g [0..<m] @ drop (base + m) xs"
  have l: "length ?ys = length xs" using assms Suc.prems by simp
  have v: "?ys ! (base + m) = xs ! (base + m)" "?ys ! (base + m + off) = xs ! (base + m + off)"
    using assms Suc.prems by (simp_all add: nth_append)
  have "sync_thread base off m ?ys = Inr (?ys[base + m := ?g m])"
    using Suc.prems assms l v by (simp add: sync_thread_def accumulate_cases del: length_append length_map length_drop length_take)
  moreover have "?ys[base + m := ?g m] = take base xs @ map ?g [0..<Suc m] @ drop (base + Suc m) xs"
  proof -
    have "drop (base + m) xs = xs ! (base + m) # drop (base + Suc m) xs" using assms Suc.prems by (simp add: Cons_nth_drop_Suc)
    then show ?thesis using assms Suc.prems by (simp add: list_update_append)
  qed
  ultimately show ?case using Suc by (simp add: run_threads_append)
qed simp

lemma idle_lanes: "(\<And>t. t \<in> set ts \<Longrightarrow> 32 \<le> t) \<Longrightarrow> run_threads (sync_thread base off) ts xs = Inr xs"
proof (induction ts)
  case (Cons t ts)
  have "32 \<le> t" "run_threads (sync_thread base off) ts xs = Inr xs" using Cons by simp_all
  then have "sync_thread base off t xs = Inr xs" unfolding sync_thread_def by simp
  then show ?case using \<open>run_threads (sync_thread base off) ts xs = Inr xs\<close> by simp
qed simp

lemma run_sync_cases:
  "(\<exists>ys. run_threads (sync_thread base off) ts xs = Inr ys \<and> (\<forall>t \<in> set ts. t < 32 \<longrightarrow> base + t + off < length xs))
   \<or> run_threads (sync_thread base off) ts xs = Inl Undefined_Behaviour"
proof (induction ts arbitrary: xs)
  case (Cons t ts)
  show ?case
  proof (cases "t < 32 \<and> \<not> (base + t < length xs \<and> base + t + off < length xs)")
    case True
    then show ?thesis by (auto simp: sync_thread_def accumulate_cases)
  next
    case False
    then have "\<exists>ys. sync_thread base off t xs = Inr ys \<and> length ys = length xs"
      by (auto simp: sync_thread_def accumulate_cases)
    then obtain ys where "sync_thread base off t xs = Inr ys" "length ys = length xs" by blast
    then show ?thesis using Cons.IH [of ys] False by auto
  qed
qed simp

lemma split_lanes: "32 \<le> d \<Longrightarrow> [0..<d] = [0..<32] @ [32..<d]"
  using upt_add_eq_append [of 0 32 "d - 32"] by simp

lemma sync_step_lanes:
  assumes "32 \<le> d" "0 < off"
  shows "run_threads (sync_thread base off) [0..<d] xs = warp_step base d off ts xs"
proof -
  let ?read = "\<lambda>tid. bindr (vget xs (int (base + tid))) (\<lambda>a. bindr (vget xs (int (base + tid + off))) (\<lambda>b. Inr (a + b)))"
  have m: "min 32 d = 32" using assms(1) by simp
  show ?thesis
  proof (cases "base + 31 + off < length xs")
    case True
    have "mapr ?read [0..<32] = Inr (map (\<lambda>t. xs ! (base + t) + xs ! (base + t + off)) [0..<32])"
    proof (rule mapr_ok)
      fix t assume "t \<in> set [0..<32 :: nat]"
      then have "vget xs (int (base + t)) = Inr (xs ! (base + t))" "vget xs (int (base + t + off)) = Inr (xs ! (base + t + off))"
        using True by (intro vget_int; simp)+
      then show "?read t = Inr (xs ! (base + t) + xs ! (base + t + off))" by (simp only: bindr_simps)
    qed
    moreover have "run_threads (sync_thread base off) [0..<d] xs = run_threads (sync_thread base off) [0..<32] xs"
      unfolding split_lanes [OF assms(1)] run_threads_append lanes_in_range [OF True assms(2) order_refl] bindr_simps
      by (rule idle_lanes) simp
    ultimately show ?thesis
      using lanes_in_range [OF True assms(2) order_refl] by (simp add: warp_step_def m del: upt_Suc)
  next
    case False
    have r: "(\<exists>y. ?read t = Inr y) \<or> ?read t = Inl Undefined_Behaviour" for t
      by (cases "base + t < length xs"; cases "base + t + off < length xs") (auto simp del: of_nat_add)
    have bad: "?read 31 = Inl Undefined_Behaviour"
      using False by (cases "base + 31 < length xs") (auto simp del: of_nat_add)
    have "mapr ?read [0..<32] = Inl Undefined_Behaviour"
    proof (rule mapr_Inl [OF r])
      have "31 \<in> set [0..<32 :: nat]" by simp
      with bad show "\<exists>t \<in> set [0..<32]. ?read t = Inl Undefined_Behaviour" by (rule rev_bexI [rotated, where x = 31])
    qed
    moreover have "(31 :: nat) \<in> set [0..<d]" using assms(1) by simp
    then have "run_threads (sync_thread base off) [0..<d] xs = Inl Undefined_Behaviour"
      using run_sync_cases [of base off "[0..<d]" xs] False by fastforce
    ultimately show ?thesis by (simp add: warp_step_def m del: upt_Suc)
  qed
qed

lemma sync_steps_lanes:
  assumes "32 \<le> d" "\<And>i. j \<le> i \<Longrightarrow> ord i = [0..<d]"
  shows "(\<And>off. off \<in> set offs \<Longrightarrow> 0 < off) \<Longrightarrow>
    run_phases ord j (map (\<lambda>off. run_threads (sync_thread base off)) offs) xs = run_phases ord j (map (warp_step base d) offs) xs"
  using assms(2)
proof (induction offs arbitrary: j xs)
  case (Cons off offs)
  have "run_threads (sync_thread base off) (ord j) xs = warp_step base d off (ord j) xs"
    using sync_step_lanes [OF assms(1), of off base xs] Cons.prems by simp
  moreover have "run_phases ord (Suc j) (map (\<lambda>off. run_threads (sync_thread base off)) offs) ys
      = run_phases ord (Suc j) (map (warp_step base d) offs) ys" for ys
    by (rule Cons.IH) (use Cons.prems in auto)
  then have "run_phases ord (Suc j) (map (\<lambda>off. run_threads (sync_thread base off)) offs)
      = run_phases ord (Suc j) (map (warp_step base d) offs)" by (rule ext)
  ultimately show ?case by (simp only: list.map run_phases.simps)
qed simp

lemma run_phases_append: "run_phases ord j (ps @ qs) xs = bindr (run_phases ord j ps xs) (run_phases ord (j + length ps) qs)"
  by (induction ps arbitrary: j xs) (auto simp: bindr_def split: sum.splits)

lemma sync_kernel_lanes:
  assumes "32 \<le> d" "\<And>i. 5 \<le> i \<Longrightarrow> ord i = [0..<d]"
  shows "run_phases ord 0 (reduceCompleteUnrollWarps8Sync b d n) xs = run_phases ord 0 (reduceCompleteUnrollWarps8 b d n) xs"
proof -
  let ?first = "run_threads (unroll_thread 8 b d n) # map (\<lambda>stride. run_threads (guarded_thread d (b * d * 8) stride)) [512, 256, 128, 64]"
  have k: "reduceCompleteUnrollWarps8Sync b d n = ?first @ map (\<lambda>off. run_threads (sync_thread (b * d * 8) off)) [32, 16, 8, 4, 2, 1]"
    "reduceCompleteUnrollWarps8 b d n = ?first @ map (warp_step (b * d * 8) d) [32, 16, 8, 4, 2, 1]"
    by (simp_all only: reduceCompleteUnrollWarps8Sync_def reduceCompleteUnrollWarps8_def last_warp_def append_Cons)
  have l: "0 + length ?first = 5" by simp
  have "run_phases ord 5 (map (\<lambda>off. run_threads (sync_thread (b * d * 8) off)) [32, 16, 8, 4, 2, 1]) ys
      = run_phases ord 5 (map (warp_step (b * d * 8) d) [32, 16, 8, 4, 2, 1]) ys" for ys
    by (rule sync_steps_lanes [OF assms]) auto
  then have "run_phases ord 5 (map (\<lambda>off. run_threads (sync_thread (b * d * 8) off)) [32, 16, 8, 4, 2, 1])
      = run_phases ord 5 (map (warp_step (b * d * 8) d) [32, 16, 8, 4, 2, 1])" by (rule ext)
  then show ?thesis unfolding k run_phases_append l by (simp only:)
qed

lemma volatile_eq: "reduceCompleteUnrollWarps8SyncVolatile = reduceCompleteUnrollWarps8Sync"
  by (intro ext) (simp add: reduceCompleteUnrollWarps8SyncVolatile_def reduceCompleteUnrollWarps8Sync_def)

lemma sync_test_lanes:
  assumes "32 \<le> d" "\<And>b i. ord b i = [0..<d]"
  shows "test_kernel (Some \<lparr>body = reduceCompleteUnrollWarps8Sync, elements = 8, returns_early = False\<rparr>) g ord blocks d xs od
    = test_kernel (Some \<lparr>body = reduceCompleteUnrollWarps8, elements = 8, returns_early = False\<rparr>) g ord blocks d xs od"
proof -
  have "run_block \<lparr>body = reduceCompleteUnrollWarps8Sync, elements = 8, returns_early = False\<rparr> ord d n b mems
      = run_block \<lparr>body = reduceCompleteUnrollWarps8, elements = 8, returns_early = False\<rparr> ord d n b mems" for n b mems
    using sync_kernel_lanes [OF assms(1), of "ord b"] assms(2) by (simp add: run_block_def split: prod.splits)
  then have "run_grid \<lparr>body = reduceCompleteUnrollWarps8Sync, elements = 8, returns_early = False\<rparr> ord d n bs mems
      = run_grid \<lparr>body = reduceCompleteUnrollWarps8, elements = 8, returns_early = False\<rparr> ord d n bs mems" for n bs mems
    by (induction bs arbitrary: mems) (auto simp: bindr_def split: sum.splits)
  then show ?thesis by (simp add: test_kernel_def)
qed

lemma warmup_ok:
  assumes "n \<le> length od"
  shows "\<exists>od'. iterr (\<lambda>b. run_threads (warmup_thread b d n) (ts b)) bs od = Inr od' \<and> length od' = length od"
proof -
  have step: "\<exists>ys. warmup_thread b d n t xs = Inr ys \<and> length ys = length xs" if "n \<le> length xs" for b t and xs :: mem
    using that by (auto simp: warmup_thread_def Let_def)
  have threads: "\<exists>ys. run_threads (warmup_thread b d n) us xs = Inr ys \<and> length ys = length xs" if "n \<le> length xs" for b us xs
    using that
  proof (induction us arbitrary: xs)
    case (Cons t us)
    obtain ys where ys: "warmup_thread b d n t xs = Inr ys" "length ys = length xs" using step [OF Cons.prems] by blast
    then have "n \<le> length ys" using Cons.prems by simp
    then show ?case using Cons.IH [of ys] ys by auto
  qed simp
  show ?thesis using assms
  proof (induction bs arbitrary: od)
    case (Cons b bs)
    obtain ys where ys: "run_threads (warmup_thread b d n) (ts b) od = Inr ys" "length ys = length od"
      using threads [OF Cons.prems] by blast
    then have "n \<le> length ys" using Cons.prems by simp
    then show ?case using Cons.IH [of ys] ys by auto
  qed simp
qed

section \<open>One lane ahead of another\<close>

lemma run_sync_frame:
  assumes "base + 31 + off < length xs"
  shows "\<exists>ys. run_threads (sync_thread base off) ts xs = Inr ys \<and> length ys = length xs
    \<and> (\<forall>i. (\<forall>t \<in> set ts. i \<noteq> base + t) \<longrightarrow> ys ! i = xs ! i)"
  using assms
proof (induction ts arbitrary: xs)
  case (Cons t ts)
  have "\<exists>ys. sync_thread base off t xs = Inr ys \<and> length ys = length xs \<and> (\<forall>i. i \<noteq> base + t \<longrightarrow> ys ! i = xs ! i)"
    using Cons.prems by (auto simp: sync_thread_def accumulate_cases)
  then obtain ys where ys: "sync_thread base off t xs = Inr ys" "length ys = length xs" "\<forall>i. i \<noteq> base + t \<longrightarrow> ys ! i = xs ! i" by blast
  then obtain zs where zs: "run_threads (sync_thread base off) ts ys = Inr zs" "length zs = length ys"
      "\<forall>i. (\<forall>t \<in> set ts. i \<noteq> base + t) \<longrightarrow> zs ! i = ys ! i"
    using Cons.IH [of ys] Cons.prems by auto
  then show ?case using ys by (intro exI [of _ zs]) simp
qed simp

text \<open>The order of a phase in which thread 16 is the first, and the others follow in their order.\<close>

definition ahead :: "nat list" where
  "ahead = 16 # [0..<16] @ [17..<64]"

lemma orders_ahead: "orders 64 ahead"
proof -
  have "set ahead = {..<64}" unfolding ahead_def list.set set_append set_upt by auto
  moreover have "distinct ahead"
    unfolding ahead_def distinct.simps distinct_append set_append set_upt by (intro conjI distinct_upt) auto
  ultimately show ?thesis by (simp add: orders_def)
qed

lemma step_16_ahead:
  assumes "base + 64 \<le> length xs"
  shows "\<exists>ys. run_threads (sync_thread base 16) ahead xs = Inr ys \<and> length ys = length xs
    \<and> block_sum base 16 ys = block_sum base 32 xs + xs ! (base + 32)"
proof -
  let ?xs = "xs[base + 16 := xs ! (base + 16) + xs ! (base + 32)]"
  let ?ys = "take base ?xs @ map (\<lambda>t. ?xs ! (base + t) + ?xs ! (base + t + 16)) [0..<16] @ drop (base + 16) ?xs"
  have e: "base + 16 + 16 = base + 32" by simp
  have 1: "sync_thread base 16 16 xs = Inr ?xs" using assms unfolding sync_thread_def accumulate_cases e by simp
  have r: "base + 31 + 16 < length ?xs" using assms by simp
  have 2: "run_threads (sync_thread base 16) [0..<16] ?xs = Inr ?ys"
    by (rule lanes_in_range [OF r]) simp_all
  have l: "length ?ys = length xs" using assms by simp
  have r': "base + 31 + 16 < length ?ys" unfolding l using assms by simp
  obtain zs where zs: "run_threads (sync_thread base 16) [17..<64] ?ys = Inr zs" "length zs = length ?ys"
      "\<forall>i. (\<forall>t \<in> set [17..<64]. i \<noteq> base + t) \<longrightarrow> zs ! i = ?ys ! i"
    using run_sync_frame [OF r', of "[17..<64]"] by blast
  have far: "\<forall>t \<in> set [17..<64]. base + i \<noteq> base + t" if "i < 16" for i
  proof
    fix t assume "t \<in> set [17..<64 :: nat]"
    then have "17 \<le> t" unfolding set_upt atLeastLessThan_iff by simp
    then show "base + i \<noteq> base + t" using that by simp
  qed
  have "zs ! (base + i) = xs ! (base + i) + xs ! (base + 16 + i) + (if i = 0 then xs ! (base + 32) else 0)" if "i < 16" for i
  proof -
    have "zs ! (base + i) = ?ys ! (base + i)" using zs(3) far [OF that] by (simp only: simp_thms)
    also have "\<dots> = ?xs ! (base + i) + ?xs ! (base + i + 16)" using that assms by (simp add: nth_append)
    also have "\<dots> = xs ! (base + i) + xs ! (base + 16 + i) + (if i = 0 then xs ! (base + 32) else 0)"
      using that assms by (simp add: nth_list_update add_ac)
    finally show ?thesis .
  qed
  then have "block_sum base 16 zs = (\<Sum>i < 16. xs ! (base + i) + xs ! (base + 16 + i) + (if i = 0 then xs ! (base + 32) else 0))"
    unfolding block_sum_def by (intro sum.cong) simp_all
  also have "\<dots> = (\<Sum>i < 16. xs ! (base + i)) + (\<Sum>i < 16. xs ! (base + 16 + i)) + xs ! (base + 32)"
    by (simp add: sum.distrib sum.delta)
  also have "(\<Sum>i < 16. xs ! (base + i)) + (\<Sum>i < 16. xs ! (base + 16 + i)) = block_sum base 32 xs"
    unfolding block_sum_def using sum_lessThan_split [of "\<lambda>i. xs ! (base + i)" 16 16] by (simp add: add.assoc)
  finally have "block_sum base 16 zs = block_sum base 32 xs + xs ! (base + 32)" .
  moreover have "run_threads (sync_thread base 16) ahead xs = Inr zs"
    unfolding ahead_def run_threads.simps 1 bindr_simps run_threads_append 2 using zs(1) by simp
  ultimately show ?thesis using zs(2) l by auto
qed

lemma step_32_lanes:
  assumes "base + 64 \<le> length xs"
  shows "\<exists>ys. run_threads (sync_thread base 32) [0..<64] xs = Inr ys \<and> length ys = length xs
    \<and> block_sum base 32 ys = block_sum base 64 xs \<and> ys ! (base + 32) = xs ! (base + 32)"
proof -
  let ?ys = "take base xs @ map (\<lambda>t. xs ! (base + t) + xs ! (base + t + 32)) [0..<32] @ drop (base + 32) xs"
  have r: "base + 31 + 32 < length xs" using assms by simp
  have e: "[0..<64] = [0..<32] @ [32..<64 :: nat]" by (rule split_lanes) simp
  have "run_threads (sync_thread base 32) [0..<64] xs = Inr ?ys"
    unfolding e run_threads_append lanes_in_range [OF r zero_less_numeral order_refl] bindr_simps
    by (rule idle_lanes) (simp only: set_upt atLeastLessThan_iff)
  moreover have "block_sum base 32 ?ys = block_sum base (2 * 32) xs"
    by (rule block_sum_half) (use assms in \<open>simp add: nth_append add_ac del: upt_Suc\<close>)
  ultimately show ?thesis using assms by (intro exI [of _ ?ys]) (simp add: nth_append del: upt_Suc)
qed

section \<open>Properties\<close>

text \<open>
  C30. The two programs with more elements for each thread print the sum of the host in every test,
  for data of at least sixteen blocks, in every order of the threads of a phase and of the blocks.
\<close>
theorem variants_agree:
  assumes "6 \<le> k" "k \<le> 10" "k + 4 \<le> K" "K \<le> 30" "length data = 2 ^ K" "2 ^ (K - k) \<le> length od"
    "\<And>t g b j. orders (2 ^ k) (ords t g b j)" "\<And>t g. orders g (blocks t g)"
  shows "main_16 (2 ^ k) ords blocks data od = Inr (sum_list data, replicate 10 (sum_list data), True)
    \<and> main_8_new (2 ^ k) ords blocks data od = Inr (sum_list data, replicate 11 (sum_list data), True)"
proof -
  have K: "k \<le> K" using assms(3) by simp
  have n: "length (tests_16 (2 ^ k)) = 10" "length (tests_8_new (2 ^ k)) = 11" "tests_16 (2 ^ k) \<noteq> []" "tests_8_new (2 ^ k) \<noteq> []"
    by (simp_all add: tests_16_def tests_8_new_def)
  note sums = variant_tests_sum_data [OF assms(1-5)]
  show ?thesis
    using variant_main_sums [where ords = ords and blocks = blocks and ts = tests_16, OF K assms(5-8) sums(1) n(3)]
      variant_main_sums [where ords = ords and blocks = blocks and ts = tests_8_new, OF K assms(5-8) sums(2) n(4)]
    unfolding main_16_def main_8_new_def n by simp
qed

lemma orders_lanes: "orders n [0..<n]" and orders_back: "orders n (rev [0..<n])"
  by (auto simp: orders_def)

theorem variants_agree_witness:
  "main_16 (2 ^ 6) (\<lambda>t g b j. rev [0..<2 ^ 6]) (\<lambda>t g. [0..<g]) (replicate (2 ^ 10) 3) (replicate 16 0)
   = Inr (sum_list (replicate (2 ^ 10) 3), replicate 10 (sum_list (replicate (2 ^ 10) 3)), True)"
proof (rule conjunct1 [OF variants_agree])
  show "length (replicate (2 ^ 10) (3 :: 32 word)) = 2 ^ 10" by (rule length_replicate)
  show "(2 :: nat) ^ (10 - 6) \<le> length (replicate 16 (0 :: 32 word))" unfolding length_replicate by simp
  show "orders (2 ^ 6) (rev [0..<2 ^ 6])" by (rule orders_back)
  show "orders g [0..<g]" for g by (rule orders_lanes)
qed simp_all

text \<open>
  With barriers in place of the volatile pointer the kernels print the sum of the host when the
  threads of a block take each step in the order of their numbers.
\<close>
theorem sync_main_lanes:
  assumes "6 \<le> k" "k \<le> 10" "k + 3 \<le> K" "K \<le> 30" "length data = 2 ^ K" "2 ^ (K - k) \<le> length od"
    "\<And>t g b j. ords t g b j = [0..<2 ^ k]" "\<And>t g. orders g (blocks t g)"
  shows "sync_main (2 ^ k) ords blocks data od = Inr (sum_list data, replicate 3 (sum_list data), True)"
proof -
  let ?G = "2 ^ (K - k) :: nat"
  let ?warps = "(Some \<lparr>body = reduceCompleteUnrollWarps8, elements = 8, returns_early = False\<rparr>, 8 :: nat)"
  have d: "32 \<le> (2 :: nat) ^ k" using power_increasing [OF assms(1), of "2 :: nat"] by simp
  obtain od' where od': "iterr (\<lambda>b. run_threads (warmup_thread b (2 ^ k) ?G) (ords 3 ?G b 0)) (blocks 3 ?G) od = Inr od'" "length od' = length od"
    using warmup_ok [OF assms(6), of "2 ^ k" "\<lambda>b. ords 3 ?G b 0" "blocks 3 ?G"] by blast
  have o: "orders (2 ^ k) (ords t g b j)" for t g b j unfolding assms(7) by (rule orders_lanes)
  have lanes: "run_tests g (2 ^ k) ords blocks sync_tests data xs = run_tests g (2 ^ k) ords blocks (replicate 3 ?warps) data xs" for g xs
    by (simp add: sync_tests_def volatile_eq sync_test_lanes [OF d assms(7)] numeral_3_eq_3)
  have "?warps \<in> set (tests (2 ^ k))" by (simp add: tests_def)
  then have s: "sums_data ?G (2 ^ k) data ?warps" using tests_sum_data [OF assms(1-5)] by blast
  have "run_tests ?G (2 ^ k) ords blocks (replicate 3 ?warps) data od' = Inr (replicate (length (replicate 3 ?warps)) (sum_list data))"
    by (rule run_tests_value [where ords = ords, OF o assms(8)]) (use s assms(6) od'(2) in simp_all)
  moreover have "recursiveReduce data (2 ^ K) = Inr (sum_list data)"
    using host_sum [of K data] block_sum_all [of data] assms(5) by simp
  moreover have "(2 ^ K + 2 ^ k - 1) div 2 ^ k = ?G" by (rule grid_size) (use assms(3) in simp)
  ultimately show ?thesis using od'(1) unfolding sync_main_def Let_def assms(5) lanes by (simp add: last_replicate)
qed

theorem sync_main_lanes_witness:
  "sync_main (2 ^ 6) (\<lambda>t g b j. [0..<2 ^ 6]) (\<lambda>t g. rev [0..<g]) (replicate (2 ^ 9) 3) (replicate 8 0)
   = Inr (sum_list (replicate (2 ^ 9) 3), replicate 3 (sum_list (replicate (2 ^ 9) 3)), True)"
proof (rule sync_main_lanes)
  show "length (replicate (2 ^ 9) (3 :: 32 word)) = 2 ^ 9" by (rule length_replicate)
  show "(2 :: nat) ^ (9 - 6) \<le> length (replicate 8 (0 :: 32 word))" unfolding length_replicate by simp
  show "orders g (rev [0..<g])" for g by (rule orders_back)
qed simp_all

text \<open>
  C28. A barrier after a step does not order the threads in it: when thread 16 takes its step
  before thread 0, the result of the block is too large by the sum of a column, although
  every other step is taken in order.
\<close>
theorem sync_step_race:
  assumes "length xs < 2 ^ 32" "b * 64 * 8 + 8 * 64 \<le> length xs" "\<And>j. ord j = (if j = 6 then ahead else [0..<64])"
  shows "(\<forall>j. orders 64 (ord j)) \<and> (\<exists>ys. run_phases ord 0 (reduceCompleteUnrollWarps8Sync b 64 (length xs)) xs = Inr ys
    \<and> ys ! (b * 64 * 8) = block_sum (b * 64 * 8) (8 * 64) xs + (\<Sum>j < 8. xs ! (b * 64 * 8 + 32 + j * 64)))"
proof -
  let ?base = "b * 64 * 8"
  have o: "orders 64 (ord j)" for j unfolding assms(3) by (simp add: orders_ahead orders_lanes)
  have "2 ^ 6 = (64 :: nat)" by simp
  obtain ys where ys: "run_threads (unroll_thread 8 b 64 (length xs)) (ord 0) xs = Inr ys" "length ys = length xs"
      "block_sum ?base 64 ys = block_sum ?base (8 * 64) xs" "ys ! (?base + 32) = (\<Sum>j < 8. xs ! (?base + 32 + j * 64))"
    using unroll_phase [of 8 64 "ord 0" b xs, OF zero_less_numeral o assms(2,1)] by force
  have idle: "run_threads (guarded_thread 64 ?base s) ts zs = Inr zs" if "s \<in> {512, 256, 128, 64}" for s ts zs
    by (rule guarded_idle) (use that in auto)
  have fits: "?base + 64 \<le> length ys" using assms(2) ys(2) by simp
  obtain zs where zs: "run_threads (sync_thread ?base 32) (ord 5) ys = Inr zs" "length zs = length ys"
      "block_sum ?base 32 zs = block_sum ?base 64 ys" "zs ! (?base + 32) = ys ! (?base + 32)"
    using step_32_lanes [OF fits] assms(3) by auto
  obtain us where us: "run_threads (sync_thread ?base 16) (ord 6) zs = Inr us" "length us = length zs"
      "block_sum ?base 16 us = block_sum ?base 32 zs + zs ! (?base + 32)"
    using step_16_ahead [of ?base zs] fits zs(2) assms(3) by auto
  have h: "halves ?base 64 (2 ^ k) (warp_step ?base 64 (2 ^ k))" if "k \<le> 5" for k
    using warp_halves [of "2 ^ k" 64 ?base] power_increasing [of k 5 "2 :: nat"] that by simp
  have "halving_phases ?base 64 (Suc (Suc (Suc (Suc 0)))) (map (warp_step ?base 64) [8, 4, 2, 1])"
    unfolding list.map using h [of 3] h [of 2] h [of 1] h [of 0]
    by (intro halving_some halving_none) (simp_all add: numeral_eq_Suc)
  from halving_sum [OF this, where ord = ord and j = 7 and xs = us]
  obtain vs where vs: "run_phases ord 7 (map (warp_step ?base 64) [8, 4, 2, 1]) us = Inr vs" "vs ! ?base = block_sum ?base 16 us"
    using o fits zs(2) us(2) by auto
  have rest: "run_phases ord 7 (map (\<lambda>off. run_threads (sync_thread ?base off)) [8, 4, 2, 1]) us = Inr vs"
    unfolding vs(1) [symmetric] by (rule sync_steps_lanes) (use assms(3) in auto)
  have "run_phases ord 0 (reduceCompleteUnrollWarps8Sync b 64 (length xs)) xs = Inr vs"
    using rest ys(1) zs(1) us(1) idle by (simp add: reduceCompleteUnrollWarps8Sync_def numeral_eq_Suc)
  then show ?thesis using o vs(2) us(3) zs(3,4) ys(3,4) by simp
qed

theorem sync_step_race_witness:
  "\<exists>ys. run_phases (\<lambda>j. if j = 6 then ahead else [0..<64]) 0 (reduceCompleteUnrollWarps8Sync 0 64 512) (replicate 512 1) = Inr ys
    \<and> ys ! 0 = block_sum 0 512 (replicate 512 1) + 8"
  using sync_step_race [of "replicate 512 1" 0 "\<lambda>j. if j = 6 then ahead else [0..<64]"] by simp

end
