(* ===== verification/Tile_Orders.thy ===== *)
theory Tile_Orders
  imports Prelude
begin

text \<open>
  The kernels of \<^verbatim>\<open>chapter05/checkSmemRectangle.cu\<close> and \<^verbatim>\<open>chapter05/checkSmemSquare.cu\<close>, of the samples
  and of the solutions: one block of threads numbers the cells of a tile in shared memory, and after a
  barrier each thread copies one cell to the output. On each side of the barrier the threads run in any
  order. The contract of such a kernel is the locale \<open>permuting_kernel\<close>.
\<close>

section \<open>A block and its tile\<close>

text \<open>A thread is \<open>(threadIdx.x, threadIdx.y)\<close>; the tile is an array of \<open>rows\<close> by \<open>cols\<close>.\<close>

record tile_kernel =
  rows :: nat
  cols :: nat
  put :: "nat \<times> nat \<Rightarrow> nat \<times> nat"
  get :: "nat \<times> nat \<Rightarrow> nat \<times> nat"

definition index_of :: "nat \<Rightarrow> nat \<times> nat \<Rightarrow> nat" where
  "index_of dx t = snd t * dx + fst t"

definition put_cell :: "tile_kernel \<Rightarrow> nat \<Rightarrow> nat \<times> nat \<Rightarrow> (nat \<times> nat \<Rightarrow> nat option) \<Rightarrow> (nat \<times> nat \<Rightarrow> nat option) result" where
  "put_cell K dx t tile =
     (if fst (put K t) < rows K \<and> snd (put K t) < cols K then Inr (tile(put K t \<mapsto> index_of dx t))
      else Inl Undefined_Behaviour)"

definition get_cell :: "tile_kernel \<Rightarrow> nat \<Rightarrow> (nat \<times> nat \<Rightarrow> nat option) \<Rightarrow> nat \<times> nat \<Rightarrow> nat list \<Rightarrow> nat list result" where
  "get_cell K dx tile t out =
     (if fst (get K t) < rows K \<and> snd (get K t) < cols K
      then (case tile (get K t) of Some v \<Rightarrow> vset out (int (index_of dx t)) v | None \<Rightarrow> Inl Undefined_Behaviour)
      else Inl Undefined_Behaviour)"

definition run_tile :: "tile_kernel \<Rightarrow> nat \<Rightarrow> (nat \<times> nat) list \<Rightarrow> (nat \<times> nat) list \<Rightarrow> nat list \<Rightarrow> nat list result" where
  "run_tile K dx before after out =
     bindr (iterr (put_cell K dx) before Map.empty) (\<lambda>tile. iterr (get_cell K dx tile) after out)"

section \<open>The kernels on a rectangle\<close>

text \<open>The size of the block is that of the tile, \<open>dx\<close> by \<open>dy\<close>; \<open>ipad\<close> is the padding of a row.\<close>

definition irow :: "nat \<Rightarrow> nat \<Rightarrow> nat \<times> nat \<Rightarrow> nat" where "irow dx dy t = index_of dx t div dy"
definition icol :: "nat \<Rightarrow> nat \<Rightarrow> nat \<times> nat \<Rightarrow> nat" where "icol dx dy t = index_of dx t mod dy"

definition setRowReadRow :: "nat \<Rightarrow> nat \<Rightarrow> tile_kernel" where
  "setRowReadRow dx dy = \<lparr>rows = dy, cols = dx, put = (\<lambda>(x, y). (y, x)), get = (\<lambda>(x, y). (y, x))\<rparr>"

definition setColReadCol :: "nat \<Rightarrow> nat \<Rightarrow> tile_kernel" where
  "setColReadCol dx dy = \<lparr>rows = dx, cols = dy, put = (\<lambda>(x, y). (x, y)), get = (\<lambda>(x, y). (x, y))\<rparr>"

definition setColReadCol2 :: "nat \<Rightarrow> nat \<Rightarrow> tile_kernel" where
  "setColReadCol2 dx dy =
     \<lparr>rows = dy, cols = dx, put = (\<lambda>t. (icol dx dy t, irow dx dy t)), get = (\<lambda>t. (icol dx dy t, irow dx dy t))\<rparr>"

definition setRowReadCol :: "nat \<Rightarrow> nat \<Rightarrow> tile_kernel" where
  "setRowReadCol dx dy = \<lparr>rows = dy, cols = dx, put = (\<lambda>(x, y). (y, x)), get = (\<lambda>t. (icol dx dy t, irow dx dy t))\<rparr>"

definition setRowReadColPad :: "nat \<Rightarrow> nat \<Rightarrow> nat \<Rightarrow> tile_kernel" where
  "setRowReadColPad ipad dx dy =
     \<lparr>rows = dy, cols = dx + ipad, put = (\<lambda>(x, y). (y, x)), get = (\<lambda>t. (icol dx dy t, irow dx dy t))\<rparr>"

text \<open>The dynamic tile is one row, of the size given at the launch.\<close>

definition setRowReadColDyn :: "nat \<Rightarrow> nat \<Rightarrow> tile_kernel" where
  "setRowReadColDyn dx dy =
     \<lparr>rows = 1, cols = dx * dy, put = (\<lambda>t. (0, index_of dx t)), get = (\<lambda>t. (0, icol dx dy t * dx + irow dx dy t))\<rparr>"

definition setRowReadColDynPad :: "nat \<Rightarrow> nat \<Rightarrow> nat \<Rightarrow> tile_kernel" where
  "setRowReadColDynPad ipad dx dy =
     \<lparr>rows = 1, cols = (dx + ipad) * dy, put = (\<lambda>(x, y). (0, y * (dx + ipad) + x)),
      get = (\<lambda>t. (0, icol dx dy t * (dx + ipad) + irow dx dy t))\<rparr>"

definition setColReadRow :: "nat \<Rightarrow> nat \<Rightarrow> tile_kernel" where
  "setColReadRow dx dy = \<lparr>rows = dx, cols = dy, put = (\<lambda>(x, y). (x, y)), get = (\<lambda>t. (irow dx dy t, icol dx dy t))\<rparr>"

definition setColReadRowPad :: "nat \<Rightarrow> nat \<Rightarrow> nat \<Rightarrow> tile_kernel" where
  "setColReadRowPad ipad dx dy =
     \<lparr>rows = dx, cols = dy + ipad, put = (\<lambda>(x, y). (x, y)), get = (\<lambda>t. (irow dx dy t, icol dx dy t))\<rparr>"

section \<open>The kernels on a square\<close>

definition sqRowReadCol :: "nat \<Rightarrow> nat \<Rightarrow> tile_kernel" where
  "sqRowReadCol dx dy = \<lparr>rows = dy, cols = dx, put = (\<lambda>(x, y). (y, x)), get = (\<lambda>(x, y). (x, y))\<rparr>"

definition sqRowReadColDyn :: "nat \<Rightarrow> nat \<Rightarrow> tile_kernel" where
  "sqRowReadColDyn dx dy =
     \<lparr>rows = 1, cols = dx * dy, put = (\<lambda>(x, y). (0, y * dx + x)), get = (\<lambda>(x, y). (0, x * dy + y))\<rparr>"

definition sqRowReadColPad :: "nat \<Rightarrow> nat \<Rightarrow> nat \<Rightarrow> tile_kernel" where
  "sqRowReadColPad ipad dx dy =
     \<lparr>rows = dy, cols = dx + ipad, put = (\<lambda>(x, y). (y, x)), get = (\<lambda>(x, y). (x, y))\<rparr>"

definition sqRowReadColDynPad :: "nat \<Rightarrow> nat \<Rightarrow> nat \<Rightarrow> tile_kernel" where
  "sqRowReadColDynPad ipad dx dy =
     \<lparr>rows = 1, cols = (dx + ipad) * dy, put = (\<lambda>(x, y). (0, y * (dx + ipad) + x)),
      get = (\<lambda>(x, y). (0, x * (dx + ipad) + y))\<rparr>"

definition sqColReadRow :: "nat \<Rightarrow> nat \<Rightarrow> tile_kernel" where
  "sqColReadRow dx dy = \<lparr>rows = dx, cols = dy, put = (\<lambda>(x, y). (x, y)), get = (\<lambda>(x, y). (y, x))\<rparr>"

definition sqColReadRowDyn :: "nat \<Rightarrow> nat \<Rightarrow> tile_kernel" where
  "sqColReadRowDyn dx dy =
     \<lparr>rows = 1, cols = dx * dy, put = (\<lambda>(x, y). (0, x * dy + y)), get = (\<lambda>(x, y). (0, y * dx + x))\<rparr>"

definition sqColReadRowPad :: "nat \<Rightarrow> nat \<Rightarrow> nat \<Rightarrow> tile_kernel" where
  "sqColReadRowPad ipad dx dy =
     \<lparr>rows = dy, cols = dx + ipad, put = (\<lambda>(x, y). (x, y)), get = (\<lambda>(x, y). (y, x))\<rparr>"

section \<open>The main programs\<close>

text \<open>Each kernel runs on a cleared output, with its own orders of the threads before and after the barrier.\<close>

fun run_kernels :: "(nat \<Rightarrow> (nat \<times> nat) list) \<Rightarrow> (nat \<Rightarrow> (nat \<times> nat) list) \<Rightarrow> nat \<Rightarrow> nat \<Rightarrow> tile_kernel list \<Rightarrow> nat list list result" where
  "run_kernels before after dx dy [] = Inr []"
| "run_kernels before after dx dy (K # Ks) =
     bindr (run_tile K dx (before (length Ks)) (after (length Ks)) (replicate (dx * dy) 0)) (\<lambda>gpuRef.
     bindr (run_kernels before after dx dy Ks) (\<lambda>refs. Inr (gpuRef # refs)))"

definition rectangle_kernels :: "tile_kernel list" where
  "rectangle_kernels =
     map (\<lambda>K. K 32 16) [setRowReadRow, setColReadCol, setColReadCol2, setRowReadCol, setRowReadColDyn,
       setRowReadColPad 2, setRowReadColDynPad 2]"

definition rectangle_main :: "(nat \<Rightarrow> (nat \<times> nat) list) \<Rightarrow> (nat \<Rightarrow> (nat \<times> nat) list) \<Rightarrow> nat list list result" where
  "rectangle_main before after = run_kernels before after 32 16 rectangle_kernels"

definition solution_rectangle_main :: "(nat \<Rightarrow> (nat \<times> nat) list) \<Rightarrow> (nat \<Rightarrow> (nat \<times> nat) list) \<Rightarrow> nat list list result" where
  "solution_rectangle_main before after = run_kernels before after 32 16
     (map (\<lambda>K. K 32 16) [setRowReadRow, setColReadCol, setColReadCol2, setRowReadCol, setColReadRow, setRowReadColDyn,
       setRowReadColPad 2, setColReadRowPad 2, setRowReadColDynPad 2])"

definition square_main :: "(nat \<Rightarrow> (nat \<times> nat) list) \<Rightarrow> (nat \<Rightarrow> (nat \<times> nat) list) \<Rightarrow> nat list list result" where
  "square_main before after = run_kernels before after 32 32
     (map (\<lambda>K. K 32 32) [setColReadCol, setRowReadRow, sqRowReadCol, sqRowReadColDyn, sqRowReadColPad 1, sqRowReadColDynPad 1])"

definition solution_square_main :: "(nat \<Rightarrow> (nat \<times> nat) list) \<Rightarrow> (nat \<Rightarrow> (nat \<times> nat) list) \<Rightarrow> nat list list result" where
  "solution_square_main before after = run_kernels before after 16 16
     (map (\<lambda>K. K 16 16) [setColReadCol, setRowReadRow, sqColReadRow, sqRowReadCol, sqRowReadColDyn, sqColReadRowDyn,
       sqRowReadColPad 1, sqColReadRowPad 1, sqRowReadColDynPad 1])"

section \<open>The contract of a kernel\<close>

definition block_threads :: "nat \<Rightarrow> nat \<Rightarrow> (nat \<times> nat) set" where
  "block_threads dx dy = {..<dx} \<times> {..<dy}"

definition thread_orders :: "nat \<Rightarrow> nat \<Rightarrow> (nat \<times> nat) list \<Rightarrow> bool" where
  "thread_orders dx dy ts \<longleftrightarrow> distinct ts \<and> set ts = block_threads dx dy"

lemma index_below: "t \<in> block_threads dx dy \<Longrightarrow> index_of dx t < dx * dy"
proof -
  assume t: "t \<in> block_threads dx dy"
  then have "(snd t + 1) * dx \<le> dy * dx" by (intro mult_le_mono1) (auto simp: block_threads_def)
  then show ?thesis using t by (auto simp: block_threads_def index_of_def mult.commute)
qed

lemma index_inj: "inj_on (index_of dx) (block_threads dx dy)"
proof (rule inj_onI)
  fix s t assume "s \<in> block_threads dx dy" "t \<in> block_threads dx dy" and e: "index_of dx s = index_of dx t"
  then have "fst s < dx" "fst t < dx" by (auto simp: block_threads_def)
  then have "index_of dx s div dx = snd s" "index_of dx s mod dx = fst s" "index_of dx t div dx = snd t" "index_of dx t mod dx = fst t"
    by (simp_all add: index_of_def)
  then show "s = t" using e by (simp add: prod_eq_iff)
qed

locale permuting_kernel =
  fixes K :: tile_kernel and dx dy :: nat and source :: "nat \<times> nat \<Rightarrow> nat \<times> nat"
  assumes put_inside: "t \<in> block_threads dx dy \<Longrightarrow> fst (put K t) < rows K \<and> snd (put K t) < cols K"
    and put_inj: "inj_on (put K) (block_threads dx dy)"
    and get_put: "t \<in> block_threads dx dy \<Longrightarrow> source t \<in> block_threads dx dy \<and> get K t = put K (source t)"
begin

lemma puts:
  "set ts \<subseteq> block_threads dx dy \<Longrightarrow> \<exists>tile'. iterr (put_cell K dx) ts tile = Inr tile'
    \<and> (\<forall>t \<in> block_threads dx dy. t \<in> set ts \<or> tile (put K t) = Some (index_of dx t) \<longrightarrow> tile' (put K t) = Some (index_of dx t))"
proof (induction ts arbitrary: tile)
  case (Cons u ts)
  let ?tile = "tile(put K u \<mapsto> index_of dx u)"
  have u: "u \<in> block_threads dx dy" using Cons.prems by simp
  then have "put_cell K dx u tile = Inr ?tile" by (simp add: put_cell_def put_inside)
  moreover obtain tile' where t': "iterr (put_cell K dx) ts ?tile = Inr tile'"
      "\<forall>t \<in> block_threads dx dy. t \<in> set ts \<or> ?tile (put K t) = Some (index_of dx t) \<longrightarrow> tile' (put K t) = Some (index_of dx t)"
    using Cons.IH [of ?tile, OF subset_trans [OF set_subset_Cons Cons.prems]] by blast
  moreover have "?tile (put K t) = Some (index_of dx t)"
    if "t \<in> block_threads dx dy" "t = u \<or> tile (put K t) = Some (index_of dx t)" for t
    using that inj_onD [OF put_inj, of t u] u by (cases "put K t = put K u") auto
  ultimately show ?case by auto
qed simp

lemma gets:
  assumes tile: "\<And>t. t \<in> block_threads dx dy \<Longrightarrow> tile (put K t) = Some (index_of dx t)"
  shows "set ts \<subseteq> block_threads dx dy \<Longrightarrow> length out = dx * dy \<Longrightarrow> \<exists>ys. iterr (get_cell K dx tile) ts out = Inr ys \<and> length ys = dx * dy
    \<and> (\<forall>t \<in> block_threads dx dy. t \<in> set ts \<or> out ! index_of dx t = index_of dx (source t) \<longrightarrow> ys ! index_of dx t = index_of dx (source t))"
proof (induction ts arbitrary: out)
  case (Cons u ts)
  let ?out = "out[index_of dx u := index_of dx (source u)]"
  have u: "u \<in> block_threads dx dy" using Cons.prems by simp
  then have "get_cell K dx tile u out = Inr ?out"
    using get_put [OF u] put_inside tile index_below [OF u] Cons.prems(2) by (simp add: get_cell_def)
  moreover obtain ys where ys: "iterr (get_cell K dx tile) ts ?out = Inr ys" "length ys = dx * dy"
      "\<forall>t \<in> block_threads dx dy. t \<in> set ts \<or> ?out ! index_of dx t = index_of dx (source t) \<longrightarrow> ys ! index_of dx t = index_of dx (source t)"
    using Cons.IH [of ?out] Cons.prems by auto
  moreover have "?out ! index_of dx t = index_of dx (source t)"
    if "t \<in> block_threads dx dy" "t = u \<or> out ! index_of dx t = index_of dx (source t)" for t
  proof (cases "t = u")
    case True
    then show ?thesis using index_below [OF u] Cons.prems(2) by simp
  next
    case False
    then have "index_of dx t \<noteq> index_of dx u" using inj_onD [OF index_inj] that(1) u by blast
    then show ?thesis using that(2) False by simp
  qed
  ultimately show ?case by auto
qed simp

lemma run_result:
  assumes "thread_orders dx dy before" "thread_orders dx dy after" "length out = dx * dy"
  shows "run_tile K dx before after out = Inr (map (\<lambda>i. index_of dx (source (i mod dx, i div dx))) [0..<dx * dy])"
proof -
  obtain tile where tile: "iterr (put_cell K dx) before Map.empty = Inr tile"
      "\<And>t. t \<in> block_threads dx dy \<Longrightarrow> tile (put K t) = Some (index_of dx t)"
    using puts [of before Map.empty] assms(1) by (auto simp: thread_orders_def)
  obtain ys where ys: "iterr (get_cell K dx tile) after out = Inr ys" "length ys = dx * dy"
      "\<And>t. t \<in> block_threads dx dy \<Longrightarrow> ys ! index_of dx t = index_of dx (source t)"
    using gets [OF tile(2), of after out] assms(2,3) by (auto simp: thread_orders_def)
  have "ys = map (\<lambda>i. index_of dx (source (i mod dx, i div dx))) [0..<dx * dy]"
  proof (rule nth_equalityI)
    fix i assume "i < length ys"
    then have i: "i < dx * dy" using ys(2) by simp
    then have "0 < dx" by (cases dx) simp_all
    then have t: "(i mod dx, i div dx) \<in> block_threads dx dy" "index_of dx (i mod dx, i div dx) = i"
      using i by (simp_all add: block_threads_def index_of_def less_mult_imp_div_less mult.commute)
    have "ys ! i = index_of dx (source (i mod dx, i div dx))" using ys(3) [OF t(1)] unfolding t(2) .
    then show "ys ! i = map (\<lambda>i. index_of dx (source (i mod dx, i div dx))) [0..<dx * dy] ! i"
      using i by simp
  qed (use ys(2) in simp)
  then show ?thesis using tile(1) ys(1) by (simp add: run_tile_def)
qed

end

section \<open>The two results\<close>

text \<open>Row and column of a number in the order of the columns: the thread there is \<open>(irow, icol)\<close>.\<close>

definition cross :: "nat \<Rightarrow> nat \<Rightarrow> nat \<times> nat \<Rightarrow> nat \<times> nat" where
  "cross dx dy t = (irow dx dy t, icol dx dy t)"

definition crossed :: "nat \<Rightarrow> nat \<Rightarrow> nat list" where
  "crossed dx dy = map (\<lambda>i. i mod dy * dx + i div dy) [0..<dx * dy]"

lemma cross_inside: "t \<in> block_threads dx dy \<Longrightarrow> irow dx dy t < dx \<and> icol dx dy t < dy"
proof -
  assume t: "t \<in> block_threads dx dy"
  then have "index_of dx t < dx * dy" "0 < dy" using index_below by (auto simp: block_threads_def)
  then show ?thesis by (simp add: irow_def icol_def less_mult_imp_div_less)
qed

lemma cross_index: "irow dx dy t * dy + icol dx dy t = index_of dx t"
  by (simp add: irow_def icol_def)

lemma cross_inj: "inj_on (cross dx dy) (block_threads dx dy)"
  by (rule inj_onI) (metis cross_def cross_index index_inj inj_onD prod.inject)

lemma cross_square: "t \<in> block_threads d d \<Longrightarrow> irow d d t = snd t \<and> icol d d t = fst t"
  by (auto simp: block_threads_def irow_def icol_def index_of_def)

lemma identity_result:
  assumes "permuting_kernel K dx dy (\<lambda>t. t)" "thread_orders dx dy before" "thread_orders dx dy after" "length out = dx * dy"
  shows "run_tile K dx before after out = Inr [0..<dx * dy]"
  using permuting_kernel.run_result [OF assms] by (simp add: index_of_def)

lemma cross_result:
  assumes "permuting_kernel K dx dy (cross dx dy)" "thread_orders dx dy before" "thread_orders dx dy after" "length out = dx * dy"
  shows "run_tile K dx before after out = Inr (crossed dx dy)"
  using permuting_kernel.run_result [OF assms] by (simp add: crossed_def cross_def irow_def icol_def index_of_def)

section \<open>The kernels keep the contract\<close>

text \<open>A row of the padded tile, laid out in one dimension.\<close>

lemma flat_inj: "inj_on (\<lambda>(x, y). (0 :: nat, y * (dx + p) + x)) (block_threads dx dy)"
proof (rule inj_onI, clarify)
  fix x y x' y' assume t: "(x, y) \<in> block_threads dx dy" "(x', y') \<in> block_threads dx dy" and e: "y * (dx + p) + x = y' * (dx + p) + x'"
  then have "x < dx + p" "x' < dx + p" by (simp_all add: block_threads_def)
  moreover have "(b * m + a) div m = b \<and> (b * m + a) mod m = a" if "a < m" for a b m :: nat using that by simp
  ultimately have "(y * (dx + p) + x) div (dx + p) = y" "(y' * (dx + p) + x') div (dx + p) = y'"
    "(y * (dx + p) + x) mod (dx + p) = x" "(y' * (dx + p) + x') mod (dx + p) = x'" by blast+
  then show "x = x' \<and> y = y'" using e by metis
qed

lemma flat_inside: "x < dx \<Longrightarrow> y < dy \<Longrightarrow> y * (dx + p) + x < (dx + p) * dy" for x y dx dy p :: nat
proof -
  assume "x < dx" "y < dy"
  then have "(y + 1) * (dx + p) \<le> dy * (dx + p)" by (intro mult_le_mono1) simp
  then show ?thesis using \<open>x < dx\<close> by (simp add: mult.commute)
qed

lemma block_threads_iff: "(x, y) \<in> block_threads dx dy \<longleftrightarrow> x < dx \<and> y < dy"
  by (simp add: block_threads_def)

lemma swap_inj: "inj_on (\<lambda>(x, y). (y, x)) A"
  by (auto simp: inj_on_def)

lemma plain_inj: "inj_on (\<lambda>(x, y). (x, y)) A"
  by (auto simp: inj_on_def)

interpretation row_row: permuting_kernel "setRowReadRow dx dy" dx dy "\<lambda>t. t" for dx dy
  by unfold_locales (auto simp: setRowReadRow_def block_threads_def intro: swap_inj)

interpretation col_col: permuting_kernel "setColReadCol dx dy" dx dy "\<lambda>t. t" for dx dy
  by unfold_locales (auto simp: setColReadCol_def block_threads_def intro: plain_inj)

interpretation col_col2: permuting_kernel "setColReadCol2 dx dy" dx dy "\<lambda>t. t" for dx dy
proof
  show "inj_on (put (setColReadCol2 dx dy)) (block_threads dx dy)"
    using cross_inj by (auto simp: setColReadCol2_def inj_on_def cross_def)
qed (simp_all add: setColReadCol2_def cross_inside)

interpretation row_col: permuting_kernel "setRowReadCol dx dy" dx dy "cross dx dy" for dx dy
proof
  show "inj_on (put (setRowReadCol dx dy)) (block_threads dx dy)" by (simp add: setRowReadCol_def swap_inj)
qed (use cross_inside in \<open>auto simp: setRowReadCol_def cross_def block_threads_def\<close>)

interpretation row_col_pad: permuting_kernel "setRowReadColPad p dx dy" dx dy "cross dx dy" for p dx dy
proof
  show "inj_on (put (setRowReadColPad p dx dy)) (block_threads dx dy)" by (simp add: setRowReadColPad_def swap_inj)
qed (use cross_inside in \<open>auto simp: setRowReadColPad_def cross_def block_threads_def\<close>)

interpretation row_col_dyn: permuting_kernel "setRowReadColDyn dx dy" dx dy "cross dx dy" for dx dy
proof
  show "inj_on (put (setRowReadColDyn dx dy)) (block_threads dx dy)"
    using index_inj by (auto simp: setRowReadColDyn_def inj_on_def)
  fix t assume t: "t \<in> block_threads dx dy"
  show "fst (put (setRowReadColDyn dx dy) t) < rows (setRowReadColDyn dx dy) \<and> snd (put (setRowReadColDyn dx dy) t) < cols (setRowReadColDyn dx dy)"
    using index_below [OF t] by (simp add: setRowReadColDyn_def)
  show "cross dx dy t \<in> block_threads dx dy \<and> get (setRowReadColDyn dx dy) t = put (setRowReadColDyn dx dy) (cross dx dy t)"
    using cross_inside [OF t] by (simp add: setRowReadColDyn_def cross_def index_of_def block_threads_def)
qed

interpretation row_col_dyn_pad: permuting_kernel "setRowReadColDynPad p dx dy" dx dy "cross dx dy" for p dx dy
proof
  show "inj_on (put (setRowReadColDynPad p dx dy)) (block_threads dx dy)"
    by (simp add: setRowReadColDynPad_def flat_inj)
  fix t assume t: "t \<in> block_threads dx dy"
  show "fst (put (setRowReadColDynPad p dx dy) t) < rows (setRowReadColDynPad p dx dy)
      \<and> snd (put (setRowReadColDynPad p dx dy) t) < cols (setRowReadColDynPad p dx dy)"
    using t flat_inside by (auto simp: setRowReadColDynPad_def block_threads_def)
  show "cross dx dy t \<in> block_threads dx dy \<and> get (setRowReadColDynPad p dx dy) t = put (setRowReadColDynPad p dx dy) (cross dx dy t)"
    using cross_inside [OF t] by (simp add: setRowReadColDynPad_def cross_def block_threads_def)
qed

interpretation col_row: permuting_kernel "setColReadRow dx dy" dx dy "cross dx dy" for dx dy
proof
  show "inj_on (put (setColReadRow dx dy)) (block_threads dx dy)" by (simp add: setColReadRow_def plain_inj)
qed (use cross_inside in \<open>auto simp: setColReadRow_def cross_def block_threads_def\<close>)

interpretation col_row_pad: permuting_kernel "setColReadRowPad p dx dy" dx dy "cross dx dy" for p dx dy
proof
  show "inj_on (put (setColReadRowPad p dx dy)) (block_threads dx dy)" by (simp add: setColReadRowPad_def plain_inj)
qed (use cross_inside in \<open>auto simp: setColReadRowPad_def cross_def block_threads_def\<close>)

interpretation sq_row_col: permuting_kernel "sqRowReadCol d d" d d "cross d d" for d
proof
  show "inj_on (put (sqRowReadCol d d)) (block_threads d d)" by (simp add: sqRowReadCol_def swap_inj)
qed (use cross_inside cross_square in \<open>fastforce simp: sqRowReadCol_def cross_def block_threads_def\<close>)+

interpretation sq_row_col_pad: permuting_kernel "sqRowReadColPad p d d" d d "cross d d" for p d
proof
  show "inj_on (put (sqRowReadColPad p d d)) (block_threads d d)" by (simp add: sqRowReadColPad_def swap_inj)
qed (use cross_inside cross_square in \<open>fastforce simp: sqRowReadColPad_def cross_def block_threads_def\<close>)+

interpretation sq_row_col_dyn_pad: permuting_kernel "sqRowReadColDynPad p d d" d d "cross d d" for p d
proof
  show "inj_on (put (sqRowReadColDynPad p d d)) (block_threads d d)" by (simp add: sqRowReadColDynPad_def flat_inj)
  fix t assume t: "t \<in> block_threads d d"
  show "fst (put (sqRowReadColDynPad p d d) t) < rows (sqRowReadColDynPad p d d) \<and> snd (put (sqRowReadColDynPad p d d) t) < cols (sqRowReadColDynPad p d d)"
    using t flat_inside by (auto simp: sqRowReadColDynPad_def block_threads_def)
  show "cross d d t \<in> block_threads d d \<and> get (sqRowReadColDynPad p d d) t = put (sqRowReadColDynPad p d d) (cross d d t)"
    using cross_inside [OF t] cross_square [OF t] by (cases t) (simp add: sqRowReadColDynPad_def cross_def block_threads_def)
qed

interpretation sq_row_col_dyn: permuting_kernel "sqRowReadColDyn d d" d d "cross d d" for d
proof
  show "inj_on (put (sqRowReadColDyn d d)) (block_threads d d)" using flat_inj [of d 0 d] by (simp add: sqRowReadColDyn_def)
  fix t assume t: "t \<in> block_threads d d"
  show "fst (put (sqRowReadColDyn d d) t) < rows (sqRowReadColDyn d d) \<and> snd (put (sqRowReadColDyn d d) t) < cols (sqRowReadColDyn d d)"
    using t flat_inside [of _ d _ d 0] by (auto simp: sqRowReadColDyn_def block_threads_def)
  show "cross d d t \<in> block_threads d d \<and> get (sqRowReadColDyn d d) t = put (sqRowReadColDyn d d) (cross d d t)"
    using cross_inside [OF t] cross_square [OF t] by (cases t) (simp add: sqRowReadColDyn_def cross_def block_threads_def)
qed

interpretation sq_col_row: permuting_kernel "sqColReadRow d d" d d "cross d d" for d
proof
  show "inj_on (put (sqColReadRow d d)) (block_threads d d)" by (simp add: sqColReadRow_def plain_inj)
qed (use cross_inside cross_square in \<open>fastforce simp: sqColReadRow_def cross_def block_threads_def\<close>)+

interpretation sq_col_row_pad: permuting_kernel "sqColReadRowPad p d d" d d "cross d d" for p d
proof
  show "inj_on (put (sqColReadRowPad p d d)) (block_threads d d)" by (simp add: sqColReadRowPad_def plain_inj)
qed (use cross_inside cross_square in \<open>fastforce simp: sqColReadRowPad_def cross_def block_threads_def\<close>)+

interpretation sq_col_row_dyn: permuting_kernel "sqColReadRowDyn d d" d d "cross d d" for d
proof
  show "inj_on (put (sqColReadRowDyn d d)) (block_threads d d)"
    using flat_inj [of d 0 d] by (fastforce simp: sqColReadRowDyn_def inj_on_def block_threads_def)
  fix t assume t: "t \<in> block_threads d d"
  show "fst (put (sqColReadRowDyn d d) t) < rows (sqColReadRowDyn d d) \<and> snd (put (sqColReadRowDyn d d) t) < cols (sqColReadRowDyn d d)"
    using t flat_inside [of _ d _ d 0] by (auto simp: sqColReadRowDyn_def block_threads_def)
  show "cross d d t \<in> block_threads d d \<and> get (sqColReadRowDyn d d) t = put (sqColReadRowDyn d d) (cross d d t)"
    using cross_inside [OF t] cross_square [OF t] by (cases t) (simp add: sqColReadRowDyn_def cross_def block_threads_def)
qed

section \<open>What the programs print\<close>

lemmas identity_kernels = identity_result [OF row_row.permuting_kernel_axioms]
  identity_result [OF col_col.permuting_kernel_axioms] identity_result [OF col_col2.permuting_kernel_axioms]

lemmas crossing_kernels = cross_result [OF row_col.permuting_kernel_axioms] cross_result [OF row_col_pad.permuting_kernel_axioms]
  cross_result [OF row_col_dyn.permuting_kernel_axioms] cross_result [OF row_col_dyn_pad.permuting_kernel_axioms]
  cross_result [OF col_row.permuting_kernel_axioms] cross_result [OF col_row_pad.permuting_kernel_axioms]
  cross_result [OF sq_row_col.permuting_kernel_axioms] cross_result [OF sq_row_col_pad.permuting_kernel_axioms]
  cross_result [OF sq_row_col_dyn.permuting_kernel_axioms] cross_result [OF sq_row_col_dyn_pad.permuting_kernel_axioms]
  cross_result [OF sq_col_row.permuting_kernel_axioms] cross_result [OF sq_col_row_pad.permuting_kernel_axioms]
  cross_result [OF sq_col_row_dyn.permuting_kernel_axioms]

text \<open>
  C37. In both programs, on a rectangle of 32 by 16 and on squares, the kernels that write and read the tile in
  the same order print the numbers in sequence, and all the others print the same transposition, in
  whatever order the threads run before and after the barrier.
\<close>
theorem tile_programs_print:
  assumes "\<And>t. thread_orders 32 16 (before t)" "\<And>t. thread_orders 32 16 (after t)"
    "\<And>t. thread_orders 32 32 (before' t)" "\<And>t. thread_orders 32 32 (after' t)"
    "\<And>t. thread_orders 16 16 (before'' t)" "\<And>t. thread_orders 16 16 (after'' t)"
  shows "rectangle_main before after = Inr (replicate 3 [0..<512] @ replicate 4 (crossed 32 16))
    \<and> solution_rectangle_main before after = Inr (replicate 3 [0..<512] @ replicate 6 (crossed 32 16))
    \<and> square_main before' after' = Inr (replicate 2 [0..<1024] @ replicate 4 (crossed 32 32))
    \<and> solution_square_main before'' after'' = Inr (replicate 2 [0..<256] @ replicate 7 (crossed 16 16))"
proof -
  have n: "32 * 16 = (512 :: nat)" "32 * 32 = (1024 :: nat)" "16 * 16 = (256 :: nat)" by simp_all
  have r: "replicate 2 x = [x, x]" "replicate 3 x = [x, x, x]" "replicate 4 x = [x, x, x, x]" "replicate 6 x = [x, x, x, x, x, x]"
    "replicate 7 x = [x, x, x, x, x, x, x]" for x :: "nat list"
    by (simp_all add: numeral_eq_Suc)
  note i = identity_kernels [OF assms(1,2) length_replicate] identity_kernels [OF assms(3,4) length_replicate]
    identity_kernels [OF assms(5,6) length_replicate]
  note c = crossing_kernels(1-6) [OF assms(1,2) length_replicate] crossing_kernels [OF assms(3,4) length_replicate]
    crossing_kernels [OF assms(5,6) length_replicate]
  show ?thesis
    unfolding rectangle_main_def rectangle_kernels_def solution_rectangle_main_def square_main_def solution_square_main_def
      list.map run_kernels.simps i c bindr_simps r append.simps by (simp only: n simp_thms)
qed

theorem tile_programs_print_witness:
  "square_main (\<lambda>t. List.product [0..<32] [0..<32]) (\<lambda>t. rev (List.product [0..<32] [0..<32]))
   = Inr (replicate 2 [0..<1024] @ replicate 4 (crossed 32 32))"
proof -
  have o: "thread_orders a b (List.product [0..<a] [0..<b])" "thread_orders a b (rev (List.product [0..<a] [0..<b]))" for a b
    by (simp_all add: thread_orders_def distinct_product block_threads_def lessThan_atLeast0)
  show ?thesis using tile_programs_print [OF o(1) o(1) o(1) o(2) o(1) o(1)] by (rule conjunct1 [OF conjunct2 [OF conjunct2]])
qed

end
