(* ===== verification/Warp_Shuffle.thy ===== *)
theory Warp_Shuffle
  imports Shared_Reduce_Main
begin

text \<open>
  Warp shuffles, and the reductions of \<^verbatim>\<open>chapter05/reduceIntegerShfl.cu\<close> that sum with them. A shuffle
  reads a register of another lane of the warp. The lanes of a warp that have not returned are the
  first ones; their registers are a list, and all of them take part in a shuffle at once. What a lane
  reads from one that is not active is unspecified: it is the argument \<open>idle\<close>.
\<close>

unbundle bit_operations_syntax

section \<open>Shuffles\<close>

definition register :: "(nat \<Rightarrow> 32 word) \<Rightarrow> 32 word list \<Rightarrow> nat \<Rightarrow> 32 word" where
  "register idle vals lane = (if lane < length vals then vals ! lane else idle lane)"

text \<open>
  The lanes are divided into parts of \<open>width\<close>, and five bits of the mask count. A lane has its own value
  where the lane it asks for is beyond its part.
\<close>

definition shfl_xor :: "nat \<Rightarrow> (nat \<Rightarrow> 32 word) \<Rightarrow> 32 word list \<Rightarrow> 32 word \<Rightarrow> nat \<Rightarrow> 32 word" where
  "shfl_xor width idle vals laneMask lane =
     (let src = lane XOR (unat laneMask mod 32) in
      register idle vals (if src < (lane div width + 1) * width then src else lane))"

section \<open>The kernels\<close>

text \<open>\<open>localSum += __shfl_xor(localSum, mask)\<close> in all lanes of a warp, for five masks.\<close>

definition add_xor :: "(32 word \<Rightarrow> nat \<Rightarrow> 32 word) \<Rightarrow> 32 word \<Rightarrow> 32 word list \<Rightarrow> 32 word list" where
  "add_xor idle laneMask vals = map (\<lambda>lane. vals ! lane + shfl_xor 32 (idle laneMask) vals laneMask lane) [0..<length vals]"

definition warpReduce :: "(32 word \<Rightarrow> nat \<Rightarrow> 32 word) \<Rightarrow> 32 word list \<Rightarrow> 32 word list" where
  "warpReduce idle localSum = fold (add_xor idle) [16, 8, 4, 2, 1] localSum"

text \<open>Each warp of a block: the threads \<open>on\<close> read a value, and the warp sums them.\<close>

definition warp_lanes :: "(nat \<Rightarrow> bool) \<Rightarrow> nat \<Rightarrow> nat \<Rightarrow> nat list" where
  "warp_lanes on blockDim w = filter on [w * 32..<min (w * 32 + 32) blockDim]"

definition reduce_warps :: "(nat \<Rightarrow> 32 word \<Rightarrow> nat \<Rightarrow> 32 word) \<Rightarrow> (nat \<Rightarrow> bool) \<Rightarrow> (nat \<Rightarrow> 32 word result) \<Rightarrow> nat
    \<Rightarrow> 32 word list list result" where
  "reduce_warps idle on get blockDim =
     mapr (\<lambda>w. bindr (mapr get (warp_lanes on blockDim w)) (\<lambda>vals. Inr (warpReduce (idle w) vals))) [0..<(blockDim + 31) div 32]"

text \<open>The first lane of a warp saves its sum.\<close>

definition save_thread :: "32 word list list \<Rightarrow> nat \<Rightarrow> mem \<Rightarrow> mem result" where
  "save_thread sums tid smem =
     (if tid mod 32 = 0 then vset smem (int (tid div 32)) (sums ! (tid div 32) ! 0) else Inr smem)"

text \<open>\<open>idle\<close> gives what inactive lanes hold in the shuffles of a block, for each warp and, behind them, for the last sum.\<close>

type_synonym idle_lanes = "nat \<Rightarrow> nat \<Rightarrow> 32 word \<Rightarrow> nat \<Rightarrow> 32 word"

definition reduceShfl :: "idle_lanes \<Rightarrow> (nat \<Rightarrow> nat \<Rightarrow> 32 word) \<Rightarrow> block_step" where
  "reduceShfl idle fresh ord blockDim n b mems =
     (let (idata, odata) = mems; on = live b blockDim n in
      bindr (reduce_warps (idle b) on (\<lambda>tid. vget idata (int (u32 (b * blockDim + tid)))) blockDim) (\<lambda>localSums.
      bindr (run_threads (if_live b blockDim n (save_thread localSums)) (ord b 0) (map (fresh b) [0..<4])) (\<lambda>smem.
      bindr (mapr (\<lambda>tid. if tid < 4 then vget smem (int tid) else Inr 0) (warp_lanes on blockDim 0)) (\<lambda>localSum.
      if \<not> on 0 then Inr (idata, odata)
      else bindr (vset odata (int b) (warpReduce (idle b 32) localSum ! 0)) (\<lambda>odata. Inr (idata, odata))))))"

definition reduceSmemShfl :: "idle_lanes \<Rightarrow> (nat \<Rightarrow> nat \<Rightarrow> 32 word) \<Rightarrow> block_step" where
  "reduceSmemShfl idle fresh ord blockDim n b mems =
     (let (idata, odata) = mems; on = live b blockDim n in
      bindr (run_phases (ord b) 0 (run_threads (if_live b blockDim n (load_thread (b * blockDim) idata))
        # map (\<lambda>s. run_threads (if_live b blockDim n (guarded_thread blockDim 0 s))) [512, 256, 128, 64, 32])
        (map (fresh b) [0..<128])) (\<lambda>smem.
      bindr (reduce_warps (idle b) on (\<lambda>tid. vget smem (int tid)) blockDim) (\<lambda>localSums.
      if \<not> on 0 then Inr (idata, odata)
      else bindr (vset odata (int b) (localSums ! 0 ! 0)) (\<lambda>odata. Inr (idata, odata)))))"

section \<open>The main program\<close>

definition shfl_tests :: "idle_lanes \<Rightarrow> (nat \<Rightarrow> nat \<Rightarrow> nat \<Rightarrow> 32 word) \<Rightarrow> nat \<Rightarrow> (block_step \<times> nat) list" where
  "shfl_tests idle fresh grid =
     [(shared_block reduceSmem True 128 (fresh 1), grid), (reduceShfl idle (fresh 0), grid)]"

text \<open>The data is what \<open>rand\<close> gave for \<open>2 ^ ishift\<close> elements; the program checks no launch.\<close>

definition shfl_main :: "nat option \<Rightarrow> nat \<Rightarrow> (nat \<Rightarrow> schedule) \<Rightarrow> (nat \<Rightarrow> nat \<Rightarrow> nat list) \<Rightarrow> idle_lanes
    \<Rightarrow> (nat \<Rightarrow> nat \<Rightarrow> nat \<Rightarrow> 32 word) \<Rightarrow> (nat \<Rightarrow> 32 word) \<Rightarrow> mem \<Rightarrow> (32 word \<times> 32 word list \<times> bool) result" where
  "shfl_main arg maxThreads ords blocks idle fresh rands d_odata =
     (let ishift = case arg of Some a \<Rightarrow> a | None \<Rightarrow> 10 in
      bindr (check (ishift < 31) Undefined_Behaviour) (\<lambda>_.
      let len = 2 ^ ishift; blocksize = 128; grid = (len + blocksize - 1) div blocksize;
          h_idata = map (\<lambda>i. rands i AND 0xFF) [0..<len] in
      bindr (recursiveReduce h_idata len) (\<lambda>cpu_sum.
      bindr (shared_tests False maxThreads ords blocks blocksize (shfl_tests idle fresh grid) h_idata d_odata)
        (\<lambda>(sums, ends). Inr (cpu_sum, sums, last sums = cpu_sum)))))"

section \<open>A warp sums its registers in every lane\<close>

lemma xor_below_32: "a < 32 \<Longrightarrow> b < 32 \<Longrightarrow> a XOR b < 32" for a b :: nat
proof -
  assume "a < 32" "b < 32"
  then have "int a XOR int b < 2 ^ 5" by (intro XOR_upper) simp_all
  then have "int (a XOR b) < 32" by (simp add: of_nat_xor_eq)
  then show ?thesis by simp
qed

lemma lanes_32: "[0..<32] = [0, 1, 2, 3, 4, 5, 6, 7, 8, 9, 10, 11, 12, 13, 14, 15, 16, 17, 18, 19, 20, 21, 22, 23, 24, 25,
    26, 27, 28, 29, 30, 31 :: nat]"
  by (simp add: upt_rec)

lemma add_xor_full:
  assumes "length vals = 32" "unat laneMask < 32"
  shows "add_xor idle laneMask vals = map (\<lambda>lane. vals ! lane + vals ! (lane XOR unat laneMask)) [0..<32]"
  unfolding add_xor_def assms(1)
  by (rule map_cong [OF refl]) (use assms xor_below_32 in \<open>auto simp: shfl_xor_def register_def\<close>)

lemma warpReduce_full:
  assumes "length vals = 32"
  shows "warpReduce idle vals = replicate 32 (\<Sum>i < 32. vals ! i)"
proof -
  let ?step = "\<lambda>m f lane. f lane + (f (lane XOR m) :: 32 word)"
  have step: "add_xor idle laneMask (map f [0..<32]) = map (?step (unat laneMask) f) [0..<32]" if "unat laneMask < 32" for laneMask f
    unfolding add_xor_full [OF _ that, of "map f [0..<32]", simplified]
    by (rule map_cong [OF refl]) (use that xor_below_32 in auto)
  let ?f = "\<lambda>i. vals ! i"
  have vals: "vals = map ?f [0..<32]" using assms by (metis map_nth)
  have "warpReduce idle (map ?f [0..<32]) = map (?step 1 (?step 2 (?step 4 (?step 8 (?step 16 ?f))))) [0..<32]"
    unfolding warpReduce_def by (simp add: step del: upt_Suc upt_rec_numeral)
  moreover have "?step 1 (?step 2 (?step 4 (?step 8 (?step 16 ?f)))) lane = (\<Sum>i < 32. ?f i)" if "lane < 32" for lane
  proof -
    have "?step 1 (?step 2 (?step 4 (?step 8 (?step 16 ?f)))) lane = (\<Sum>i < 32. ?f (lane XOR i))"
      unfolding sum_list_upt [symmetric] lanes_32 by (simp add: xor.assoc add.assoc add.commute add.left_commute)
    also have "\<dots> = (\<Sum>i < 32. ?f i)"
      by (rule sum.reindex_bij_witness [of _ "\<lambda>i. lane XOR i" "\<lambda>i. lane XOR i"])
        (use that xor_below_32 in \<open>auto simp flip: xor.assoc\<close>)
    finally show ?thesis .
  qed
  ultimately have "warpReduce idle (map ?f [0..<32]) = map (\<lambda>_. \<Sum>i < 32. ?f i) [0..<32]" by simp
  then show ?thesis unfolding vals [symmetric] by (simp add: map_replicate_const del: upt_Suc upt_rec_numeral)
qed

section \<open>The warps of a block\<close>

text \<open>Where the first \<open>m\<close> warps of a block are live, each of them has its sum in all lanes, the others have no lane.\<close>

lemma lanes_some: "m * 32 \<le> blockDim \<Longrightarrow> (\<And>t. t < blockDim \<Longrightarrow> on t \<longleftrightarrow> t < m * 32) \<Longrightarrow> w < m \<Longrightarrow>
    warp_lanes on blockDim w = [w * 32..<w * 32 + 32]"
proof -
  assume a: "m * 32 \<le> blockDim" "\<And>t. t < blockDim \<Longrightarrow> on t \<longleftrightarrow> t < m * 32" "w < m"
  then have "(w + 1) * 32 \<le> m * 32" by (intro mult_le_mono1) simp
  then have w: "w * 32 + 32 \<le> m * 32" by simp
  then have e: "min (w * 32 + 32) blockDim = w * 32 + 32" using a(1) by simp
  show ?thesis unfolding warp_lanes_def e filter_id_conv by (intro ballI) (use a w in simp)
qed

lemma lanes_none: "(\<And>t. t < blockDim \<Longrightarrow> on t \<longleftrightarrow> t < m * 32) \<Longrightarrow> m \<le> w \<Longrightarrow> warp_lanes on blockDim w = []"
proof -
  assume a: "\<And>t. t < blockDim \<Longrightarrow> on t \<longleftrightarrow> t < m * 32" "m \<le> w"
  then have "m * 32 \<le> w * 32" by (intro mult_le_mono1)
  then show ?thesis unfolding warp_lanes_def filter_empty_conv using a(1) by auto
qed

lemma warpReduce_none: "warpReduce idle [] = []"
  by (simp add: warpReduce_def add_xor_def)

lemma warp_sum:
  "warpReduce idle (map f [l..<l + 32]) = replicate 32 (\<Sum>i < 32. f (l + i))"
  by (simp add: warpReduce_full del: upt_Suc)

lemma reduce_warps_value:
  assumes m: "m * 32 \<le> blockDim" "\<And>t. t < blockDim \<Longrightarrow> on t \<longleftrightarrow> t < m * 32"
    and get: "\<And>t. t < m * 32 \<Longrightarrow> get t = Inr (f t)"
  shows "reduce_warps idle on get blockDim
    = Inr (map (\<lambda>w. if w < m then replicate 32 (\<Sum>i < 32. f (w * 32 + i)) else []) [0..<(blockDim + 31) div 32])"
  unfolding reduce_warps_def
proof (rule mapr_ok)
  fix w
  show "bindr (mapr get (warp_lanes on blockDim w)) (\<lambda>vals. Inr (warpReduce (idle w) vals))
      = Inr (if w < m then replicate 32 (\<Sum>i < 32. f (w * 32 + i)) else [])"
  proof (cases "w < m")
    case True
    then have "(w + 1) * 32 \<le> m * 32" by (intro mult_le_mono1) simp
    then have "mapr get [w * 32..<w * 32 + 32] = Inr (map f [w * 32..<w * 32 + 32])"
      by (intro mapr_ok get) simp
    then show ?thesis using True lanes_some [OF m True] by (simp add: warp_sum del: upt_Suc)
  next
    case False
    then show ?thesis using lanes_none [OF m(2), where w = w] by (simp add: warpReduce_none)
  qed
qed

lemma block_sum_warps: "(\<Sum>w < m. \<Sum>i < 32. xs ! (base + (w * 32 + i))) = block_sum base (m * 32) xs"
proof (induction m)
  case (Suc m)
  have e: "Suc m * 32 = m * 32 + 32" by simp
  show ?case using Suc unfolding block_sum_def e sum_lessThan_split by simp
qed (simp add: block_sum_def)

text \<open>
  The kernel on a block of 128 threads whose first \<open>m\<close> warps are live; only in a complete block, that is for
  \<open>m = 4\<close>, do all threads reach the barrier. The last step adds the four cells of the shared memory.
\<close>

lemma reduceShfl_value:
  assumes m: "0 < m" "m \<le> 4" "\<And>t. t < 128 \<Longrightarrow> live b 128 (length xs) t \<longleftrightarrow> t < m * 32"
    and n: "b * 128 + m * 32 \<le> length xs" "length xs < 2 ^ 32" "b < length od" and o: "orders 128 (ord b 0)"
  shows "reduceShfl idle fresh ord 128 (length xs) b (xs, od)
    = Inr (xs, od[b := block_sum (b * 128) (m * 32) xs + (\<Sum>w = m..<4. fresh b w)])"
proof -
  let ?on = "live b 128 (length xs)" and ?s = "\<lambda>w. \<Sum>i < 32. xs ! (b * 128 + (w * 32 + i))"
  let ?sums = "map (\<lambda>w. if w < m then replicate 32 (?s w) else []) [0..<4]"
  let ?smem = "map (fresh b) [0..<4]"
  have m32: "m * 32 \<le> 128" using m(2) by simp
  have get: "vget xs (int (u32 (b * 128 + t))) = Inr (xs ! (b * 128 + t))" if "t < m * 32" for t
  proof -
    have "u32 (b * 128 + t) = b * 128 + t" by (rule u32_small) (use n(1,2) that in linarith)
    then show ?thesis using that n(1) by (simp del: of_nat_add of_nat_mult)
  qed
  have sums: "reduce_warps (idle b) ?on (\<lambda>t. vget xs (int (u32 (b * 128 + t)))) 128 = Inr ?sums"
    using reduce_warps_value [where f = "\<lambda>t. xs ! (b * 128 + t)" and m = m and idle = "idle b", OF m32 m(3) get] by simp
  have T: "set (ord b 0) = {..<128}" "distinct (ord b 0)" using o by (simp_all add: orders_def)
  let ?act = "\<lambda>t. t mod 32 = 0 \<and> t < m * 32"
  have step: "if_live b 128 (length xs) (save_thread ?sums) t ys = Inr (if ?act t then ys[t div 32 := ?s (t div 32)] else ys)"
    if "t \<in> {..<128}" "length ys = length ?smem" for t ys
  proof -
    have "t div 32 < m" if "t < m * 32" using that by (simp add: less_mult_imp_div_less)
    then show ?thesis using that m(2) m(3) [of t] by (auto simp: if_live_def save_thread_def)
  qed
  have inj: "inj_on (\<lambda>t. t div 32) {t \<in> {..<128}. ?act t}"
    unfolding inj_on_def by (auto elim!: dvdE simp flip: dvd_eq_mod_eq_0)
  have bound: "t div 32 < length ?smem" if "t \<in> {..<128}" for t :: nat using that by simp
  have "\<exists>zs. run_threads (if_live b 128 (length xs) (save_thread ?sums)) (ord b 0) ?smem = Inr zs \<and> length zs = length ?smem
      \<and> (\<forall>t \<in> set (ord b 0). ?act t \<longrightarrow> zs ! (t div 32) = ?s (t div 32))
      \<and> (\<forall>i. (\<forall>t \<in> set (ord b 0). ?act t \<longrightarrow> i \<noteq> t div 32) \<longrightarrow> zs ! i = ?smem ! i)"
    by (rule run_updates [where T = "{..<128}" and w = "\<lambda>t. t div 32", OF step inj bound]) (use T in simp_all)
  then obtain smem where smem: "run_threads (if_live b 128 (length xs) (save_thread ?sums)) (ord b 0) ?smem = Inr smem" "length smem = 4"
      "\<forall>t \<in> set (ord b 0). ?act t \<longrightarrow> smem ! (t div 32) = ?s (t div 32)"
      "\<forall>i. (\<forall>t \<in> set (ord b 0). ?act t \<longrightarrow> i \<noteq> t div 32) \<longrightarrow> smem ! i = ?smem ! i"
    by auto
  have live_cell: "smem ! w = ?s w" if "w < m" for w
    using smem(3) [rule_format, of "w * 32"] that m(2) T(1) by simp
  have idle_cell: "smem ! w = fresh b w" if "m \<le> w" "w < 4" for w
  proof -
    have "w \<noteq> t div 32" if "t < m * 32" for t using that \<open>m \<le> w\<close> by (auto dest: less_mult_imp_div_less)
    then show ?thesis using smem(4) that(2) by simp
  qed
  have l0: "warp_lanes ?on 128 0 = [0..<32]" using lanes_some [OF m32 m(3) m(1)] by simp
  have last_sum: "mapr (\<lambda>tid. if tid < 4 then vget smem (int tid) else Inr 0) [0..<32]
      = Inr (map (\<lambda>tid. if tid < 4 then smem ! tid else 0) [0..<0 + 32])"
    unfolding add_0 by (rule mapr_ok) (simp add: smem(2))
  have "(\<Sum>i < 32. if i < 4 then smem ! i else 0) = (\<Sum>i < 4. smem ! i)"
    by (rule sum.mono_neutral_cong_right) auto
  also have "{..<4} = {..<m} \<union> {m..<4}" using m(2) by auto
  also have "(\<Sum>i \<in> {..<m} \<union> {m..<4}. smem ! i) = (\<Sum>w < m. ?s w) + (\<Sum>w = m..<4. fresh b w)"
    by (subst sum.union_disjoint) (auto simp: live_cell idle_cell)
  finally have total: "(\<Sum>i < 32. if 0 + i < 4 then smem ! (0 + i) else 0) = block_sum (b * 128) (m * 32) xs + (\<Sum>w = m..<4. fresh b w)"
    unfolding block_sum_warps add_0 .
  have "?on 0" using m(1,3) by simp
  moreover have "vset od (int b) z = Inr (od[b := z])" for z using n(3) by (rule vset_int)
  ultimately show ?thesis
    unfolding reduceShfl_def Let_def prod.case sums bindr_simps smem(1) l0 last_sum warp_sum total by simp
qed

end
