(* ===== verification/Warp_Shuffle_Main.thy ===== *)
theory Warp_Shuffle_Main
  imports Warp_Shuffle
begin

text \<open>
  The program of \<^verbatim>\<open>chapter05/reduceIntegerShfl.cu\<close>: the kernels with shuffles keep the contract
  \<open>block_values\<close> of the reductions in shared memory, for the sizes of a block that their shared memory
  is made for, and the program prints the sum of the host twice.
\<close>

section \<open>The kernels keep the contract of a block\<close>

text \<open>The steps down to \<open>2 ^ m\<close> cells.\<close>

lemma guarded_leaves:
  assumes "\<And>j. orders (2 ^ k) (ord j)"
  shows "m \<le> k \<Longrightarrow> m \<le> M \<Longrightarrow> 2 ^ k \<le> length ys \<Longrightarrow>
    \<exists>zs. run_phases ord j (map (\<lambda>s. run_threads (guarded_thread (2 ^ k) 0 s)) (map ((^) 2) (rev [m..<M]))) ys = Inr zs
      \<and> length zs = length ys \<and> block_sum 0 (2 ^ m) zs = block_sum 0 (2 ^ min M k) ys"
proof (induction M arbitrary: j ys)
  case (Suc M)
  show ?case
  proof (cases "m = Suc M")
    case True
    then show ?thesis using Suc.prems by (simp add: min_def)
  next
    case False
    then have M: "m \<le> M" "rev [m..<Suc M] = M # rev [m..<M]" using Suc.prems(2) by simp_all
    let ?p = "run_threads (guarded_thread (2 ^ k) 0 (2 ^ M))"
    have "\<exists>zs. ?p (ord j) ys = Inr zs \<and> length zs = length ys \<and> block_sum 0 (2 ^ min M k) zs = block_sum 0 (2 ^ min (Suc M) k) ys"
    proof (cases "M < k")
      case True
      then have "2 * 2 ^ M \<le> (2 :: nat) ^ k" using power_increasing [of "Suc M" k "2 :: nat"] by simp
      from halvesD [OF guarded_halves [OF this, of 0] assms]
      obtain zs where zs: "?p (ord j) ys = Inr zs" "length zs = length ys" "\<forall>i < 2 ^ M. zs ! (0 + i) = ys ! (0 + i) + ys ! (0 + 2 ^ M + i)"
        using Suc.prems(3) by (metis add_0)
      have "min M k = M" "min (Suc M) k = Suc M" using True by simp_all
      then show ?thesis using zs(1,2) block_sum_half [OF zs(3)] by simp
    next
      case False
      then have "(2 :: nat) ^ k < 2 * 2 ^ M" using power_strict_increasing [of k "Suc M" "2 :: nat"] by simp
      moreover have "min M k = k" "min (Suc M) k = k" using False by simp_all
      ultimately show ?thesis using guarded_idle by simp
    qed
    then obtain zs where zs: "?p (ord j) ys = Inr zs" "length zs = length ys" "block_sum 0 (2 ^ min M k) zs = block_sum 0 (2 ^ min (Suc M) k) ys"
      by blast
    show ?thesis using Suc.IH [OF Suc.prems(1) M(1), of zs "Suc j"] Suc.prems(3) zs unfolding M(2) by auto
  qed
qed simp

lemma strides_32: "[512, 256, 128, 64, 32] = map ((^) (2 :: nat)) (rev [5..<10])"
  by (simp add: upt_rec)

lemma reduceSmemShfl_value:
  assumes k: "6 \<le> k" "k \<le> 7" and n: "length xs < 2 ^ 31" "b * 2 ^ k + 2 ^ k \<le> length xs" "b < length od"
    and o: "\<And>j. orders (2 ^ k) (ord b j)"
  shows "reduceSmemShfl idle fresh ord (2 ^ k) (length xs) b (xs, od) = Inr (xs, od[b := block_sum (b * 2 ^ k) (2 ^ k) xs])"
proof -
  have n32: "length xs < 2 ^ 32" using n(1) by simp
  have d: "(2 :: nat) ^ k \<le> 128" "64 \<le> (2 :: nat) ^ k"
    using power_increasing [OF k(2), of "2 :: nat"] power_64 [OF k(1)] by simp_all
  let ?smem = "map (fresh b) [0..<128]"
  have len: "2 ^ k \<le> length ?smem" using d by simp
  obtain ys where ys: "run_threads (if_live b (2 ^ k) (length xs) (load_thread (b * 2 ^ k) xs)) (ord b 0) ?smem = Inr ys"
      "length ys = 128" "\<forall>t < 2 ^ k. ys ! t = xs ! (b * 2 ^ k + t)"
    using load_all [OF o len if_live_load [OF n(2) n32]] by auto
  obtain zs where zs: "run_phases (ord b) (Suc 0) (map (\<lambda>s. run_threads (guarded_thread (2 ^ k) 0 s)) [512, 256, 128, 64, 32]) ys = Inr zs"
      "length zs = 128" "block_sum 0 32 zs = block_sum 0 (2 ^ k) ys"
    using guarded_leaves [where ord = "ord b" and m = 5 and M = 10 and ys = ys and j = "Suc 0", OF o] k d(1) ys(2) unfolding strides_32 by auto
  have phases: "run_phases (ord b) 0 (run_threads (if_live b (2 ^ k) (length xs) (load_thread (b * 2 ^ k) xs))
        # map (\<lambda>s. run_threads (if_live b (2 ^ k) (length xs) (guarded_thread (2 ^ k) 0 s))) [512, 256, 128, 64, 32]) ?smem = Inr zs"
    using if_live_phases [OF n(2) n32, where qs = "[]" and ord = "ord b" and j = "Suc 0" and g = "guarded_thread (2 ^ k) 0" and xs = ys, OF o]
    by (simp only: run_phases.simps(2) ys(1) bindr_simps append_Nil2 zs(1))
  have "k = k - 5 + 5" using k by simp
  then have "(2 :: nat) ^ k = 2 ^ (k - 5) * 2 ^ 5" by (metis power_add)
  then have two: "(2 :: nat) ^ k = 2 ^ (k - 5) * 32" by simp
  have l: "live b (2 ^ k) (length xs) t \<longleftrightarrow> t < 2 ^ (k - 5) * 32" if "t < 2 ^ k" for t
    using live_all [OF n(2) n32 that] that two by simp
  have sums: "reduce_warps (idle b) (live b (2 ^ k) (length xs)) (\<lambda>tid. vget zs (int tid)) (2 ^ k)
      = Inr (map (\<lambda>w. if w < 2 ^ (k - 5) then replicate 32 (\<Sum>i < 32. zs ! (w * 32 + i)) else []) [0..<(2 ^ k + 31) div 32])"
    by (rule reduce_warps_value) (use two d(1) zs(2) l in auto)
  have "0 < (2 ^ k + 31) div (32 :: nat)" using d(2) by simp
  then have "map (\<lambda>w. if w < 2 ^ (k - 5) then replicate 32 (\<Sum>i < 32. zs ! (w * 32 + i)) else []) [0..<(2 ^ k + 31) div 32] ! 0 ! 0
      = block_sum 0 32 zs" by (simp add: block_sum_def)
  also have "\<dots> = block_sum (b * 2 ^ k) (2 ^ k) xs" unfolding zs(3) using ys(3) by (simp add: block_sum_def)
  finally have first: "map (\<lambda>w. if w < 2 ^ (k - 5) then replicate 32 (\<Sum>i < 32. zs ! (w * 32 + i)) else []) [0..<(2 ^ k + 31) div 32] ! 0 ! 0
      = block_sum (b * 2 ^ k) (2 ^ k) xs" .
  have "live b (2 ^ k) (length xs) 0" by (rule live_all [OF n(2) n32]) simp
  moreover have "vset od (int b) z = Inr (od[b := z])" for z using n(3) by (rule vset_int)
  ultimately show ?thesis
    unfolding reduceSmemShfl_def Let_def prod.case phases bindr_simps sums first by simp
qed

interpretation smem_shfl: block_values "reduceSmemShfl idle fresh" 1 6 7 "part_sum 1" for idle fresh
proof
  fix k b and xs od :: mem and ord :: schedule
  assume a: "6 \<le> k" "k \<le> 7" "length xs < 2 ^ 31" "b * 2 ^ k * 1 + 1 * 2 ^ k \<le> length xs" "b < length od" "\<And>j. orders (2 ^ k) (ord b j)"
  show "\<exists>ys. reduceSmemShfl idle fresh ord (2 ^ k) (length xs) b (xs, od) = Inr (ys, od[b := part_sum 1 (2 ^ k) b xs]) \<and> length ys = length xs
      \<and> (\<forall>i. i < b * 2 ^ k * 1 \<or> b * 2 ^ k * 1 + 1 * 2 ^ k \<le> i \<longrightarrow> ys ! i = xs ! i)"
    using reduceSmemShfl_value [where ord = ord, OF a(1-3) _ a(5,6), of idle fresh] a(4) by (simp add: part_sum_def)
next
  fix xs ys :: mem and d b
  assume "\<And>i. i < 1 * d \<Longrightarrow> ys ! (b * d * 1 + i) = xs ! (b * d * 1 + i)"
  then show "part_sum 1 d b ys = part_sum 1 d b xs" by (rule part_sum_local)
qed simp

text \<open>The other kernel needs as many warps as its shared memory has cells.\<close>

interpretation warp_shfl: block_values "reduceShfl idle fresh" 1 7 7 "part_sum 1" for idle fresh
proof
  fix k b and xs od :: mem and ord :: schedule
  assume a: "7 \<le> k" "k \<le> 7" "length xs < 2 ^ 31" "b * 2 ^ k * 1 + 1 * 2 ^ k \<le> length xs" "b < length od" "\<And>j. orders (2 ^ k) (ord b j)"
  have "k = 7" using a(1,2) by simp
  then have k: "(2 :: nat) ^ k = 128" by simp
  have n: "b * 128 + 128 \<le> length xs" "length xs < 2 ^ 32" using a(3,4) unfolding k by simp_all
  show "\<exists>ys. reduceShfl idle fresh ord (2 ^ k) (length xs) b (xs, od) = Inr (ys, od[b := part_sum 1 (2 ^ k) b xs]) \<and> length ys = length xs
      \<and> (\<forall>i. i < b * 2 ^ k * 1 \<or> b * 2 ^ k * 1 + 1 * 2 ^ k \<le> i \<longrightarrow> ys ! i = xs ! i)"
    using reduceShfl_value [of 4 b xs od ord idle fresh] live_all [OF n] n a(5,6) unfolding k by (simp add: part_sum_def)
next
  fix xs ys :: mem and d b
  assume "\<And>i. i < 1 * d \<Longrightarrow> ys ! (b * d * 1 + i) = xs ! (b * d * 1 + i)"
  then show "part_sum 1 d b ys = part_sum 1 d b xs" by (rule part_sum_local)
qed simp

section \<open>The program\<close>

text \<open>
  Both kernels of the program print the sum of the host and its test passes, for every data size that is a
  power of two of at least one block of 128 threads, whatever fresh shared memory and inactive lanes
  hold, in every order of the threads and blocks.
\<close>
theorem shfl_sums_agree:
  assumes "7 \<le> K" "K \<le> 30" "arg = Some K \<or> arg = None \<and> K = 10" "128 \<le> maxThreads" "2 ^ (K - 7) \<le> length od"
    "\<And>t b j. orders 128 (ords t b j)" "\<And>t g. orders g (blocks t g)" "data = map (\<lambda>i. rands i AND 0xFF) [0..<2 ^ K]"
  shows "shfl_main arg maxThreads ords blocks idle fresh rands od = Inr (sum_list data, [sum_list data, sum_list data], True)"
proof -
  let ?G = "2 ^ (K - 7) :: nat"
  have len: "length data = 2 ^ K" using assms(8) by simp
  have n: "length data < 2 ^ 31" using assms(2) len power_strict_increasing [of K 31 "2 :: nat"] by simp
  have G: "?G * (1 * 2 ^ 7) = length data" unfolding mult_1 len power_add [symmetric] using assms(1) by simp
  note whole = all_parts [OF G] and fits = eq_imp_le [OF G]
  have all: "list_all2 (prints ?G (2 ^ 7) data) (shfl_tests idle fresh ?G) [sum_list data, sum_list data]"
    using smem.prints_sum [of 7, OF _ _ n fits order_refl] warp_shfl.prints_sum [of 7, OF _ _ n fits order_refl]
    unfolding whole by (simp add: shfl_tests_def)
  have l: "launches maxThreads (snd t) (2 ^ 7)" if "t \<in> set (shfl_tests idle fresh ?G)" for t
    using that assms(4) by (auto simp: shfl_tests_def launches_def)
  have run: "shared_tests False maxThreads ords blocks (2 ^ 7) (shfl_tests idle fresh ?G @ []) data od
      = Inr ([sum_list data, sum_list data] @ [], True)"
    by (rule shared_tests_run [where grid = ?G, OF _ assms(7) _ all l assms(5)]) (use assms(6) in simp_all)
  have grid: "(2 ^ K + 128 - 1) div 128 = ?G" using grid_size [of 7 K] assms(1) by simp
  have arg: "(case arg of Some a \<Rightarrow> a | None \<Rightarrow> 10) = K" "check (K < 31) Undefined_Behaviour = Inr ()"
    using assms(2,3) by (auto simp: check_def)
  show ?thesis
    using run host_sum_all [OF len] unfolding shfl_main_def Let_def arg bindr_simps grid assms(8) [symmetric] by simp
qed

theorem shfl_sums_agree_witness:
  "\<exists>s. shfl_main None 1024 (\<lambda>t b j. rev [0..<128]) (\<lambda>t g. [0..<g]) (\<lambda>b w m l. 5) (\<lambda>t b i. 7) (\<lambda>i. of_nat i) (replicate 8 0)
     = Inr (s, [s, s], True)"
proof (intro exI, rule shfl_sums_agree [of 10, OF _ _ _ _ _ _ _ refl])
  show "(2 :: nat) ^ (10 - 7) \<le> length (replicate 8 (0 :: 32 word))" unfolding length_replicate by simp
  show "orders 128 (rev [0..<128])" by (rule orders_rev)
  show "orders g [0..<g]" for g by (rule orders_upt)
qed simp_all

end
