(* ===== verification/Spec2Isabelle.thy ===== *)
theory Spec2Isabelle
  imports Prelude Transition Zigzag Zigzag_Correct Rw_Semaphore Message_Queue Bounded_Queue Kal_Lexer
    Kal_Parser Kal_Parser_Correct Kal_Round_Trip Forward_List Knapsack Knapsack_Tasks
    Knapsack_Workers Text_Input Graph_Input Shortest_Path Lru Documents Raw_Vector
    Bit_Masking Reduce_Kernels Reduce_Phases Reduce_Correct Reduce_Main Idea_Cipher
    Idea_Round_Trip Idea_Text Idea_Driver Idea_Devices Idea_Main Idea_Program Device_Grid
    Transpose_Tiles Transpose_Correct Transpose_Main Transpose_Naive Transpose_Square
    Transpose_Naive_Main Hash_Sums Range_Tools Shared_Reduce Shared_Reduce_Correct
    Shared_Reduce_Main Reduce_Variants Tile_Orders Warp_Shuffle Warp_Shuffle_Main
begin

text \<open>
  Verification of the library and study code of this repository.

  The repository holds many small programs rather than one: concurrent containers and a lock
  (\<^verbatim>\<open>projects/high_perf\<close>), a front end of a small language (\<^verbatim>\<open>projects/high_perf/mem_in_deep\<close>),
  string conversions (\<^verbatim>\<open>edu/train/zigzag.hpp\<close>), a linked list, documents with undo, course programs
  on graphs, scheduling and knapsacks (\<^verbatim>\<open>edu/courses\<close>), and the CUDA samples of a book
  (\<^verbatim>\<open>edu/books/cuda_book/external\<close>). Each program or class that has a result to be right about has
  a theory or a group of theories here. They share two theories and meet where the programs do:
  \<open>Shortest_Path\<close> runs on the graph that \<open>Graph_Input\<close> builds from the lines that \<open>Text_Input\<close>
  reads; \<open>Kal_Parser\<close> draws its tokens from \<open>Kal_Lexer\<close>; \<open>Knapsack_Tasks\<close> and \<open>Knapsack_Workers\<close>
  are measured against the recursion of \<open>Knapsack\<close>; the program of \<open>Idea_Program\<close> is built from the cipher, the kernel and
  the streams of the other \<open>Idea\<close> theories.

  Conventions. An operation that can fail returns \<open>cpp_error + 'a\<close> (\<open>result\<close> in \<open>Prelude\<close>), where the
  errors are thrown exceptions, failed assertions, signed overflow and undefined behaviour; \<open>bindr\<close>
  sequences such operations, \<open>cint\<close> checks signed arithmetic, \<open>vget\<close> and \<open>vset\<close> check array accesses.
  Unsigned and wrapping arithmetic is that of words or is written out with \<open>mod\<close>. A class is a record
  with a field for each member. Threads are transitions of an inductive step relation over a shared
  state, one for each access to it, and every interleaving is a run; \<open>Transition\<close> has reachability,
  the interface of an invariant and the counting of threads. Two conventions are particular to the
  reductions on the device: their sums are words and wrap, on the host too, and the steps of the last
  warp are taken by its lanes in lockstep, as the devices that the build files name do;
  \<open>sync_step_race\<close> shows what another order does.

  Theories, and the code they model:

  \<^item> \<open>Prelude\<close>, \<open>Transition\<close>: what the components share.
  \<^item> \<open>Zigzag\<close>, \<open>Zigzag_Correct\<close>:
    \<^verbatim>\<open>edu/train/zigzag.hpp\<close>: seven conversions of a text to its zigzag
    reading, loop by loop. Six of them are shown to return the rows of the picture, the two that
    overwrite their input included; the seventh loses the text.
  \<^item> \<open>Rw_Semaphore\<close>:
    \<^verbatim>\<open>projects/high_perf/rw_semaphore.h\<close>: a reader-writer spin lock on one
    32-bit cell. In every interleaving a writer excludes all others, the cell counts the readers,
    and a pending writer keeps new readers out.
  \<^item> \<open>Message_Queue\<close>:
    \<^verbatim>\<open>projects/high_perf/parallel_data_structures/safe_queue_cc11.h\<close>:
    \<open>enqueue\<close> and \<open>dequeue\<close> with their mutex and condition variable;
    order, no read of an empty queue, and no lost wake-up: runs without new calls end with no
    consumer asleep on a stored value.
  \<^item> \<open>Bounded_Queue\<close>:
    \<^verbatim>\<open>projects/high_perf/parallel_data_structures/concurent_queues.h\<close> and
    its two copies: the try operations refine an abstract bounded queue; what the private waiting
    members do wrong.
  \<^item> \<open>Kal_Lexer\<close>, \<open>Kal_Parser\<close>, \<open>Kal_Parser_Correct\<close>,
    \<open>Kal_Round_Trip\<close>:
    \<^verbatim>\<open>projects/high_perf/mem_in_deep/main.cpp\<close>: \<open>gettok\<close>, the
    parsing functions, the handlers with their recovery and the main loop. The front end ends on
    every input, and parsing inverts a printer with minimal parentheses.
  \<^item> \<open>Forward_List\<close>: \<^verbatim>\<open>edu/train/crack_code_lists.cc\<close>:
    \<open>own_forward_list\<close> on an explicit heap; copies are deep and nothing leaks.
  \<^item> \<open>Knapsack\<close>, \<open>Knapsack_Tasks\<close>, \<open>Knapsack_Workers\<close>:
    \<^verbatim>\<open>edu/courses/stanford2/cc/w3_lession_code.cc\<close>,
    \<^verbatim>\<open>w3_dyn_pro.cc\<close> and
    \<^verbatim>\<open>w3_dyn_pro_parallel.cc\<close>: the recursion is optimal, the memoised
    versions and the tables agree with it, and so does every schedule of the tasks, those with
    continuations and those that wait on the stacks of their threads.
  \<^item> \<open>Text_Input\<close>, \<open>Graph_Input\<close>, \<open>Shortest_Path\<close>:
    \<^verbatim>\<open>edu/courses/my-cs/details\<close> and
    \<^verbatim>\<open>edu/courses/stanford1/cc/shortest_path.cc\<close>: from the text of a file
    to the shortest distances, with all checks between.
  \<^item> \<open>Lru\<close>: \<^verbatim>\<open>projects/high_perf/lru_benchmark.cc\<close>: the
    list and the map of a cache refine the list of the most recent keys.
  \<^item> \<open>Documents\<close>:
    \<^verbatim>\<open>edu/talks/sean_parent/inh_evil_reduce_c11_apps.cc\<close> and
    \<^verbatim>\<open>inh_evil_reduce_c98_apps.cc\<close>: documents over a heap of models,
    copied or shared, implement one abstract history.
  \<^item> \<open>Raw_Vector\<close>, \<open>Bit_Masking\<close>:
    \<^verbatim>\<open>edu/courses/adv_cpp_study/top.cpp\<close> and
    \<^verbatim>\<open>projects/high_perf/bit_masking.cc\<close>: a vector over raw memory with
    exceptions, and a leaf node with a bit mask.
  \<^item> \<open>Reduce_Kernels\<close>, \<open>Reduce_Phases\<close>,
    \<open>Reduce_Correct\<close>, \<open>Reduce_Main\<close>:
    \<^verbatim>\<open>CodeSamples/chapter03/reduceInteger.cu\<close>: ten reductions as lists of
    phases between barriers; every order of the threads and of the blocks gives the sum of the
    host.
  \<^item> \<open>Idea_Cipher\<close>, \<open>Idea_Round_Trip\<close>, \<open>Idea_Text\<close>,
    \<open>Idea_Driver\<close>, \<open>Idea_Devices\<close>, \<open>Idea_Main\<close>,
    \<open>Idea_Program\<close>:
    \<^verbatim>\<open>CodeSamples/chapter10/crypt.flexible.cu\<close>: the cipher and its keys,
    the kernel, the streams and devices, and the main program on files; under every order of the
    streams decryption returns each chunk in whose encryption no product is lost.
  \<^item> \<open>Device_Grid\<close>, \<open>Transpose_Tiles\<close>,
    \<open>Transpose_Correct\<close>, \<open>Transpose_Main\<close>:
    \<^verbatim>\<open>CodeSamples/chapter05/transposeRectangle.cu\<close>: threads of a grid with
    barriers and shared tiles, interleaved in any order; the host and ten kernels of a
    transposition, and the main program, whose behaviour is defined only for sides that are
    multiples of 16.
  \<^item> \<open>Transpose_Naive\<close>, \<open>Transpose_Square\<close>,
    \<open>Transpose_Naive_Main\<close>:
    \<^verbatim>\<open>Solutions/chapter04/transpose.cu\<close>: nine access patterns of a
    transposition on one output; the sizes on which the program completes, and how much of the
    matrix an unrolled kernel leaves alone.
  \<^item> \<open>Hash_Sums\<close>: \<^verbatim>\<open>edu/courses/stanford1/cc/w6.cc\<close>: sums
    of two numbers counted in a hash table, and the sum of streamed medians with any
    \<open>nth_element\<close> of the standard.
  \<^item> \<open>Range_Tools\<close>: Algorithms on ranges: selection by a mask,
    \<open>slide\<close> and \<open>gather\<close>, removal of repeated elements, the filter of
    control characters.
  \<^item> \<open>Shared_Reduce\<close>, \<open>Shared_Reduce_Correct\<close>,
    \<open>Shared_Reduce_Main\<close>: \<^verbatim>\<open>chapter05/reduceInteger.cu\<close>, the
    sample and its solution: reductions in global and in shared memory of arbitrary content; the
    sums that both programs print, the wrong one of the solution, and its failure with the default
    arguments.
  \<^item> \<open>Reduce_Variants\<close>:
    \<^verbatim>\<open>Solutions/chapter03/reduceInteger-{8-new,16,sync}.cu\<close>: more elements
    for each thread, and barriers between the steps of the last warp, which do not remove the race
    in a step.
  \<^item> \<open>Tile_Orders\<close>: \<^verbatim>\<open>chapter05/checkSmemRectangle.cu\<close>
    and \<^verbatim>\<open>checkSmemSquare.cu\<close>, the samples and the solutions: a block
    numbers a tile and reads it in another order; what the four programs print.
  \<^item> \<open>Warp_Shuffle\<close>, \<open>Warp_Shuffle_Main\<close>:
    \<^verbatim>\<open>chapter05/reduceIntegerShfl.cu\<close>: reductions whose warps sum by
    exchanging registers; the program prints the sum of the host twice.

  What the lemmas show. Each group starts with the behaviour of single operations on every branch,
  errors included, then gives an invariant that the operations keep, and ends with the properties,
  which are numbered \<open>C1\<close>, \<open>C2\<close> and so on in the text before them. The interfaces are locales:
  \<open>invariant_of\<close> (what makes a predicate an invariant of a step relation), \<open>memo_store\<close> (a store
  returns what was inserted), \<open>lru_cache\<close> (the abstract recency list), \<open>bounded_fifo\<close> (an abstract
  bounded queue), \<open>object_copying\<close> (what a history
  needs of copying), \<open>summing_kernel\<close> (a kernel leaves the sum of its block), \<open>copying_kernel\<close> (every statement of a
  kernel moves an element to where it belongs), \<open>block_values\<close> (a block writes a value of its part of the data to its partial sum), \<open>permuting_kernel\<close> (every thread copies the cell that another one has written). Each is
  interpreted by the models of the code.

  Fuel and bounds. Four loops cannot be shown to end by their shape and run on fuel: the loops over the
  nodes of a list (the length of the heap is enough when the list is well formed), the mutually
  recursive parsing functions (\<open>fuel_for\<close> of the input is enough on every input), the recursion through
  nested documents (the number of models is enough), and the search of shortest paths (the number of
  nodes is enough unless an arrow leads to node 0, when the loop has no end). The theorems
  say that this fuel gives a result. Arithmetic that overflows is an error of the model; where a
  theorem needs that it does not, the hypothesis says up to which size of the input.

  Not modelled. Vendored libraries (\<^verbatim>\<open>3rdparty\<close>); the other CUDA samples, most of which compute with
  floating-point numbers or query devices; files of unit tests and fragments that illustrate the
  language; benchmarks, which time functions that are modelled here; allocators, unwinding of the
  stack and network services, which are effects of the platform; build files. Timing, messages
  and the release of memory are left out of the main programs. What lies in submodules or belongs
  to a runtime (the compare-and-swap, the CUDA runtime, the arena of one conversion) is a
  parameter, with the documented behaviour that the code relies on as a hypothesis; the task
  scheduler, with its concurrent table, is the step relation of the two theories of tasks.
\<close>

end
